(* ===== verification/LDD_Prelude.thy ===== *)
theory LDD_Prelude
  imports Main "HOL-Library.Word"
begin

unbundle bit_operations_syntax

section \<open>Prelude: bytes, buffers, flags, error numbers\<close>

text \<open>
  What the components share: the error numbers the drivers return, buffers as byte lists
  with the copy operations of C (\<open>mem_get\<close> reads a range, \<open>mem_put\<close> overwrites one),
  little-endian encodings, flag tests on words, and the model of the accesses to user memory.
  Buffers of C have a fixed size. A \<open>mem_put\<close> that runs over the end makes the list longer,
  so "the length of the buffer is unchanged" is the memory-safety part of the invariants below.
\<close>

named_theorems flag_simps \<open>tests of single bits of registers\<close>
named_theorems buf_simps \<open>reads of buffers after copies into them\<close>

type_synonym byte = "8 word"

datatype errno =
    EPERM | EIO | EAGAIN | ENOMEM | EFAULT | ENODEV | EINVAL | ENOTTY | ENOSPC | ESPIPE
  | ERESTARTSYS | ETIMEDOUT | EBUSY | EOVERFLOW | ErrOther nat

text \<open>A call that returns \<open>0\<close>, a count or a pointer on success and \<open>-errno\<close> on failure.\<close>

type_synonym 'a result = "errno + 'a"

definition mem_get :: "nat \<Rightarrow> nat \<Rightarrow> 'a list \<Rightarrow> 'a list" where
  "mem_get off n xs = take n (drop off xs)"

definition mem_put :: "nat \<Rightarrow> 'a list \<Rightarrow> 'a list \<Rightarrow> 'a list" where
  "mem_put off src dst = take off dst @ src @ drop (off + length src) dst"

definition has_flag :: "'a::len word \<Rightarrow> 'a word \<Rightarrow> bool" where
  "has_flag x m \<longleftrightarrow> x AND m \<noteq> 0"

definition le_bytes :: "nat \<Rightarrow> 'a::len word \<Rightarrow> byte list" where
  "le_bytes n w = map (\<lambda>i. ucast (drop_bit (8 * i) w)) [0..<n]"

primrec le_word :: "byte list \<Rightarrow> 'a::len word" where
  "le_word [] = 0"
| "le_word (b # bs) = push_bit 8 (le_word bs) OR ucast b"

text \<open>What an interrupt handler tells the kernel.\<close>

datatype irqreturn = IRQ_NONE | IRQ_HANDLED

text \<open>
  User memory is not the driver's: a copy from it of \<open>n\<close> bytes yields how many bytes could
  not be copied and what the destination holds afterwards, a copy to it yields how many bytes
  could not be copied. Both are parameters of the operations that use them.
\<close>

type_synonym from_user = "nat \<Rightarrow> nat \<times> byte list"
type_synonym to_user = "byte list \<Rightarrow> nat"

definition from_user_ok :: "from_user \<Rightarrow> bool" where
  "from_user_ok cfu \<longleftrightarrow> (\<forall>n. length (snd (cfu n)) = n)"

text \<open>A user buffer that holds \<open>src\<close>: bytes beyond its end fault, and read as zero.\<close>

definition user_buffer :: "byte list \<Rightarrow> from_user" where
  "user_buffer src n = (n - length src, take n src @ replicate (n - length src) 0)"

definition user_room :: "nat \<Rightarrow> to_user" where
  "user_room cap bs = length bs - cap"

subsection \<open>Numbers as text\<close>

text \<open>The conversions \<open>%x\<close>, \<open>%u\<close> and \<open>%d\<close> of printf, with a field width.\<close>

definition hex_digit :: "nat \<Rightarrow> char" where
  "hex_digit d = (if d < 10 then char_of (48 + d) else char_of (87 + d))"

fun hex_string :: "nat \<Rightarrow> string" where
  "hex_string n = (if n < 16 then [hex_digit n] else hex_string (n div 16) @ [hex_digit (n mod 16)])"

fun dec_string :: "nat \<Rightarrow> string" where
  "dec_string n = (if n < 10 then [hex_digit n] else dec_string (n div 10) @ [hex_digit (n mod 10)])"

declare hex_string.simps [simp del] dec_string.simps [simp del]

definition pad :: "nat \<Rightarrow> string \<Rightarrow> string" where
  "pad w s = replicate (w - length s) CHR '' '' @ s"

definition int_string :: "int \<Rightarrow> string" where
  "int_string i = (if i < 0 then ''-'' @ dec_string (nat (- i)) else dec_string (nat i))"

lemma length_dec_string: "n < 10 ^ k \<Longrightarrow> 0 < k \<Longrightarrow> length (dec_string n) \<le> k"
proof (induction n arbitrary: k rule: dec_string.induct)
  case (1 n)
  show ?case
  proof (cases "n < 10")
    case False
    obtain m where k: "k = Suc m" using 1(3) by (cases k) auto
    have "0 < m" using False 1(2) k by (cases m) auto
    moreover have "n div 10 < 10 ^ m" using 1(2) k by (simp add: less_mult_imp_div_less mult.commute)
    ultimately show ?thesis using 1(1) [OF False, of m] False k by (subst dec_string.simps) simp
  qed (use 1(3) in \<open>simp add: dec_string.simps\<close>)
qed

lemma length_pad_string [simp]: "length (pad w t) = max w (length t)"
  by (simp add: pad_def)

lemma length_int_string: "0 \<le> i \<Longrightarrow> i < 10 ^ k \<Longrightarrow> 0 < k \<Longrightarrow> length (int_string i) \<le> k"
  using length_dec_string [of "nat i" k] by (simp add: int_string_def nat_less_iff)

subsection \<open>Buffers\<close>

lemma length_mem_get [simp]: "length (mem_get off n xs) = min n (length xs - off)"
  by (simp add: mem_get_def)

lemma mem_get_0_full [simp]: "mem_get 0 (length xs) xs = xs"
  by (simp add: mem_get_def)

lemma mem_get_zero [simp]: "mem_get off 0 xs = []"
  by (simp add: mem_get_def)

lemma length_mem_put: "off + length src \<le> length dst \<Longrightarrow> length (mem_put off src dst) = length dst"
  by (simp add: mem_put_def)

lemma mem_put_Nil [simp]: "mem_put off [] dst = dst"
  by (simp add: mem_put_def)

lemma mem_put_0_full: "length src = length dst \<Longrightarrow> mem_put 0 src dst = src"
  by (simp add: mem_put_def)

lemma nth_mem_get: "i < n \<Longrightarrow> off + i < length xs \<Longrightarrow> mem_get off n xs ! i = xs ! (off + i)"
  by (simp add: mem_get_def)

lemma nth_mem_put:
  assumes "off + length src \<le> length dst" and "i < length dst"
  shows "mem_put off src dst ! i =
    (if off \<le> i \<and> i < off + length src then src ! (i - off) else dst ! i)"
proof -
  have "off \<le> length dst" using assms by simp
  then show ?thesis
    using assms by (auto simp: mem_put_def nth_append min_def)
qed

lemma mem_get_mem_put [buf_simps]:
  "off + length src \<le> length dst \<Longrightarrow> mem_get off (length src) (mem_put off src dst) = src"
  by (simp add: mem_get_def mem_put_def)

lemma mem_get_mem_put_take:
  "off + length src \<le> length dst \<Longrightarrow> n \<le> length src \<Longrightarrow>
   mem_get off n (mem_put off src dst) = take n src"
  by (simp add: mem_get_def mem_put_def)

lemma mem_get_mem_put_before:
  "off + n \<le> off' \<Longrightarrow> off' + length src \<le> length dst \<Longrightarrow>
   mem_get off n (mem_put off' src dst) = mem_get off n dst"
  by (rule nth_equalityI) (auto simp: nth_mem_get nth_mem_put length_mem_put)

lemma mem_get_mem_put_after:
  "off' + length src \<le> off \<Longrightarrow> off' + length src \<le> length dst \<Longrightarrow>
   mem_get off n (mem_put off' src dst) = mem_get off n dst"
  by (rule nth_equalityI) (auto simp: nth_mem_get nth_mem_put length_mem_put)

lemma mem_get_Suc:
  "off + n < length xs \<Longrightarrow> mem_get off (Suc n) xs = mem_get off n xs @ [xs ! (off + n)]"
  by (simp add: mem_get_def take_Suc_conv_app_nth)

lemma mem_get_append_adjacent:
  "mem_get off n xs @ mem_get (off + n) m xs = mem_get off (n + m) xs"
  by (simp add: mem_get_def take_add add.commute [of n off])

lemma mem_put_append_adjacent:
  "off + length a + length b \<le> length dst \<Longrightarrow>
   mem_put (off + length a) b (mem_put off a dst) = mem_put off (a @ b) dst"
  by (rule nth_equalityI) (auto simp: nth_mem_put length_mem_put nth_append)

lemma mem_put_update:
  "off + length src < length dst \<Longrightarrow>
   (mem_put off src dst)[off + length src := b] = mem_put off (src @ [b]) dst"
  by (rule nth_equalityI) (auto simp: nth_mem_put length_mem_put nth_append nth_list_update)

subsection \<open>Flags\<close>

lemma has_flag_bit: "has_flag x (2 ^ n) \<longleftrightarrow> bit x n"
  by (simp add: has_flag_def and_exp_eq_0_iff_not_bit)

lemma has_flag_1 [flag_simps]: "has_flag x 1 \<longleftrightarrow> bit x 0"
  using has_flag_bit [of x 0] by simp

lemma has_flag_2 [flag_simps]: "has_flag x 2 \<longleftrightarrow> bit x 1"
  using has_flag_bit [of x 1] by simp

lemma has_flag_4 [flag_simps]: "has_flag x 4 \<longleftrightarrow> bit x 2"
  using has_flag_bit [of x 2] by simp

lemma and_not_1_cases:
  fixes x :: "'a::len word"
  assumes "x AND NOT 1 = 0"
  shows "x = 0 \<or> x = 1"
proof -
  have "x = (x AND 1) OR (x AND NOT 1)"
    by (simp add: bit_eq_iff bit_simps) auto
  then have "x = x AND 1" using assms by simp
  then show ?thesis by (metis and_one_eq mod_2_eq_odd of_bool_eq)
qed

lemma unat_ucast_up:
  "LENGTH('a::len) \<le> LENGTH('b::len) \<Longrightarrow> unat (ucast (x :: 'a word) :: 'b word) = unat x"
  by transfer (simp add: take_bit_int_eq_self min_def)

subsection \<open>User memory\<close>

lemma from_user_ok_length [simp]: "from_user_ok cfu \<Longrightarrow> length (snd (cfu n)) = n"
  by (simp add: from_user_ok_def)

lemma from_user_ok_user_buffer [simp]: "from_user_ok (user_buffer src)"
  by (simp add: from_user_ok_def user_buffer_def min_def)

lemma user_buffer_all: "n \<le> length src \<Longrightarrow> user_buffer src n = (0, take n src)"
  by (simp add: user_buffer_def)

lemma user_room_all: "length bs \<le> cap \<Longrightarrow> user_room cap bs = 0"
  by (simp add: user_room_def)

subsection \<open>Little-endian encodings\<close>

lemma length_le_bytes [simp]: "length (le_bytes n w) = n"
  by (simp add: le_bytes_def)

lemma bit_le_word:
  fixes bs :: "byte list"
  shows "bit (le_word bs :: 'a::len word) k \<longleftrightarrow>
    k < LENGTH('a) \<and> k < 8 * length bs \<and> bit (bs ! (k div 8)) (k mod 8)"
proof (induction bs arbitrary: k)
  case Nil
  then show ?case by simp
next
  case (Cons b bs)
  show ?case
  proof (cases "k < 8")
    case True
    then show ?thesis
      by (auto simp: bit_simps)
  next
    case False
    then obtain j where j: "k = j + 8" by (metis add.commute le_Suc_ex not_less)
    then have kd: "k div 8 = Suc (j div 8)" and km: "k mod 8 = j mod 8" by simp_all
    have b: "\<not> bit b k" using False by (simp add: bit_word.rep_eq not_less)
    have nth: "(b # bs) ! (k div 8) = bs ! (j div 8)" by (simp add: kd)
    have "bit (le_word (b # bs) :: 'a word) k \<longleftrightarrow> k < LENGTH('a) \<and> bit (le_word bs :: 'a word) j"
      using b by (auto simp: bit_simps j)
    also have "\<dots> \<longleftrightarrow> k < LENGTH('a) \<and> j < 8 * length bs \<and> bit (bs ! (j div 8)) (j mod 8)"
      using Cons.IH [of j] j by auto
    also have "\<dots> \<longleftrightarrow> k < LENGTH('a) \<and> k < 8 * length (b # bs) \<and> bit ((b # bs) ! (k div 8)) (k mod 8)"
      by (simp only: nth km) (simp add: j)
    finally show ?thesis .
  qed
qed

lemma le_word_le_bytes: "le_word (le_bytes n w) = (take_bit (8 * n) w :: 'a::len word)"
proof (rule bit_word_eqI)
  fix k
  assume k: "k < LENGTH('a)"
  have "k mod 8 + 8 * (k div 8) = k" by simp
  moreover have "k div 8 < n" if "k < 8 * n" using that by simp
  ultimately show "bit (le_word (le_bytes n w) :: 'a word) k \<longleftrightarrow> bit (take_bit (8 * n) w) k"
    using k by (auto simp: bit_le_word le_bytes_def bit_simps add.commute)
qed

lemma le_bytes_le_word:
  assumes "8 * length bs \<le> LENGTH('a::len)"
  shows "le_bytes (length bs) (le_word bs :: 'a word) = bs"
proof (rule nth_equalityI)
  fix i
  assume i: "i < length (le_bytes (length bs) (le_word bs :: 'a word))"
  then have i': "i < length bs" by simp
  have "bit (ucast (drop_bit (8 * i) (le_word bs :: 'a word)) :: byte) k \<longleftrightarrow> bit (bs ! i) k"
    if "k < 8" for k
  proof -
    have "(8 * i + k) div 8 = i" "(8 * i + k) mod 8 = k" using that by simp_all
    moreover have "8 * i + k < 8 * length bs" using that i' by linarith
    ultimately show ?thesis
      using that assms by (auto simp: bit_simps bit_le_word)
  qed
  then show "le_bytes (length bs) (le_word bs :: 'a word) ! i = bs ! i"
    using i' by (auto simp: le_bytes_def intro!: bit_word_eqI)
qed simp

end
