(* ===== verification/LDD_IO.thy ===== *)
theory LDD_IO
  imports LDD_Prelude
begin

section \<open>The ldd-io device (tools/qemu/hw/ldd/io.c)\<close>

text \<open>
  The emulated ISA device: a DATA/STATUS/CTRL register triple with a one-byte receive path, an
  8x8 LED matrix and a text panel drawn on a character device. The state is
  \<open>struct LDDIOState\<close>; the character device behind the panel (QEMU's) is a parameter, the
  record \<open>chr_ops\<close> over a state of any type. What the device does to its surroundings
  (interrupt pulses, bytes taken by the panel, requests for more input, guest errors) is
  recorded in \<open>io_trace\<close>, newest last; so is what it throws away of a frame when a write
  fails (\<open>PanelCut\<close>), and that output for a viewer that has gone is forgotten (\<open>PanelReset\<close>). A store or load outside the matrix is \<open>None\<close>.
\<close>

subsection \<open>State\<close>

datatype io_effect =
    IrqPulse
  | AcceptInput
  | GuestError
  | PanelTook string
  | PanelCut string
  | PanelReset
  | WatchRemoved nat
  | MappedMmio "64 word"
  | MappedPort "32 word"
  | HandlersSet
  | PanelFreed

record 'c ldd_io =
  io_iobase :: "32 word"
  io_mmio :: bool
  io_mmiobase :: "64 word"
  io_isairq :: "32 word"
  io_data_out :: byte
  io_data_in :: byte
  io_status :: byte
  io_ctrl :: byte
  io_matrix :: "byte list"
  io_irq_pulses :: "32 word"
  io_panel_out :: string
  io_panel_watch :: nat
  io_panel_dirty :: bool
  io_chr :: 'c
  io_trace :: "io_effect list"

text \<open>
  The panel's character device: the result of \<open>qemu_chr_fe_write\<close> is a count, \<open>-1\<close> with
  \<open>EAGAIN\<close>, or another error; \<open>qemu_chr_fe_add_watch\<close> returns a tag, 0 if none.
\<close>

datatype chr_result = Wrote nat | WrAgain | WrError

record 'c chr_ops =
  chr_write :: "'c \<Rightarrow> string \<Rightarrow> chr_result \<times> 'c"
  chr_connected :: "'c \<Rightarrow> bool"
  chr_add_watch :: "'c \<Rightarrow> nat \<times> 'c"

datatype io_error = IrqOutOfRange | IobaseOutOfRange | MmioMisaligned | MmioOverlaps string

datatype chr_event = CHR_EVENT_OPENED | CHR_EVENT_CLOSED | ChrEventOther

definition LDD_IO_DATA :: "64 word" where "LDD_IO_DATA = 0"
definition LDD_IO_STATUS :: "64 word" where "LDD_IO_STATUS = 1"
definition LDD_IO_CTRL :: "64 word" where "LDD_IO_CTRL = 2"
definition LDD_IO_MATRIX :: "64 word" where "LDD_IO_MATRIX = 8"
definition LDD_IO_MATRIX_ROWS :: nat where "LDD_IO_MATRIX_ROWS = 8"
definition LDD_IO_SIZE :: nat where "LDD_IO_SIZE = 16"
definition LDD_IO_PORT_LIMIT :: nat where "LDD_IO_PORT_LIMIT = 0x10000"
definition LDD_IO_STATUS_RX_READY :: byte where "LDD_IO_STATUS_RX_READY = 1"
definition LDD_IO_CTRL_IRQ_EN :: byte where "LDD_IO_CTRL_IRQ_EN = 1"
definition LDD_IO_CTRL_LOOPBACK :: byte where "LDD_IO_CTRL_LOOPBACK = 2"
definition LDD_IO_CTRL_MASK :: byte where
  "LDD_IO_CTRL_MASK = LDD_IO_CTRL_IRQ_EN OR LDD_IO_CTRL_LOOPBACK"

lemmas io_consts = LDD_IO_DATA_def LDD_IO_STATUS_def LDD_IO_CTRL_def LDD_IO_MATRIX_def
  LDD_IO_MATRIX_ROWS_def LDD_IO_SIZE_def LDD_IO_PORT_LIMIT_def LDD_IO_STATUS_RX_READY_def
  LDD_IO_CTRL_IRQ_EN_def LDD_IO_CTRL_LOOPBACK_def LDD_IO_CTRL_MASK_def

definition io_emit :: "io_effect \<Rightarrow> 'c ldd_io \<Rightarrow> 'c ldd_io" where
  "io_emit e s = s\<lparr>io_trace := io_trace s @ [e]\<rparr>"

subsection \<open>Drawing the panel\<close>

definition esc :: string where "esc = [CHR 0x1B]"

definition LDD_IO_LED_ON :: string where
  "LDD_IO_LED_ON = esc @ ''[1;32m'' @ [CHR 0xE2, CHR 0x97, CHR 0x8F] @ esc @ ''[0m''"

definition LDD_IO_LED_OFF :: string where
  "LDD_IO_LED_OFF = esc @ ''[90m'' @ [CHR 0xE2, CHR 0x97, CHR 0x8B] @ esc @ ''[0m''"

definition crlf :: string where "crlf = esc @ ''[K'' @ [CHR 0x0D, CHR 0x0A]"

definition hex2 :: "byte \<Rightarrow> string" where
  "hex2 b = ''0x'' @ [hex_digit (unat b div 16), hex_digit (unat b mod 16)]"

definition spaces :: "nat \<Rightarrow> string" where
  "spaces n = replicate n CHR '' ''"

text \<open>The loop over \<open>i = 7 .. 0\<close>; \<open>leds_loop v (Suc i)\<close> draws bit \<open>i\<close> and what follows.\<close>

primrec leds_loop :: "byte \<Rightarrow> nat \<Rightarrow> string" where
  "leds_loop v 0 = []"
| "leds_loop v (Suc i) =
     (if bit v i then LDD_IO_LED_ON else LDD_IO_LED_OFF) @
     (if i \<noteq> 0 then '' '' else []) @ leds_loop v i"

definition ldd_io_append_leds :: "string \<Rightarrow> byte \<Rightarrow> string" where
  "ldd_io_append_leds line v = line @ leds_loop v 8"

definition ldd_io_bit :: "bool \<Rightarrow> string" where
  "ldd_io_bit on = (if on then LDD_IO_LED_ON else LDD_IO_LED_OFF)"

text \<open>A negative field width of printf left-justifies in its absolute value.\<close>

definition ldd_io_append_row :: "string \<Rightarrow> string \<Rightarrow> string \<Rightarrow> int \<Rightarrow> string \<Rightarrow> string" where
  "ldd_io_append_row panel label content width hex =
     panel @ '' '' @ label @ spaces (11 - length label) @ content @
     spaces (nat \<bar>17 - width\<bar>) @ hex @ crlf"

definition panel_rule :: string where
  "panel_rule = '' '' @ concat (replicate 32 [CHR 0xE2, CHR 0x94, CHR 0x80]) @ crlf"

definition isprint_or_dot :: "byte \<Rightarrow> char" where
  "isprint_or_dot b = (if 0x20 \<le> b \<and> b < 0x7f then char_of (unat b) else CHR ''.'')"

primrec matrix_rows :: "string \<Rightarrow> byte list \<Rightarrow> nat \<Rightarrow> string" where
  "matrix_rows panel [] row = panel"
| "matrix_rows panel (m # ms) row =
     matrix_rows (ldd_io_append_row panel (if row \<noteq> 0 then [] else ''MATRIX'')
       (ldd_io_append_leds [] m) 15 (hex2 m)) ms (Suc row)"

definition ldd_io_build_panel :: "'c ldd_io \<Rightarrow> string \<Rightarrow> string" where
  "ldd_io_build_panel s panel =
     (let rx = has_flag (io_status s) LDD_IO_STATUS_RX_READY;
          p0 = panel @ esc @ ''[H'' @
            (if io_mmio s
             then '' ldd-io  mmio 0x'' @ hex_string (unat (io_mmiobase s)) @ ''  irq '' @
                  dec_string (unat (io_isairq s))
             else '' ldd-io  port 0x'' @ hex_string (unat (io_iobase s)) @ ''  irq '' @
                  dec_string (unat (io_isairq s))) @ crlf @ panel_rule;
          p1 = ldd_io_append_row p0 ''DATA out'' (ldd_io_append_leds [] (io_data_out s)) 15
                 (hex2 (io_data_out s));
          p2 = (if rx
                then ldd_io_append_row p1 ''DATA in''
                       ([CHR 0x27, isprint_or_dot (io_data_in s), CHR 0x27]) 3
                       (hex2 (io_data_in s))
                else ldd_io_append_row p1 ''DATA in'' ''-'' 1 []);
          p3 = ldd_io_append_row p2 ''STATUS'' (''RX_READY '' @ ldd_io_bit rx) 10
                 (hex2 (io_status s));
          p4 = ldd_io_append_row p3 ''CTRL''
                 (''IRQ_EN '' @ ldd_io_bit (has_flag (io_ctrl s) LDD_IO_CTRL_IRQ_EN) @
                  '' LOOP '' @ ldd_io_bit (has_flag (io_ctrl s) LDD_IO_CTRL_LOOPBACK)) 15
                 (hex2 (io_ctrl s));
          pulses = ''pulses '' @ dec_string (unat (io_irq_pulses s));
          p5 = ldd_io_append_row p4 ''IRQ'' pulses (int (length pulses)) [];
          p6 = p5 @ panel_rule
      in matrix_rows p6 (io_matrix s) 0)"

subsection \<open>Sending the panel\<close>

definition ldd_io_panel_wait :: "'c chr_ops \<Rightarrow> 'c ldd_io \<Rightarrow> 'c ldd_io" where
  "ldd_io_panel_wait E s =
     (let s1 = (if io_panel_watch s = 0
                then (case chr_add_watch E (io_chr s) of (w, c) \<Rightarrow>
                        s\<lparr>io_panel_watch := w, io_chr := c\<rparr>)
                else s)
      in if io_panel_watch s1 = 0 then io_emit (PanelCut (io_panel_out s1)) (s1\<lparr>io_panel_out := []\<rparr>) else s1)"

function ldd_io_panel_flush :: "'c chr_ops \<Rightarrow> 'c ldd_io \<Rightarrow> 'c ldd_io" where
  "ldd_io_panel_flush E s =
     (if io_panel_out s = [] then s
      else case chr_write E (io_chr s) (io_panel_out s) of (r, c) \<Rightarrow>
        (case r of
           WrError \<Rightarrow> io_emit (PanelCut (io_panel_out s)) (s\<lparr>io_chr := c, io_panel_out := []\<rparr>)
         | WrAgain \<Rightarrow> ldd_io_panel_wait E (s\<lparr>io_chr := c\<rparr>)
         | Wrote n \<Rightarrow>
             if n = 0 then ldd_io_panel_wait E (s\<lparr>io_chr := c\<rparr>)
             else
               (let s1 = io_emit (PanelTook (take n (io_panel_out s)))
                           (s\<lparr>io_chr := c, io_panel_out := drop n (io_panel_out s)\<rparr>);
                    s2 = (if io_panel_out s1 = [] \<and> io_panel_dirty s1
                          then s1\<lparr>io_panel_dirty := False,
                                  io_panel_out := ldd_io_build_panel s1 (io_panel_out s1)\<rparr>
                          else s1)
                in ldd_io_panel_flush E s2)))"
  by pat_completeness auto
termination
  by (relation "measures [\<lambda>(E, s). of_bool (io_panel_dirty s), \<lambda>(E, s). length (io_panel_out s)]")
    (auto simp: io_emit_def)

declare ldd_io_panel_flush.simps [simp del]

definition ldd_io_panel_writable :: "'c chr_ops \<Rightarrow> 'c ldd_io \<Rightarrow> 'c ldd_io" where
  "ldd_io_panel_writable E s = ldd_io_panel_flush E (s\<lparr>io_panel_watch := 0\<rparr>)"

definition ldd_io_draw_panel :: "'c chr_ops \<Rightarrow> 'c ldd_io \<Rightarrow> 'c ldd_io" where
  "ldd_io_draw_panel E s =
     (if \<not> chr_connected E (io_chr s) then s
      else if io_panel_out s \<noteq> [] then s\<lparr>io_panel_dirty := True\<rparr>
      else ldd_io_panel_flush E (s\<lparr>io_panel_out := ldd_io_build_panel s (io_panel_out s)\<rparr>))"

definition ldd_io_panel_drop :: "'c ldd_io \<Rightarrow> 'c ldd_io" where
  "ldd_io_panel_drop s =
     (let s1 = (if io_panel_watch s \<noteq> 0
                then io_emit (WatchRemoved (io_panel_watch s)) (s\<lparr>io_panel_watch := 0\<rparr>) else s)
      in io_emit PanelReset (s1\<lparr>io_panel_out := [], io_panel_dirty := False\<rparr>))"

definition ldd_io_panel_event :: "'c chr_ops \<Rightarrow> 'c ldd_io \<Rightarrow> chr_event \<Rightarrow> 'c ldd_io" where
  "ldd_io_panel_event E s ev =
     (case ev of
        CHR_EVENT_OPENED \<Rightarrow>
          (let s1 = ldd_io_panel_drop s;
               out = io_panel_out s1 @ esc @ ''[2J'' @ esc @ ''[?25l''
           in ldd_io_panel_flush E (s1\<lparr>io_panel_out := ldd_io_build_panel s1 out\<rparr>))
      | CHR_EVENT_CLOSED \<Rightarrow> ldd_io_panel_drop s
      | ChrEventOther \<Rightarrow> s)"

subsection \<open>The receive path and the interrupt\<close>

definition ldd_io_pulse :: "'c ldd_io \<Rightarrow> 'c ldd_io" where
  "ldd_io_pulse s = (io_emit IrqPulse s)\<lparr>io_irq_pulses := io_irq_pulses s + 1\<rparr>"

definition ldd_io_receive_byte :: "'c ldd_io \<Rightarrow> byte \<Rightarrow> 'c ldd_io" where
  "ldd_io_receive_byte s b =
     (let s1 = s\<lparr>io_data_in := b, io_status := io_status s OR LDD_IO_STATUS_RX_READY\<rparr>
      in if has_flag (io_ctrl s1) LDD_IO_CTRL_IRQ_EN then ldd_io_pulse s1 else s1)"

definition ldd_io_keyboard_can_receive :: "'c ldd_io \<Rightarrow> nat" where
  "ldd_io_keyboard_can_receive s =
     (if has_flag (io_status s) LDD_IO_STATUS_RX_READY then 0
      else if has_flag (io_ctrl s) LDD_IO_CTRL_LOOPBACK then 0
      else 1)"

definition ldd_io_keyboard_receive :: "'c chr_ops \<Rightarrow> 'c ldd_io \<Rightarrow> byte list \<Rightarrow> 'c ldd_io option" where
  "ldd_io_keyboard_receive E s buf =
     (case buf of [] \<Rightarrow> None
      | b # _ \<Rightarrow> Some (ldd_io_draw_panel E (ldd_io_receive_byte s b)))"

subsection \<open>Register accesses\<close>

definition ldd_io_accepts :: "64 word \<Rightarrow> 32 word \<Rightarrow> bool" where
  "ldd_io_accepts addr sz =
     (if addr \<ge> LDD_IO_MATRIX then addr AND ucast (sz - 1) = 0 else sz = 1)"

text \<open>\<open>for (i = sz - 1; i >= 0; i--) v = (v << 8) | matrix[base + i]\<close>\<close>

primrec matrix_read_loop :: "byte list \<Rightarrow> nat \<Rightarrow> nat \<Rightarrow> 64 word \<Rightarrow> 64 word option" where
  "matrix_read_loop m base 0 v = Some v"
| "matrix_read_loop m base (Suc i) v =
     (if base + i < length m
      then matrix_read_loop m base i (push_bit 8 v OR ucast (m ! (base + i)))
      else None)"

text \<open>\<open>for (i = 0; i < sz; i++) matrix[base + i] = data >> (8 * i)\<close>, \<open>k\<close> rounds left\<close>

primrec matrix_write_loop :: "byte list \<Rightarrow> nat \<Rightarrow> 64 word \<Rightarrow> nat \<Rightarrow> nat \<Rightarrow> byte list option" where
  "matrix_write_loop m base data i 0 = Some m"
| "matrix_write_loop m base data i (Suc k) =
     (if base + i < length m
      then matrix_write_loop (m[base + i := ucast (drop_bit (8 * i) data)]) base data (Suc i) k
      else None)"

definition ldd_io_read :: "'c ldd_io \<Rightarrow> 64 word \<Rightarrow> 32 word \<Rightarrow> 64 word option" where
  "ldd_io_read s addr sz =
     (if addr \<ge> LDD_IO_MATRIX
      then matrix_read_loop (io_matrix s) (unat (addr - LDD_IO_MATRIX)) (unat sz) 0
      else if addr = LDD_IO_DATA then Some (ucast (io_data_in s))
      else if addr = LDD_IO_STATUS then Some (ucast (io_status s))
      else if addr = LDD_IO_CTRL then Some (ucast (io_ctrl s))
      else Some 0)"

definition io_write_data :: "'c ldd_io \<Rightarrow> byte \<Rightarrow> 'c ldd_io" where
  "io_write_data s b =
     (let s1 = s\<lparr>io_data_out := b\<rparr>
      in if has_flag (io_ctrl s1) LDD_IO_CTRL_LOOPBACK \<and>
            \<not> has_flag (io_status s1) LDD_IO_STATUS_RX_READY
         then ldd_io_receive_byte s1 b else s1)"

definition io_write_status :: "'c ldd_io \<Rightarrow> byte \<Rightarrow> 'c ldd_io" where
  "io_write_status s b =
     (let s1 = (if has_flag b (NOT LDD_IO_STATUS_RX_READY) then io_emit GuestError s else s)
      in if has_flag b LDD_IO_STATUS_RX_READY \<and> has_flag (io_status s1) LDD_IO_STATUS_RX_READY
         then io_emit AcceptInput (s1\<lparr>io_status := io_status s1 AND NOT LDD_IO_STATUS_RX_READY\<rparr>)
         else s1)"

definition io_write_ctrl :: "'c ldd_io \<Rightarrow> byte \<Rightarrow> 'c ldd_io" where
  "io_write_ctrl s b =
     (let s1 = (if has_flag b (NOT LDD_IO_CTRL_MASK) then io_emit GuestError s else s);
          old = io_ctrl s1;
          s2 = s1\<lparr>io_ctrl := b AND LDD_IO_CTRL_MASK\<rparr>;
          s3 = (if \<not> has_flag old LDD_IO_CTRL_IRQ_EN \<and> has_flag (io_ctrl s2) LDD_IO_CTRL_IRQ_EN \<and>
                   has_flag (io_status s2) LDD_IO_STATUS_RX_READY
                then ldd_io_pulse s2 else s2)
      in if has_flag old LDD_IO_CTRL_LOOPBACK \<and> \<not> has_flag (io_ctrl s3) LDD_IO_CTRL_LOOPBACK
         then io_emit AcceptInput s3 else s3)"

definition ldd_io_write :: "'c chr_ops \<Rightarrow> 'c ldd_io \<Rightarrow> 64 word \<Rightarrow> 64 word \<Rightarrow> 32 word \<Rightarrow> 'c ldd_io option" where
  "ldd_io_write E s addr data sz =
     (if addr \<ge> LDD_IO_MATRIX
      then map_option (\<lambda>m. ldd_io_draw_panel E (s\<lparr>io_matrix := m\<rparr>))
             (matrix_write_loop (io_matrix s) (unat (addr - LDD_IO_MATRIX)) data 0 (unat sz))
      else if addr = LDD_IO_DATA then Some (ldd_io_draw_panel E (io_write_data s (ucast data)))
      else if addr = LDD_IO_STATUS then Some (ldd_io_draw_panel E (io_write_status s (ucast data)))
      else if addr = LDD_IO_CTRL then Some (ldd_io_draw_panel E (io_write_ctrl s (ucast data)))
      else Some (io_emit GuestError s))"

subsection \<open>Reset, creation, removal, migration\<close>

definition ldd_io_reset_enter :: "'c ldd_io \<Rightarrow> 'c ldd_io" where
  "ldd_io_reset_enter s =
     s\<lparr>io_data_out := 0, io_data_in := 0, io_status := 0, io_ctrl := 0,
       io_matrix := replicate LDD_IO_MATRIX_ROWS 0, io_irq_pulses := 0\<rparr>"

definition ldd_io_reset_exit :: "'c chr_ops \<Rightarrow> 'c ldd_io \<Rightarrow> 'c ldd_io" where
  "ldd_io_reset_exit E s = ldd_io_draw_panel E (io_emit AcceptInput s)"

text \<open>The object as QOM makes it: zeroed, then the properties' defaults.\<close>

definition ldd_io_properties :: "'c \<Rightarrow> 'c ldd_io" where
  "ldd_io_properties c =
     \<lparr>io_iobase = 0x200, io_mmio = False, io_mmiobase = 0xff000000, io_isairq = 5,
      io_data_out = 0, io_data_in = 0, io_status = 0, io_ctrl = 0,
      io_matrix = replicate LDD_IO_MATRIX_ROWS 0, io_irq_pulses = 0,
      io_panel_out = [], io_panel_watch = 0, io_panel_dirty = False, io_chr = c, io_trace = []\<rparr>"

text \<open>
  \<open>nirq\<close> is QEMU's \<open>ISA_NUM_IRQS\<close>, \<open>mrfind\<close> its \<open>memory_region_find\<close>: the name of a
  region that overlaps the range, if any.
\<close>

definition ldd_io_realize ::
  "32 word \<Rightarrow> (64 word \<Rightarrow> nat \<Rightarrow> string option) \<Rightarrow> 'c ldd_io \<Rightarrow> io_error + 'c ldd_io" where
  "ldd_io_realize nirq mrfind s =
     (if io_isairq s \<ge> nirq then Inl IrqOutOfRange
      else if \<not> io_mmio s \<and> unat (io_iobase s) > LDD_IO_PORT_LIMIT - LDD_IO_SIZE
           then Inl IobaseOutOfRange
      else if io_mmio s \<and> has_flag (io_mmiobase s) (of_nat (LDD_IO_SIZE - 1)) then Inl MmioMisaligned
      else case (if io_mmio s then mrfind (io_mmiobase s) LDD_IO_SIZE else None) of
             Some name \<Rightarrow> Inl (MmioOverlaps name)
           | None \<Rightarrow>
               let s1 = s\<lparr>io_panel_out := []\<rparr>;
                   s2 = (if io_mmio s1 then io_emit (MappedMmio (io_mmiobase s1)) s1
                         else io_emit (MappedPort (io_iobase s1)) s1)
               in Inr (io_emit HandlersSet s2))"

definition ldd_io_unrealize :: "'c ldd_io \<Rightarrow> 'c ldd_io" where
  "ldd_io_unrealize s = io_emit PanelFreed (ldd_io_panel_drop s)"

record io_vmstate =
  vm_data_out :: byte
  vm_data_in :: byte
  vm_status :: byte
  vm_ctrl :: byte
  vm_matrix :: "byte list"
  vm_irq_pulses :: "32 word"

definition ldd_io_post_load :: "'c chr_ops \<Rightarrow> 'c ldd_io \<Rightarrow> 'c ldd_io" where
  "ldd_io_post_load E s = ldd_io_draw_panel E (io_emit AcceptInput s)"

text \<open>The fields of \<open>vmstate_ldd_io\<close>, as saved and as loaded on the destination.\<close>

definition vmstate_save :: "'c ldd_io \<Rightarrow> io_vmstate" where
  "vmstate_save s = \<lparr>vm_data_out = io_data_out s, vm_data_in = io_data_in s,
     vm_status = io_status s, vm_ctrl = io_ctrl s, vm_matrix = io_matrix s,
     vm_irq_pulses = io_irq_pulses s\<rparr>"

definition vmstate_load :: "'c chr_ops \<Rightarrow> io_vmstate \<Rightarrow> 'c ldd_io \<Rightarrow> 'c ldd_io" where
  "vmstate_load E v s = ldd_io_post_load E
     (s\<lparr>io_data_out := vm_data_out v, io_data_in := vm_data_in v, io_status := vm_status v,
        io_ctrl := vm_ctrl v, io_matrix := vm_matrix v, io_irq_pulses := vm_irq_pulses v\<rparr>)"

text \<open>
  What can happen to the device: a guest write that the memory core dispatches (inside the
  region, a size of 1, 2, 4 or 8, accepted), a byte from the keyboard when there is room for
  it, an event or a wakeup of the panel.
\<close>

definition io_dispatched :: "64 word \<Rightarrow> 32 word \<Rightarrow> bool" where
  "io_dispatched addr sz \<longleftrightarrow>
     addr < of_nat LDD_IO_SIZE \<and> sz \<in> {1, 2, 4, 8} \<and> ldd_io_accepts addr sz"

inductive io_step :: "'c chr_ops \<Rightarrow> 'c ldd_io \<Rightarrow> 'c ldd_io \<Rightarrow> bool" for E where
  io_guest_write: "io_dispatched addr sz \<Longrightarrow> ldd_io_write E s addr data sz = Some s' \<Longrightarrow>
     io_step E s s'"
| io_keyboard: "ldd_io_keyboard_can_receive s = 1 \<Longrightarrow>
     ldd_io_keyboard_receive E s [b] = Some s' \<Longrightarrow> io_step E s s'"
| io_event: "io_step E s (ldd_io_panel_event E s ev)"
| io_writable: "io_step E s (ldd_io_panel_writable E s)"

text \<open>The same and a reset, for what is true however long the device lives.\<close>

definition io_life :: "'c chr_ops \<Rightarrow> 'c ldd_io \<Rightarrow> 'c ldd_io \<Rightarrow> bool" where
  "io_life E s s' \<longleftrightarrow> io_step E s s' \<or> s' = ldd_io_reset_exit E (ldd_io_reset_enter s)"

text \<open>
  What one viewer has been sent: the pieces that ended with a failed write, each with the bytes that
  were thrown away there, and the bytes taken since.
\<close>

definition panel_parts :: "io_effect list \<Rightarrow> (string \<times> string) list \<times> string" where
  "panel_parts tr = foldl (\<lambda>(cuts, acc) e. case e of PanelTook x \<Rightarrow> (cuts, acc @ x)
     | PanelCut lost \<Rightarrow> (cuts @ [(acc, lost)], []) | PanelReset \<Rightarrow> ([], []) | _ \<Rightarrow> (cuts, acc)) ([], []) tr"

definition panel_clear :: string where "panel_clear = esc @ ''[2J'' @ esc @ ''[?25l''"

definition shows_state :: "string \<Rightarrow> 'c ldd_io \<Rightarrow> bool" where
  "shows_state f s \<longleftrightarrow> f = ldd_io_build_panel s [] \<or> f = panel_clear @ ldd_io_build_panel s []"

definition is_frame :: "string \<Rightarrow> bool" where
  "is_frame f \<longleftrightarrow> (\<exists>s :: unit ldd_io. shows_state f s)"

text \<open>
  Bytes that were taken and bytes that are still to be sent make whole frames, and only the last frame
  is not sent completely.
\<close>

definition frames_of :: "string \<Rightarrow> string \<Rightarrow> string list \<Rightarrow> bool" where
  "frames_of taken rest fs \<longleftrightarrow> taken @ rest = concat fs \<and> (\<forall>f \<in> set fs. is_frame f) \<and>
     (rest \<noteq> [] \<longrightarrow> fs \<noteq> [] \<and> length rest \<le> length (last fs))"

abbreviation panel_taken :: "'c ldd_io \<Rightarrow> string" where
  "panel_taken s \<equiv> snd (panel_parts (io_trace s))"

definition panel_ok :: "'c ldd_io \<Rightarrow> bool" where
  "panel_ok s \<longleftrightarrow> (\<forall>(taken, lost) \<in> set (fst (panel_parts (io_trace s))). lost \<noteq> [] \<and> (\<exists>fs. frames_of taken lost fs)) \<and>
     (\<exists>fs. frames_of (panel_taken s) (io_panel_out s) fs)"

definition panel_current :: "'c ldd_io \<Rightarrow> bool" where
  "panel_current s \<longleftrightarrow> (\<exists>fs. frames_of (panel_taken s) (io_panel_out s) fs \<and>
     (fs \<noteq> [] \<longrightarrow> \<not> io_panel_dirty s \<longrightarrow> shows_state (last fs) s))"

text \<open>Steps of the device while a viewer is there.\<close>

definition io_viewed :: "'c chr_ops \<Rightarrow> 'c ldd_io \<Rightarrow> 'c ldd_io \<Rightarrow> bool" where
  "io_viewed E s s' \<longleftrightarrow> chr_connected E (io_chr s) \<and> io_life E s s'"

definition io_wf :: "'c ldd_io \<Rightarrow> bool" where
  "io_wf s \<longleftrightarrow> length (io_matrix s) = LDD_IO_MATRIX_ROWS \<and>
     io_status s AND NOT LDD_IO_STATUS_RX_READY = 0 \<and> io_ctrl s AND NOT LDD_IO_CTRL_MASK = 0"

abbreviation rx_ready :: "'c ldd_io \<Rightarrow> bool" where
  "rx_ready s \<equiv> has_flag (io_status s) LDD_IO_STATUS_RX_READY"

abbreviation irq_en :: "'c ldd_io \<Rightarrow> bool" where
  "irq_en s \<equiv> has_flag (io_ctrl s) LDD_IO_CTRL_IRQ_EN"

abbreviation loopback :: "'c ldd_io \<Rightarrow> bool" where
  "loopback s \<equiv> has_flag (io_ctrl s) LDD_IO_CTRL_LOOPBACK"

definition pulses_sent :: "'c ldd_io \<Rightarrow> nat" where
  "pulses_sent s = count_list (io_trace s) IrqPulse"

text \<open>A device with interrupts enabled and a viewer that takes whatever it is given.\<close>

definition demo_chr :: "unit chr_ops" where
  "demo_chr = \<lparr>chr_write = (\<lambda>c x. (Wrote (length x), c)), chr_connected = (\<lambda>c. True),
     chr_add_watch = (\<lambda>c. (0, c))\<rparr>"

definition demo_io :: "unit ldd_io" where
  "demo_io = (ldd_io_properties ())\<lparr>io_ctrl := 1\<rparr>"

lemma demo_io_wf: "io_wf demo_io"
  by (simp add: demo_io_def ldd_io_properties_def io_wf_def io_consts)

subsection \<open>What the panel code leaves alone\<close>

lemma vmstate_save_emit [simp]: "vmstate_save (io_emit e s) = vmstate_save s"
  by (simp add: vmstate_save_def io_emit_def)

lemma io_emit_sel [simp]:
  "io_panel_out (io_emit e s) = io_panel_out s"
  "io_panel_dirty (io_emit e s) = io_panel_dirty s"
  "io_panel_watch (io_emit e s) = io_panel_watch s"
  "io_trace (io_emit e s) = io_trace s @ [e]"
  "io_status (io_emit e s) = io_status s"
  "io_ctrl (io_emit e s) = io_ctrl s"
  "io_data_in (io_emit e s) = io_data_in s"
  "io_data_out (io_emit e s) = io_data_out s"
  "io_matrix (io_emit e s) = io_matrix s"
  "io_irq_pulses (io_emit e s) = io_irq_pulses s"
  "io_chr (io_emit e s) = io_chr s"
  by (simp_all add: io_emit_def)

text \<open>The device as the guest sees it: the registers and the properties.\<close>

definition io_view :: "'c ldd_io \<Rightarrow> io_vmstate \<times> (32 word \<times> bool \<times> 64 word \<times> 32 word) \<times> nat" where
  "io_view s = (vmstate_save s, (io_iobase s, io_mmio s, io_mmiobase s, io_isairq s), pulses_sent s)"

lemma io_view_panel_fields [simp]:
  "io_view (s\<lparr>io_panel_out := x\<rparr>) = io_view s"
  "io_view (s\<lparr>io_panel_watch := w\<rparr>) = io_view s"
  "io_view (s\<lparr>io_panel_dirty := d\<rparr>) = io_view s"
  "io_view (s\<lparr>io_chr := c\<rparr>) = io_view s"
  by (simp_all add: io_view_def vmstate_save_def pulses_sent_def)

lemma io_view_emit [simp]: "e \<noteq> IrqPulse \<Longrightarrow> io_view (io_emit e s) = io_view s"
  by (simp add: io_view_def vmstate_save_def pulses_sent_def io_emit_def)

lemma io_view_eqD:
  assumes "io_view s = io_view t"
  shows "io_data_out s = io_data_out t" "io_data_in s = io_data_in t" "io_status s = io_status t"
    "io_ctrl s = io_ctrl t" "io_matrix s = io_matrix t" "io_irq_pulses s = io_irq_pulses t"
    "io_iobase s = io_iobase t" "io_mmio s = io_mmio t" "io_mmiobase s = io_mmiobase t"
    "io_isairq s = io_isairq t" "pulses_sent s = pulses_sent t"
  using assms by (simp_all add: io_view_def vmstate_save_def)

lemma io_view_panel_wait [simp]: "io_view (ldd_io_panel_wait E s) = io_view s"
  by (simp add: ldd_io_panel_wait_def Let_def split: prod.split)

lemma io_view_panel_flush [simp]: "io_view (ldd_io_panel_flush E s) = io_view s"
proof (induction E s rule: ldd_io_panel_flush.induct)
  case (1 E s)
  show ?case
    by (subst ldd_io_panel_flush.simps)
      (auto simp: Let_def split: prod.split chr_result.split intro!: "1.IH" [THEN trans])
qed

lemma io_view_draw_panel [simp]: "io_view (ldd_io_draw_panel E s) = io_view s"
  by (simp add: ldd_io_draw_panel_def)

lemma io_view_panel_drop [simp]: "io_view (ldd_io_panel_drop s) = io_view s"
  by (simp add: ldd_io_panel_drop_def Let_def)

lemma io_view_panel_event [simp]: "io_view (ldd_io_panel_event E s ev) = io_view s"
  by (cases ev) (simp_all add: ldd_io_panel_event_def Let_def)

lemma io_view_panel_writable [simp]: "io_view (ldd_io_panel_writable E s) = io_view s"
  by (simp add: ldd_io_panel_writable_def)

lemmas io_view_drawn = io_view_eqD [OF io_view_draw_panel]

subsection \<open>The matrix\<close>

lemma matrix_read_loop_eq:
  "base + n \<le> length m \<Longrightarrow>
   matrix_read_loop m base n v = Some (push_bit (8 * n) v OR le_word (mem_get base n m))"
proof (induction n arbitrary: v)
  case 0
  then show ?case by simp
next
  case (Suc n)
  let ?b = "m ! (base + n)"
  have le: "le_word (xs @ [b]) = le_word xs OR push_bit (8 * length xs) (ucast b :: 64 word)"
    for xs b by (induction xs) (simp_all add: push_bit_or or.left_commute ac_simps)
  have len: "length (mem_get base n m) = n" using Suc.prems by simp
  have "matrix_read_loop m base (Suc n) v =
      Some (push_bit (8 * n) (push_bit 8 v OR ucast ?b) OR le_word (mem_get base n m))"
    using Suc by simp
  also have "push_bit (8 * n) (push_bit 8 v OR ucast ?b) OR le_word (mem_get base n m) =
      push_bit (8 * Suc n) v OR le_word (mem_get base n m @ [?b])"
    unfolding le len by (simp add: push_bit_or ac_simps)
  also have "mem_get base n m @ [?b] = mem_get base (Suc n) m"
    using Suc.prems by (simp add: mem_get_Suc)
  finally show ?case .
qed

lemma matrix_write_loop_eq:
  "base + i + k \<le> length m \<Longrightarrow>
   matrix_write_loop m base data i k =
     Some (mem_put (base + i) (map (\<lambda>j. ucast (drop_bit (8 * j) data)) [i..<i + k]) m)"
proof (induction k arbitrary: i m)
  case 0
  then show ?case by simp
next
  case (Suc k)
  let ?b = "ucast (drop_bit (8 * i) data) :: byte"
  have "matrix_write_loop m base data i (Suc k) =
      Some (mem_put (base + i + 1) (map (\<lambda>j. ucast (drop_bit (8 * j) data)) [Suc i..<Suc i + k])
              (m[base + i := ?b]))"
    using Suc by (simp add: algebra_simps)
  also have "m[base + i := ?b] = mem_put (base + i) [?b] m"
    using Suc.prems by (simp add: mem_put_def upd_conv_take_nth_drop)
  finally show ?case
    using Suc.prems
      mem_put_append_adjacent [of "base + i" "[?b]"
        "map (\<lambda>j. ucast (drop_bit (8 * j) data)) [Suc i..<Suc i + k]" m]
    by (simp add: upt_rec [of i])
qed

lemma matrix_write_loop_bytes:
  "base + k \<le> length m \<Longrightarrow>
   matrix_write_loop m base data 0 k = Some (mem_put base (le_bytes k data) m)"
  using matrix_write_loop_eq [of base 0 k m data] by (simp add: le_bytes_def)

lemma word64_less_16:
  assumes "(a :: 64 word) < 16"
  shows "a \<in> {0, 1, 2, 3, 4, 5, 6, 7, 8, 9, 10, 11, 12, 13, 14, 15}"
proof -
  have a: "a = of_nat (unat a)" by simp
  have "unat a < 16" using assms by (simp add: word_less_nat_alt)
  then have "unat a \<in> {0, 1, 2, 3, 4, 5, 6, 7, 8, 9, 10, 11, 12, 13, 14, 15}"
    by (simp only: insert_iff empty_iff) arith
  then have "of_nat (unat a) \<in>
      (of_nat ` {0, 1, 2, 3, 4, 5, 6, 7, 8, 9, 10, 11, 12, 13, 14, 15} :: 64 word set)"
    by (rule imageI)
  then show ?thesis by (simp only: a [symmetric]) simp
qed

text \<open>A dispatched access to the matrix lies inside it, whatever its width.\<close>

lemma io_dispatched_in_matrix:
  assumes "io_dispatched addr sz" and "LDD_IO_MATRIX \<le> addr"
  shows "unat (addr - LDD_IO_MATRIX) + unat sz \<le> LDD_IO_MATRIX_ROWS"
    and "unat sz \<in> {1, 2, 4, 8}"
proof -
  have a: "addr \<in> {0, 1, 2, 3, 4, 5, 6, 7, 8, 9, 10, 11, 12, 13, 14, 15}"
    and sz: "sz \<in> {1, 2, 4, 8}" and m: "addr AND ucast (sz - 1) = 0"
    using assms word64_less_16 [of addr] by (auto simp: io_dispatched_def ldd_io_accepts_def io_consts)
  then show "unat (addr - LDD_IO_MATRIX) + unat sz \<le> LDD_IO_MATRIX_ROWS"
    using assms(2) by (auto simp: io_consts word_le_nat_alt)
  show "unat sz \<in> {1, 2, 4, 8}" using sz by auto
qed

lemma ldd_io_write_matrix:
  assumes "io_wf s" "io_dispatched addr sz" "LDD_IO_MATRIX \<le> addr"
  shows "ldd_io_write E s addr data sz = Some (ldd_io_draw_panel E
    (s\<lparr>io_matrix := mem_put (unat (addr - LDD_IO_MATRIX)) (le_bytes (unat sz) data) (io_matrix s)\<rparr>))"
  using assms io_dispatched_in_matrix [OF assms(2,3)]
  by (simp add: ldd_io_write_def io_wf_def matrix_write_loop_bytes)

lemma ldd_io_read_matrix:
  assumes "length (io_matrix s) = LDD_IO_MATRIX_ROWS" "io_dispatched addr sz" "LDD_IO_MATRIX \<le> addr"
  shows "ldd_io_read s addr sz =
    Some (le_word (mem_get (unat (addr - LDD_IO_MATRIX)) (unat sz) (io_matrix s)))"
  using assms io_dispatched_in_matrix [OF assms(2,3)]
  by (simp add: ldd_io_read_def matrix_read_loop_eq)

subsection \<open>Registers\<close>

lemma status_cases: "io_wf s \<Longrightarrow> io_status s = (if rx_ready s then 1 else 0)"
  using and_not_1_cases [of "io_status s"] by (auto simp: io_wf_def io_consts has_flag_def)

definition io_irq_level :: "'c ldd_io \<Rightarrow> bool" where
  "io_irq_level s \<longleftrightarrow> rx_ready s \<and> irq_en s"

text \<open>The interrupt rule of one change of the registers: a pulse on every rising edge.\<close>

definition io_edge :: "'c ldd_io \<Rightarrow> 'c ldd_io \<Rightarrow> bool" where
  "io_edge s s' \<longleftrightarrow>
     io_irq_pulses s' = io_irq_pulses s + of_bool (io_irq_level s' \<and> \<not> io_irq_level s) \<and>
     pulses_sent s' = pulses_sent s + of_bool (io_irq_level s' \<and> \<not> io_irq_level s)"

text \<open>
  What every change of the registers respects, given a well-formed state: the result is
  well-formed, the interrupt rule holds, and a byte not yet acknowledged is not overwritten.
\<close>

definition io_ok_change :: "'c ldd_io \<Rightarrow> 'c ldd_io \<Rightarrow> bool" where
  "io_ok_change s s' \<longleftrightarrow> io_wf s' \<and> io_edge s s' \<and> (rx_ready s \<longrightarrow> io_data_in s' = io_data_in s)"

lemma io_ok_change_view:
  assumes "io_view t = io_view s'" and "io_ok_change s s'"
  shows "io_ok_change s t"
  using assms(2) io_view_eqD [OF assms(1)]
  by (simp add: io_ok_change_def io_wf_def io_edge_def io_irq_level_def)

lemma io_ok_change_refl: "io_wf s \<Longrightarrow> io_ok_change s s"
  by (simp add: io_ok_change_def io_edge_def)

lemma io_ok_change_draw: "io_ok_change s s' \<Longrightarrow> io_ok_change s (ldd_io_draw_panel E s')"
  by (rule io_ok_change_view [OF io_view_draw_panel])

lemma pulses_sent_upd [simp]:
  "pulses_sent (s\<lparr>io_data_in := b\<rparr>) = pulses_sent s"
  "pulses_sent (s\<lparr>io_data_out := b\<rparr>) = pulses_sent s"
  "pulses_sent (s\<lparr>io_status := b\<rparr>) = pulses_sent s"
  "pulses_sent (s\<lparr>io_ctrl := b\<rparr>) = pulses_sent s"
  "pulses_sent (s\<lparr>io_matrix := m\<rparr>) = pulses_sent s"
  "pulses_sent (s\<lparr>io_irq_pulses := n\<rparr>) = pulses_sent s"
  "pulses_sent (io_emit e s) = pulses_sent s + of_bool (e = IrqPulse)"
  by (simp_all add: pulses_sent_def)

lemma byte_flag_facts [flag_simps]:
  "has_flag (x OR 1) (1 :: byte)"
  "has_flag (x AND - 2) (1 :: byte) \<longleftrightarrow> False"
  "has_flag (x AND 3) (1 :: byte) \<longleftrightarrow> has_flag x 1"
  "has_flag (x AND 3) (2 :: byte) \<longleftrightarrow> has_flag x 2"
  by (simp_all add: has_flag_1 has_flag_2 bit_simps)

lemma io_flag_consts: "LDD_IO_CTRL_MASK = 3" "NOT LDD_IO_STATUS_RX_READY = - 2"
  by (simp_all add: io_consts)

lemma byte_mask_facts:
  "x AND - 2 = 0 \<Longrightarrow> (x OR 1) AND - 2 = (0 :: byte)"
  "(x AND - 2) AND - 2 = 0 \<longleftrightarrow> x AND - 2 = (0 :: byte)"
  "(x AND 3) AND - 4 = (0 :: byte)"
  by (simp_all add: bit.conj_disj_distrib2 and.assoc)

lemmas io_change_defs = io_ok_change_def io_edge_def io_irq_level_def io_wf_def
  LDD_IO_STATUS_RX_READY_def LDD_IO_CTRL_IRQ_EN_def LDD_IO_CTRL_LOOPBACK_def io_flag_consts

lemma receive_byte_ok:
  "io_wf s \<Longrightarrow> \<not> rx_ready s \<Longrightarrow> io_ok_change s (ldd_io_receive_byte s b)"
  by (auto simp: ldd_io_receive_byte_def ldd_io_pulse_def Let_def io_change_defs byte_flag_facts
      byte_mask_facts)

lemma io_write_data_ok: "io_wf s \<Longrightarrow> io_ok_change s (io_write_data s b)"
  by (auto simp: io_write_data_def ldd_io_receive_byte_def ldd_io_pulse_def Let_def io_change_defs
      byte_flag_facts byte_mask_facts)

lemma io_write_status_ok: "io_wf s \<Longrightarrow> io_ok_change s (io_write_status s b)"
  by (auto simp: io_write_status_def Let_def io_change_defs byte_flag_facts byte_mask_facts)

lemma io_write_ctrl_ok: "io_wf s \<Longrightarrow> io_ok_change s (io_write_ctrl s b)"
  by (auto simp: io_write_ctrl_def ldd_io_pulse_def Let_def io_change_defs byte_flag_facts
      byte_mask_facts)

lemma io_write_matrix_ok:
  "io_wf s \<Longrightarrow> length m = length (io_matrix s) \<Longrightarrow> io_ok_change s (s\<lparr>io_matrix := m\<rparr>)"
  by (simp add: io_change_defs)

lemma ldd_io_write_ok:
  assumes "io_wf s" "io_dispatched addr sz" "ldd_io_write E s addr data sz = Some s'"
  shows "io_ok_change s s'"
proof (cases "LDD_IO_MATRIX \<le> addr")
  case True
  have "length (mem_put (unat (addr - LDD_IO_MATRIX)) (le_bytes (unat sz) data) (io_matrix s)) =
      length (io_matrix s)"
    using assms(1) io_dispatched_in_matrix(1) [OF assms(2) True]
    by (intro length_mem_put) (simp add: io_wf_def)
  then show ?thesis
    using assms True ldd_io_write_matrix [OF assms(1,2) True, of E data]
    by (auto intro!: io_ok_change_draw io_write_matrix_ok)
next
  case False
  have "io_ok_change s (io_emit GuestError s)"
    by (rule io_ok_change_view [OF _ io_ok_change_refl [OF assms(1)]]) simp
  with False assms show ?thesis
    by (auto simp: ldd_io_write_def split: if_splits
        intro!: io_ok_change_draw io_write_data_ok io_write_status_ok io_write_ctrl_ok)
qed

lemma keyboard_receive_ok:
  assumes "io_wf s" "ldd_io_keyboard_can_receive s = 1" "ldd_io_keyboard_receive E s [b] = Some s'"
  shows "io_ok_change s s'"
  using assms
  by (auto simp: ldd_io_keyboard_receive_def ldd_io_keyboard_can_receive_def split: if_splits
      intro!: io_ok_change_draw receive_byte_ok)

lemma io_step_ok: "io_step E s s' \<Longrightarrow> io_wf s \<Longrightarrow> io_ok_change s s'"
proof (induction rule: io_step.induct)
  case (io_guest_write addr sz s data s')
  then show ?case by (blast intro: ldd_io_write_ok)
next
  case (io_keyboard s b s')
  then show ?case by (blast intro: keyboard_receive_ok)
next
  case (io_event s ev)
  then show ?case by (intro io_ok_change_view [OF io_view_panel_event] io_ok_change_refl)
next
  case (io_writable s)
  then show ?case by (intro io_ok_change_view [OF io_view_panel_writable] io_ok_change_refl)
qed

subsection \<open>The panel\<close>

lemma panel_parts_snoc:
  "panel_parts (tr @ [e]) =
    (case e of PanelTook x \<Rightarrow> (fst (panel_parts tr), snd (panel_parts tr) @ x)
     | PanelCut lost \<Rightarrow> (fst (panel_parts tr) @ [(snd (panel_parts tr), lost)], [])
     | PanelReset \<Rightarrow> ([], []) | _ \<Rightarrow> panel_parts tr)"
  by (cases e) (simp_all add: panel_parts_def case_prod_unfold)

lemma matrix_rows_append: "matrix_rows (p @ q) ms row = p @ matrix_rows q ms row"
  by (induction ms arbitrary: q row) (simp_all add: ldd_io_append_row_def)

lemma build_panel_append: "ldd_io_build_panel s (p @ q) = p @ ldd_io_build_panel s q"
  unfolding ldd_io_build_panel_def Let_def
  by (simp add: ldd_io_append_row_def matrix_rows_append)

lemma build_panel_view:
  assumes "io_view s = io_view t"
  shows "ldd_io_build_panel s p = ldd_io_build_panel t p"
  by (simp only: ldd_io_build_panel_def io_view_eqD [OF assms])

lemma shows_state_view: "io_view s = io_view t \<Longrightarrow> shows_state f s \<longleftrightarrow> shows_state f t"
  by (simp add: shows_state_def build_panel_view [of s t])

text \<open>What the invariants of the panel depend on, besides the registers.\<close>

definition panel_part :: "'c ldd_io \<Rightarrow> ((string \<times> string) list \<times> string) \<times> string" where
  "panel_part s = (panel_parts (io_trace s), io_panel_out s)"

lemma panel_part_upd [simp]:
  "panel_part (s\<lparr>io_data_in := b\<rparr>) = panel_part s"
  "panel_part (s\<lparr>io_data_out := b\<rparr>) = panel_part s"
  "panel_part (s\<lparr>io_status := b\<rparr>) = panel_part s"
  "panel_part (s\<lparr>io_ctrl := b\<rparr>) = panel_part s"
  "panel_part (s\<lparr>io_matrix := m\<rparr>) = panel_part s"
  "panel_part (s\<lparr>io_irq_pulses := n\<rparr>) = panel_part s"
  "panel_part (s\<lparr>io_chr := c\<rparr>) = panel_part s"
  "panel_part (s\<lparr>io_panel_watch := w\<rparr>) = panel_part s"
  "panel_part (s\<lparr>io_panel_dirty := d\<rparr>) = panel_part s"
  by (simp_all add: panel_part_def)

lemma panel_part_emit [simp]:
  "panel_part (io_emit IrqPulse s) = panel_part s"
  "panel_part (io_emit AcceptInput s) = panel_part s"
  "panel_part (io_emit GuestError s) = panel_part s"
  "panel_part (io_emit (WatchRemoved w) s) = panel_part s"
  by (simp_all add: panel_part_def panel_parts_snoc)

lemma panel_part_regs [simp]:
  "panel_part (ldd_io_receive_byte s b) = panel_part s"
  "panel_part (io_write_data s b) = panel_part s"
  "panel_part (io_write_status s b) = panel_part s"
  "panel_part (io_write_ctrl s b) = panel_part s"
  "panel_part (ldd_io_reset_enter s) = panel_part s"
  by (simp_all add: ldd_io_receive_byte_def io_write_data_def io_write_status_def io_write_ctrl_def
      ldd_io_reset_enter_def ldd_io_pulse_def Let_def)

lemma io_chr_regs:
  "io_chr (ldd_io_receive_byte s b) = io_chr s"
  "io_chr (io_write_data s b) = io_chr s"
  "io_chr (io_write_status s b) = io_chr s"
  "io_chr (io_write_ctrl s b) = io_chr s"
  "io_chr (ldd_io_reset_enter s) = io_chr s"
  by (simp_all add: ldd_io_receive_byte_def io_write_data_def io_write_status_def io_write_ctrl_def
      ldd_io_reset_enter_def ldd_io_pulse_def Let_def)

lemma panel_partD:
  assumes "panel_part s = panel_part t"
  shows "panel_parts (io_trace s) = panel_parts (io_trace t)" "io_panel_out s = io_panel_out t"
  using assms by (simp_all add: panel_part_def)

lemma panel_ok_cong: "panel_part s = panel_part t \<Longrightarrow> panel_ok s \<longleftrightarrow> panel_ok t"
  by (simp add: panel_ok_def panel_partD [of s t])

lemma panel_current_cong:
  fixes s t :: "'c ldd_io"
  assumes "panel_part s = panel_part t" "io_view s = io_view t" "io_panel_dirty s = io_panel_dirty t"
  shows "panel_current s \<longleftrightarrow> panel_current t"
  using assms by (simp add: panel_current_def panel_partD [of s t] shows_state_view [of s t])

lemma shows_is_frame: "shows_state f s \<Longrightarrow> is_frame f"
proof -
  let ?t = "\<lparr>io_iobase = io_iobase s, io_mmio = io_mmio s, io_mmiobase = io_mmiobase s, io_isairq = io_isairq s,
      io_data_out = io_data_out s, io_data_in = io_data_in s, io_status = io_status s, io_ctrl = io_ctrl s,
      io_matrix = io_matrix s, io_irq_pulses = io_irq_pulses s, io_panel_out = [], io_panel_watch = 0,
      io_panel_dirty = False, io_chr = (), io_trace = []\<rparr>"
  assume "shows_state f s"
  moreover have "ldd_io_build_panel ?t [] = ldd_io_build_panel s []" by (simp only: ldd_io_build_panel_def ldd_io.select_convs)
  ultimately have "shows_state f ?t" by (simp add: shows_state_def)
  then show ?thesis unfolding is_frame_def by blast
qed

lemma frames_of_snoc:
  assumes "frames_of taken [] fs" "is_frame f"
  shows "frames_of taken f (fs @ [f])"
  using assms by (auto simp: frames_of_def)

lemma frames_of_took: "frames_of taken rest fs \<Longrightarrow> frames_of (taken @ take n rest) (drop n rest) fs"
  by (auto simp: frames_of_def)

lemma frames_of_Nil [simp]: "frames_of [] [] []"
  by (simp add: frames_of_def)

text \<open>A property of the panel survives a flush if it survives each of its parts.\<close>

definition panel_stable :: "('c ldd_io \<Rightarrow> bool) \<Rightarrow> bool" where
  "panel_stable Q \<longleftrightarrow> (\<forall>s. Q s \<longrightarrow>
     (\<forall>c w. Q (s\<lparr>io_chr := c\<rparr>) \<and> Q (s\<lparr>io_panel_watch := w\<rparr>)) \<and>
     (io_panel_out s \<noteq> [] \<longrightarrow> Q (io_emit (PanelCut (io_panel_out s)) (s\<lparr>io_panel_out := []\<rparr>))) \<and>
     (\<forall>n. Q (io_emit (PanelTook (take n (io_panel_out s))) (s\<lparr>io_panel_out := drop n (io_panel_out s)\<rparr>))) \<and>
     (io_panel_out s = [] \<longrightarrow> io_panel_dirty s \<longrightarrow>
        Q (s\<lparr>io_panel_dirty := False, io_panel_out := ldd_io_build_panel s []\<rparr>)))"

lemma panel_stable_wait:
  assumes "panel_stable Q" "Q s" "io_panel_out s \<noteq> []"
  shows "Q (ldd_io_panel_wait E s)"
proof -
  have step: "Q (t\<lparr>io_chr := c\<rparr>)" "Q (t\<lparr>io_panel_watch := w\<rparr>)"
    "io_panel_out t \<noteq> [] \<Longrightarrow> Q (io_emit (PanelCut (io_panel_out t)) (t\<lparr>io_panel_out := []\<rparr>))" if "Q t" for t c w
    using assms(1) that unfolding panel_stable_def by blast+
  have "Q (s\<lparr>io_panel_watch := w, io_chr := c\<rparr>)" for w c using step(1) [OF step(2) [OF assms(2)]] .
  then show ?thesis
    using assms(2,3) step(3) [of "s\<lparr>io_panel_watch := w, io_chr := c\<rparr>" for w c] step(3) [of s]
    by (auto simp: ldd_io_panel_wait_def Let_def split: prod.split)
qed

lemma panel_stable_flush:
  assumes "panel_stable Q"
  shows "Q s \<Longrightarrow> Q (ldd_io_panel_flush E s)"
proof (induction E s rule: ldd_io_panel_flush.induct)
  case (1 E s)
  have step: "Q (t\<lparr>io_chr := c\<rparr>)"
    "io_panel_out t \<noteq> [] \<Longrightarrow> Q (io_emit (PanelCut (io_panel_out t)) (t\<lparr>io_panel_out := []\<rparr>))"
    "Q (io_emit (PanelTook (take n (io_panel_out t))) (t\<lparr>io_panel_out := drop n (io_panel_out t)\<rparr>))"
    "io_panel_out t = [] \<Longrightarrow> io_panel_dirty t \<Longrightarrow> Q (t\<lparr>io_panel_dirty := False, io_panel_out := ldd_io_build_panel t []\<rparr>)"
    if "Q t" for t c n using assms that unfolding panel_stable_def by blast+
  show ?case
  proof (cases "io_panel_out s = []")
    case True
    then show ?thesis using "1.prems" by (subst ldd_io_panel_flush.simps) simp
  next
    case out: False
    obtain r c where w: "chr_write E (io_chr s) (io_panel_out s) = (r, c)" by fastforce
    have q: "Q (s\<lparr>io_chr := c\<rparr>)" by (rule step(1)) (rule "1.prems")
    show ?thesis
    proof (cases "\<exists>n. r = Wrote n \<and> n \<noteq> 0")
      case True
      then obtain n where n: "r = Wrote n" "n \<noteq> 0" by blast
      define s1 where "s1 = io_emit (PanelTook (take n (io_panel_out s))) (s\<lparr>io_chr := c, io_panel_out := drop n (io_panel_out s)\<rparr>)"
      define s2 where "s2 = (if io_panel_out s1 = [] \<and> io_panel_dirty s1
          then s1\<lparr>io_panel_dirty := False, io_panel_out := ldd_io_build_panel s1 (io_panel_out s1)\<rparr> else s1)"
      have "Q s1" using step(3) [OF q, of n] by (simp add: s1_def)
      then have "Q s2" using step(4) [of s1] by (simp add: s2_def)
      then have "Q (ldd_io_panel_flush E s2)" using "1.IH" [OF out w [symmetric] n s1_def s2_def] by blast
      moreover have "ldd_io_panel_flush E s = ldd_io_panel_flush E s2"
        using out w n by (subst ldd_io_panel_flush.simps) (simp only: Let_def prod.case chr_result.case if_False s2_def s1_def)
      ultimately show ?thesis by simp
    next
      case False
      then show ?thesis
        using out w panel_stable_wait [OF assms q] step(2) [OF q]
        by (subst ldd_io_panel_flush.simps) (auto split: chr_result.split)
    qed
  qed
qed

lemma panel_ok_redraw:
  assumes "panel_ok s" "io_panel_out s = []" "shows_state f s"
  shows "panel_ok (s\<lparr>io_panel_dirty := d, io_panel_out := f\<rparr>)" "panel_ok (s\<lparr>io_panel_out := f\<rparr>)"
  using assms frames_of_snoc [OF _ shows_is_frame [OF assms(3)]] by (auto simp: panel_ok_def)

lemma panel_ok_stable: "panel_stable panel_ok"
  unfolding panel_stable_def
proof (intro allI impI conjI)
  fix s :: "'c ldd_io" and c w n
  assume ok: "panel_ok s"
  show "panel_ok (s\<lparr>io_chr := c\<rparr>)" "panel_ok (s\<lparr>io_panel_watch := w\<rparr>)"
    using ok by (simp_all add: panel_ok_cong [of "s\<lparr>io_chr := c\<rparr>" s] panel_ok_cong [of "s\<lparr>io_panel_watch := w\<rparr>" s])
  show "panel_ok (io_emit (PanelCut (io_panel_out s)) (s\<lparr>io_panel_out := []\<rparr>))" if "io_panel_out s \<noteq> []"
    using ok that by (auto simp: panel_ok_def panel_parts_snoc intro: exI [of _ "[]"])
  show "panel_ok (io_emit (PanelTook (take n (io_panel_out s))) (s\<lparr>io_panel_out := drop n (io_panel_out s)\<rparr>))"
    using ok frames_of_took by (fastforce simp: panel_ok_def panel_parts_snoc)
  show "panel_ok (s\<lparr>io_panel_dirty := False, io_panel_out := ldd_io_build_panel s []\<rparr>)"
    if "io_panel_out s = []" "io_panel_dirty s"
    by (rule panel_ok_redraw(1) [OF ok that(1)]) (simp add: shows_state_def)
qed

lemma panel_current_frame:
  assumes "frames_of (panel_taken s) [] fs" "shows_state f s"
  shows "panel_current (s\<lparr>io_panel_dirty := d, io_panel_out := f\<rparr>)" "panel_current (s\<lparr>io_panel_out := f\<rparr>)"
proof -
  have "frames_of (panel_taken s) f (fs @ [f])" using frames_of_snoc [OF assms(1) shows_is_frame [OF assms(2)]] .
  moreover have "shows_state f (s\<lparr>io_panel_dirty := d, io_panel_out := f\<rparr>)" "shows_state f (s\<lparr>io_panel_out := f\<rparr>)"
    using assms(2) shows_state_view [of "s\<lparr>io_panel_dirty := d, io_panel_out := f\<rparr>" s]
      shows_state_view [of "s\<lparr>io_panel_out := f\<rparr>" s] by simp_all
  ultimately show "panel_current (s\<lparr>io_panel_dirty := d, io_panel_out := f\<rparr>)" "panel_current (s\<lparr>io_panel_out := f\<rparr>)"
    unfolding panel_current_def by (auto intro!: exI [of _ "fs @ [f]"])
qed

lemma panel_current_stable: "panel_stable panel_current"
  unfolding panel_stable_def
proof (intro allI impI conjI)
  fix s :: "'c ldd_io" and c w n
  assume cur: "panel_current s"
  show "panel_current (s\<lparr>io_chr := c\<rparr>)" "panel_current (s\<lparr>io_panel_watch := w\<rparr>)"
    using cur by (simp_all add: panel_current_cong [of "s\<lparr>io_chr := c\<rparr>" s] panel_current_cong [of "s\<lparr>io_panel_watch := w\<rparr>" s])
  show "panel_current (io_emit (PanelCut (io_panel_out s)) (s\<lparr>io_panel_out := []\<rparr>))"
    by (auto simp: panel_current_def panel_parts_snoc intro!: exI [of _ "[]"])
  let ?t = "io_emit (PanelTook (take n (io_panel_out s))) (s\<lparr>io_panel_out := drop n (io_panel_out s)\<rparr>)"
  obtain fs where "frames_of (panel_taken s) (io_panel_out s) fs" "fs \<noteq> [] \<longrightarrow> \<not> io_panel_dirty s \<longrightarrow> shows_state (last fs) s"
    using cur by (auto simp: panel_current_def)
  then show "panel_current ?t"
    unfolding panel_current_def using frames_of_took [of "panel_taken s" "io_panel_out s" fs n] shows_state_view [of ?t s]
    by (intro exI [of _ fs]) (simp add: panel_parts_snoc)
  show "panel_current (s\<lparr>io_panel_dirty := False, io_panel_out := ldd_io_build_panel s []\<rparr>)" if "io_panel_out s = []"
    using cur that panel_current_frame(1) [of s _ "ldd_io_build_panel s []"] by (auto simp: panel_current_def shows_state_def)
qed

text \<open>Drawing: with a viewer it makes the panel current, without it changes nothing.\<close>

lemma panel_ok_draw: "panel_ok s \<Longrightarrow> panel_ok (ldd_io_draw_panel E s)"
  using panel_stable_flush [OF panel_ok_stable, of _ E] panel_ok_redraw(2) [of s "ldd_io_build_panel s []"]
    panel_ok_cong [of "s\<lparr>io_panel_dirty := True\<rparr>" s]
  by (auto simp: ldd_io_draw_panel_def shows_state_def)

lemma panel_current_draw:
  assumes "chr_connected E (io_chr s)" "panel_ok s"
  shows "panel_current (ldd_io_draw_panel E s)"
proof -
  obtain fs where fs: "frames_of (panel_taken s) (io_panel_out s) fs" using assms(2) by (auto simp: panel_ok_def)
  show ?thesis
  proof (cases "io_panel_out s = []")
    case True
    then have "panel_current (s\<lparr>io_panel_out := ldd_io_build_panel s []\<rparr>)"
      using fs panel_current_frame(2) [of s fs "ldd_io_build_panel s []"] by (simp add: shows_state_def)
    then show ?thesis
      using True assms(1) panel_stable_flush [OF panel_current_stable] by (simp add: ldd_io_draw_panel_def)
  next
    case False
    then show ?thesis using assms(1) fs by (auto simp: ldd_io_draw_panel_def panel_current_def)
  qed
qed

lemma panel_event_opened:
  assumes "panel_stable Q" "\<And>t. panel_part t = (([], []), []) \<Longrightarrow> Q (t\<lparr>io_panel_out := panel_clear @ ldd_io_build_panel t []\<rparr>)"
  shows "Q (ldd_io_panel_event E s CHR_EVENT_OPENED)"
proof -
  let ?d = "ldd_io_panel_drop s"
  have d: "panel_part ?d = (([], []), [])" by (simp add: panel_part_def ldd_io_panel_drop_def Let_def panel_parts_snoc)
  then have "panel_clear @ ldd_io_build_panel ?d [] = ldd_io_build_panel ?d (io_panel_out ?d @ esc @ ''[2J'' @ esc @ ''[?25l'')"
    using build_panel_append [of ?d panel_clear "[]"] by (simp add: panel_part_def panel_clear_def)
  then have "ldd_io_panel_event E s CHR_EVENT_OPENED =
      ldd_io_panel_flush E (?d\<lparr>io_panel_out := panel_clear @ ldd_io_build_panel ?d []\<rparr>)"
    by (simp only: ldd_io_panel_event_def chr_event.case Let_def)
  then show ?thesis using panel_stable_flush [OF assms(1) assms(2) [OF d]] by (simp only:)
qed

lemma panel_emptied: "panel_part s = (([], []), []) \<Longrightarrow> panel_ok s \<and> panel_current s"
  by (auto simp: panel_ok_def panel_current_def panel_part_def intro: exI [of _ "[]"])

lemma panel_opened: "panel_ok (ldd_io_panel_event E s CHR_EVENT_OPENED) \<and> panel_current (ldd_io_panel_event E s CHR_EVENT_OPENED)"
proof (intro conjI)
  show "panel_ok (ldd_io_panel_event E s CHR_EVENT_OPENED)"
  proof (rule panel_event_opened [OF panel_ok_stable])
    fix t :: "'a ldd_io"
    assume t: "panel_part t = (([], []), [])"
    then show "panel_ok (t\<lparr>io_panel_out := panel_clear @ ldd_io_build_panel t []\<rparr>)"
      using panel_ok_redraw(2) [of t] panel_emptied [OF t] by (simp add: shows_state_def panel_part_def)
  qed
  show "panel_current (ldd_io_panel_event E s CHR_EVENT_OPENED)"
  proof (rule panel_event_opened [OF panel_current_stable])
    fix t :: "'a ldd_io"
    assume "panel_part t = (([], []), [])"
    then show "panel_current (t\<lparr>io_panel_out := panel_clear @ ldd_io_build_panel t []\<rparr>)"
      using panel_current_frame(2) [of t "[]"] by (simp add: shows_state_def panel_part_def)
  qed
qed

lemma panel_dropped: "panel_ok (ldd_io_panel_drop s) \<and> panel_current (ldd_io_panel_drop s)"
  by (rule panel_emptied) (simp add: panel_part_def ldd_io_panel_drop_def Let_def panel_parts_snoc)

lemma panel_event_ok: "panel_ok s \<Longrightarrow> panel_ok (ldd_io_panel_event E s ev)"
  and panel_event_current: "panel_current s \<Longrightarrow> panel_current (ldd_io_panel_event E s ev)"
  using panel_opened [of E s] panel_dropped [of s] by (cases ev; simp add: ldd_io_panel_event_def)+

lemma panel_writable_ok: "panel_ok s \<Longrightarrow> panel_ok (ldd_io_panel_writable E s)"
  and panel_writable_current: "panel_current s \<Longrightarrow> panel_current (ldd_io_panel_writable E s)"
  unfolding ldd_io_panel_writable_def
  using panel_stable_flush [OF panel_ok_stable, of "s\<lparr>io_panel_watch := 0\<rparr>"] panel_ok_cong [of "s\<lparr>io_panel_watch := 0\<rparr>" s]
    panel_stable_flush [OF panel_current_stable, of "s\<lparr>io_panel_watch := 0\<rparr>"] panel_current_cong [of "s\<lparr>io_panel_watch := 0\<rparr>" s]
  by simp_all

text \<open>A step of the device draws a state with other registers, or is one of the panel.\<close>

lemma io_life_panel:
  assumes "io_life E s s'"
  obtains t where "s' = ldd_io_draw_panel E t" "panel_part t = panel_part s" "io_chr t = io_chr s"
  | "s' = io_emit GuestError s"
  | ev where "s' = ldd_io_panel_event E s ev"
  | "s' = ldd_io_panel_writable E s"
  using assms unfolding io_life_def
proof (elim disjE)
  assume "io_step E s s'"
  then show thesis
  proof (cases rule: io_step.cases)
    case (io_guest_write addr sz data)
    then show thesis
      using that(1) [of "s\<lparr>io_matrix := m\<rparr>" for m] that(1) [of "io_write_data s (ucast data)"] that(1) [of "io_write_status s (ucast data)"]
        that(1) [of "io_write_ctrl s (ucast data)"] that(2)
      by (auto simp: ldd_io_write_def io_chr_regs split: if_splits)
  next
    case (io_keyboard b)
    then show thesis using that(1) [of "ldd_io_receive_byte s b"] by (simp add: ldd_io_keyboard_receive_def io_chr_regs)
  qed (use that(3,4) in auto)
next
  assume "s' = ldd_io_reset_exit E (ldd_io_reset_enter s)"
  then show thesis
    using that(1) [of "io_emit AcceptInput (ldd_io_reset_enter s)"] by (simp add: ldd_io_reset_exit_def io_chr_regs)
qed

lemma panel_ok_life: "io_life E s s' \<Longrightarrow> panel_ok s \<Longrightarrow> panel_ok s'"
  by (elim io_life_panel)
    (auto intro: panel_ok_draw panel_event_ok panel_writable_ok simp: panel_ok_cong [of "io_emit GuestError s" s]
      dest: panel_ok_cong)

lemma panel_current_viewed:
  assumes "io_viewed E s s'" "panel_ok s" "panel_current s"
  shows "panel_current s'"
proof -
  have life: "io_life E s s'" and conn: "chr_connected E (io_chr s)" using assms(1) by (simp_all add: io_viewed_def)
  show ?thesis
    using life
  proof (cases rule: io_life_panel)
    case (1 t)
    then show ?thesis using conn panel_current_draw [of E t] panel_ok_cong [of t s] assms(2) by simp
  next
    case 2
    then show ?thesis using assms(3) panel_current_cong [of "io_emit GuestError s" s] by simp
  qed (use assms(3) panel_event_current panel_writable_current in auto)
qed

subsection \<open>Properties\<close>

text \<open>
  C1: The interrupt of the device is edge-triggered on "a byte is ready and interrupts are
  enabled". In every step of a device in a well-formed state (a register write of the guest, a
  key, a panel event or wakeup) exactly one pulse is sent and counted if that condition becomes
  true, and none otherwise; and a received byte stays in DATA until the guest acknowledges it.
\<close>

theorem io_interrupt_on_rising_edge:
  assumes "io_wf s" and "io_step E s s'"
  shows "io_irq_pulses s' = io_irq_pulses s + of_bool (io_irq_level s' \<and> \<not> io_irq_level s) \<and>
    pulses_sent s' = pulses_sent s + of_bool (io_irq_level s' \<and> \<not> io_irq_level s) \<and>
    (rx_ready s \<longrightarrow> io_data_in s' = io_data_in s)"
  using io_step_ok [OF assms(2,1)] by (simp add: io_ok_change_def io_edge_def)

theorem io_interrupt_on_rising_edge_witness:
  "io_step demo_chr demo_io (ldd_io_draw_panel demo_chr (ldd_io_receive_byte demo_io 65)) \<and>
   pulses_sent (ldd_io_draw_panel demo_chr (ldd_io_receive_byte demo_io 65)) = 1"
proof -
  let ?t = "ldd_io_draw_panel demo_chr (ldd_io_receive_byte demo_io 65)"
  have step: "io_step demo_chr demo_io ?t"
    by (rule io_keyboard [where b = 65])
      (simp_all add: demo_io_def ldd_io_properties_def ldd_io_keyboard_can_receive_def
        ldd_io_keyboard_receive_def io_consts has_flag_def)
  have "io_irq_level ?t" "\<not> io_irq_level demo_io" "pulses_sent demo_io = 0"
    by (simp_all add: io_irq_level_def io_view_drawn ldd_io_receive_byte_def ldd_io_pulse_def
        demo_io_def ldd_io_properties_def io_consts has_flag_def pulses_sent_def)
  then show ?thesis
    using step io_interrupt_on_rising_edge [OF demo_io_wf step] by simp
qed

text \<open>
  Memory safety of the register window. However the device got where it is from a reset,
  every access the memory core dispatches (inside the 16 bytes, of size 1, 2, 4 or 8, accepted
  by \<open>ldd_io_accepts\<close>) reads and writes inside the matrix, and the reserved bits of STATUS and
  CTRL are zero.
\<close>

lemma io_dispatched_access_is_safe:
  assumes "(io_step E)\<^sup>*\<^sup>* (ldd_io_reset_enter s0) s" and "io_dispatched addr sz"
  shows "io_wf s \<and> ldd_io_read s addr sz \<noteq> None \<and> (\<forall>data. ldd_io_write E s addr data sz \<noteq> None)"
proof -
  have "io_wf s" using assms(1)
  proof (induction rule: rtranclp_induct)
    case base
    show ?case by (simp add: io_wf_def ldd_io_reset_enter_def)
  next
    case (step t u)
    then show ?case using io_step_ok by (auto simp: io_ok_change_def)
  qed
  then show ?thesis
    using assms(2) ldd_io_write_matrix [of s addr sz E] ldd_io_read_matrix [of s addr sz]
    by (cases "LDD_IO_MATRIX \<le> addr") (auto simp: io_wf_def ldd_io_write_def ldd_io_read_def)
qed

lemma io_dispatched_access_is_safe_witness:
  "io_dispatched 12 4 \<and> ldd_io_read (ldd_io_reset_enter demo_io) 12 4 \<noteq> None"
proof -
  have "io_dispatched 12 4" by (simp add: io_dispatched_def ldd_io_accepts_def io_consts)
  then show ?thesis
    using io_dispatched_access_is_safe [of demo_chr demo_io "ldd_io_reset_enter demo_io" 12 4] by simp
qed

text \<open>
  The LED matrix is memory. A dispatched write of 1, 2, 4 or 8 bytes succeeds, the same
  access then reads back the bytes written, little endian, and rows outside it keep their value.
\<close>

lemma io_matrix_write_read:
  assumes "io_wf s" and "io_dispatched addr sz" and "LDD_IO_MATRIX \<le> addr"
  shows "\<exists>s'. ldd_io_write E s addr data sz = Some s' \<and>
    ldd_io_read s' addr sz = Some (take_bit (8 * unat sz) data) \<and>
    (\<forall>r < LDD_IO_MATRIX_ROWS. r < unat (addr - LDD_IO_MATRIX) \<or> unat (addr - LDD_IO_MATRIX) + unat sz \<le> r
       \<longrightarrow> io_matrix s' ! r = io_matrix s ! r)"
proof -
  let ?base = "unat (addr - LDD_IO_MATRIX)"
  let ?m = "mem_put ?base (le_bytes (unat sz) data) (io_matrix s)"
  let ?s = "ldd_io_draw_panel E (s\<lparr>io_matrix := ?m\<rparr>)"
  have bound: "?base + unat sz \<le> length (io_matrix s)"
    using io_dispatched_in_matrix(1) [OF assms(2,3)] assms(1) by (simp add: io_wf_def)
  have m: "io_matrix ?s = ?m" by (simp add: io_view_drawn)
  have len: "length ?m = LDD_IO_MATRIX_ROWS"
    using bound assms(1) by (simp add: length_mem_put io_wf_def)
  have "mem_get ?base (unat sz) ?m = le_bytes (unat sz) data"
    using bound mem_get_mem_put [of ?base "le_bytes (unat sz) data" "io_matrix s"] by simp
  then have "ldd_io_read ?s addr sz = Some (take_bit (8 * unat sz) data)"
    using ldd_io_read_matrix [of ?s addr sz] assms(2,3) len by (simp add: m le_word_le_bytes)
  moreover have "io_matrix ?s ! r = io_matrix s ! r"
    if "r < LDD_IO_MATRIX_ROWS" "r < ?base \<or> ?base + unat sz \<le> r" for r
    using that bound assms(1) by (auto simp: m nth_mem_put io_wf_def)
  ultimately show ?thesis using ldd_io_write_matrix [OF assms, of E data] by blast
qed

lemma io_matrix_write_read_witness:
  "\<exists>s'. ldd_io_write demo_chr demo_io 10 0x1234 2 = Some s' \<and> ldd_io_read s' 10 2 = Some 0x1234"
proof -
  have "io_dispatched 10 2" "LDD_IO_MATRIX \<le> 10"
    by (simp_all add: io_dispatched_def ldd_io_accepts_def io_consts)
  then show ?thesis
    using io_matrix_write_read [OF demo_io_wf, of 10 2 demo_chr "0x1234"] by auto
qed

text \<open>
  C2: What the panel sends, from the creation of the device on, whatever happens to it and however
  little the character device takes at a time: what a viewer has taken is a sequence of whole
  frames, broken only where a write failed or could not be waited for; there only the frame that was
  being sent is cut, and what follows starts with a new one. From the moment a viewer opens the panel, as long
  as it stays connected, the last frame sent or queued shows the current registers, unless a redraw is
  already due or nothing was sent since a cut.
\<close>

theorem io_panel_whole_and_current:
  assumes "ldd_io_realize nirq mrfind p = Inr s0" and "io_trace p = []" and "(io_life E)\<^sup>*\<^sup>* s0 s"
  shows "panel_ok s \<and> (\<forall>s'. (io_viewed E)\<^sup>*\<^sup>* (ldd_io_panel_event E s CHR_EVENT_OPENED) s' \<longrightarrow> panel_current s')"
proof -
  have "panel_part s0 = (([], []), [])"
    using assms(1,2) by (auto simp: ldd_io_realize_def panel_part_def panel_parts_def Let_def split: if_splits option.splits)
  then have "panel_ok s0" using panel_emptied by blast
  with assms(3) have ok: "panel_ok s" by (induction rule: rtranclp_induct) (auto intro: panel_ok_life)
  have "panel_ok s' \<and> panel_current s'" if "(io_viewed E)\<^sup>*\<^sup>* (ldd_io_panel_event E s CHR_EVENT_OPENED) s'" for s'
    using that
  proof (induction rule: rtranclp_induct)
    case base
    show ?case by (rule panel_opened)
  next
    case (step t u)
    then show ?case using panel_current_viewed panel_ok_life by (auto simp: io_viewed_def)
  qed
  then show ?thesis using ok by blast
qed

theorem io_panel_whole_and_current_witness:
  "\<exists>s0. ldd_io_realize 16 (\<lambda>a n. None) (ldd_io_properties ()) = Inr s0 \<and>
     panel_current (ldd_io_draw_panel demo_chr (ldd_io_receive_byte (ldd_io_panel_event demo_chr s0 CHR_EVENT_OPENED) 65))"
proof -
  let ?p = "ldd_io_properties () :: unit ldd_io"
  obtain s0 where s0: "ldd_io_realize 16 (\<lambda>a n. None) ?p = Inr s0"
    by (simp add: ldd_io_realize_def ldd_io_properties_def io_consts Let_def)
  let ?s = "ldd_io_panel_event demo_chr s0 CHR_EVENT_OPENED"
  let ?t = "ldd_io_draw_panel demo_chr (ldd_io_receive_byte ?s 65)"
  have v: "io_view s0 = io_view (io_emit HandlersSet s0)" by simp
  have reg: "io_status s0 = 0" "io_ctrl s0 = 0"
    using s0 by (auto simp: ldd_io_realize_def ldd_io_properties_def io_consts Let_def split: if_splits)
  have "io_status ?s = 0" "io_ctrl ?s = 0" using io_view_eqD [OF io_view_panel_event [of demo_chr s0 CHR_EVENT_OPENED]] reg by simp_all
  then have "io_step demo_chr ?s ?t"
    by (intro io_keyboard [where b = 65]) (simp_all add: ldd_io_keyboard_can_receive_def ldd_io_keyboard_receive_def has_flag_def)
  then have "(io_viewed demo_chr)\<^sup>*\<^sup>* ?s ?t" by (intro r_into_rtranclp) (simp add: io_viewed_def io_life_def demo_chr_def)
  then have "panel_current ?t"
    using io_panel_whole_and_current [OF s0 _ rtranclp.rtrancl_refl, where E = demo_chr] by (simp add: ldd_io_properties_def)
  then show ?thesis using s0 by blast
qed

text \<open>
  So a frame can be cut although the viewer stays connected: one that takes a byte and
  then fails once has been sent the first byte of an escape sequence, and the next frame will follow it. The
  comment above \<open>ldd_io_panel_flush\<close> says that a frame is always sent whole.
\<close>

definition failing_chr :: "nat chr_ops" where
  "failing_chr = \<lparr>chr_write = (\<lambda>c x. (if c = 0 then Wrote 1 else if c = 1 then WrError else Wrote (length x), Suc c)),
     chr_connected = (\<lambda>c. True), chr_add_watch = (\<lambda>c. (0, c))\<rparr>"

lemma io_frame_cut:
  "\<exists>s lost. s = ldd_io_panel_event failing_chr (ldd_io_properties 0) CHR_EVENT_OPENED \<and> lost \<noteq> [] \<and>
     panel_parts (io_trace s) = ([([CHR 0x1B], lost)], [])"
proof -
  let ?d = "ldd_io_panel_drop (ldd_io_properties 0 :: nat ldd_io)"
  have out: "ldd_io_build_panel ?d (io_panel_out ?d @ esc @ ''[2J'' @ esc @ ''[?25l'') =
      CHR 0x1B # CHR ''['' # ''2J'' @ esc @ ''[?25l'' @ ldd_io_build_panel ?d []"
    using build_panel_append [of ?d "esc @ ''[2J'' @ esc @ ''[?25l''" "[]"]
    by (simp add: ldd_io_panel_drop_def ldd_io_properties_def Let_def esc_def)
  have chr: "io_chr ?d = 0" "io_trace ?d = [PanelReset]" "\<not> io_panel_dirty ?d"
    by (simp_all add: ldd_io_panel_drop_def ldd_io_properties_def Let_def)
  show ?thesis
    unfolding ldd_io_panel_event_def chr_event.case Let_def out
    by (subst ldd_io_panel_flush.simps, simp add: failing_chr_def chr Let_def,
        subst ldd_io_panel_flush.simps, simp add: chr panel_parts_def)
qed

end
