(* ===== verification/LDD_PCIE.thy ===== *)
theory LDD_PCIE
  imports LDD_Prelude
begin

section \<open>The ldd-pcie device (tools/qemu/hw/ldd/pcie.c)\<close>

text \<open>
  The emulated PCIe device: 32-bit registers in BAR 0, 1 MiB of on-board memory in BAR 2, a
  scatter-gather DMA engine whose completion is delayed by a timer, and interrupts by MSI-X, MSI
  or INTx. The state is \<open>struct LDDPCIEState\<close>: the command-line properties, the registers
  (cleared as one block by a reset), the memory, the timer's deadline, and of the parent
  \<open>PCIDevice\<close> what the code reads or drives (the bus-master bit, which interrupt mode is
  enabled, the INTx line and the messages sent). The memory on the other side of the bus, with
  \<open>pci_dma_read\<close> and \<open>pci_dma_write\<close>, is QEMU's: a parameter \<open>dma_bus\<close> over a state of
  any type. Log messages and the dirty bitmap of migration are not modelled.
\<close>

subsection \<open>State\<close>

record ldd_regs =
  r_scratch :: "32 word"
  r_status :: "32 word"
  r_int_status :: "32 word"
  r_int_mask :: "32 word"
  r_desc_addr :: "64 word"
  r_desc_count :: "32 word"
  r_dev_offset :: "32 word"
  r_dma_ctrl :: "32 word"
  r_xfer_bytes :: "32 word"
  r_err_desc :: "32 word"
  r_xor :: "32 word"
  r_irq_sent :: "32 word"
  r_result :: "32 word"

datatype irq_msg = MsixNotify nat | MsiNotify nat

record 'g ldd_pcie =
  ps_dma64 :: bool
  ps_max_seg :: "32 word"
  ps_max_desc :: "32 word"
  ps_latency_us :: "32 word"
  ps_regs :: ldd_regs
  ps_bar2 :: "byte list"
  ps_timer :: "int option"
  ps_master :: bool
  ps_msix :: bool
  ps_msi :: bool
  ps_intx :: bool
  ps_msgs :: "irq_msg list"
  ps_guest :: 'g

text \<open>A read yields whether it succeeded and what the destination holds afterwards.\<close>

record 'g dma_bus =
  bus_read :: "'g \<Rightarrow> 64 word \<Rightarrow> nat \<Rightarrow> bool \<times> byte list"
  bus_write :: "'g \<Rightarrow> 64 word \<Rightarrow> byte list \<Rightarrow> bool \<times> 'g"

record ldd_desc =
  d_addr :: "64 word"
  d_len :: "32 word"
  d_flags :: "32 word"

definition regs_zero :: ldd_regs where
  "regs_zero = \<lparr>r_scratch = 0, r_status = 0, r_int_status = 0, r_int_mask = 0, r_desc_addr = 0,
     r_desc_count = 0, r_dev_offset = 0, r_dma_ctrl = 0, r_xfer_bytes = 0, r_err_desc = 0,
     r_xor = 0, r_irq_sent = 0, r_result = 0\<rparr>"

definition LDD_REG_ID :: "64 word" where "LDD_REG_ID = 0x00"
definition LDD_REG_VERSION :: "64 word" where "LDD_REG_VERSION = 0x04"
definition LDD_REG_CAPS :: "64 word" where "LDD_REG_CAPS = 0x08"
definition LDD_REG_SCRATCH :: "64 word" where "LDD_REG_SCRATCH = 0x0c"
definition LDD_REG_CTRL :: "64 word" where "LDD_REG_CTRL = 0x10"
definition LDD_REG_STATUS :: "64 word" where "LDD_REG_STATUS = 0x14"
definition LDD_REG_INT_STATUS :: "64 word" where "LDD_REG_INT_STATUS = 0x18"
definition LDD_REG_INT_MASK :: "64 word" where "LDD_REG_INT_MASK = 0x1c"
definition LDD_REG_INT_RAISE :: "64 word" where "LDD_REG_INT_RAISE = 0x20"
definition LDD_REG_MAX_SEG :: "64 word" where "LDD_REG_MAX_SEG = 0x24"
definition LDD_REG_MAX_DESC :: "64 word" where "LDD_REG_MAX_DESC = 0x28"
definition LDD_REG_DESC_ADDR_LO :: "64 word" where "LDD_REG_DESC_ADDR_LO = 0x40"
definition LDD_REG_DESC_ADDR_HI :: "64 word" where "LDD_REG_DESC_ADDR_HI = 0x44"
definition LDD_REG_DESC_COUNT :: "64 word" where "LDD_REG_DESC_COUNT = 0x48"
definition LDD_REG_DEV_OFFSET :: "64 word" where "LDD_REG_DEV_OFFSET = 0x4c"
definition LDD_REG_DMA_CTRL :: "64 word" where "LDD_REG_DMA_CTRL = 0x50"
definition LDD_REG_XFER_BYTES :: "64 word" where "LDD_REG_XFER_BYTES = 0x54"
definition LDD_REG_ERR_DESC :: "64 word" where "LDD_REG_ERR_DESC = 0x58"
definition LDD_REG_XOR :: "64 word" where "LDD_REG_XOR = 0x5c"

lemmas ldd_reg_consts = LDD_REG_ID_def LDD_REG_VERSION_def LDD_REG_CAPS_def LDD_REG_SCRATCH_def
  LDD_REG_CTRL_def LDD_REG_STATUS_def LDD_REG_INT_STATUS_def LDD_REG_INT_MASK_def
  LDD_REG_INT_RAISE_def LDD_REG_MAX_SEG_def LDD_REG_MAX_DESC_def LDD_REG_DESC_ADDR_LO_def
  LDD_REG_DESC_ADDR_HI_def LDD_REG_DESC_COUNT_def LDD_REG_DEV_OFFSET_def LDD_REG_DMA_CTRL_def
  LDD_REG_XFER_BYTES_def LDD_REG_ERR_DESC_def LDD_REG_XOR_def

definition LDD_ID :: "64 word" where "LDD_ID = 0x4c444450"
definition LDD_VERSION :: "64 word" where "LDD_VERSION = 0x00010000"
definition LDD_CAPS_DMA64 :: "64 word" where "LDD_CAPS_DMA64 = 1"
definition LDD_CTRL_RESET :: "64 word" where "LDD_CTRL_RESET = 1"
definition LDD_STATUS_BUSY :: "32 word" where "LDD_STATUS_BUSY = 1"
definition LDD_STATUS_DONE :: "32 word" where "LDD_STATUS_DONE = 2"
definition LDD_STATUS_ERROR :: "32 word" where "LDD_STATUS_ERROR = 4"
definition LDD_STATUS_ERR_CODE_SHIFT :: nat where "LDD_STATUS_ERR_CODE_SHIFT = 8"
definition LDD_ERR_NO_MASTER :: "32 word" where "LDD_ERR_NO_MASTER = 1"
definition LDD_ERR_BAD_COUNT :: "32 word" where "LDD_ERR_BAD_COUNT = 2"
definition LDD_ERR_BAD_DESC :: "32 word" where "LDD_ERR_BAD_DESC = 3"
definition LDD_ERR_OUT_OF_RANGE :: "32 word" where "LDD_ERR_OUT_OF_RANGE = 4"
definition LDD_ERR_DMA_FAULT :: "32 word" where "LDD_ERR_DMA_FAULT = 5"
definition LDD_INT_DMA_DONE :: "32 word" where "LDD_INT_DMA_DONE = 1"
definition LDD_INT_DMA_ERROR :: "32 word" where "LDD_INT_DMA_ERROR = 2"
definition LDD_INT_SOFT :: "32 word" where "LDD_INT_SOFT = 4"
definition LDD_INT_ALL :: "32 word" where
  "LDD_INT_ALL = LDD_INT_DMA_DONE OR LDD_INT_DMA_ERROR OR LDD_INT_SOFT"
definition LDD_MSIX_VECTORS :: nat where "LDD_MSIX_VECTORS = 3"
definition LDD_DMA_CTRL_DIR :: "32 word" where "LDD_DMA_CTRL_DIR = 1"
definition LDD_DMA_CTRL_START :: "64 word" where "LDD_DMA_CTRL_START = 2"
definition LDD_DESC_ADDR_ALIGN :: "64 word" where "LDD_DESC_ADDR_ALIGN = 16"
definition LDD_MEM_SIZE :: nat where "LDD_MEM_SIZE = 1048576"
definition sizeof_desc :: nat where "sizeof_desc = 16"

lemmas ldd_bit_consts = LDD_ID_def LDD_VERSION_def LDD_CAPS_DMA64_def LDD_CTRL_RESET_def
  LDD_STATUS_BUSY_def LDD_STATUS_DONE_def LDD_STATUS_ERROR_def LDD_STATUS_ERR_CODE_SHIFT_def
  LDD_INT_DMA_DONE_def LDD_INT_DMA_ERROR_def LDD_INT_SOFT_def LDD_INT_ALL_def
  LDD_DMA_CTRL_DIR_def LDD_DMA_CTRL_START_def LDD_DESC_ADDR_ALIGN_def

lemmas ldd_err_consts = LDD_ERR_NO_MASTER_def LDD_ERR_BAD_COUNT_def LDD_ERR_BAD_DESC_def
  LDD_ERR_OUT_OF_RANGE_def LDD_ERR_DMA_FAULT_def

abbreviation upd_regs :: "(ldd_regs \<Rightarrow> ldd_regs) \<Rightarrow> 'g ldd_pcie \<Rightarrow> 'g ldd_pcie" where
  "upd_regs f ps \<equiv> ps\<lparr>ps_regs := f (ps_regs ps)\<rparr>"

subsection \<open>Interrupts and reset\<close>

definition ldd_pcie_update_irq :: "'g ldd_pcie \<Rightarrow> 'g ldd_pcie" where
  "ldd_pcie_update_irq ps =
     (let pending = r_int_status (ps_regs ps) AND r_int_mask (ps_regs ps);
          new = pending AND NOT (r_irq_sent (ps_regs ps));
          ps1 = (if ps_msix ps
                 then ps\<lparr>ps_intx := False,
                         ps_msgs := ps_msgs ps @ map MsixNotify (filter (\<lambda>i. bit new i) [0..<LDD_MSIX_VECTORS])\<rparr>
                 else if ps_msi ps
                 then ps\<lparr>ps_intx := False,
                         ps_msgs := ps_msgs ps @ (if new \<noteq> 0 then [MsiNotify 0] else [])\<rparr>
                 else ps\<lparr>ps_intx := pending \<noteq> 0\<rparr>)
      in ps1\<lparr>ps_regs := (ps_regs ps1)\<lparr>r_irq_sent := pending\<rparr>\<rparr>)"

definition ldd_pcie_reset :: "'g ldd_pcie \<Rightarrow> 'g ldd_pcie" where
  "ldd_pcie_reset ps = ps\<lparr>ps_timer := None, ps_regs := regs_zero, ps_intx := False\<rparr>"

subsection \<open>The DMA engine\<close>

text \<open>The sum is of type \<open>uint64_t\<close>.\<close>

definition ldd_pcie_dma_ok :: "'g ldd_pcie \<Rightarrow> 64 word \<Rightarrow> 64 word \<Rightarrow> bool" where
  "ldd_pcie_dma_ok ps addr len \<longleftrightarrow> ps_dma64 ps \<or> addr + len \<le> 4 * 0x40000000"

text \<open>\<open>struct LDDPCIEDesc\<close>, little endian, packed: entry \<open>i\<close> of the table just read.\<close>

definition desc_at :: "byte list \<Rightarrow> nat \<Rightarrow> ldd_desc" where
  "desc_at table i =
     \<lparr>d_addr = le_word (mem_get (sizeof_desc * i) 8 table),
      d_len = le_word (mem_get (sizeof_desc * i + 8) 4 table),
      d_flags = le_word (mem_get (sizeof_desc * i + 12) 4 table)\<rparr>"

definition desc_bad :: "'g ldd_pcie \<Rightarrow> ldd_desc \<Rightarrow> bool" where
  "desc_bad ps d \<longleftrightarrow> d_len d = 0 \<or> d_len d > ps_max_seg ps \<or> d_flags d \<noteq> 0"

text \<open>The checking loop: \<open>Inl i\<close> if descriptor \<open>i\<close> is bad, else the sum of the lengths.\<close>

fun desc_check :: "'g ldd_pcie \<Rightarrow> ldd_desc list \<Rightarrow> 32 word \<Rightarrow> 64 word \<Rightarrow> 32 word + 64 word" where
  "desc_check ps [] i tot = Inr tot"
| "desc_check ps (d # ds) i tot =
     (if desc_bad ps d then Inl i else desc_check ps ds (i + 1) (tot + ucast (d_len d)))"

text \<open>
  The copying loop, from descriptor \<open>i\<close> and memory offset \<open>off\<close> on; one descriptor first,
  with whether its access succeeded.
\<close>

definition desc_copy_one ::
  "'g dma_bus \<Rightarrow> bool \<Rightarrow> ldd_desc \<Rightarrow> 32 word \<Rightarrow> 'g ldd_pcie \<Rightarrow> bool \<times> 'g ldd_pcie" where
  "desc_copy_one B to_guest d off ps =
     (let addr = d_addr d;
          len = d_len d;
          mem = mem_get (unat off) (unat len) (ps_bar2 ps);
          xor = ucast (r_xor (ps_regs ps)) :: byte
      in if \<not> ldd_pcie_dma_ok ps addr (ucast len) then (False, ps)
         else if to_guest \<and> r_xor (ps_regs ps) \<noteq> 0
         then (case bus_write B (ps_guest ps) addr (map (\<lambda>b. b XOR xor) mem) of
                 (ok, g) \<Rightarrow> (ok, ps\<lparr>ps_guest := g\<rparr>))
         else if to_guest
         then (case bus_write B (ps_guest ps) addr mem of (ok, g) \<Rightarrow> (ok, ps\<lparr>ps_guest := g\<rparr>))
         else (case bus_read B (ps_guest ps) addr (unat len) of
                 (ok, bs) \<Rightarrow> (ok, ps\<lparr>ps_bar2 := mem_put (unat off) bs (ps_bar2 ps)\<rparr>)))"

fun desc_copy ::
  "'g dma_bus \<Rightarrow> bool \<Rightarrow> ldd_desc list \<Rightarrow> 32 word \<Rightarrow> 32 word \<Rightarrow> 'g ldd_pcie \<Rightarrow> 32 word \<times> 'g ldd_pcie" where
  "desc_copy B to_guest [] i off ps = (0, ps)"
| "desc_copy B to_guest (d # ds) i off ps =
     (case desc_copy_one B to_guest d off ps of
        (False, ps1) \<Rightarrow> (LDD_ERR_DMA_FAULT, upd_regs (\<lambda>r. r\<lparr>r_err_desc := i\<rparr>) ps1)
      | (True, ps1) \<Rightarrow>
          desc_copy B to_guest ds (i + 1) (off + d_len d)
            (upd_regs (\<lambda>r. r\<lparr>r_xfer_bytes := r_xfer_bytes r + d_len d\<rparr>) ps1))"

definition ldd_pcie_transfer :: "'g dma_bus \<Rightarrow> 'g ldd_pcie \<Rightarrow> 32 word \<times> 'g ldd_pcie" where
  "ldd_pcie_transfer B ps =
     (let to_guest = has_flag (r_dma_ctrl (ps_regs ps)) LDD_DMA_CTRL_DIR;
          count = r_desc_count (ps_regs ps);
          desc_addr = r_desc_addr (ps_regs ps);
          dev_offset = r_dev_offset (ps_regs ps);
          bytes = unat count * sizeof_desc
      in if \<not> ps_master ps then (LDD_ERR_NO_MASTER, ps)
         else if count = 0 \<or> count > ps_max_desc ps then (LDD_ERR_BAD_COUNT, ps)
         else if \<not> ldd_pcie_dma_ok ps desc_addr (of_nat bytes) then (LDD_ERR_DMA_FAULT, ps)
         else case bus_read B (ps_guest ps) desc_addr bytes of
                (False, _) \<Rightarrow> (LDD_ERR_DMA_FAULT, ps)
              | (True, table) \<Rightarrow>
                  let descs = map (desc_at table) [0..<unat count]
                  in case desc_check ps descs 0 0 of
                       Inl i \<Rightarrow> (LDD_ERR_BAD_DESC, upd_regs (\<lambda>r. r\<lparr>r_err_desc := i\<rparr>) ps)
                     | Inr tot \<Rightarrow>
                         if unat dev_offset > LDD_MEM_SIZE \<or>
                            unat tot > LDD_MEM_SIZE - unat dev_offset
                         then (LDD_ERR_OUT_OF_RANGE, ps)
                         else desc_copy B to_guest descs 0 dev_offset ps)"

text \<open>\<open>now\<close> is the virtual clock in microseconds.\<close>

definition ldd_pcie_start :: "'g dma_bus \<Rightarrow> int \<Rightarrow> 'g ldd_pcie \<Rightarrow> 'g ldd_pcie" where
  "ldd_pcie_start B now ps =
     (let ps1 = upd_regs (\<lambda>r. r\<lparr>r_status := LDD_STATUS_BUSY, r_xfer_bytes := 0, r_err_desc := 0\<rparr>) ps;
          (res, ps2) = ldd_pcie_transfer B ps1;
          ps3 = upd_regs (\<lambda>r. r\<lparr>r_result := res\<rparr>) ps2
      in ps3\<lparr>ps_timer := Some (now + uint (ps_latency_us ps3))\<rparr>)"

definition ldd_pcie_complete :: "'g ldd_pcie \<Rightarrow> 'g ldd_pcie" where
  "ldd_pcie_complete ps =
     ldd_pcie_update_irq
       (if r_result (ps_regs ps) \<noteq> 0
        then upd_regs (\<lambda>r. r\<lparr>r_status := LDD_STATUS_ERROR OR
                                push_bit LDD_STATUS_ERR_CODE_SHIFT (r_result r),
                             r_int_status := r_int_status r OR LDD_INT_DMA_ERROR\<rparr>) ps
        else upd_regs (\<lambda>r. r\<lparr>r_status := LDD_STATUS_DONE,
                             r_int_status := r_int_status r OR LDD_INT_DMA_DONE\<rparr>) ps)"

subsection \<open>Register accesses\<close>

text \<open>QEMU's bit-field helpers.\<close>

definition extract64 :: "64 word \<Rightarrow> nat \<Rightarrow> nat \<Rightarrow> 64 word" where
  "extract64 v start len = take_bit len (drop_bit start v)"

definition deposit64 :: "64 word \<Rightarrow> nat \<Rightarrow> nat \<Rightarrow> 64 word \<Rightarrow> 64 word" where
  "deposit64 v start len field =
     (v AND NOT (push_bit start (mask len))) OR (push_bit start field AND push_bit start (mask len))"

definition ldd_pcie_bar0_read :: "'g ldd_pcie \<Rightarrow> 64 word \<Rightarrow> 64 word" where
  "ldd_pcie_bar0_read ps addr =
     (if addr = LDD_REG_ID then LDD_ID
      else if addr = LDD_REG_VERSION then LDD_VERSION
      else if addr = LDD_REG_CAPS then (if ps_dma64 ps then LDD_CAPS_DMA64 else 0)
      else if addr = LDD_REG_SCRATCH then ucast (r_scratch (ps_regs ps))
      else if addr = LDD_REG_CTRL \<or> addr = LDD_REG_INT_RAISE then 0
      else if addr = LDD_REG_STATUS then ucast (r_status (ps_regs ps))
      else if addr = LDD_REG_INT_STATUS then ucast (r_int_status (ps_regs ps))
      else if addr = LDD_REG_INT_MASK then ucast (r_int_mask (ps_regs ps))
      else if addr = LDD_REG_MAX_SEG then ucast (ps_max_seg ps)
      else if addr = LDD_REG_MAX_DESC then ucast (ps_max_desc ps)
      else if addr = LDD_REG_DESC_ADDR_LO then extract64 (r_desc_addr (ps_regs ps)) 0 32
      else if addr = LDD_REG_DESC_ADDR_HI then extract64 (r_desc_addr (ps_regs ps)) 32 32
      else if addr = LDD_REG_DESC_COUNT then ucast (r_desc_count (ps_regs ps))
      else if addr = LDD_REG_DEV_OFFSET then ucast (r_dev_offset (ps_regs ps))
      else if addr = LDD_REG_DMA_CTRL then ucast (r_dma_ctrl (ps_regs ps) AND LDD_DMA_CTRL_DIR)
      else if addr = LDD_REG_XFER_BYTES then ucast (r_xfer_bytes (ps_regs ps))
      else if addr = LDD_REG_ERR_DESC then ucast (r_err_desc (ps_regs ps))
      else if addr = LDD_REG_XOR then ucast (r_xor (ps_regs ps))
      else 0)"

definition ldd_pcie_busy :: "'g ldd_pcie \<Rightarrow> bool" where
  "ldd_pcie_busy ps \<longleftrightarrow> has_flag (r_status (ps_regs ps)) LDD_STATUS_BUSY"

definition ldd_pcie_bar0_write :: "'g dma_bus \<Rightarrow> int \<Rightarrow> 'g ldd_pcie \<Rightarrow> 64 word \<Rightarrow> 64 word \<Rightarrow> 'g ldd_pcie" where
  "ldd_pcie_bar0_write B now ps addr val =
     (let busy = ldd_pcie_busy ps
      in if addr = LDD_REG_SCRATCH then upd_regs (\<lambda>r. r\<lparr>r_scratch := ucast val\<rparr>) ps
      else if addr = LDD_REG_CTRL then (if has_flag val LDD_CTRL_RESET then ldd_pcie_reset ps else ps)
      else if addr = LDD_REG_INT_STATUS
        then ldd_pcie_update_irq (upd_regs (\<lambda>r. r\<lparr>r_int_status := r_int_status r AND ucast (NOT val)\<rparr>) ps)
      else if addr = LDD_REG_INT_MASK
        then ldd_pcie_update_irq (upd_regs (\<lambda>r. r\<lparr>r_int_mask := ucast val AND LDD_INT_ALL\<rparr>) ps)
      else if addr = LDD_REG_INT_RAISE
        then ldd_pcie_update_irq
               (upd_regs (\<lambda>r. r\<lparr>r_int_status := r_int_status r OR (ucast val AND LDD_INT_ALL)\<rparr>) ps)
      else if addr = LDD_REG_DESC_ADDR_LO \<or> addr = LDD_REG_DESC_ADDR_HI \<or>
              addr = LDD_REG_DESC_COUNT \<or> addr = LDD_REG_DEV_OFFSET
        then (if busy then ps
              else if addr = LDD_REG_DESC_ADDR_LO
                then upd_regs (\<lambda>r. r\<lparr>r_desc_addr := deposit64 (r_desc_addr r) 0 32
                                  (val AND NOT (LDD_DESC_ADDR_ALIGN - 1))\<rparr>) ps
              else if addr = LDD_REG_DESC_ADDR_HI
                then upd_regs (\<lambda>r. r\<lparr>r_desc_addr := deposit64 (r_desc_addr r) 32 32 val\<rparr>) ps
              else if addr = LDD_REG_DESC_COUNT then upd_regs (\<lambda>r. r\<lparr>r_desc_count := ucast val\<rparr>) ps
              else upd_regs (\<lambda>r. r\<lparr>r_dev_offset := ucast val\<rparr>) ps)
      else if addr = LDD_REG_DMA_CTRL
        then (if busy then ps
              else let ps1 = upd_regs (\<lambda>r. r\<lparr>r_dma_ctrl := ucast val AND LDD_DMA_CTRL_DIR\<rparr>) ps
                   in if has_flag val LDD_DMA_CTRL_START then ldd_pcie_start B now ps1 else ps1)
      else if addr = LDD_REG_XOR then upd_regs (\<lambda>r. r\<lparr>r_xor := ucast val AND 0xff\<rparr>) ps
      else ps)"

subsection \<open>Creation and removal\<close>

datatype pcie_error = MaxSegRange | MaxDescRange | PmFailed | PcieCapFailed | MsiFailed
  | RamFailed | MsixFailed

text \<open>The answers of QEMU's initialisation calls, in the order they are made.\<close>

record pcie_env =
  pe_pm_ok :: bool
  pe_cap_ok :: bool
  pe_msi_ok :: bool
  pe_ram_ok :: bool
  pe_msix_ok :: bool

definition is_power_of_2 :: "32 word \<Rightarrow> bool" where
  "is_power_of_2 v \<longleftrightarrow> v \<noteq> 0 \<and> v AND (v - 1) = 0"

definition ldd_pcie_properties :: "'g \<Rightarrow> 'g ldd_pcie" where
  "ldd_pcie_properties g =
     \<lparr>ps_dma64 = True, ps_max_seg = 65536, ps_max_desc = 256, ps_latency_us = 100,
      ps_regs = regs_zero, ps_bar2 = [], ps_timer = None, ps_master = False, ps_msix = False,
      ps_msi = False, ps_intx = False, ps_msgs = [], ps_guest = g\<rparr>"

definition ldd_pcie_realize :: "pcie_env \<Rightarrow> 'g ldd_pcie \<Rightarrow> pcie_error + 'g ldd_pcie" where
  "ldd_pcie_realize e ps =
     (if ps_max_seg ps < 512 \<or> ps_max_seg ps > 1048576 \<or> \<not> is_power_of_2 (ps_max_seg ps)
      then Inl MaxSegRange
      else if ps_max_desc ps < 1 \<or> ps_max_desc ps > 4096 then Inl MaxDescRange
      else if \<not> pe_pm_ok e then Inl PmFailed
      else if \<not> pe_cap_ok e then Inl PcieCapFailed
      else if \<not> pe_msi_ok e then Inl MsiFailed
      else if \<not> pe_ram_ok e then Inl RamFailed
      else if \<not> pe_msix_ok e then Inl MsixFailed
      else Inr (ps\<lparr>ps_bar2 := replicate LDD_MEM_SIZE 0, ps_timer := None\<rparr>))"

definition ldd_pcie_qdev_reset :: "'g ldd_pcie \<Rightarrow> 'g ldd_pcie" where
  "ldd_pcie_qdev_reset ps = ldd_pcie_reset ps"

subsection \<open>Invariant and steps\<close>

text \<open>What the engine relies on of the bus: a read fills exactly the buffer it was given.\<close>

definition bus_ok :: "'g dma_bus \<Rightarrow> bool" where
  "bus_ok B \<longleftrightarrow> (\<forall>g a n. length (snd (bus_read B g a n)) = n)"

definition pcie_pending :: "'g ldd_pcie \<Rightarrow> 32 word" where
  "pcie_pending ps = r_int_status (ps_regs ps) AND r_int_mask (ps_regs ps)"

definition status_ok :: "32 word \<Rightarrow> bool" where
  "status_ok st \<longleftrightarrow> st = 0 \<or> st = LDD_STATUS_BUSY \<or> st = LDD_STATUS_DONE \<or>
     (\<exists>code \<in> {1, 2, 3, 4, 5}. st = LDD_STATUS_ERROR OR push_bit LDD_STATUS_ERR_CODE_SHIFT code)"

definition pcie_props_ok :: "'g ldd_pcie \<Rightarrow> bool" where
  "pcie_props_ok ps \<longleftrightarrow> ps_max_seg ps \<le> 1048576 \<and> ps_max_desc ps \<noteq> 0 \<and> ps_max_desc ps \<le> 4096 \<and>
     length (ps_bar2 ps) = LDD_MEM_SIZE"

definition regs_ok :: "ldd_regs \<Rightarrow> bool" where
  "regs_ok r \<longleftrightarrow> r_irq_sent r = r_int_status r AND r_int_mask r \<and>
     r_int_status r AND NOT LDD_INT_ALL = 0 \<and> r_int_mask r AND NOT LDD_INT_ALL = 0 \<and>
     status_ok (r_status r) \<and> r_result r \<in> {0, 1, 2, 3, 4, 5} \<and> r_desc_addr r AND 15 = 0"

definition pcie_inv :: "'g ldd_pcie \<Rightarrow> bool" where
  "pcie_inv ps \<longleftrightarrow> pcie_props_ok ps \<and> regs_ok (ps_regs ps) \<and>
     (ldd_pcie_busy ps \<longleftrightarrow> ps_timer ps \<noteq> None)"

text \<open>
  What can happen to the device: a 32-bit register write of the guest; the timer running out; a
  reset of the machine or of the function; a write of the guest to configuration space that
  changes the bus-master bit or the interrupt mode, to BAR 2, or to its own memory.
\<close>

inductive pcie_step :: "'g dma_bus \<Rightarrow> 'g ldd_pcie \<Rightarrow> 'g ldd_pcie \<Rightarrow> bool" for B where
  pcie_reg_write: "pcie_step B ps (ldd_pcie_bar0_write B now ps addr (ucast (v :: 32 word)))"
| pcie_timer: "ps_timer ps = Some t \<Longrightarrow> t \<le> now \<Longrightarrow>
     pcie_step B ps (ldd_pcie_complete (ps\<lparr>ps_timer := None\<rparr>))"
| pcie_machine_reset: "pcie_step B ps (ldd_pcie_qdev_reset ps)"
| pcie_config: "pcie_step B ps (ps\<lparr>ps_master := m, ps_msix := x, ps_msi := i\<rparr>)"
| pcie_bar2_write: "off + length bs \<le> LDD_MEM_SIZE \<Longrightarrow>
     pcie_step B ps (ps\<lparr>ps_bar2 := mem_put off bs (ps_bar2 ps)\<rparr>)"
| pcie_guest_memory: "pcie_step B ps (ps\<lparr>ps_guest := g\<rparr>)"

text \<open>A bus to plain memory, on which every access succeeds, and a device plugged into it.\<close>

definition ram_bus :: "(64 word \<Rightarrow> byte) dma_bus" where
  "ram_bus = \<lparr>bus_read = (\<lambda>g a n. (True, map (\<lambda>i. g (a + of_nat i)) [0..<n])),
     bus_write = (\<lambda>g a bs. (True, \<lambda>x. if unat (x - a) < length bs then bs ! unat (x - a) else g x))\<rparr>"

definition pcie_env_ok :: pcie_env where
  "pcie_env_ok = \<lparr>pe_pm_ok = True, pe_cap_ok = True, pe_msi_ok = True, pe_ram_ok = True, pe_msix_ok = True\<rparr>"

definition demo_pcie :: "(64 word \<Rightarrow> byte) \<Rightarrow> (64 word \<Rightarrow> byte) ldd_pcie" where
  "demo_pcie g = (ldd_pcie_properties g)\<lparr>ps_bar2 := replicate LDD_MEM_SIZE 0, ps_master := True\<rparr>"

lemma bus_ok_ram_bus [simp]: "bus_ok ram_bus"
  by (simp add: bus_ok_def ram_bus_def)

lemma bus_ok_length [simp]: "bus_ok B \<Longrightarrow> length (snd (bus_read B g a n)) = n"
  by (simp add: bus_ok_def)

lemma bus_ok_lengthD: "bus_ok B \<Longrightarrow> bus_read B g a n = (ok, bs) \<Longrightarrow> length bs = n"
  by (metis bus_ok_length snd_conv)

subsection \<open>The loops over descriptors\<close>

abbreviation desc_total :: "ldd_desc list \<Rightarrow> nat" where
  "desc_total ds \<equiv> (\<Sum>d\<leftarrow>ds. unat (d_len d))"

lemma desc_check_bad:
  "desc_check ps ds i t = Inl k \<Longrightarrow>
   \<exists>j < length ds. k = i + of_nat j \<and> desc_bad ps (ds ! j) \<and> (\<forall>l < j. \<not> desc_bad ps (ds ! l))"
proof (induction ds arbitrary: i t)
  case Nil
  then show ?case by simp
next
  case (Cons d ds)
  show ?case
  proof (cases "desc_bad ps d")
    case True
    then show ?thesis using Cons.prems by (intro exI [of _ 0]) simp
  next
    case False
    then obtain j where "j < length ds" "k = i + 1 + of_nat j" "desc_bad ps (ds ! j)"
        "\<forall>l < j. \<not> desc_bad ps (ds ! l)"
      using Cons.IH [of "i + 1"] Cons.prems by fastforce
    then show ?thesis
      using False by (intro exI [of _ "Suc j"]) (auto simp: nth_Cons split: nat.split)
  qed
qed

lemma desc_check_good:
  "desc_check ps ds i t = Inr u \<longleftrightarrow>
   (\<forall>d \<in> set ds. \<not> desc_bad ps d) \<and> u = t + (\<Sum>d\<leftarrow>ds. ucast (d_len d))"
  by (induction ds arbitrary: i t) (auto simp: add.assoc)

text \<open>With at most 4096 descriptors of at most 1 MiB the 64-bit sum does not wrap.\<close>

lemma desc_total_bound:
  "(\<forall>d \<in> set ds. unat (d_len d) \<le> m) \<Longrightarrow> desc_total ds \<le> length ds * m"
  by (induction ds) auto

lemma unat_sum_list:
  assumes "desc_total ds < 2 ^ 64"
  shows "unat (\<Sum>d\<leftarrow>ds. ucast (d_len d) :: 64 word) = desc_total ds"
  using assms
proof (induction ds)
  case Nil
  then show ?case by simp
next
  case (Cons d ds)
  then have IH: "unat (\<Sum>d\<leftarrow>ds. ucast (d_len d) :: 64 word) = desc_total ds" by simp
  have "unat (ucast (d_len d) :: 64 word) = unat (d_len d)"
    by (simp add: unat_ucast_up)
  then show ?case
    using Cons.prems IH by (simp add: unat_word_ariths)
qed

lemma desc_check_total:
  assumes "desc_check ps ds 0 0 = Inr u" "length ds \<le> 4096" "ps_max_seg ps \<le> 1048576"
  shows "unat u = desc_total ds"
proof -
  have "\<forall>d \<in> set ds. unat (d_len d) \<le> 1048576"
    using assms(1,3) by (auto simp: desc_check_good desc_bad_def not_less word_le_nat_alt)
  then have "desc_total ds \<le> length ds * 1048576" by (rule desc_total_bound)
  also have "\<dots> \<le> 4096 * 1048576" using assms(2) by simp
  finally have "desc_total ds < 2 ^ 64" by simp
  then show ?thesis using assms(1) by (simp add: desc_check_good unat_sum_list)
qed

text \<open>
  The specification of a transfer. \<open>gather\<close> is the data behind the descriptors, in order;
  \<open>scatter\<close> is the memory after the data was dealt out over them, in order.
\<close>

definition gather :: "'g dma_bus \<Rightarrow> 'g \<Rightarrow> ldd_desc list \<Rightarrow> byte list" where
  "gather B g ds = concat (map (\<lambda>d. snd (bus_read B g (d_addr d) (unat (d_len d)))) ds)"

definition gather_ok :: "'g dma_bus \<Rightarrow> 'g ldd_pcie \<Rightarrow> ldd_desc list \<Rightarrow> bool" where
  "gather_ok B ps ds \<longleftrightarrow> (\<forall>d \<in> set ds. ldd_pcie_dma_ok ps (d_addr d) (ucast (d_len d)) \<and>
     fst (bus_read B (ps_guest ps) (d_addr d) (unat (d_len d))))"

primrec scatter :: "'g dma_bus \<Rightarrow> ldd_desc list \<Rightarrow> byte list \<Rightarrow> 'g \<Rightarrow> 'g" where
  "scatter B [] data g = g"
| "scatter B (d # ds) data g =
     scatter B ds (drop (unat (d_len d)) data)
       (snd (bus_write B g (d_addr d) (take (unat (d_len d)) data)))"

primrec scatter_ok :: "'g dma_bus \<Rightarrow> 'g ldd_pcie \<Rightarrow> ldd_desc list \<Rightarrow> byte list \<Rightarrow> 'g \<Rightarrow> bool" where
  "scatter_ok B ps [] data g \<longleftrightarrow> True"
| "scatter_ok B ps (d # ds) data g \<longleftrightarrow>
     ldd_pcie_dma_ok ps (d_addr d) (ucast (d_len d)) \<and>
     fst (bus_write B g (d_addr d) (take (unat (d_len d)) data)) \<and>
     scatter_ok B ps ds (drop (unat (d_len d)) data)
       (snd (bus_write B g (d_addr d) (take (unat (d_len d)) data)))"

definition xored :: "32 word \<Rightarrow> byte list \<Rightarrow> byte list" where
  "xored x bs = map (\<lambda>b. b XOR ucast x) bs"

lemma length_gather: "bus_ok B \<Longrightarrow> length (gather B g ds) = desc_total ds"
  by (induction ds) (simp_all add: gather_def)

lemma length_xored [simp]: "length (xored x bs) = length bs"
  by (simp add: xored_def)

lemma xored_zero [simp]: "xored 0 bs = bs"
  by (simp add: xored_def)

lemma xored_twice: "xored x (xored x bs) = bs"
  by (simp add: xored_def comp_def xor.assoc)

lemma take_xored: "take n (xored x bs) = xored x (take n bs)"
  by (simp add: xored_def take_map)

lemma drop_xored: "drop n (xored x bs) = xored x (drop n bs)"
  by (simp add: xored_def drop_map)

lemma dma_ok_cong:
  "ps_dma64 ps = ps_dma64 ps' \<Longrightarrow> ldd_pcie_dma_ok ps a n = ldd_pcie_dma_ok ps' a n"
  by (simp add: ldd_pcie_dma_ok_def)

lemma gather_ok_cong:
  "ps_dma64 ps = ps_dma64 ps' \<Longrightarrow> ps_guest ps = ps_guest ps' \<Longrightarrow> gather_ok B ps ds = gather_ok B ps' ds"
  by (simp add: gather_ok_def ldd_pcie_dma_ok_def)

lemma scatter_ok_cong:
  "ps_dma64 ps = ps_dma64 ps' \<Longrightarrow> scatter_ok B ps ds data g = scatter_ok B ps' ds data g"
  by (induction ds arbitrary: data g) (simp_all add: ldd_pcie_dma_ok_def)

text \<open>No offset of the copying loop wraps: the memory is much smaller than 4 GiB.\<close>

lemma off_step:
  assumes "unat (off :: 32 word) + (unat len + n) \<le> LDD_MEM_SIZE"
  shows "unat (off + len) = unat off + unat len"
  using assms by (simp add: unat_word_ariths LDD_MEM_SIZE_def)

lemma desc_copy_to_device:
  assumes "bus_ok B"
  shows "gather_ok B ps ds \<Longrightarrow> unat off + desc_total ds \<le> LDD_MEM_SIZE \<Longrightarrow>
    length (ps_bar2 ps) = LDD_MEM_SIZE \<Longrightarrow>
    desc_copy B False ds i off ps =
      (0, ps\<lparr>ps_regs := (ps_regs ps)\<lparr>r_xfer_bytes := r_xfer_bytes (ps_regs ps) + of_nat (desc_total ds)\<rparr>,
             ps_bar2 := mem_put (unat off) (gather B (ps_guest ps) ds) (ps_bar2 ps)\<rparr>)"
proof (induction ds arbitrary: i off ps)
  case Nil
  then show ?case by (simp add: gather_def)
next
  case (Cons d ds)
  let ?len = "d_len d"
  let ?g = "ps_guest ps"
  obtain bs where bs: "bus_read B ?g (d_addr d) (unat ?len) = (True, bs)"
    using Cons.prems(1) by (metis gather_ok_def list.set_intros(1) prod.collapse)
  have lbs: "length bs = unat ?len" using assms bs by (rule bus_ok_lengthD)
  have ok: "ldd_pcie_dma_ok ps (d_addr d) (ucast ?len)"
    using Cons.prems(1) by (simp add: gather_ok_def)
  let ?ps = "ps\<lparr>ps_bar2 := mem_put (unat off) bs (ps_bar2 ps),
    ps_regs := (ps_regs ps)\<lparr>r_xfer_bytes := r_xfer_bytes (ps_regs ps) + ?len\<rparr>\<rparr>"
  have off: "unat (off + ?len) = unat off + unat ?len"
    using Cons.prems(2) by (intro off_step [where n = "desc_total ds"]) simp
  have g: "gather_ok B ?ps ds"
    using Cons.prems(1) by (simp add: gather_ok_def ldd_pcie_dma_ok_def)
  have len: "length (ps_bar2 ?ps) = LDD_MEM_SIZE"
    using Cons.prems(2,3) lbs by (simp add: length_mem_put)
  have "desc_copy B False (d # ds) i off ps = desc_copy B False ds (i + 1) (off + ?len) ?ps"
    using ok bs by (simp add: Let_def desc_copy_one_def)
  also have "\<dots> = (0, ?ps\<lparr>ps_regs := (ps_regs ?ps)\<lparr>r_xfer_bytes := r_xfer_bytes (ps_regs ?ps) + of_nat (desc_total ds)\<rparr>,
      ps_bar2 := mem_put (unat (off + ?len)) (gather B (ps_guest ?ps) ds) (ps_bar2 ?ps)\<rparr>)"
    using g len Cons.prems(2) off by (intro Cons.IH) simp_all
  also have "mem_put (unat (off + ?len)) (gather B (ps_guest ?ps) ds) (ps_bar2 ?ps) =
      mem_put (unat off) (gather B ?g (d # ds)) (ps_bar2 ps)"
    using mem_put_append_adjacent [of "unat off" bs "gather B ?g ds" "ps_bar2 ps"] Cons.prems(2,3)
      bs lbs length_gather [OF assms, of ?g ds] off
    by (simp add: gather_def)
  finally show ?case by (simp add: algebra_simps)
qed

lemma desc_copy_to_guest:
  "scatter_ok B ps ds (xored (r_xor (ps_regs ps)) (mem_get (unat off) (desc_total ds) (ps_bar2 ps))) (ps_guest ps) \<Longrightarrow>
   unat off + desc_total ds \<le> LDD_MEM_SIZE \<Longrightarrow> length (ps_bar2 ps) = LDD_MEM_SIZE \<Longrightarrow>
   desc_copy B True ds i off ps =
     (0, ps\<lparr>ps_regs := (ps_regs ps)\<lparr>r_xfer_bytes := r_xfer_bytes (ps_regs ps) + of_nat (desc_total ds)\<rparr>,
            ps_guest := scatter B ds (xored (r_xor (ps_regs ps))
              (mem_get (unat off) (desc_total ds) (ps_bar2 ps))) (ps_guest ps)\<rparr>)"
proof (induction ds arbitrary: i off ps)
  case Nil
  then show ?case by simp
next
  case (Cons d ds)
  let ?len = "d_len d"
  let ?x = "r_xor (ps_regs ps)"
  let ?all = "mem_get (unat off) (desc_total (d # ds)) (ps_bar2 ps)"
  let ?mem = "mem_get (unat off) (unat ?len) (ps_bar2 ps)"
  let ?data = "xored ?x ?mem"
  have off: "unat (off + ?len) = unat off + unat ?len"
    using Cons.prems(2) by (intro off_step [where n = "desc_total ds"]) simp
  have tk: "take (unat ?len) (xored ?x ?all) = ?data"
    by (simp add: take_xored) (simp add: mem_get_def min_def)
  have dr: "drop (unat ?len) (xored ?x ?all) =
      xored ?x (mem_get (unat (off + ?len)) (desc_total ds) (ps_bar2 ps))"
    by (simp add: drop_xored off) (simp add: mem_get_def drop_take add.commute)
  have "fst (bus_write B (ps_guest ps) (d_addr d) ?data)"
    using Cons.prems(1) unfolding scatter_ok.simps tk by simp
  then obtain g where g: "bus_write B (ps_guest ps) (d_addr d) ?data = (True, g)"
    by (cases "bus_write B (ps_guest ps) (d_addr d) ?data") simp
  have ok: "ldd_pcie_dma_ok ps (d_addr d) (ucast ?len)" using Cons.prems(1) by simp
  let ?ps = "ps\<lparr>ps_guest := g, ps_regs := (ps_regs ps)\<lparr>r_xfer_bytes := r_xfer_bytes (ps_regs ps) + ?len\<rparr>\<rparr>"
  have "desc_copy B True (d # ds) i off ps = desc_copy B True ds (i + 1) (off + ?len) ?ps"
    using ok g by (cases "?x = 0") (simp_all add: Let_def desc_copy_one_def xored_def)
  also have "\<dots> = (0, ?ps\<lparr>ps_regs := (ps_regs ?ps)\<lparr>r_xfer_bytes := r_xfer_bytes (ps_regs ?ps) + of_nat (desc_total ds)\<rparr>,
      ps_guest := scatter B ds (xored (r_xor (ps_regs ?ps))
        (mem_get (unat (off + ?len)) (desc_total ds) (ps_bar2 ?ps))) (ps_guest ?ps)\<rparr>)"
  proof (rule Cons.IH)
    have "scatter_ok B ps ds (drop (unat ?len) (xored ?x ?all)) g"
      using Cons.prems(1) tk g by simp
    then show "scatter_ok B ?ps ds (xored (r_xor (ps_regs ?ps))
        (mem_get (unat (off + ?len)) (desc_total ds) (ps_bar2 ?ps))) (ps_guest ?ps)"
      using dr scatter_ok_cong [of ps ?ps] by simp
  qed (use Cons.prems off in simp_all)
  finally show ?case
    using tk dr g by (simp add: algebra_simps)
qed

text \<open>What the transfer never touches: everything but the memories and two registers.\<close>

definition ps_rest :: "'g ldd_pcie \<Rightarrow> unit ldd_pcie" where
  "ps_rest ps = \<lparr>ps_dma64 = ps_dma64 ps, ps_max_seg = ps_max_seg ps, ps_max_desc = ps_max_desc ps,
     ps_latency_us = ps_latency_us ps,
     ps_regs = (ps_regs ps)\<lparr>r_xfer_bytes := 0, r_err_desc := 0\<rparr>, ps_bar2 = [],
     ps_timer = ps_timer ps, ps_master = ps_master ps, ps_msix = ps_msix ps, ps_msi = ps_msi ps,
     ps_intx = ps_intx ps, ps_msgs = ps_msgs ps, ps_guest = ()\<rparr>"

lemma ps_rest_upd [simp]:
  "ps_rest (ps\<lparr>ps_bar2 := m\<rparr>) = ps_rest ps"
  "ps_rest (ps\<lparr>ps_guest := g\<rparr>) = ps_rest ps"
  "ps_rest (ps\<lparr>ps_regs := (ps_regs ps)\<lparr>r_xfer_bytes := x\<rparr>\<rparr>) = ps_rest ps"
  "ps_rest (ps\<lparr>ps_regs := (ps_regs ps)\<lparr>r_err_desc := e\<rparr>\<rparr>) = ps_rest ps"
  by (simp_all add: ps_rest_def)

lemma ps_rest_eqD:
  assumes "ps_rest ps = ps_rest ps'"
  shows "ps_dma64 ps = ps_dma64 ps'" "ps_max_seg ps = ps_max_seg ps'" "ps_max_desc ps = ps_max_desc ps'"
    "ps_latency_us ps = ps_latency_us ps'" "ps_timer ps = ps_timer ps'" "ps_master ps = ps_master ps'"
    "ps_msix ps = ps_msix ps'" "ps_msi ps = ps_msi ps'" "ps_intx ps = ps_intx ps'"
    "ps_msgs ps = ps_msgs ps'"
    "(ps_regs ps)\<lparr>r_xfer_bytes := 0, r_err_desc := 0\<rparr> = (ps_regs ps')\<lparr>r_xfer_bytes := 0, r_err_desc := 0\<rparr>"
  using assms by (simp_all add: ps_rest_def)

lemma ps_rest_regsD:
  assumes "ps_rest ps = ps_rest ps'"
  shows "r_scratch (ps_regs ps) = r_scratch (ps_regs ps')" "r_status (ps_regs ps) = r_status (ps_regs ps')"
    "r_int_status (ps_regs ps) = r_int_status (ps_regs ps')" "r_int_mask (ps_regs ps) = r_int_mask (ps_regs ps')"
    "r_desc_addr (ps_regs ps) = r_desc_addr (ps_regs ps')" "r_desc_count (ps_regs ps) = r_desc_count (ps_regs ps')"
    "r_dev_offset (ps_regs ps) = r_dev_offset (ps_regs ps')" "r_dma_ctrl (ps_regs ps) = r_dma_ctrl (ps_regs ps')"
    "r_xor (ps_regs ps) = r_xor (ps_regs ps')" "r_irq_sent (ps_regs ps) = r_irq_sent (ps_regs ps')"
    "r_result (ps_regs ps) = r_result (ps_regs ps')"
  using ps_rest_eqD(11) [OF assms] by (cases "ps_regs ps"; cases "ps_regs ps'"; simp)+

lemma desc_copy_one_frame:
  assumes "bus_ok B" "unat off + unat (d_len d) \<le> LDD_MEM_SIZE" "length (ps_bar2 ps) = LDD_MEM_SIZE"
    and "desc_copy_one B tg d off ps = (ok, ps1)"
  shows "ps_rest ps1 = ps_rest ps \<and> length (ps_bar2 ps1) = LDD_MEM_SIZE"
  using assms(2-4) bus_ok_lengthD [OF assms(1)]
  by (auto simp: desc_copy_one_def Let_def length_mem_put split: if_splits prod.splits)

text \<open>Memory safety and frame of the copying loop, whatever its outcome.\<close>

lemma desc_copy_frame:
  assumes "bus_ok B"
  shows "unat off + desc_total ds \<le> LDD_MEM_SIZE \<Longrightarrow> length (ps_bar2 ps) = LDD_MEM_SIZE \<Longrightarrow>
    desc_copy B tg ds i off ps = (res, ps') \<Longrightarrow>
    ps_rest ps' = ps_rest ps \<and> length (ps_bar2 ps') = LDD_MEM_SIZE \<and> (res = 0 \<or> res = LDD_ERR_DMA_FAULT)"
proof (induction ds arbitrary: i off ps)
  case Nil
  then show ?case by simp
next
  case (Cons d ds)
  have off: "unat (off + d_len d) = unat off + unat (d_len d)"
    using Cons.prems(1) by (intro off_step [where n = "desc_total ds"]) simp
  obtain ok ps1 where one: "desc_copy_one B tg d off ps = (ok, ps1)" by fastforce
  have fr: "ps_rest ps1 = ps_rest ps" "length (ps_bar2 ps1) = LDD_MEM_SIZE"
    using desc_copy_one_frame [OF assms _ Cons.prems(2) one] Cons.prems(1) by simp_all
  show ?case
  proof (cases ok)
    case False
    then show ?thesis using Cons.prems(3) one fr by auto
  next
    case True
    let ?ps = "ps1\<lparr>ps_regs := (ps_regs ps1)\<lparr>r_xfer_bytes := r_xfer_bytes (ps_regs ps1) + d_len d\<rparr>\<rparr>"
    have "desc_copy B tg ds (i + 1) (off + d_len d) ?ps = (res, ps')"
      using Cons.prems(3) one True by simp
    then show ?thesis using Cons.IH [of "off + d_len d" ?ps "i + 1"] Cons.prems(1) off fr by simp
  qed
qed

subsection \<open>A whole transfer\<close>

text \<open>The descriptor table as the engine sees it, and its checks as one condition.\<close>

definition pcie_table :: "'g dma_bus \<Rightarrow> 'g ldd_pcie \<Rightarrow> ldd_desc list" where
  "pcie_table B ps =
     map (desc_at (snd (bus_read B (ps_guest ps) (r_desc_addr (ps_regs ps))
       (unat (r_desc_count (ps_regs ps)) * sizeof_desc)))) [0..<unat (r_desc_count (ps_regs ps))]"

definition pcie_table_read :: "'g dma_bus \<Rightarrow> 'g ldd_pcie \<Rightarrow> bool" where
  "pcie_table_read B ps \<longleftrightarrow>
     (let count = r_desc_count (ps_regs ps); bytes = unat count * sizeof_desc
      in ps_master ps \<and> count \<noteq> 0 \<and> count \<le> ps_max_desc ps \<and>
         ldd_pcie_dma_ok ps (r_desc_addr (ps_regs ps)) (of_nat bytes) \<and>
         fst (bus_read B (ps_guest ps) (r_desc_addr (ps_regs ps)) bytes))"

definition pcie_accepts :: "'g dma_bus \<Rightarrow> 'g ldd_pcie \<Rightarrow> bool" where
  "pcie_accepts B ps \<longleftrightarrow> pcie_table_read B ps \<and> (\<forall>d \<in> set (pcie_table B ps). \<not> desc_bad ps d) \<and>
     unat (r_dev_offset (ps_regs ps)) + desc_total (pcie_table B ps) \<le> LDD_MEM_SIZE"

lemma length_pcie_table [simp]: "length (pcie_table B ps) = unat (r_desc_count (ps_regs ps))"
  by (simp add: pcie_table_def)

lemma pcie_table_length_bound:
  "pcie_props_ok ps \<Longrightarrow> pcie_table_read B ps \<Longrightarrow> length (pcie_table B ps) \<le> 4096"
  by (auto simp: pcie_props_ok_def pcie_table_read_def Let_def word_le_nat_alt)

text \<open>After the table was read: descriptor checks, range check, copying.\<close>

lemma transfer_table_read:
  assumes "pcie_table_read B ps"
  shows "ldd_pcie_transfer B ps =
    (case desc_check ps (pcie_table B ps) 0 0 of
       Inl i \<Rightarrow> (LDD_ERR_BAD_DESC, upd_regs (\<lambda>r. r\<lparr>r_err_desc := i\<rparr>) ps)
     | Inr tot \<Rightarrow>
         if unat (r_dev_offset (ps_regs ps)) > LDD_MEM_SIZE \<or>
            unat tot > LDD_MEM_SIZE - unat (r_dev_offset (ps_regs ps))
         then (LDD_ERR_OUT_OF_RANGE, ps)
         else desc_copy B (has_flag (r_dma_ctrl (ps_regs ps)) LDD_DMA_CTRL_DIR) (pcie_table B ps) 0
                (r_dev_offset (ps_regs ps)) ps)"
proof -
  let ?n = "unat (r_desc_count (ps_regs ps))"
  obtain table where t: "bus_read B (ps_guest ps) (r_desc_addr (ps_regs ps)) (?n * sizeof_desc) = (True, table)"
    using assms unfolding pcie_table_read_def Let_def by (metis prod.collapse)
  have tab: "pcie_table B ps = map (desc_at table) [0..<?n]" by (simp add: pcie_table_def t)
  show ?thesis
    using assms t unfolding tab ldd_pcie_transfer_def pcie_table_read_def Let_def
    by (auto simp: not_less)
qed

lemma transfer_table_unread:
  assumes "\<not> pcie_table_read B ps" "ldd_pcie_transfer B ps = (res, ps')"
  shows "ps' = ps \<and> (res = LDD_ERR_NO_MASTER \<or> res = LDD_ERR_BAD_COUNT \<or> res = LDD_ERR_DMA_FAULT)"
  using assms unfolding ldd_pcie_transfer_def pcie_table_read_def Let_def
  by (auto simp: not_less split: if_splits prod.splits bool.splits)

lemma transfer_accepted:
  assumes "pcie_props_ok ps" "pcie_accepts B ps"
  shows "ldd_pcie_transfer B ps =
    desc_copy B (has_flag (r_dma_ctrl (ps_regs ps)) LDD_DMA_CTRL_DIR) (pcie_table B ps) 0
      (r_dev_offset (ps_regs ps)) ps"
proof -
  have read: "pcie_table_read B ps" using assms(2) by (simp add: pcie_accepts_def)
  obtain tot where chk: "desc_check ps (pcie_table B ps) 0 0 = Inr tot"
    using assms(2) by (auto simp: pcie_accepts_def desc_check_good)
  have "unat tot = desc_total (pcie_table B ps)"
    using chk pcie_table_length_bound [OF assms(1) read] assms(1)
    by (auto intro: desc_check_total simp: pcie_props_ok_def)
  then show ?thesis
    using assms(2) chk by (auto simp: transfer_table_read [OF read] pcie_accepts_def)
qed

text \<open>The other way round: the engine copies only what it has checked.\<close>

lemma transfer_refused_code:
  assumes "pcie_props_ok ps" "\<not> pcie_accepts B ps" "ldd_pcie_transfer B ps = (res, ps')"
  shows "res = (if \<not> ps_master ps then LDD_ERR_NO_MASTER
      else if r_desc_count (ps_regs ps) = 0 \<or> r_desc_count (ps_regs ps) > ps_max_desc ps then LDD_ERR_BAD_COUNT
      else if \<not> pcie_table_read B ps then LDD_ERR_DMA_FAULT
      else if \<exists>d \<in> set (pcie_table B ps). desc_bad ps d then LDD_ERR_BAD_DESC
      else LDD_ERR_OUT_OF_RANGE)"
proof (cases "pcie_table_read B ps")
  case False
  then show ?thesis
    using assms(3) unfolding ldd_pcie_transfer_def pcie_table_read_def Let_def
    by (auto simp: not_less split: if_splits prod.splits bool.splits)
next
  case True
  then have pre: "ps_master ps" "r_desc_count (ps_regs ps) \<noteq> 0" "\<not> r_desc_count (ps_regs ps) > ps_max_desc ps"
    by (simp_all add: pcie_table_read_def Let_def not_less)
  show ?thesis
  proof (cases "desc_check ps (pcie_table B ps) 0 0")
    case (Inl i)
    then have "\<exists>d \<in> set (pcie_table B ps). desc_bad ps d" using desc_check_bad [OF Inl] nth_mem by blast
    then show ?thesis using assms(3) pre True Inl by (simp add: transfer_table_read [OF True])
  next
    case (Inr tot)
    have good: "\<forall>d \<in> set (pcie_table B ps). \<not> desc_bad ps d" using Inr by (simp add: desc_check_good)
    have "unat tot = desc_total (pcie_table B ps)"
      using Inr pcie_table_length_bound [OF assms(1) True] assms(1)
      by (auto intro: desc_check_total simp: pcie_props_ok_def)
    moreover have "\<not> unat (r_dev_offset (ps_regs ps)) + desc_total (pcie_table B ps) \<le> LDD_MEM_SIZE"
      using assms(2) True good by (auto simp: pcie_accepts_def)
    ultimately show ?thesis
      using assms(3) Inr pre True good by (auto simp: transfer_table_read [OF True] split: if_splits)
  qed
qed

lemma transfer_not_accepted:
  assumes "pcie_props_ok ps" "\<not> pcie_accepts B ps" "ldd_pcie_transfer B ps = (res, ps')"
  shows "ps_rest ps' = ps_rest ps \<and> ps_bar2 ps' = ps_bar2 ps \<and> ps_guest ps' = ps_guest ps \<and>
    r_xfer_bytes (ps_regs ps') = r_xfer_bytes (ps_regs ps) \<and>
    res \<in> {LDD_ERR_NO_MASTER, LDD_ERR_BAD_COUNT, LDD_ERR_BAD_DESC, LDD_ERR_OUT_OF_RANGE, LDD_ERR_DMA_FAULT}"
proof (cases "pcie_table_read B ps")
  case False
  then show ?thesis using transfer_table_unread [OF False assms(3)] by auto
next
  case True
  show ?thesis
  proof (cases "desc_check ps (pcie_table B ps) 0 0")
    case (Inl i)
    then show ?thesis using assms(3) by (auto simp: transfer_table_read [OF True])
  next
    case (Inr tot)
    have "unat tot = desc_total (pcie_table B ps)"
      using Inr pcie_table_length_bound [OF assms(1) True] assms(1)
      by (auto intro: desc_check_total simp: pcie_props_ok_def)
    moreover have "\<not> unat (r_dev_offset (ps_regs ps)) + desc_total (pcie_table B ps) \<le> LDD_MEM_SIZE"
      using assms(2) True Inr by (auto simp: pcie_accepts_def desc_check_good)
    ultimately have "ps' = ps \<and> res = LDD_ERR_OUT_OF_RANGE"
      using assms(3) Inr by (auto simp: transfer_table_read [OF True] split: if_splits)
    then show ?thesis by simp
  qed
qed

lemma transfer_frame:
  assumes "bus_ok B" "pcie_props_ok ps" "ldd_pcie_transfer B ps = (res, ps')"
  shows "ps_rest ps' = ps_rest ps \<and> length (ps_bar2 ps') = LDD_MEM_SIZE \<and> res \<in> {0, 1, 2, 3, 4, 5}"
proof (cases "pcie_accepts B ps")
  case True
  then show ?thesis
    using assms transfer_accepted [OF assms(2) True]
      desc_copy_frame [OF assms(1), of "r_dev_offset (ps_regs ps)" "pcie_table B ps" ps _ 0 res ps']
    by (auto simp: pcie_accepts_def pcie_props_ok_def ldd_err_consts)
next
  case False
  then show ?thesis
    using transfer_not_accepted [OF assms(2) False assms(3)] assms(2)
    by (auto simp: pcie_props_ok_def ldd_err_consts)
qed

subsection \<open>The invariant\<close>

lemma update_irq_sel [simp]:
  "ps_dma64 (ldd_pcie_update_irq ps) = ps_dma64 ps"
  "ps_max_seg (ldd_pcie_update_irq ps) = ps_max_seg ps"
  "ps_max_desc (ldd_pcie_update_irq ps) = ps_max_desc ps"
  "ps_latency_us (ldd_pcie_update_irq ps) = ps_latency_us ps"
  "ps_bar2 (ldd_pcie_update_irq ps) = ps_bar2 ps"
  "ps_timer (ldd_pcie_update_irq ps) = ps_timer ps"
  "ps_master (ldd_pcie_update_irq ps) = ps_master ps"
  "ps_msix (ldd_pcie_update_irq ps) = ps_msix ps"
  "ps_msi (ldd_pcie_update_irq ps) = ps_msi ps"
  "ps_guest (ldd_pcie_update_irq ps) = ps_guest ps"
  "ps_regs (ldd_pcie_update_irq ps) = (ps_regs ps)\<lparr>r_irq_sent := pcie_pending ps\<rparr>"
  by (simp_all add: ldd_pcie_update_irq_def Let_def pcie_pending_def)

lemma INT_ALL_eq: "LDD_INT_ALL = 7" "NOT LDD_INT_ALL = - 8"
  by (simp_all add: ldd_bit_consts)

lemma status_busy_iff [flag_simps]: "has_flag st LDD_STATUS_BUSY \<longleftrightarrow> bit st 0"
  by (simp add: LDD_STATUS_BUSY_def has_flag_1)

text \<open>A register block whose IRQ_SENT has just been brought up to date.\<close>

definition regs_ok_but_sent :: "ldd_regs \<Rightarrow> bool" where
  "regs_ok_but_sent r \<longleftrightarrow> regs_ok (r\<lparr>r_irq_sent := r_int_status r AND r_int_mask r\<rparr>)"

lemma regs_ok_but_sentI: "regs_ok r \<Longrightarrow> regs_ok_but_sent r"
  by (simp add: regs_ok_but_sent_def regs_ok_def)

lemma regs_ok_update_irq: "regs_ok_but_sent (ps_regs ps) \<Longrightarrow> regs_ok (ps_regs (ldd_pcie_update_irq ps))"
  by (simp add: regs_ok_but_sent_def pcie_pending_def)

lemma pcie_inv_update_irq:
  "pcie_props_ok ps \<Longrightarrow> regs_ok_but_sent (ps_regs ps) \<Longrightarrow> (ldd_pcie_busy ps \<longleftrightarrow> ps_timer ps \<noteq> None) \<Longrightarrow>
   pcie_inv (ldd_pcie_update_irq ps)"
  using regs_ok_update_irq [of ps]
  by (simp add: pcie_inv_def pcie_props_ok_def ldd_pcie_busy_def)

lemma int_status_raise: "x AND - 8 = 0 \<Longrightarrow> (x OR (y AND 7)) AND - 8 = (0 :: 32 word)"
  by (simp add: bit.conj_disj_distrib2 and.assoc)

lemma int_status_clear: "x AND - 8 = 0 \<Longrightarrow> (x AND y) AND - 8 = (0 :: 32 word)"
  by (metis and.assoc and.commute and_zero_eq)

lemma and_7_mask: "(y AND 7) AND - 8 = (0 :: 32 word)"
  by (simp add: and.assoc)

lemma status_ok_zero: "status_ok 0" by (simp add: status_ok_def)

lemma pcie_inv_reset: "pcie_props_ok ps \<Longrightarrow> pcie_inv (ldd_pcie_reset ps)"
  by (simp add: pcie_inv_def ldd_pcie_reset_def pcie_props_ok_def regs_ok_def regs_zero_def
      status_ok_zero ldd_pcie_busy_def has_flag_def)

lemma start_eq:
  assumes "ldd_pcie_transfer B
      (upd_regs (\<lambda>r. r\<lparr>r_status := LDD_STATUS_BUSY, r_xfer_bytes := 0, r_err_desc := 0\<rparr>) ps) = (res, ps2)"
  shows "ldd_pcie_start B now ps =
    ps2\<lparr>ps_regs := (ps_regs ps2)\<lparr>r_result := res\<rparr>, ps_timer := Some (now + uint (ps_latency_us ps2))\<rparr>"
  using assms by (simp add: ldd_pcie_start_def Let_def)

lemma pcie_inv_start:
  assumes "bus_ok B" "pcie_inv ps"
  shows "pcie_inv (ldd_pcie_start B now ps)"
proof -
  let ?ps1 = "upd_regs (\<lambda>r. r\<lparr>r_status := LDD_STATUS_BUSY, r_xfer_bytes := 0, r_err_desc := 0\<rparr>) ps"
  obtain res ps2 where t: "ldd_pcie_transfer B ?ps1 = (res, ps2)" by fastforce
  have p: "pcie_props_ok ?ps1" using assms(2) by (simp add: pcie_inv_def pcie_props_ok_def)
  have fr: "ps_rest ps2 = ps_rest ?ps1" "length (ps_bar2 ps2) = LDD_MEM_SIZE" "res \<in> {0, 1, 2, 3, 4, 5}"
    using transfer_frame [OF assms(1) p t] by simp_all
  note rd = ps_rest_regsD [OF fr(1)] and ed = ps_rest_eqD [OF fr(1)]
  show ?thesis
    unfolding start_eq [OF t]
    using assms(2) fr(2,3) rd ed
    by (simp add: pcie_inv_def pcie_props_ok_def regs_ok_def status_ok_def ldd_pcie_busy_def
        LDD_STATUS_BUSY_def has_flag_def)
qed

lemma status_error_ok:
  "code \<in> {1, 2, 3, 4, 5} \<Longrightarrow> status_ok (LDD_STATUS_ERROR OR push_bit LDD_STATUS_ERR_CODE_SHIFT code)"
  unfolding status_ok_def by blast

lemma status_error_idle:
  "\<not> has_flag (LDD_STATUS_ERROR OR push_bit LDD_STATUS_ERR_CODE_SHIFT code) LDD_STATUS_BUSY"
  "\<not> has_flag LDD_STATUS_DONE LDD_STATUS_BUSY"
  by (simp_all add: flag_simps) (simp_all add: ldd_bit_consts bit_simps)

lemma pcie_inv_complete:
  assumes "pcie_inv ps"
  shows "pcie_inv (ldd_pcie_complete (ps\<lparr>ps_timer := None\<rparr>))"
proof -
  have r: "regs_ok (ps_regs ps)" and p: "pcie_props_ok ps" using assms by (simp_all add: pcie_inv_def)
  have "status_ok LDD_STATUS_DONE" by (simp add: status_ok_def)
  then show ?thesis
    unfolding ldd_pcie_complete_def
    using r p int_status_raise [of "r_int_status (ps_regs ps)" 1]
      int_status_raise [of "r_int_status (ps_regs ps)" 2]
    by (intro pcie_inv_update_irq)
      (auto simp: pcie_props_ok_def regs_ok_but_sent_def regs_ok_def ldd_pcie_busy_def
        status_error_idle status_error_ok status_error_ok [of 1, simplified] INT_ALL_eq LDD_INT_DMA_DONE_def LDD_INT_DMA_ERROR_def)
qed

lemma desc_addr_align:
  "v AND 15 = 0 \<Longrightarrow> deposit64 v 0 32 (w AND NOT (LDD_DESC_ADDR_ALIGN - 1)) AND 15 = 0"
  "v AND 15 = 0 \<Longrightarrow> deposit64 v 32 32 w AND 15 = 0"
proof -
  have c: "NOT (LDD_DESC_ADDR_ALIGN - 1) = - 16" by (simp add: LDD_DESC_ADDR_ALIGN_def)
  have bits: "(x :: 64 word) AND 15 = 0 \<longleftrightarrow> (\<forall>n < 4. \<not> bit x n)" for x
  proof -
    have m: "(15 :: 64 word) = mask 4" by (simp add: mask_eq_exp_minus_1)
    have "x AND mask 4 = 0 \<longleftrightarrow> (\<forall>n < 64. bit x n \<longrightarrow> \<not> n < 4)" by (auto simp: bit_eq_iff bit_simps)
    also have "\<dots> \<longleftrightarrow> (\<forall>n < 4. \<not> bit x n)"
    proof (intro iffI allI impI notI)
      fix n :: nat
      assume all: "\<forall>n < 64. bit x n \<longrightarrow> \<not> n < 4" and n: "n < 4" "bit x n"
      have "n < 64" using n(1) by simp
      then show False using all n by blast
    qed blast
    finally show ?thesis unfolding m .
  qed
  have lo: "\<not> bit (- 16 :: 64 word) n" if "n < 4" for n
  proof -
    have "(- 16 :: 64 word) AND 15 = 0" by simp
    then show ?thesis using that unfolding bits by blast
  qed
  assume v: "v AND 15 = 0"
  then show "deposit64 v 0 32 (w AND NOT (LDD_DESC_ADDR_ALIGN - 1)) AND 15 = 0"
    unfolding c bits using lo by (auto simp: deposit64_def bit_simps)
  from v show "deposit64 v 32 32 w AND 15 = 0"
    unfolding bits by (auto simp: deposit64_def bit_simps)
qed

lemma pcie_inv_write:
  assumes "bus_ok B" "pcie_inv ps"
  shows "pcie_inv (ldd_pcie_bar0_write B now ps addr val)"
proof -
  have r: "regs_ok (ps_regs ps)" and p: "pcie_props_ok ps"
    and b: "ldd_pcie_busy ps \<longleftrightarrow> ps_timer ps \<noteq> None"
    using assms(2) by (simp_all add: pcie_inv_def)
  have upd: "pcie_inv (upd_regs f ps)"
    if "regs_ok (f (ps_regs ps))" "r_status (f (ps_regs ps)) = r_status (ps_regs ps)" for f
    using that p b by (simp add: pcie_inv_def pcie_props_ok_def ldd_pcie_busy_def)
  have irq: "pcie_inv (ldd_pcie_update_irq (upd_regs f ps))"
    if "regs_ok_but_sent (f (ps_regs ps))" "r_status (f (ps_regs ps)) = r_status (ps_regs ps)" for f
    using that p b by (intro pcie_inv_update_irq) (simp_all add: pcie_props_ok_def ldd_pcie_busy_def)
  have plain: "pcie_inv (upd_regs (\<lambda>r. r\<lparr>r_scratch := x\<rparr>) ps)"
    "pcie_inv (upd_regs (\<lambda>r. r\<lparr>r_desc_count := x\<rparr>) ps)"
    "pcie_inv (upd_regs (\<lambda>r. r\<lparr>r_dev_offset := x\<rparr>) ps)"
    "pcie_inv (upd_regs (\<lambda>r. r\<lparr>r_dma_ctrl := x\<rparr>) ps)"
    "pcie_inv (upd_regs (\<lambda>r. r\<lparr>r_xor := x\<rparr>) ps)" for x
    using r by (auto intro!: upd simp: regs_ok_def)
  have desc: "pcie_inv (upd_regs (\<lambda>r. r\<lparr>r_desc_addr := deposit64 (r_desc_addr r) 0 32
        (val AND NOT (LDD_DESC_ADDR_ALIGN - 1))\<rparr>) ps)"
    "pcie_inv (upd_regs (\<lambda>r. r\<lparr>r_desc_addr := deposit64 (r_desc_addr r) 32 32 val\<rparr>) ps)"
    using r by (auto intro!: upd desc_addr_align simp: regs_ok_def)
  have ints: "pcie_inv (ldd_pcie_update_irq (upd_regs (\<lambda>r. r\<lparr>r_int_status := r_int_status r AND x\<rparr>) ps))"
    "pcie_inv (ldd_pcie_update_irq (upd_regs (\<lambda>r. r\<lparr>r_int_mask := x AND LDD_INT_ALL\<rparr>) ps))"
    "pcie_inv (ldd_pcie_update_irq
       (upd_regs (\<lambda>r. r\<lparr>r_int_status := r_int_status r OR (x AND LDD_INT_ALL)\<rparr>) ps))" for x
    using r by (auto intro!: irq int_status_clear int_status_raise and_7_mask
        simp: regs_ok_def regs_ok_but_sent_def INT_ALL_eq)
  show ?thesis
    unfolding ldd_pcie_bar0_write_def Let_def
    using assms(2) plain desc ints pcie_inv_reset [OF p] pcie_inv_start [OF assms(1) plain(4)]
    by (simp only: if_split simp_thms HOL.if_True)
qed

lemma pcie_inv_step: "pcie_step B ps ps' \<Longrightarrow> bus_ok B \<Longrightarrow> pcie_inv ps \<Longrightarrow> pcie_inv ps'"
proof (induction rule: pcie_step.induct)
  case (pcie_reg_write ps now addr v)
  then show ?case by (intro pcie_inv_write)
next
  case (pcie_timer ps t now)
  then show ?case by (intro pcie_inv_complete)
next
  case (pcie_machine_reset ps)
  then show ?case
    unfolding ldd_pcie_qdev_reset_def by (intro pcie_inv_reset) (simp add: pcie_inv_def)
next
  case (pcie_config ps m x i)
  then show ?case by (simp add: pcie_inv_def pcie_props_ok_def ldd_pcie_busy_def)
next
  case (pcie_bar2_write off bs ps)
  then show ?case by (simp add: pcie_inv_def pcie_props_ok_def ldd_pcie_busy_def length_mem_put)
next
  case (pcie_guest_memory ps g)
  then show ?case by (simp add: pcie_inv_def pcie_props_ok_def ldd_pcie_busy_def)
qed

lemma pcie_inv_realize:
  assumes "ldd_pcie_realize e (ps\<lparr>ps_regs := regs_zero\<rparr>) = Inr ps'"
  shows "pcie_inv ps'"
proof -
  have "pcie_props_ok ps'" "ps_regs ps' = regs_zero" "ps_timer ps' = None"
    using assms by (auto simp: ldd_pcie_realize_def pcie_props_ok_def not_less split: if_splits)
  then show ?thesis
    by (simp add: pcie_inv_def regs_ok_def regs_zero_def status_ok_zero ldd_pcie_busy_def has_flag_def)
qed

subsection \<open>Descriptors in memory\<close>

text \<open>A descriptor as a driver stores it.\<close>

definition enc_desc :: "ldd_desc \<Rightarrow> byte list" where
  "enc_desc d = le_bytes 8 (d_addr d) @ le_bytes 4 (d_len d) @ le_bytes 4 (d_flags d)"

lemma length_enc_desc [simp]: "length (enc_desc d) = sizeof_desc"
  by (simp add: enc_desc_def sizeof_desc_def)

lemma concat_enc_nth:
  "i < length ds \<Longrightarrow> mem_get (sizeof_desc * i) sizeof_desc (concat (map enc_desc ds)) = enc_desc (ds ! i)"
proof (induction ds arbitrary: i)
  case Nil
  then show ?case by simp
next
  case (Cons d ds)
  show ?case
  proof (cases i)
    case 0
    then show ?thesis by (simp add: mem_get_def)
  next
    case (Suc j)
    have "mem_get (sizeof_desc * i) sizeof_desc (concat (map enc_desc (d # ds))) =
        mem_get (sizeof_desc * j) sizeof_desc (concat (map enc_desc ds))"
      by (simp add: mem_get_def Suc)
    then show ?thesis using Cons Suc by simp
  qed
qed

lemma mem_get_mem_get: "m + k \<le> n \<Longrightarrow> mem_get m k (mem_get off n xs) = mem_get (off + m) k xs"
  by (simp add: mem_get_def drop_take add.commute min_def)

text \<open>The device decodes every entry of a table as the driver encoded it.\<close>

lemma desc_at_enc:
  assumes "i < length ds"
  shows "desc_at (concat (map enc_desc ds)) i = ds ! i"
proof -
  let ?t = "concat (map enc_desc ds)"
  have "mem_get (sizeof_desc * i + m) k ?t = mem_get m k (enc_desc (ds ! i))" if "m + k \<le> sizeof_desc" for m k
    using concat_enc_nth [OF assms] mem_get_mem_get [OF that, of "sizeof_desc * i" ?t] by simp
  from this [of 0 8] this [of 8 4] this [of 12 4] show ?thesis
    by (simp add: desc_at_def enc_desc_def sizeof_desc_def mem_get_def le_word_le_bytes take_bit_word_eq_self)
qed

lemma map_desc_at_enc: "map (desc_at (concat (map enc_desc ds))) [0..<length ds] = ds"
  by (rule nth_equalityI) (simp_all add: desc_at_enc)

lemma ram_bus_sel [simp]:
  "bus_read ram_bus g a n = (True, map (\<lambda>i. g (a + of_nat i)) [0..<n])"
  "bus_write ram_bus g a bs = (True, \<lambda>x. if unat (x - a) < length bs then bs ! unat (x - a) else g x)"
  by (simp_all add: ram_bus_def)

lemma ram_bus_read_write:
  "length bs < 2 ^ 64 \<Longrightarrow> bus_read ram_bus (snd (bus_write ram_bus g a bs)) a (length bs) = (True, bs)"
  by (auto intro!: nth_equalityI simp: unat_of_nat)

subsection \<open>Interrupts follow the pending bits\<close>

text \<open>
  One message per bit that has become pending (MSI-X), one message for all of them (MSI), or a
  line that is up exactly while something is pending (INTx).
\<close>

definition irq_signalled :: "'g ldd_pcie \<Rightarrow> 'g ldd_pcie \<Rightarrow> bool" where
  "irq_signalled ps ps' \<longleftrightarrow>
     (let new = pcie_pending ps' AND NOT (pcie_pending ps)
      in (if ps_msix ps
          then ps_msgs ps' = ps_msgs ps @ map MsixNotify (filter (\<lambda>i. bit new i) [0..<LDD_MSIX_VECTORS])
          else if ps_msi ps
          then ps_msgs ps' = ps_msgs ps @ (if new \<noteq> 0 then [MsiNotify 0] else [])
          else (ps_intx ps \<longleftrightarrow> pcie_pending ps \<noteq> 0) \<longrightarrow> (ps_intx ps' \<longleftrightarrow> pcie_pending ps' \<noteq> 0)))"

lemma irq_signalled_same:
  "pcie_pending ps' = pcie_pending ps \<Longrightarrow> ps_msgs ps' = ps_msgs ps \<Longrightarrow> ps_intx ps' = ps_intx ps \<Longrightarrow>
   irq_signalled ps ps'"
  by (simp add: irq_signalled_def)

lemma irq_signalled_update:
  assumes "r_irq_sent (ps_regs ps1) = pcie_pending ps" "ps_msix ps1 = ps_msix ps" "ps_msi ps1 = ps_msi ps"
    "ps_msgs ps1 = ps_msgs ps"
  shows "irq_signalled ps (ldd_pcie_update_irq ps1)"
  using assms by (simp add: irq_signalled_def ldd_pcie_update_irq_def Let_def pcie_pending_def)

lemma irq_signalled_reset: "irq_signalled ps (ldd_pcie_reset ps)"
  by (simp add: irq_signalled_def ldd_pcie_reset_def pcie_pending_def regs_zero_def)

lemma irq_signalled_start:
  assumes "bus_ok B" "pcie_inv ps" "ps' = ldd_pcie_start B now (upd_regs (\<lambda>r. r\<lparr>r_dma_ctrl := x\<rparr>) ps)"
  shows "irq_signalled ps ps'"
proof -
  let ?ps1 = "upd_regs (\<lambda>r. r\<lparr>r_status := LDD_STATUS_BUSY, r_xfer_bytes := 0, r_err_desc := 0\<rparr>)
    (upd_regs (\<lambda>r. r\<lparr>r_dma_ctrl := x\<rparr>) ps)"
  obtain res ps2 where t: "ldd_pcie_transfer B ?ps1 = (res, ps2)" by fastforce
  have p: "pcie_props_ok ?ps1" using assms(2) by (simp add: pcie_inv_def pcie_props_ok_def)
  have fr: "ps_rest ps2 = ps_rest ?ps1" using transfer_frame [OF assms(1) p t] by simp
  have "ps' = ps2\<lparr>ps_regs := (ps_regs ps2)\<lparr>r_result := res\<rparr>, ps_timer := Some (now + uint (ps_latency_us ps2))\<rparr>"
    unfolding assms(3) by (rule start_eq) (use t in simp)
  then show ?thesis
    using ps_rest_regsD [OF fr] ps_rest_eqD [OF fr]
    by (intro irq_signalled_same) (simp_all add: pcie_pending_def)
qed

lemma irq_signalled_write:
  assumes "bus_ok B" "pcie_inv ps"
  shows "irq_signalled ps (ldd_pcie_bar0_write B now ps addr val)"
proof -
  have sent: "r_irq_sent (ps_regs ps) = pcie_pending ps"
    using assms(2) by (simp add: pcie_inv_def regs_ok_def pcie_pending_def)
  have same: "irq_signalled ps ps" by (rule irq_signalled_same) simp_all
  have plain: "irq_signalled ps (upd_regs f ps)"
    if "r_int_status (f (ps_regs ps)) = r_int_status (ps_regs ps)"
      "r_int_mask (f (ps_regs ps)) = r_int_mask (ps_regs ps)" for f
    using that by (intro irq_signalled_same) (simp_all add: pcie_pending_def)
  have irq: "irq_signalled ps (ldd_pcie_update_irq (upd_regs f ps))"
    if "r_irq_sent (f (ps_regs ps)) = r_irq_sent (ps_regs ps)" for f
    using that sent by (intro irq_signalled_update) simp_all
  show ?thesis
    unfolding ldd_pcie_bar0_write_def Let_def
    using same irq_signalled_reset [of ps] irq_signalled_start [OF assms refl]
    by (simp add: plain irq)
qed

lemma irq_signalled_complete:
  assumes "pcie_inv ps"
  shows "irq_signalled ps (ldd_pcie_complete (ps\<lparr>ps_timer := None\<rparr>))"
  using assms unfolding ldd_pcie_complete_def
  by (intro irq_signalled_update) (auto simp: pcie_inv_def regs_ok_def pcie_pending_def)

subsection \<open>Starting and completing a transfer\<close>

text \<open>The state in which the engine runs: DMA_CTRL written, BUSY set, counters cleared.\<close>

definition pcie_started :: "64 word \<Rightarrow> 'g ldd_pcie \<Rightarrow> 'g ldd_pcie" where
  "pcie_started val ps = upd_regs (\<lambda>r. r\<lparr>r_dma_ctrl := ucast val AND LDD_DMA_CTRL_DIR,
     r_status := LDD_STATUS_BUSY, r_xfer_bytes := 0, r_err_desc := 0\<rparr>) ps"

lemma pcie_started_sel [simp]:
  "ps_guest (pcie_started v ps) = ps_guest ps" "ps_bar2 (pcie_started v ps) = ps_bar2 ps"
  "ps_dma64 (pcie_started v ps) = ps_dma64 ps" "ps_max_seg (pcie_started v ps) = ps_max_seg ps"
  "ps_max_desc (pcie_started v ps) = ps_max_desc ps" "ps_master (pcie_started v ps) = ps_master ps"
  "r_desc_addr (ps_regs (pcie_started v ps)) = r_desc_addr (ps_regs ps)"
  "r_desc_count (ps_regs (pcie_started v ps)) = r_desc_count (ps_regs ps)"
  "r_dev_offset (ps_regs (pcie_started v ps)) = r_dev_offset (ps_regs ps)"
  "r_xor (ps_regs (pcie_started v ps)) = r_xor (ps_regs ps)"
  "r_xfer_bytes (ps_regs (pcie_started v ps)) = 0"
  by (simp_all add: pcie_started_def)

lemma pcie_started_same [simp]:
  "pcie_table B (pcie_started v ps) = pcie_table B ps"
  "ldd_pcie_dma_ok (pcie_started v ps) a n = ldd_pcie_dma_ok ps a n"
  "desc_bad (pcie_started v ps) d = desc_bad ps d"
  "gather_ok B (pcie_started v ps) ds = gather_ok B ps ds"
  "pcie_props_ok (pcie_started v ps) = pcie_props_ok ps"
  by (simp_all add: pcie_table_def ldd_pcie_dma_ok_def desc_bad_def gather_ok_def pcie_props_ok_def)

lemma pcie_started_scatter_ok [simp]:
  "scatter_ok B (pcie_started v ps) ds data g = scatter_ok B ps ds data g"
  by (rule scatter_ok_cong) simp

lemma pcie_started_accepts [simp]: "pcie_accepts B (pcie_started v ps) = pcie_accepts B ps"
  by (simp add: pcie_accepts_def pcie_table_read_def)

lemma write_dma_ctrl_start:
  assumes "\<not> ldd_pcie_busy ps" "has_flag val LDD_DMA_CTRL_START"
    and "ldd_pcie_transfer B (pcie_started val ps) = (res, ps2)"
  shows "ldd_pcie_bar0_write B now ps LDD_REG_DMA_CTRL val =
    ps2\<lparr>ps_regs := (ps_regs ps2)\<lparr>r_result := res\<rparr>, ps_timer := Some (now + uint (ps_latency_us ps2))\<rparr>"
proof -
  let ?ps0 = "upd_regs (\<lambda>r. r\<lparr>r_dma_ctrl := ucast val AND LDD_DMA_CTRL_DIR\<rparr>) ps"
  have "ldd_pcie_bar0_write B now ps LDD_REG_DMA_CTRL val = ldd_pcie_start B now ?ps0"
    using assms(1,2) by (simp add: ldd_pcie_bar0_write_def ldd_reg_consts)
  moreover have "upd_regs (\<lambda>r. r\<lparr>r_status := LDD_STATUS_BUSY, r_xfer_bytes := 0, r_err_desc := 0\<rparr>) ?ps0 =
      pcie_started val ps"
    by (simp add: pcie_started_def)
  ultimately show ?thesis using start_eq [of B ?ps0 res ps2 now] assms(3) by simp
qed

lemma complete_sel [simp]:
  "ps_bar2 (ldd_pcie_complete ps) = ps_bar2 ps" "ps_guest (ldd_pcie_complete ps) = ps_guest ps"
  "ps_timer (ldd_pcie_complete ps) = ps_timer ps"
  "r_xfer_bytes (ps_regs (ldd_pcie_complete ps)) = r_xfer_bytes (ps_regs ps)"
  "r_status (ps_regs (ldd_pcie_complete ps)) =
     (if r_result (ps_regs ps) \<noteq> 0
      then LDD_STATUS_ERROR OR push_bit LDD_STATUS_ERR_CODE_SHIFT (r_result (ps_regs ps))
      else LDD_STATUS_DONE)"
  "r_int_status (ps_regs (ldd_pcie_complete ps)) = r_int_status (ps_regs ps) OR
     (if r_result (ps_regs ps) \<noteq> 0 then LDD_INT_DMA_ERROR else LDD_INT_DMA_DONE)"
  by (simp_all add: ldd_pcie_complete_def)

lemma start_to_device:
  assumes "bus_ok B" "pcie_inv ps" "\<not> ldd_pcie_busy ps" "pcie_accepts B ps"
    and "gather_ok B ps (pcie_table B ps)"
  shows "ldd_pcie_bar0_write B now ps LDD_REG_DMA_CTRL LDD_DMA_CTRL_START =
    (pcie_started LDD_DMA_CTRL_START ps)
      \<lparr>ps_regs := (ps_regs (pcie_started LDD_DMA_CTRL_START ps))
         \<lparr>r_xfer_bytes := of_nat (desc_total (pcie_table B ps)), r_result := 0\<rparr>,
       ps_bar2 := mem_put (unat (r_dev_offset (ps_regs ps))) (gather B (ps_guest ps) (pcie_table B ps)) (ps_bar2 ps),
       ps_timer := Some (now + uint (ps_latency_us ps))\<rparr>"
proof -
  let ?v = "LDD_DMA_CTRL_START"
  let ?s = "pcie_started ?v ps"
  have dir: "\<not> has_flag (r_dma_ctrl (ps_regs ?s)) LDD_DMA_CTRL_DIR" "has_flag ?v LDD_DMA_CTRL_START"
    by (simp_all add: pcie_started_def ldd_bit_consts has_flag_def)
  have p: "pcie_props_ok ps" using assms(2) by (simp add: pcie_inv_def)
  have "ldd_pcie_transfer B ?s = desc_copy B False (pcie_table B ps) 0 (r_dev_offset (ps_regs ps)) ?s"
    using transfer_accepted [of ?s B] p assms(4) dir(1) by simp
  also have "\<dots> = (0, ?s\<lparr>ps_regs := (ps_regs ?s)\<lparr>r_xfer_bytes := r_xfer_bytes (ps_regs ?s) + of_nat (desc_total (pcie_table B ps))\<rparr>,
      ps_bar2 := mem_put (unat (r_dev_offset (ps_regs ps))) (gather B (ps_guest ?s) (pcie_table B ps)) (ps_bar2 ?s)\<rparr>)"
    using assms(4,5) p by (intro desc_copy_to_device assms(1)) (simp_all add: pcie_accepts_def pcie_props_ok_def)
  finally show ?thesis
    using write_dma_ctrl_start [OF assms(3) dir(2)] by (simp add: pcie_started_def)
qed

lemma start_to_guest:
  assumes "pcie_inv ps" "\<not> ldd_pcie_busy ps" "pcie_accepts B ps"
    and "data = xored (r_xor (ps_regs ps)) (mem_get (unat (r_dev_offset (ps_regs ps)))
           (desc_total (pcie_table B ps)) (ps_bar2 ps))"
    and "scatter_ok B ps (pcie_table B ps) data (ps_guest ps)"
  shows "ldd_pcie_bar0_write B now ps LDD_REG_DMA_CTRL (LDD_DMA_CTRL_START OR ucast LDD_DMA_CTRL_DIR) =
    (pcie_started 3 ps)
      \<lparr>ps_regs := (ps_regs (pcie_started 3 ps))
         \<lparr>r_xfer_bytes := of_nat (desc_total (pcie_table B ps)), r_result := 0\<rparr>,
       ps_guest := scatter B (pcie_table B ps) data (ps_guest ps),
       ps_timer := Some (now + uint (ps_latency_us ps))\<rparr>"
proof -
  let ?s = "pcie_started 3 ps"
  have v: "LDD_DMA_CTRL_START OR ucast LDD_DMA_CTRL_DIR = (3 :: 64 word)" by (simp add: ldd_bit_consts)
  have dir: "has_flag (r_dma_ctrl (ps_regs ?s)) LDD_DMA_CTRL_DIR" "has_flag 3 LDD_DMA_CTRL_START"
    by (simp_all add: pcie_started_def ldd_bit_consts has_flag_def)
  have p: "pcie_props_ok ps" using assms(1) by (simp add: pcie_inv_def)
  have "ldd_pcie_transfer B ?s = desc_copy B True (pcie_table B ps) 0 (r_dev_offset (ps_regs ps)) ?s"
    using transfer_accepted [of ?s B] p assms(3) dir(1) by simp
  also have "\<dots> = (0, ?s\<lparr>ps_regs := (ps_regs ?s)\<lparr>r_xfer_bytes := r_xfer_bytes (ps_regs ?s) + of_nat (desc_total (pcie_table B ps))\<rparr>,
      ps_guest := scatter B (pcie_table B ps) (xored (r_xor (ps_regs ?s)) (mem_get (unat (r_dev_offset (ps_regs ps)))
        (desc_total (pcie_table B ps)) (ps_bar2 ?s))) (ps_guest ?s)\<rparr>)"
    using assms(3-5) p by (intro desc_copy_to_guest) (simp_all add: pcie_accepts_def pcie_props_ok_def)
  finally show ?thesis
    unfolding v using write_dma_ctrl_start [OF assms(2) dir(2)] assms(4) by (simp add: pcie_started_def)
qed

subsection \<open>Properties\<close>

text \<open>
  C3: Whatever the properties given on the command line, in every state the device can reach from
  its creation, through any interleaving of register
  writes, timer expiries, resets, configuration writes and writes to its memories, BUSY is set
  exactly while a completion is pending (so no transfer is lost and none completes twice), STATUS
  holds one of its defined values, the signalled interrupts are the pending ones, and the
  on-board memory is still exactly 1 MiB: no transfer ever wrote outside it.
\<close>

theorem pcie_reachable_invariant:
  assumes "bus_ok B"
    and "ldd_pcie_realize e ((ldd_pcie_properties g)\<lparr>ps_dma64 := dma64, ps_max_seg := max_seg,
           ps_max_desc := max_desc, ps_latency_us := latency\<rparr>) = Inr ps0"
    and "(pcie_step B)\<^sup>*\<^sup>* ps0 ps"
  shows "(has_flag (r_status (ps_regs ps)) LDD_STATUS_BUSY \<longleftrightarrow> ps_timer ps \<noteq> None) \<and>
    status_ok (r_status (ps_regs ps)) \<and>
    r_irq_sent (ps_regs ps) = r_int_status (ps_regs ps) AND r_int_mask (ps_regs ps) \<and>
    length (ps_bar2 ps) = LDD_MEM_SIZE"
proof -
  let ?p = "(ldd_pcie_properties g)\<lparr>ps_dma64 := dma64, ps_max_seg := max_seg, ps_max_desc := max_desc, ps_latency_us := latency\<rparr>"
  have "?p = ?p\<lparr>ps_regs := regs_zero\<rparr>" by (simp add: ldd_pcie_properties_def)
  then have "pcie_inv ps0" using pcie_inv_realize assms(2) by metis
  with assms(3) have "pcie_inv ps"
    by (induction rule: rtranclp_induct) (blast intro: pcie_inv_step assms(1))+
  then show ?thesis by (simp add: pcie_inv_def regs_ok_def pcie_props_ok_def ldd_pcie_busy_def)
qed

theorem pcie_reachable_invariant_witness:
  "\<exists>ps0. ldd_pcie_realize pcie_env_ok ((ldd_pcie_properties (\<lambda>_. 0))\<lparr>ps_dma64 := False, ps_max_seg := 4096,
       ps_max_desc := 16, ps_latency_us := 0\<rparr>) = Inr ps0 \<and>
     length (ps_bar2 (ldd_pcie_bar0_write ram_bus 7 ps0 LDD_REG_DMA_CTRL (ucast (2 :: 32 word)))) = LDD_MEM_SIZE"
proof -
  let ?p = "(ldd_pcie_properties (\<lambda>_. 0))\<lparr>ps_dma64 := False, ps_max_seg := 4096, ps_max_desc := 16, ps_latency_us := 0\<rparr>
    :: (64 word \<Rightarrow> byte) ldd_pcie"
  obtain ps0 where r: "ldd_pcie_realize pcie_env_ok ?p = Inr ps0"
    by (simp add: ldd_pcie_realize_def ldd_pcie_properties_def pcie_env_ok_def is_power_of_2_def)
  have "(pcie_step ram_bus)\<^sup>*\<^sup>* ps0 (ldd_pcie_bar0_write ram_bus 7 ps0 LDD_REG_DMA_CTRL (ucast (2 :: 32 word)))"
    by (rule r_into_rtranclp) (rule pcie_reg_write)
  then show ?thesis
    using pcie_reachable_invariant [OF bus_ok_ram_bus r] r by blast
qed

text \<open>
  C6: Interrupts are neither lost nor repeated. In every step the device announces exactly the
  bits of INT_STATUS and INT_MASK that have become pending: one message per bit on MSI-X, in
  vector order, one message on MSI, and on INTx a line that is up exactly while a bit is pending.
\<close>

theorem pcie_interrupts_follow_pending:
  assumes "bus_ok B" and "pcie_inv ps" and "pcie_step B ps ps'"
  shows "irq_signalled ps ps'"
  using assms(3,1,2)
proof (induction rule: pcie_step.induct)
  case (pcie_reg_write ps now addr v)
  then show ?case by (intro irq_signalled_write)
next
  case (pcie_timer ps t now)
  then show ?case by (intro irq_signalled_complete)
next
  case (pcie_machine_reset ps)
  then show ?case by (simp add: ldd_pcie_qdev_reset_def irq_signalled_reset)
qed (auto intro!: irq_signalled_same simp: pcie_pending_def)

theorem pcie_interrupts_follow_pending_witness:
  "irq_signalled ((demo_pcie (\<lambda>_. 0))\<lparr>ps_msix := True\<rparr>)
     (ldd_pcie_bar0_write ram_bus 0 ((demo_pcie (\<lambda>_. 0))\<lparr>ps_msix := True\<rparr>) LDD_REG_INT_MASK (ucast (7 :: 32 word)))"
proof -
  have "pcie_inv ((demo_pcie (\<lambda>_. 0))\<lparr>ps_msix := True\<rparr>)"
    by (simp add: demo_pcie_def ldd_pcie_properties_def pcie_inv_def pcie_props_ok_def regs_ok_def
        regs_zero_def status_ok_zero ldd_pcie_busy_def has_flag_def)
  then show ?thesis
    by (rule pcie_interrupts_follow_pending [OF bus_ok_ram_bus]) (rule pcie_reg_write)
qed

text \<open>
  C4: A transfer towards the device. If the device is idle and accepts the table, and the bus
  can read what the descriptors name, then starting it moves exactly the bytes behind the
  descriptors, in table order, to the on-board memory at DEV_OFFSET, leaves every other byte of
  it alone, counts them in XFER_BYTES, and is busy until its timer completes it with DONE and
  the DMA_DONE interrupt.
\<close>

theorem pcie_dma_to_device:
  assumes "bus_ok B" and "pcie_inv ps" and "\<not> ldd_pcie_busy ps" and "pcie_accepts B ps"
    and "gather_ok B ps (pcie_table B ps)"
  shows "let ps' = ldd_pcie_bar0_write B now ps LDD_REG_DMA_CTRL LDD_DMA_CTRL_START;
             done = ldd_pcie_complete (ps'\<lparr>ps_timer := None\<rparr>);
             off = unat (r_dev_offset (ps_regs ps))
         in ldd_pcie_busy ps' \<and> ps_timer ps' = Some (now + uint (ps_latency_us ps)) \<and>
            ps_bar2 done = mem_put off (gather B (ps_guest ps) (pcie_table B ps)) (ps_bar2 ps) \<and>
            r_xfer_bytes (ps_regs done) = of_nat (desc_total (pcie_table B ps)) \<and>
            r_status (ps_regs done) = LDD_STATUS_DONE \<and>
            has_flag (r_int_status (ps_regs done)) LDD_INT_DMA_DONE"
  unfolding Let_def start_to_device [OF assms]
  by (simp add: pcie_started_def ldd_pcie_busy_def ldd_bit_consts has_flag_def)

text \<open>One descriptor of four bytes at 0x2000, in a table at 0x1000.\<close>

definition demo_guest :: "64 word \<Rightarrow> byte" where
  "demo_guest = snd (bus_write ram_bus (\<lambda>a. 7) 0x1000 (enc_desc \<lparr>d_addr = 0x2000, d_len = 4, d_flags = 0\<rparr>))"

definition demo_idle :: "(64 word \<Rightarrow> byte) ldd_pcie" where
  "demo_idle = upd_regs (\<lambda>r. r\<lparr>r_desc_addr := 0x1000, r_desc_count := 1, r_dev_offset := 16\<rparr>)
     (demo_pcie demo_guest)"

lemma demo_idle_facts:
  "pcie_inv demo_idle" "\<not> ldd_pcie_busy demo_idle"
  "pcie_table ram_bus demo_idle = [\<lparr>d_addr = 0x2000, d_len = 4, d_flags = 0\<rparr>]"
  "pcie_accepts ram_bus demo_idle"
proof -
  show "pcie_inv demo_idle" "\<not> ldd_pcie_busy demo_idle"
    by (simp_all add: demo_idle_def demo_pcie_def ldd_pcie_properties_def pcie_inv_def pcie_props_ok_def
        regs_ok_def regs_zero_def status_ok_zero ldd_pcie_busy_def has_flag_def)
  let ?d = "\<lparr>d_addr = 0x2000, d_len = 4, d_flags = 0\<rparr> :: ldd_desc"
  have "snd (bus_read ram_bus demo_guest 0x1000 sizeof_desc) = enc_desc ?d"
    using ram_bus_read_write [of "enc_desc ?d" "\<lambda>a. 7" "0x1000"]
    unfolding demo_guest_def length_enc_desc by (simp add: sizeof_desc_def)
  then have "pcie_table ram_bus demo_idle = map (desc_at (concat (map enc_desc [?d]))) [0..<length [?d]]"
    unfolding pcie_table_def
    by (simp add: demo_idle_def demo_pcie_def ldd_pcie_properties_def)
  then show t: "pcie_table ram_bus demo_idle = [?d]" by (simp only: map_desc_at_enc)
  show "pcie_accepts ram_bus demo_idle"
    unfolding pcie_accepts_def pcie_table_read_def Let_def t
    by (simp add: demo_idle_def demo_pcie_def ldd_pcie_properties_def ldd_pcie_dma_ok_def desc_bad_def
        LDD_MEM_SIZE_def)
qed

theorem pcie_dma_to_device_witness:
  "ps_bar2 (ldd_pcie_complete ((ldd_pcie_bar0_write ram_bus 0 demo_idle LDD_REG_DMA_CTRL
      LDD_DMA_CTRL_START)\<lparr>ps_timer := None\<rparr>)) = mem_put 16 [7, 7, 7, 7] (replicate LDD_MEM_SIZE 0)"
proof -
  have g: "gather_ok ram_bus demo_idle (pcie_table ram_bus demo_idle)"
    by (simp add: demo_idle_facts gather_ok_def ldd_pcie_dma_ok_def demo_idle_def demo_pcie_def
        ldd_pcie_properties_def)
  have "gather ram_bus (ps_guest demo_idle) (pcie_table ram_bus demo_idle) = [7, 7, 7, 7]"
    unfolding demo_idle_facts(3)
    by (simp add: gather_def demo_idle_def demo_pcie_def ldd_pcie_properties_def demo_guest_def
        sizeof_desc_def upt_rec)
  then show ?thesis
    using pcie_dma_to_device [OF bus_ok_ram_bus demo_idle_facts(1,2,4) g, of 0]
    by (simp add: Let_def demo_idle_def demo_pcie_def ldd_pcie_properties_def)
qed

text \<open>
  C5: A transfer towards the guest. Starting an accepted table in the other direction deals out the
  bytes of the on-board memory at DEV_OFFSET, each XORed with the XOR register, over the
  descriptors in table order, leaves the on-board memory alone and completes with DONE.
\<close>

theorem pcie_dma_to_guest:
  assumes "pcie_inv ps" and "\<not> ldd_pcie_busy ps" and "pcie_accepts B ps"
    and "data = xored (r_xor (ps_regs ps)) (mem_get (unat (r_dev_offset (ps_regs ps)))
           (desc_total (pcie_table B ps)) (ps_bar2 ps))"
    and "scatter_ok B ps (pcie_table B ps) data (ps_guest ps)"
  shows "let ps' = ldd_pcie_bar0_write B now ps LDD_REG_DMA_CTRL (LDD_DMA_CTRL_START OR ucast LDD_DMA_CTRL_DIR);
             done = ldd_pcie_complete (ps'\<lparr>ps_timer := None\<rparr>)
         in ldd_pcie_busy ps' \<and> ps_guest done = scatter B (pcie_table B ps) data (ps_guest ps) \<and>
            ps_bar2 done = ps_bar2 ps \<and>
            r_xfer_bytes (ps_regs done) = of_nat (desc_total (pcie_table B ps)) \<and>
            r_status (ps_regs done) = LDD_STATUS_DONE \<and>
            has_flag (r_int_status (ps_regs done)) LDD_INT_DMA_DONE"
  unfolding Let_def start_to_guest [OF assms]
  by (simp add: pcie_started_def ldd_pcie_busy_def ldd_bit_consts has_flag_def)

theorem pcie_dma_to_guest_witness:
  "ps_guest (ldd_pcie_complete ((ldd_pcie_bar0_write ram_bus 0 demo_idle LDD_REG_DMA_CTRL
      (LDD_DMA_CTRL_START OR ucast LDD_DMA_CTRL_DIR))\<lparr>ps_timer := None\<rparr>)) =
   snd (bus_write ram_bus demo_guest 0x2000 [0, 0, 0, 0])"
proof -
  let ?data = "xored (r_xor (ps_regs demo_idle)) (mem_get (unat (r_dev_offset (ps_regs demo_idle)))
    (desc_total (pcie_table ram_bus demo_idle)) (ps_bar2 demo_idle))"
  have d: "?data = [0, 0, 0, 0]"
    unfolding demo_idle_facts(3)
    by (simp add: demo_idle_def demo_pcie_def ldd_pcie_properties_def regs_zero_def mem_get_def
        LDD_MEM_SIZE_def) (simp add: numeral_eq_Suc)
  have ok: "scatter_ok ram_bus demo_idle (pcie_table ram_bus demo_idle) ?data (ps_guest demo_idle)"
    unfolding demo_idle_facts(3)
    by (simp add: ldd_pcie_dma_ok_def demo_idle_def demo_pcie_def ldd_pcie_properties_def)
  have "scatter ram_bus (pcie_table ram_bus demo_idle) ?data (ps_guest demo_idle) =
      snd (bus_write ram_bus demo_guest 0x2000 [0, 0, 0, 0])"
    unfolding d unfolding demo_idle_facts(3)
    by (simp add: demo_idle_def demo_pcie_def ldd_pcie_properties_def)
  then show ?thesis
    using pcie_dma_to_guest [OF demo_idle_facts(1,2,4) refl ok, of 0] by (simp only: Let_def)
qed

text \<open>
  C7: All checks come before any data moves. When the guest starts a transfer on an idle device and the engine
  does not accept the table (no bus mastering, a count of 0 or above MAX_DESC, an unreadable table, a bad
  descriptor, a transfer past the end of the memory) then no byte of either memory changes and XFER_BYTES is 0;
  the device is busy until its timer fires, and then reports ERROR, the interrupt DMA_ERROR and the code of the
  first check that failed.
\<close>

theorem pcie_refused_transfer_moves_nothing:
  assumes "pcie_inv ps" and "\<not> ldd_pcie_busy ps" and "\<not> pcie_accepts B ps" and "has_flag val LDD_DMA_CTRL_START"
  shows "let ps' = ldd_pcie_bar0_write B now ps LDD_REG_DMA_CTRL val;
             done = ldd_pcie_complete (ps'\<lparr>ps_timer := None\<rparr>);
             code = (if \<not> ps_master ps then LDD_ERR_NO_MASTER
               else if r_desc_count (ps_regs ps) = 0 \<or> r_desc_count (ps_regs ps) > ps_max_desc ps then LDD_ERR_BAD_COUNT
               else if \<not> pcie_table_read B ps then LDD_ERR_DMA_FAULT
               else if \<exists>d \<in> set (pcie_table B ps). desc_bad ps d then LDD_ERR_BAD_DESC
               else LDD_ERR_OUT_OF_RANGE)
         in ldd_pcie_busy ps' \<and> ps_timer ps' = Some (now + uint (ps_latency_us ps)) \<and>
            ps_bar2 done = ps_bar2 ps \<and> ps_guest done = ps_guest ps \<and> r_xfer_bytes (ps_regs done) = 0 \<and>
            r_status (ps_regs done) = LDD_STATUS_ERROR OR push_bit LDD_STATUS_ERR_CODE_SHIFT code \<and>
            has_flag (r_int_status (ps_regs done)) LDD_INT_DMA_ERROR"
proof -
  let ?s = "pcie_started val ps"
  obtain res ps2 where t: "ldd_pcie_transfer B ?s = (res, ps2)" by fastforce
  have p: "pcie_props_ok ?s" and na: "\<not> pcie_accepts B ?s" using assms(1,3) by (simp_all add: pcie_inv_def)
  note same = transfer_not_accepted [OF p na t] and code = transfer_refused_code [OF p na t]
  have tr: "pcie_table_read B ?s = pcie_table_read B ps" by (simp add: pcie_table_read_def)
  have "r_status (ps_regs ps2) = LDD_STATUS_BUSY" "ps_latency_us ps2 = ps_latency_us ps"
    using ps_rest_regsD(2) [of ps2 ?s] ps_rest_eqD(4) [of ps2 ?s] same by (simp_all add: pcie_started_def)
  moreover have "res \<noteq> 0" using same by (auto simp: ldd_err_consts)
  ultimately show ?thesis
    using same code unfolding Let_def write_dma_ctrl_start [OF assms(2,4) t] tr
    by (simp add: ldd_pcie_busy_def ldd_bit_consts has_flag_def bit.conj_disj_distrib2)
qed

theorem pcie_refused_transfer_moves_nothing_witness:
  "let late = upd_regs (\<lambda>r. r\<lparr>r_dev_offset := 0xffffe\<rparr>) demo_idle;
       done = ldd_pcie_complete ((ldd_pcie_bar0_write ram_bus 0 late LDD_REG_DMA_CTRL LDD_DMA_CTRL_START)\<lparr>ps_timer := None\<rparr>)
   in ps_bar2 done = replicate LDD_MEM_SIZE 0 \<and> r_status (ps_regs done) = 0x404"
proof -
  define late where "late = upd_regs (\<lambda>r. r\<lparr>r_dev_offset := 0xffffe\<rparr>) demo_idle"
  have t: "pcie_table ram_bus late = [\<lparr>d_addr = 0x2000, d_len = 4, d_flags = 0\<rparr>]"
    using demo_idle_facts(3) by (simp add: late_def pcie_table_def)
  have pre: "ps_master late" "r_desc_count (ps_regs late) = 1" "ps_max_desc late = 256" "ps_bar2 late = replicate LDD_MEM_SIZE 0"
    "pcie_table_read ram_bus late" "\<not> desc_bad late \<lparr>d_addr = 0x2000, d_len = 4, d_flags = 0\<rparr>"
    by (simp_all add: late_def pcie_table_read_def desc_bad_def demo_idle_def demo_pcie_def ldd_pcie_properties_def ldd_pcie_dma_ok_def)
  have na: "\<not> pcie_accepts ram_bus late" unfolding pcie_accepts_def t by (simp add: late_def LDD_MEM_SIZE_def)
  have inv: "pcie_inv late" "\<not> ldd_pcie_busy late"
    using demo_idle_facts(1,2) by (simp_all add: late_def pcie_inv_def pcie_props_ok_def regs_ok_def ldd_pcie_busy_def)
  have start: "has_flag LDD_DMA_CTRL_START LDD_DMA_CTRL_START" by (simp add: ldd_bit_consts has_flag_def)
  note refused = pcie_refused_transfer_moves_nothing [OF inv na start, of 0, unfolded Let_def t]
  show ?thesis
    unfolding Let_def late_def [symmetric]
    using refused pre by (simp add: ldd_err_consts ldd_bit_consts del: complete_sel)
qed

text \<open>
  While a transfer is in flight the registers that describe it are locked: no register write
  except a reset changes the table address, the count, the offset, the direction or the pending
  result, and none starts a second transfer.
\<close>

lemma pcie_busy_locks_transfer:
  assumes "ldd_pcie_busy ps" and "addr \<noteq> LDD_REG_CTRL \<or> \<not> has_flag val LDD_CTRL_RESET"
  shows "let ps' = ldd_pcie_bar0_write B now ps addr val
         in r_desc_addr (ps_regs ps') = r_desc_addr (ps_regs ps) \<and>
            r_desc_count (ps_regs ps') = r_desc_count (ps_regs ps) \<and>
            r_dev_offset (ps_regs ps') = r_dev_offset (ps_regs ps) \<and>
            r_dma_ctrl (ps_regs ps') = r_dma_ctrl (ps_regs ps) \<and>
            r_result (ps_regs ps') = r_result (ps_regs ps) \<and>
            ps_timer ps' = ps_timer ps \<and> ps_bar2 ps' = ps_bar2 ps \<and> ps_guest ps' = ps_guest ps"
  using assms unfolding ldd_pcie_bar0_write_def Let_def by auto

lemma pcie_busy_locks_transfer_witness:
  "r_desc_count (ps_regs (ldd_pcie_bar0_write ram_bus 0
     (upd_regs (\<lambda>r. r\<lparr>r_status := LDD_STATUS_BUSY, r_desc_count := 3\<rparr>) (demo_pcie (\<lambda>_. 0)))
     LDD_REG_DESC_COUNT 9)) = 3"
proof -
  let ?ps = "upd_regs (\<lambda>r. r\<lparr>r_status := LDD_STATUS_BUSY, r_desc_count := 3\<rparr>) (demo_pcie (\<lambda>_. 0))"
  have "ldd_pcie_busy ?ps" by (simp add: ldd_pcie_busy_def LDD_STATUS_BUSY_def has_flag_def)
  then show ?thesis
    using pcie_busy_locks_transfer [of ?ps LDD_REG_DESC_COUNT 9 ram_bus 0]
    by (simp add: Let_def ldd_reg_consts)
qed

text \<open>
  A flaw of the 32-bit mode. \<open>ldd_pcie_dma_ok\<close> is to let a device without DMA64 reach only
  addresses below 4 GiB, but its sum wraps: it accepts a buffer of 16 bytes at the very top of the
  64-bit address space, all of whose addresses are far above 4 GiB.
\<close>

lemma pcie_dma_ok_wraps:
  "\<exists>(ps :: (64 word \<Rightarrow> byte) ldd_pcie) addr len. \<not> ps_dma64 ps \<and> len > 0 \<and> len \<le> ucast (ps_max_seg ps) \<and>
     ldd_pcie_dma_ok ps addr len \<and> unat addr \<ge> 4 * 0x40000000"
proof -
  let ?ps = "(demo_pcie (\<lambda>_. 0))\<lparr>ps_dma64 := False\<rparr>"
  have "\<not> ps_dma64 ?ps \<and> (16 :: 64 word) > 0 \<and> (16 :: 64 word) \<le> ucast (ps_max_seg ?ps) \<and>
      ldd_pcie_dma_ok ?ps (- 16) 16 \<and> unat (- 16 :: 64 word) \<ge> 4 * 0x40000000"
    by (simp add: demo_pcie_def ldd_pcie_properties_def ldd_pcie_dma_ok_def)
  then show ?thesis by blast
qed

end
