(* ===== verification/Lifecycle.thy ===== *)
theory Lifecycle
  imports LDD_Prelude
begin

section \<open>Acquiring and releasing: probe, remove and their error paths\<close>

text \<open>
  Every driver of the repository acquires kernel resources one after the other and, where a call
  fails, jumps to the label that releases what it already has, in the reverse order. The model
  of such a function is its outcome together with the calls it made; the kernel's answers are a
  parameter, one \<open>errno option\<close> per call that may fail. \<open>held\<close> replays the calls: it is \<open>None\<close>
  when something is acquired twice or released out of order, without having been acquired or a
  second time, and otherwise the stack of what is held at the end.
\<close>

named_theorems life_defs \<open>error labels and teardown sequences\<close>

datatype 'r call = Acq 'r | Rel 'r

type_synonym 'r answers = "'r \<Rightarrow> errno option"

fun held :: "'r call list \<Rightarrow> 'r list \<Rightarrow> 'r list option" where
  "held [] st = Some st"
| "held (Acq r # cs) st = (if r \<in> set st then None else held cs (r # st))"
| "held (Rel r # cs) [] = None"
| "held (Rel r # cs) (x # st) = (if x = r then held cs st else None)"

text \<open>\<open>err = call(); if (err) goto label;\<close> with the label's code as the second argument.\<close>

definition if_err :: "errno option \<Rightarrow> (errno \<Rightarrow> 'b) \<Rightarrow> 'b \<Rightarrow> 'b" where
  "if_err r label rest = (case r of Some e \<Rightarrow> label e | None \<Rightarrow> rest)"

lemma if_err_simps [simp]: "if_err (Some e) label rest = label e" "if_err None label rest = rest"
  by (simp_all add: if_err_def)

text \<open>The same without an order of release: for objects freed with their last reference.\<close>

fun held_any :: "'r call list \<Rightarrow> 'r list \<Rightarrow> 'r list option" where
  "held_any [] st = Some st"
| "held_any (Acq r # cs) st = (if r \<in> set st then None else held_any cs (r # st))"
| "held_any (Rel r # cs) st = (if r \<in> set st then held_any cs (remove1 r st) else None)"

lemma held_append: "held (cs @ ds) st = Option.bind (held cs st) (held ds)"
  by (induction cs st rule: held.induct) simp_all

lemma held_any_append: "held_any (cs @ ds) st = Option.bind (held_any cs st) (held_any ds)"
  by (induction cs st rule: held_any.induct) simp_all

text \<open>Acquiring a list of resources and releasing it backwards leaves the stack as it was.\<close>

lemma held_acquire_all:
  "distinct rs \<Longrightarrow> set rs \<inter> set st = {} \<Longrightarrow> held (map Acq rs) st = Some (rev rs @ st)"
  by (induction rs arbitrary: st) auto

lemma held_release_all: "held (map Rel rs) (rs @ st) = Some st"
  by (induction rs) simp_all

lemma held_acquire_release:
  assumes "distinct rs"
  shows "held (map Acq rs @ map Rel (rev rs)) [] = Some []"
  using held_acquire_all [OF assms, of "[]"] held_release_all [of "rev rs" "[]"]
  by (simp add: held_append)

text \<open>A strict replay is also a replay in any order.\<close>

lemma held_imp_held_any: "held cs st = Some st' \<Longrightarrow> held_any cs st = Some st'"
  by (induction cs st rule: held.induct) (auto split: if_splits)

text \<open>
  A function that acquires in steps: a failure leaves nothing held, success leaves exactly what
  the teardown releases.
\<close>

definition clean :: "('r answers \<Rightarrow> errno option \<times> 'r call list) \<Rightarrow> 'r call list \<Rightarrow> bool" where
  "clean probe teardown \<longleftrightarrow> (\<forall>F.
     (fst (probe F) \<noteq> None \<longrightarrow> held (snd (probe F)) [] = Some []) \<and>
     (fst (probe F) = None \<longrightarrow> held (snd (probe F) @ teardown) [] = Some []))"

definition clean_any :: "('r answers \<Rightarrow> errno option \<times> 'r call list) \<Rightarrow> 'r call list \<Rightarrow> bool" where
  "clean_any probe teardown \<longleftrightarrow> (\<forall>F.
     (fst (probe F) \<noteq> None \<longrightarrow> held_any (snd (probe F)) [] = Some []) \<and>
     (fst (probe F) = None \<longrightarrow> held_any (snd (probe F) @ teardown) [] = Some []))"

subsection \<open>Modules with an array of devices\<close>

text \<open>
  Several modules create \<open>n\<close> devices in a loop, each a structure and a cdev, after reserving
  their numbers; if one cannot be created, those before it are destroyed in reverse order.
\<close>

fun destroy_devs :: "(nat \<Rightarrow> 'r) \<Rightarrow> (nat \<Rightarrow> 'r) \<Rightarrow> nat \<Rightarrow> 'r call list" where
  "destroy_devs strct cdev 0 = []"
| "destroy_devs strct cdev (Suc i) = [Rel (cdev i), Rel (strct i)] @ destroy_devs strct cdev i"

fun create_devs ::
  "'r answers \<Rightarrow> 'r \<Rightarrow> (nat \<Rightarrow> 'r) \<Rightarrow> (nat \<Rightarrow> 'r) \<Rightarrow> nat \<Rightarrow> nat \<Rightarrow> errno option \<times> 'r call list" where
  "create_devs F region strct cdev i 0 = (None, [])"
| "create_devs F region strct cdev i (Suc k) =
     if_err (F (strct i)) (\<lambda>_. (Some ENOMEM, destroy_devs strct cdev i @ [Rel region]))
       (if_err (F (cdev i))
          (\<lambda>e. (Some e, [Acq (strct i), Rel (strct i)] @ destroy_devs strct cdev i @ [Rel region]))
          (case create_devs F region strct cdev (i + 1) k of
             (r, cs) \<Rightarrow> (r, [Acq (strct i), Acq (cdev i)] @ cs)))"

definition devs_init :: "'r \<Rightarrow> (nat \<Rightarrow> 'r) \<Rightarrow> (nat \<Rightarrow> 'r) \<Rightarrow> nat \<Rightarrow> 'r answers \<Rightarrow> errno option \<times> 'r call list" where
  "devs_init region strct cdev n F =
     if_err (F region) (\<lambda>e. (Some e, []))
       (case create_devs F region strct cdev 0 n of (r, cs) \<Rightarrow> (r, Acq region # cs))"

definition devs_exit :: "'r \<Rightarrow> (nat \<Rightarrow> 'r) \<Rightarrow> (nat \<Rightarrow> 'r) \<Rightarrow> nat \<Rightarrow> 'r call list" where
  "devs_exit region strct cdev n = destroy_devs strct cdev n @ [Rel region]"

locale device_array =
  fixes region :: 'r
    and strct :: "nat \<Rightarrow> 'r"
    and cdev :: "nat \<Rightarrow> 'r"
  assumes strct_inj: "strct i = strct j \<longleftrightarrow> i = j"
    and cdev_inj: "cdev i = cdev j \<longleftrightarrow> i = j"
    and strct_cdev: "strct i \<noteq> cdev j"
    and region_new: "region \<noteq> strct i" "region \<noteq> cdev i"
begin

fun acquired :: "nat \<Rightarrow> 'r list" where
  "acquired 0 = [region]"
| "acquired (Suc i) = cdev i # strct i # acquired i"

lemma acquired_new: "i \<le> j \<Longrightarrow> cdev j \<notin> set (acquired i) \<and> strct j \<notin> set (acquired i)"
  using strct_cdev region_new
  by (induction i) (auto simp: strct_inj cdev_inj eq_commute [of "strct j"] eq_commute [of "cdev j" "strct _"])

lemma destroy_acquired: "held (destroy_devs strct cdev i @ [Rel region]) (acquired i) = Some []"
  by (induction i) simp_all

lemma create_held:
  "create_devs F region strct cdev i k = (r, cs) \<Longrightarrow>
   held cs (acquired i) = (if r = None then Some (acquired (i + k)) else Some [])"
proof (induction k arbitrary: i r cs)
  case 0
  then show ?case by simp
next
  case (Suc k)
  obtain r' cs' where l: "create_devs F region strct cdev (i + 1) k = (r', cs')" by fastforce
  have new: "strct i \<notin> set (acquired i)" "cdev i \<notin> set (acquired i)" "cdev i \<noteq> strct i"
    using acquired_new [of i i] strct_cdev [of i i] by (auto simp: eq_commute)
  show ?case
    using Suc.prems Suc.IH [OF l] l new destroy_acquired [of i]
    by (cases "F (strct i)"; cases "F (cdev i)") auto
qed

lemma devs_clean: "clean (devs_init region strct cdev n) (devs_exit region strct cdev n)"
  unfolding clean_def
proof
  fix F
  show "(fst (devs_init region strct cdev n F) \<noteq> None \<longrightarrow> held (snd (devs_init region strct cdev n F)) [] = Some []) \<and>
    (fst (devs_init region strct cdev n F) = None \<longrightarrow>
       held (snd (devs_init region strct cdev n F) @ devs_exit region strct cdev n) [] = Some [])"
  proof (cases "F region")
    case None
    obtain r cs where l: "create_devs F region strct cdev 0 n = (r, cs)" by fastforce
    have "held cs [region] = (if r = None then Some (acquired n) else Some [])"
      using create_held [OF l] by simp
    then show ?thesis
      using None l destroy_acquired [of n] by (simp add: devs_init_def devs_exit_def held_append)
  next
    case (Some e)
    then show ?thesis by (simp add: devs_init_def)
  qed
qed

end

end
