(* ===== verification/LDD_PCIE_Config.thy ===== *)
theory LDD_PCIE_Config
  imports LDD_PCIE Lifecycle
begin

section \<open>ldd-pcie: dispatch, configuration writes, migration and removal\<close>

text \<open>
  The rest of \<open>src/tools/qemu/hw/ldd/pcie.c\<close>: which accesses to BAR 0 get to the device, writes to its
  configuration space with the function level reset, the state that is migrated, and what creation
  acquires and removal gives back. What QEMU does with a configuration write is a parameter.
\<close>

subsection \<open>Access to BAR 0\<close>

text \<open>\<open>ldd_pcie_bar0_ops\<close>: four bytes, aligned; anything else is refused before it gets to the device.\<close>

definition bar0_valid :: "64 word \<Rightarrow> nat \<Rightarrow> bool" where
  "bar0_valid addr sz \<longleftrightarrow> sz = 4 \<and> addr mod 4 = 0"

definition bar0_access_read :: "'g ldd_pcie \<Rightarrow> 64 word \<Rightarrow> nat \<Rightarrow> 64 word option" where
  "bar0_access_read ps addr sz = (if bar0_valid addr sz then Some (ldd_pcie_bar0_read ps addr) else None)"

definition bar0_access_write :: "'g dma_bus \<Rightarrow> int \<Rightarrow> 'g ldd_pcie \<Rightarrow> 64 word \<Rightarrow> nat \<Rightarrow> 32 word \<Rightarrow> 'g ldd_pcie" where
  "bar0_access_write B now ps addr sz v = (if bar0_valid addr sz then ldd_pcie_bar0_write B now ps addr (ucast v) else ps)"

subsection \<open>Configuration writes\<close>

text \<open>
  \<open>pci_default_write_config\<close> and the reset that \<open>pcie_cap_flr_write_config\<close> makes of a write that sets
  Initiate FLR are QEMU's.
\<close>

record 'g config_ops =
  default_write_config :: "32 word \<Rightarrow> 32 word \<Rightarrow> nat \<Rightarrow> 'g ldd_pcie \<Rightarrow> 'g ldd_pcie"
  initiates_flr :: "32 word \<Rightarrow> 32 word \<Rightarrow> nat \<Rightarrow> bool"
  reset_config :: "'g ldd_pcie \<Rightarrow> 'g ldd_pcie"

definition flr_write_config :: "'g config_ops \<Rightarrow> 32 word \<Rightarrow> 32 word \<Rightarrow> nat \<Rightarrow> 'g ldd_pcie \<Rightarrow> 'g ldd_pcie" where
  "flr_write_config C addr val len ps =
     (if initiates_flr C addr val len then reset_config C (ldd_pcie_qdev_reset ps) else ps)"

definition ldd_pcie_write_config :: "'g config_ops \<Rightarrow> 32 word \<Rightarrow> 32 word \<Rightarrow> nat \<Rightarrow> 'g ldd_pcie \<Rightarrow> 'g ldd_pcie" where
  "ldd_pcie_write_config C addr val len ps = flr_write_config C addr val len (default_write_config C addr val len ps)"

text \<open>Of the device, configuration space has the bus-master bit and the interrupt mode.\<close>

definition config_only :: "('g ldd_pcie \<Rightarrow> 'g ldd_pcie) \<Rightarrow> bool" where
  "config_only f \<longleftrightarrow> (\<forall>ps. \<exists>m x i. f ps = ps\<lparr>ps_master := m, ps_msix := x, ps_msi := i\<rparr>)"

definition config_ok :: "'g config_ops \<Rightarrow> bool" where
  "config_ok C \<longleftrightarrow> (\<forall>addr val len. config_only (default_write_config C addr val len)) \<and> config_only (reset_config C)"

subsection \<open>Migration\<close>

text \<open>
  \<open>ldd_pcie_vmstate\<close>: the registers, the timer, and what \<open>VMSTATE_PCI_DEVICE\<close> and \<open>VMSTATE_MSIX\<close> save of
  the configuration and the interrupt line. The RAM behind BAR 2 and the memory of the guest are
  migrated on their own, the properties come from the command line of the destination.
\<close>

record pcie_vmstate =
  vm_pci :: "bool \<times> bool \<times> bool"
  vm_msix :: bool
  vm_timer :: "int option"
  vm_scratch :: "32 word"
  vm_pstatus :: "32 word"
  vm_int_status :: "32 word"
  vm_int_mask :: "32 word"
  vm_desc_addr :: "64 word"
  vm_desc_count :: "32 word"
  vm_dev_offset :: "32 word"
  vm_dma_ctrl :: "32 word"
  vm_xfer_bytes :: "32 word"
  vm_err_desc :: "32 word"
  vm_xor :: "32 word"
  vm_irq_sent :: "32 word"
  vm_result :: "32 word"

definition pcie_save :: "'g ldd_pcie \<Rightarrow> pcie_vmstate" where
  "pcie_save ps = (let r = ps_regs ps in
     \<lparr>vm_pci = (ps_master ps, ps_msi ps, ps_intx ps), vm_msix = ps_msix ps, vm_timer = ps_timer ps,
      vm_scratch = r_scratch r, vm_pstatus = r_status r, vm_int_status = r_int_status r, vm_int_mask = r_int_mask r,
      vm_desc_addr = r_desc_addr r, vm_desc_count = r_desc_count r, vm_dev_offset = r_dev_offset r,
      vm_dma_ctrl = r_dma_ctrl r, vm_xfer_bytes = r_xfer_bytes r, vm_err_desc = r_err_desc r, vm_xor = r_xor r,
      vm_irq_sent = r_irq_sent r, vm_result = r_result r\<rparr>)"

definition pcie_load :: "pcie_vmstate \<Rightarrow> 'g ldd_pcie \<Rightarrow> 'g ldd_pcie" where
  "pcie_load v ps = (case vm_pci v of (master, msi, intx) \<Rightarrow>
     ps\<lparr>ps_master := master, ps_msi := msi, ps_intx := intx, ps_msix := vm_msix v, ps_timer := vm_timer v,
        ps_regs := \<lparr>r_scratch = vm_scratch v, r_status = vm_pstatus v, r_int_status = vm_int_status v,
          r_int_mask = vm_int_mask v, r_desc_addr = vm_desc_addr v, r_desc_count = vm_desc_count v,
          r_dev_offset = vm_dev_offset v, r_dma_ctrl = vm_dma_ctrl v, r_xfer_bytes = vm_xfer_bytes v,
          r_err_desc = vm_err_desc v, r_xor = vm_xor v, r_irq_sent = vm_irq_sent v, r_result = vm_result v\<rparr>\<rparr>)"

text \<open>The destination: another device, with the RAM of the source copied into it.\<close>

definition pcie_migrate :: "'g ldd_pcie \<Rightarrow> 'g ldd_pcie \<Rightarrow> 'g ldd_pcie" where
  "pcie_migrate src dst = pcie_load (pcie_save src) (dst\<lparr>ps_bar2 := ps_bar2 src, ps_guest := ps_guest src\<rparr>)"

subsection \<open>Creation and removal\<close>

datatype pcie_res = PrPcieCap | PrMsi | PrMsix | PrVectors | PrTimer

definition realize_calls :: "pcie_res call list" where
  "realize_calls = [Acq PrPcieCap, Acq PrMsi, Acq PrMsix, Acq PrVectors, Acq PrTimer]"

definition ldd_pcie_exit :: "pcie_res call list" where
  "ldd_pcie_exit = [Rel PrTimer, Rel PrVectors, Rel PrMsix, Rel PrMsi, Rel PrPcieCap]"

lemma pcie_exit_releases: "held (realize_calls @ ldd_pcie_exit) [] = Some []"
  by (simp add: realize_calls_def ldd_pcie_exit_def)

subsection \<open>What stays true\<close>

text \<open>Dispatched writes and configuration writes are steps of the device, so the invariant covers them.\<close>

lemma bar0_access_steps: "(pcie_step B)\<^sup>*\<^sup>* ps (bar0_access_write B now ps addr sz v)"
  by (simp add: bar0_access_write_def r_into_rtranclp [of "pcie_step B", OF pcie_reg_write])

lemma config_only_step: "config_only f \<Longrightarrow> pcie_step B ps (f ps)"
  unfolding config_only_def by (metis pcie_config)

lemma write_config_steps:
  assumes "config_ok C"
  shows "(pcie_step B)\<^sup>*\<^sup>* ps (ldd_pcie_write_config C addr val len ps)"
proof -
  let ?ps = "default_write_config C addr val len ps"
  have d: "pcie_step B ps ?ps" and r: "pcie_step B s (reset_config C s)" for s
    using assms by (auto simp: config_ok_def intro: config_only_step)
  have "(pcie_step B)\<^sup>*\<^sup>* ?ps (flr_write_config C addr val len ?ps)"
    using pcie_machine_reset [of B ?ps] r [of "ldd_pcie_qdev_reset ?ps"]
    by (auto simp: flr_write_config_def intro: rtranclp_trans)
  then show ?thesis using d by (auto simp: ldd_pcie_write_config_def intro: converse_rtranclp_into_rtranclp)
qed

text \<open>A function level reset stops the transfer in flight: nothing completes or interrupts afterwards.\<close>

lemma flr_stops:
  assumes "config_ok C" and "initiates_flr C addr val len"
  shows "ps_timer (ldd_pcie_write_config C addr val len ps) = None"
    and "ps_regs (ldd_pcie_write_config C addr val len ps) = regs_zero"
    and "\<not> ps_intx (ldd_pcie_write_config C addr val len ps)"
proof -
  have "\<exists>m x i. reset_config C s = s\<lparr>ps_master := m, ps_msix := x, ps_msi := i\<rparr>" for s
    using assms(1) by (simp add: config_ok_def config_only_def)
  from this [of "ldd_pcie_qdev_reset (default_write_config C addr val len ps)"]
  show "ps_timer (ldd_pcie_write_config C addr val len ps) = None"
    and "ps_regs (ldd_pcie_write_config C addr val len ps) = regs_zero"
    and "\<not> ps_intx (ldd_pcie_write_config C addr val len ps)"
    using assms(2) by (auto simp: ldd_pcie_write_config_def flr_write_config_def ldd_pcie_qdev_reset_def ldd_pcie_reset_def)
qed

lemma pcie_migrate_eq:
  assumes "ps_dma64 dst = ps_dma64 src" and "ps_max_seg dst = ps_max_seg src"
    and "ps_max_desc dst = ps_max_desc src" and "ps_latency_us dst = ps_latency_us src"
  shows "pcie_migrate src dst = src\<lparr>ps_msgs := ps_msgs dst\<rparr>"
  using assms by (simp add: pcie_migrate_def pcie_load_def pcie_save_def Let_def)

lemma pcie_migrate_inv:
  assumes "pcie_inv src" and "pcie_props_ok dst"
  shows "pcie_inv (pcie_migrate src dst)"
  using assms by (simp add: pcie_inv_def pcie_props_ok_def regs_ok_def ldd_pcie_busy_def pcie_migrate_def pcie_load_def pcie_save_def Let_def)

text \<open>
  A transfer in flight is migrated: on a destination with the same properties the timer is armed for
  the same moment, the completion leaves the same registers and memory, and the interrupts are those
  the source would have sent.
\<close>

lemma complete_msgs:
  "\<exists>new. \<forall>m. ldd_pcie_complete (ps\<lparr>ps_msgs := m\<rparr>) = (ldd_pcie_complete ps)\<lparr>ps_msgs := m @ new\<rparr> \<and>
     ps_msgs (ldd_pcie_complete ps) = ps_msgs ps @ new"
proof -
  let ?new = "drop (length (ps_msgs ps)) (ps_msgs (ldd_pcie_complete ps))"
  have "\<forall>m. ldd_pcie_complete (ps\<lparr>ps_msgs := m\<rparr>) = (ldd_pcie_complete ps)\<lparr>ps_msgs := m @ ?new\<rparr> \<and>
     ps_msgs (ldd_pcie_complete ps) = ps_msgs ps @ ?new"
    by (simp add: ldd_pcie_complete_def ldd_pcie_update_irq_def Let_def)
  then show ?thesis by (rule exI)
qed

lemma pcie_migrates_in_flight:
  assumes "ps_dma64 dst = ps_dma64 src" and "ps_max_seg dst = ps_max_seg src"
    and "ps_max_desc dst = ps_max_desc src" and "ps_latency_us dst = ps_latency_us src"
  shows "ps_timer (pcie_migrate src dst) = ps_timer src"
    and "\<exists>new. ps_msgs (ldd_pcie_complete (src\<lparr>ps_timer := None\<rparr>)) = ps_msgs src @ new \<and>
      ldd_pcie_complete ((pcie_migrate src dst)\<lparr>ps_timer := None\<rparr>) =
        (ldd_pcie_complete (src\<lparr>ps_timer := None\<rparr>))\<lparr>ps_msgs := ps_msgs dst @ new\<rparr>"
proof -
  show "ps_timer (pcie_migrate src dst) = ps_timer src" by (simp add: pcie_migrate_eq [OF assms])
  have "(pcie_migrate src dst)\<lparr>ps_timer := None\<rparr> = (src\<lparr>ps_timer := None\<rparr>)\<lparr>ps_msgs := ps_msgs dst\<rparr>"
    by (simp add: pcie_migrate_eq [OF assms])
  then show "\<exists>new. ps_msgs (ldd_pcie_complete (src\<lparr>ps_timer := None\<rparr>)) = ps_msgs src @ new \<and>
      ldd_pcie_complete ((pcie_migrate src dst)\<lparr>ps_timer := None\<rparr>) =
        (ldd_pcie_complete (src\<lparr>ps_timer := None\<rparr>))\<lparr>ps_msgs := ps_msgs dst @ new\<rparr>"
    using complete_msgs [of "src\<lparr>ps_timer := None\<rparr>"] by auto
qed

end
