(* ===== verification/Dma_Device.thy ===== *)
theory Dma_Device
  imports LDD_PCIE
begin

section \<open>What a DMA driver relies on: the interface of the device\<close>

text \<open>
  The two DMA drivers (examples 27 and 28) program the device in the same way: table address in
  halves, count, offset, optionally the XOR byte, then DMA_CTRL with START; the interrupt handler
  reads and clears INT_STATUS. This theory has that sequence, the contract the drivers rely on as
  the locale \<open>dma_device\<close>, and its interpretation on the ldd-pcie device of theory
  \<open>LDD_PCIE\<close>, which discharges the contract for the emulated hardware.
\<close>

datatype dma_dir = DMA_TO_DEVICE | DMA_FROM_DEVICE

text \<open>
  The hardware as a driver meets it: register accesses, and what happens behind its back: the
  completion of the transfer in flight, and whether that interrupts the CPU.
\<close>

record 's hw =
  iowrite32 :: "'s \<Rightarrow> 64 word \<Rightarrow> 32 word \<Rightarrow> 's"
  ioread32 :: "'s \<Rightarrow> 64 word \<Rightarrow> 32 word"
  hw_fire :: "'s \<Rightarrow> 's"
  hw_irq :: "'s \<Rightarrow> 's \<Rightarrow> bool"

definition lower_32_bits :: "64 word \<Rightarrow> 32 word" where
  "lower_32_bits a = ucast a"

definition upper_32_bits :: "64 word \<Rightarrow> 32 word" where
  "upper_32_bits a = ucast (drop_bit 32 a)"

definition INT_DMA_BOTH :: "32 word" where
  "INT_DMA_BOTH = LDD_INT_DMA_DONE OR LDD_INT_DMA_ERROR"

text \<open>The register writes up to and including the one that starts the transfer.\<close>

definition dma_program ::
  "'s hw \<Rightarrow> 's \<Rightarrow> 64 word \<Rightarrow> 32 word \<Rightarrow> 32 word \<Rightarrow> dma_dir \<Rightarrow> 32 word \<Rightarrow> 's" where
  "dma_program H s desc_bus nents pos dir x =
     (let s1 = iowrite32 H s LDD_REG_DESC_ADDR_LO (lower_32_bits desc_bus);
          s2 = iowrite32 H s1 LDD_REG_DESC_ADDR_HI (upper_32_bits desc_bus);
          s3 = iowrite32 H s2 LDD_REG_DESC_COUNT nents;
          s4 = iowrite32 H s3 LDD_REG_DEV_OFFSET pos
      in case dir of
           DMA_FROM_DEVICE \<Rightarrow> iowrite32 H (iowrite32 H s4 LDD_REG_XOR (x AND 0xff)) LDD_REG_DMA_CTRL 3
         | DMA_TO_DEVICE \<Rightarrow> iowrite32 H s4 LDD_REG_DMA_CTRL 2)"

text \<open>What the drivers do after a timeout: reset, which masks the interrupts, and unmask them.\<close>

definition dma_reset :: "'s hw \<Rightarrow> 's \<Rightarrow> 's" where
  "dma_reset H s = iowrite32 H (iowrite32 H s LDD_REG_CTRL 1) LDD_REG_INT_MASK INT_DMA_BOTH"

text \<open>
  Writes of the device to a list of segments, in order, each as \<open>dwrite\<close> does it; \<open>None\<close> if
  one of them fails.
\<close>

primrec dscatter :: "('s \<Rightarrow> 64 word \<Rightarrow> byte list \<Rightarrow> 's option) \<Rightarrow> ldd_desc list \<Rightarrow> byte list \<Rightarrow> 's \<Rightarrow> 's option" where
  "dscatter dwrite [] data s = Some s"
| "dscatter dwrite (d # ds) data s =
     Option.bind (dwrite s (d_addr d) (take (unat (d_len d)) data))
       (dscatter dwrite ds (drop (unat (d_len d)) data))"

definition dgather :: "('s \<Rightarrow> 64 word \<Rightarrow> nat \<Rightarrow> byte list option) \<Rightarrow> ldd_desc list \<Rightarrow> 's \<Rightarrow> byte list" where
  "dgather dread ds s = concat (map (\<lambda>d. the (dread s (d_addr d) (unat (d_len d)))) ds)"

definition dma_table_ok ::
  "('s \<Rightarrow> 64 word \<Rightarrow> nat \<Rightarrow> byte list option) \<Rightarrow> nat \<Rightarrow> nat \<Rightarrow> 's \<Rightarrow> 64 word \<Rightarrow> ldd_desc list \<Rightarrow> nat \<Rightarrow> bool" where
  "dma_table_ok dread maxl maxd s desc_bus ds pos \<longleftrightarrow>
     desc_bus AND 15 = 0 \<and> ds \<noteq> [] \<and> length ds \<le> maxd \<and>
     dread s desc_bus (length ds * sizeof_desc) = Some (concat (map enc_desc ds)) \<and>
     (\<forall>d \<in> set ds. d_len d \<noteq> 0 \<and> unat (d_len d) \<le> maxl \<and> d_flags d = 0) \<and>
     pos + desc_total ds \<le> LDD_MEM_SIZE"

text \<open>
  The contract. \<open>onboard\<close> is the on-board memory, \<open>ready\<close> says the device is initialised, idle
  and has nothing to report, \<open>dread\<close> and \<open>dwrite\<close> are the accesses of the device to RAM.
  A programmed transfer of a valid table leaves the device unready until it fires; then it has
  interrupted, INT_STATUS says DONE, and acknowledging that makes it ready again, with the data
  moved. Whatever was programmed, the device interrupts and is ready again once its interrupt
  is acknowledged; a reset makes it quiescent and ready at any time.
\<close>

locale dma_device =
  fixes H :: "'s hw"
    and ready :: "'s \<Rightarrow> bool"
    and quiet :: "'s \<Rightarrow> bool"
    and onboard :: "'s \<Rightarrow> byte list"
    and dread :: "'s \<Rightarrow> 64 word \<Rightarrow> nat \<Rightarrow> byte list option"
    and dwrite :: "'s \<Rightarrow> 64 word \<Rightarrow> byte list \<Rightarrow> 's option"
    and maxl :: nat
    and maxd :: nat
  assumes to_device: "ready s \<Longrightarrow> dma_table_ok dread maxl maxd s desc_bus ds pos \<Longrightarrow>
      (\<forall>d \<in> set ds. dread s (d_addr d) (unat (d_len d)) \<noteq> None) \<Longrightarrow>
      s1 = dma_program H s desc_bus (of_nat (length ds)) (of_nat pos) DMA_TO_DEVICE x \<Longrightarrow>
      s2 = hw_fire H s1 \<Longrightarrow> s3 = iowrite32 H s2 LDD_REG_INT_STATUS LDD_INT_DMA_DONE \<Longrightarrow>
      hw_irq H s1 s2 \<and> ioread32 H s2 LDD_REG_INT_STATUS AND INT_DMA_BOTH = LDD_INT_DMA_DONE \<and>
      ready s3 \<and> onboard s3 = mem_put pos (dgather dread ds s) (onboard s) \<and>
      dread s3 = dread s"
    and from_device: "ready s \<Longrightarrow> dma_table_ok dread maxl maxd s desc_bus ds pos \<Longrightarrow>
      dscatter dwrite ds (xored (x AND 0xff) (mem_get pos (desc_total ds) (onboard s))) s = Some t \<Longrightarrow>
      s1 = dma_program H s desc_bus (of_nat (length ds)) (of_nat pos) DMA_FROM_DEVICE x \<Longrightarrow>
      s2 = hw_fire H s1 \<Longrightarrow> s3 = iowrite32 H s2 LDD_REG_INT_STATUS LDD_INT_DMA_DONE \<Longrightarrow>
      hw_irq H s1 s2 \<and> ioread32 H s2 LDD_REG_INT_STATUS AND INT_DMA_BOTH = LDD_INT_DMA_DONE \<and>
      ready s3 \<and> onboard s3 = onboard s \<and> dread s3 = dread t"
    and completes: "ready s \<Longrightarrow> s1 = dma_program H s desc_bus nents pos32 dir x \<Longrightarrow> s2 = hw_fire H s1 \<Longrightarrow>
      st = ioread32 H s2 LDD_REG_INT_STATUS AND INT_DMA_BOTH \<Longrightarrow>
      hw_irq H s1 s2 \<and> st \<noteq> 0 \<and> ready (iowrite32 H s2 LDD_REG_INT_STATUS st)"
    and recovers: "ready s \<Longrightarrow> s1 = dma_program H s desc_bus nents pos32 dir x \<Longrightarrow>
      s2 \<in> {s1, hw_fire H s1, iowrite32 H (hw_fire H s1) LDD_REG_INT_STATUS v} \<Longrightarrow> ready (dma_reset H s2)"
    and reset_reports_nothing: "ioread32 H (iowrite32 H s LDD_REG_CTRL 1) LDD_REG_INT_STATUS AND INT_DMA_BOTH = 0"
    and ready_size: "ready s \<Longrightarrow> length (onboard s) = LDD_MEM_SIZE"
    and ready_quiet: "ready s \<Longrightarrow> quiet s"
    and quiet_reset: "quiet (dma_reset H s)"
    and quiet_fire: "quiet (hw_fire H s)"
    and quiet_ack: "quiet s \<Longrightarrow> quiet (iowrite32 H s LDD_REG_INT_STATUS v)"
begin

text \<open>One segment, as the single-segment driver uses it.\<close>

lemma single_to_device:
  assumes "ready s" "desc_bus AND 15 = 0" "1 \<le> maxd" "0 < n" "n \<le> maxl" "n < 2 ^ 32" "pos + n \<le> LDD_MEM_SIZE"
    and "dread s desc_bus sizeof_desc = Some (enc_desc \<lparr>d_addr = bus, d_len = of_nat n, d_flags = 0\<rparr>)"
    and "dread s bus n = Some bs"
    and "s1 = dma_program H s desc_bus 1 (of_nat pos) DMA_TO_DEVICE x" "s2 = hw_fire H s1"
    and "s3 = iowrite32 H s2 LDD_REG_INT_STATUS LDD_INT_DMA_DONE"
  shows "hw_irq H s1 s2 \<and> ioread32 H s2 LDD_REG_INT_STATUS AND INT_DMA_BOTH = LDD_INT_DMA_DONE \<and>
    ready s3 \<and> onboard s3 = mem_put pos bs (onboard s) \<and> dread s3 = dread s"
proof -
  let ?d = "\<lparr>d_addr = bus, d_len = of_nat n, d_flags = 0\<rparr> :: ldd_desc"
  have n: "unat (of_nat n :: 32 word) = n" using assms(6) by (simp add: unat_of_nat)
  have nz: "(of_nat n :: 32 word) \<noteq> 0"
  proof
    assume "(of_nat n :: 32 word) = 0"
    then show False using n assms(4) by simp
  qed
  have t: "dma_table_ok dread maxl maxd s desc_bus [?d] pos"
    using assms n nz by (simp add: dma_table_ok_def)
  have r: "\<forall>d \<in> set [?d]. dread s (d_addr d) (unat (d_len d)) \<noteq> None"
    using assms(9) n by simp
  have s1: "s1 = dma_program H s desc_bus (of_nat (length [?d])) (of_nat pos) DMA_TO_DEVICE x"
    using assms(10) by simp
  have "dgather dread [?d] s = bs" using assms(9) n by (simp add: dgather_def)
  then show ?thesis using to_device [OF assms(1) t r s1 assms(11,12)] by simp
qed

lemma single_from_device:
  assumes "ready s" "desc_bus AND 15 = 0" "1 \<le> maxd" "0 < n" "n \<le> maxl" "n < 2 ^ 32" "pos + n \<le> LDD_MEM_SIZE"
    and "dread s desc_bus sizeof_desc = Some (enc_desc \<lparr>d_addr = bus, d_len = of_nat n, d_flags = 0\<rparr>)"
    and "dwrite s bus (xored (x AND 0xff) (mem_get pos n (onboard s))) = Some t"
    and "s1 = dma_program H s desc_bus 1 (of_nat pos) DMA_FROM_DEVICE x" "s2 = hw_fire H s1"
    and "s3 = iowrite32 H s2 LDD_REG_INT_STATUS LDD_INT_DMA_DONE"
  shows "hw_irq H s1 s2 \<and> ioread32 H s2 LDD_REG_INT_STATUS AND INT_DMA_BOTH = LDD_INT_DMA_DONE \<and>
    ready s3 \<and> onboard s3 = onboard s \<and> dread s3 = dread t"
proof -
  let ?d = "\<lparr>d_addr = bus, d_len = of_nat n, d_flags = 0\<rparr> :: ldd_desc"
  have n: "unat (of_nat n :: 32 word) = n" using assms(6) by (simp add: unat_of_nat)
  have nz: "(of_nat n :: 32 word) \<noteq> 0"
  proof
    assume "(of_nat n :: 32 word) = 0"
    then show False using n assms(4) by simp
  qed
  have t: "dma_table_ok dread maxl maxd s desc_bus [?d] pos"
    using assms n nz by (simp add: dma_table_ok_def)
  have "length (xored (x AND 0xff) (mem_get pos n (onboard s))) \<le> n" by simp
  then have sc: "dscatter dwrite [?d] (xored (x AND 0xff) (mem_get pos (desc_total [?d]) (onboard s))) s = Some t"
    using assms(9) n by simp
  have s1: "s1 = dma_program H s desc_bus (of_nat (length [?d])) (of_nat pos) DMA_FROM_DEVICE x"
    using assms(10) by simp
  show ?thesis using from_device [OF assms(1) t sc s1 assms(11,12)] by simp
qed

end

section \<open>The ldd-pcie device keeps the contract\<close>

definition pcie_hw :: "'g dma_bus \<Rightarrow> int \<Rightarrow> 'g ldd_pcie hw" where
  "pcie_hw B now =
     \<lparr>iowrite32 = (\<lambda>s a v. ldd_pcie_bar0_write B now s a (ucast v)),
      ioread32 = (\<lambda>s a. ucast (ldd_pcie_bar0_read s a)),
      hw_fire = (\<lambda>s. ldd_pcie_complete (s\<lparr>ps_timer := None\<rparr>)),
      hw_irq = (\<lambda>s s'. if ps_msi s then ps_msgs s' \<noteq> ps_msgs s else ps_intx s')\<rparr>"

definition pcie_dread :: "'g dma_bus \<Rightarrow> 'g ldd_pcie \<Rightarrow> 64 word \<Rightarrow> nat \<Rightarrow> byte list option" where
  "pcie_dread B s a n =
     (if ldd_pcie_dma_ok s a (of_nat n) \<and> fst (bus_read B (ps_guest s) a n)
      then Some (snd (bus_read B (ps_guest s) a n)) else None)"

definition pcie_dwrite :: "'g dma_bus \<Rightarrow> 'g ldd_pcie \<Rightarrow> 64 word \<Rightarrow> byte list \<Rightarrow> 'g ldd_pcie option" where
  "pcie_dwrite B s a bs =
     (if ldd_pcie_dma_ok s a (of_nat (length bs)) \<and> fst (bus_write B (ps_guest s) a bs)
      then Some (s\<lparr>ps_guest := snd (bus_write B (ps_guest s) a bs)\<rparr>) else None)"

text \<open>
  Ready: idle, bus master, MSI or INTx with both DMA interrupts unmasked and none reported, and
  limits at least as large as the driver assumes.
\<close>

definition pcie_ready :: "'g dma_bus \<Rightarrow> nat \<Rightarrow> nat \<Rightarrow> 'g ldd_pcie \<Rightarrow> bool" where
  "pcie_ready B maxl maxd s \<longleftrightarrow>
     bus_ok B \<and> pcie_inv s \<and> \<not> ldd_pcie_busy s \<and> ps_master s \<and> \<not> ps_msix s \<and>
     r_int_mask (ps_regs s) = INT_DMA_BOTH \<and> r_int_status (ps_regs s) AND INT_DMA_BOTH = 0 \<and>
     maxl \<le> unat (ps_max_seg s) \<and> maxd \<le> unat (ps_max_desc s)"

definition pcie_quiet :: "'g ldd_pcie \<Rightarrow> bool" where
  "pcie_quiet s \<longleftrightarrow> ps_timer s = None"

text \<open>The registers after the writes that precede DMA_CTRL.\<close>

definition pcie_programmed :: "64 word \<Rightarrow> 32 word \<Rightarrow> 32 word \<Rightarrow> 32 word \<Rightarrow> 'g ldd_pcie \<Rightarrow> 'g ldd_pcie" where
  "pcie_programmed desc_bus n pos x s =
     upd_regs (\<lambda>r. r\<lparr>r_desc_addr := desc_bus, r_desc_count := n, r_dev_offset := pos, r_xor := x\<rparr>) s"

lemma align_64: "NOT (LDD_DESC_ADDR_ALIGN - 1) = (NOT 15 :: 64 word)"
  by (simp add: LDD_DESC_ADDR_ALIGN_def)

text \<open>Writing an aligned address in halves puts the whole address in place.\<close>

lemma deposit_halves:
  assumes "a AND 15 = 0"
  shows "deposit64 (deposit64 v 0 32 (ucast (lower_32_bits a) AND NOT (LDD_DESC_ADDR_ALIGN - 1))) 32 32
    (ucast (upper_32_bits a)) = a"
proof (rule bit_eqI)
  fix n :: nat
  assume "possible_bit TYPE(64 word) n"
  then have n: "n < 64" by simp
  have "\<not> (bit a n \<and> bit (15 :: 64 word) n)"
    using assms by (metis bit_and_iff bit_0_eq bot_apply bot_bool_def)
  then show "bit (deposit64 (deposit64 v 0 32 (ucast (lower_32_bits a) AND NOT (LDD_DESC_ADDR_ALIGN - 1))) 32 32
      (ucast (upper_32_bits a))) n = bit a n"
    using n unfolding align_64 deposit64_def lower_32_bits_def upper_32_bits_def
    by (cases "n < 32") (auto simp: bit_simps)
qed

lemma ucast_ucast_32 [simp]: "ucast (ucast (n :: 32 word) :: 64 word) = n"
  by (rule bit_word_eqI) (simp add: bit_simps)

lemma pcie_busy_upd:
  "ldd_pcie_busy (upd_regs f s) = has_flag (r_status (f (ps_regs s))) LDD_STATUS_BUSY"
  by (simp add: ldd_pcie_busy_def)

lemma pcie_program_registers:
  assumes "\<not> ldd_pcie_busy s" "a AND 15 = 0"
  shows "dma_program (pcie_hw B now) s a n pos DMA_TO_DEVICE x =
      ldd_pcie_bar0_write B now (pcie_programmed a n pos (r_xor (ps_regs s)) s) LDD_REG_DMA_CTRL LDD_DMA_CTRL_START"
    and "dma_program (pcie_hw B now) s a n pos DMA_FROM_DEVICE x =
      ldd_pcie_bar0_write B now (pcie_programmed a n pos (x AND 0xff) s) LDD_REG_DMA_CTRL
        (LDD_DMA_CTRL_START OR ucast LDD_DMA_CTRL_DIR)"
proof -
  let ?w = "ldd_pcie_bar0_write B now"
  have b: "\<not> has_flag (r_status (ps_regs s)) LDD_STATUS_BUSY" using assms(1) by (simp add: ldd_pcie_busy_def)
  have "?w (?w (?w (?w s LDD_REG_DESC_ADDR_LO (ucast (lower_32_bits a)))
      LDD_REG_DESC_ADDR_HI (ucast (upper_32_bits a))) LDD_REG_DESC_COUNT (ucast n)) LDD_REG_DEV_OFFSET (ucast pos) =
    pcie_programmed a n pos (r_xor (ps_regs s)) s"
    using b deposit_halves [OF assms(2), of "r_desc_addr (ps_regs s)"]
    by (simp add: ldd_pcie_bar0_write_def ldd_reg_consts pcie_busy_upd ldd_pcie_busy_def pcie_programmed_def)
  moreover have "?w (pcie_programmed a n pos y s) LDD_REG_XOR (ucast (x AND 0xff)) =
      pcie_programmed a n pos (x AND 0xff) s" for y
    by (simp add: ldd_pcie_bar0_write_def ldd_reg_consts pcie_programmed_def unsigned_and_eq)
  ultimately show
    "dma_program (pcie_hw B now) s a n pos DMA_TO_DEVICE x =
      ?w (pcie_programmed a n pos (r_xor (ps_regs s)) s) LDD_REG_DMA_CTRL LDD_DMA_CTRL_START"
    "dma_program (pcie_hw B now) s a n pos DMA_FROM_DEVICE x =
      ?w (pcie_programmed a n pos (x AND 0xff) s) LDD_REG_DMA_CTRL (LDD_DMA_CTRL_START OR ucast LDD_DMA_CTRL_DIR)"
    by (simp_all add: dma_program_def pcie_hw_def ldd_bit_consts)
qed

lemma pcie_programmed_sel [simp]:
  "ps_guest (pcie_programmed a n pos x s) = ps_guest s" "ps_bar2 (pcie_programmed a n pos x s) = ps_bar2 s"
  "ps_dma64 (pcie_programmed a n pos x s) = ps_dma64 s" "ps_max_seg (pcie_programmed a n pos x s) = ps_max_seg s"
  "ps_max_desc (pcie_programmed a n pos x s) = ps_max_desc s" "ps_master (pcie_programmed a n pos x s) = ps_master s"
  "ldd_pcie_busy (pcie_programmed a n pos x s) = ldd_pcie_busy s"
  "ldd_pcie_dma_ok (pcie_programmed a n pos x s) = ldd_pcie_dma_ok s"
  "r_dev_offset (ps_regs (pcie_programmed a n pos x s)) = pos"
  "r_xor (ps_regs (pcie_programmed a n pos x s)) = x"
  "r_desc_count (ps_regs (pcie_programmed a n pos x s)) = n"
  "r_desc_addr (ps_regs (pcie_programmed a n pos x s)) = a"
  by (simp_all add: pcie_programmed_def ldd_pcie_busy_def ldd_pcie_dma_ok_def fun_eq_iff)

lemma pcie_programmed_inv:
  "pcie_inv s \<Longrightarrow> a AND 15 = 0 \<Longrightarrow> pcie_inv (pcie_programmed a n pos x s)"
  by (simp add: pcie_inv_def) (simp add: pcie_programmed_def pcie_props_ok_def regs_ok_def)

text \<open>A valid table, programmed, is one the device accepts, and the one it decodes.\<close>

lemma pcie_programmed_accepts:
  fixes x :: "32 word"
  assumes "pcie_ready B maxl maxd s" "dma_table_ok (pcie_dread B) maxl maxd s a ds pos"
  defines "p \<equiv> pcie_programmed a (of_nat (length ds)) (of_nat pos) x s"
  shows "pcie_table B p = ds \<and> pcie_accepts B p \<and> unat (r_dev_offset (ps_regs p)) = pos"
proof -
  have md: "unat (ps_max_desc s) \<le> 4096" and ms: "maxl \<le> unat (ps_max_seg s)" "maxd \<le> unat (ps_max_desc s)"
    using assms(1) by (auto simp: pcie_ready_def pcie_inv_def pcie_props_ok_def word_le_nat_alt)
  have t: "ds \<noteq> []" "length ds \<le> maxd" "pos + desc_total ds \<le> LDD_MEM_SIZE"
    "pcie_dread B s a (length ds * sizeof_desc) = Some (concat (map enc_desc ds))"
    "\<forall>d \<in> set ds. d_len d \<noteq> 0 \<and> unat (d_len d) \<le> maxl \<and> d_flags d = 0"
    using assms(2) by (simp_all add: dma_table_ok_def)
  have n: "unat (of_nat (length ds) :: 32 word) = length ds"
    using t(2) ms(2) md by (simp add: unat_of_nat)
  have pos: "unat (of_nat pos :: 32 word) = pos" using t(3) by (simp add: unat_of_nat LDD_MEM_SIZE_def)
  have rd: "ldd_pcie_dma_ok s a (of_nat (length ds * sizeof_desc))"
    "fst (bus_read B (ps_guest s) a (length ds * sizeof_desc))"
    "snd (bus_read B (ps_guest s) a (length ds * sizeof_desc)) = concat (map enc_desc ds)"
    using t(4) by (simp_all add: pcie_dread_def split: if_splits)
  have tab: "pcie_table B p = ds"
    unfolding p_def pcie_table_def by (simp add: n rd(3) map_desc_at_enc)
  have nz: "(of_nat (length ds) :: 32 word) \<noteq> 0" using n t(1) by (metis length_0_conv unat_0)
  have bad: "\<not> desc_bad p d" if "d \<in> set ds" for d
    using t(5) that ms(1) by (auto simp: p_def desc_bad_def word_less_nat_alt)
  have u: "(ucast (of_nat (length ds) :: 32 word) :: 64 word) = of_nat (length ds)"
    using n t(2) ms(2) md by (simp add: word_unat_eq_iff unat_ucast_up unat_of_nat)
  have "pcie_table_read B p"
    using nz rd(1,2) u assms(1) t(2) ms(2) n
    by (simp add: pcie_table_read_def p_def Let_def pcie_ready_def word_le_nat_alt)
  then show ?thesis
    using tab bad t(3) pos by (simp add: pcie_accepts_def) (simp add: p_def)
qed

text \<open>What a programmed transfer keeps: everything but the memories and its own registers.\<close>

definition pcie_cfg :: "'g ldd_pcie \<Rightarrow> 'g ldd_pcie \<Rightarrow> bool" where
  "pcie_cfg s s' \<longleftrightarrow> ps_max_seg s' = ps_max_seg s \<and> ps_max_desc s' = ps_max_desc s \<and> ps_master s' = ps_master s \<and>
     ps_msix s' = ps_msix s \<and> ps_msi s' = ps_msi s \<and> ps_dma64 s' = ps_dma64 s"

definition pcie_kept :: "'g ldd_pcie \<Rightarrow> 'g ldd_pcie \<Rightarrow> bool" where
  "pcie_kept s s' \<longleftrightarrow> pcie_cfg s s' \<and> ps_msgs s' = ps_msgs s \<and> ps_intx s' = ps_intx s \<and>
     r_int_mask (ps_regs s') = r_int_mask (ps_regs s) \<and> r_int_status (ps_regs s') = r_int_status (ps_regs s) \<and>
     r_irq_sent (ps_regs s') = r_irq_sent (ps_regs s)"

lemma pcie_kept_trans: "pcie_kept s t \<Longrightarrow> pcie_kept t u \<Longrightarrow> pcie_kept s u"
  by (simp add: pcie_kept_def pcie_cfg_def)

lemma pcie_kept_refl: "pcie_kept s s"
  by (simp add: pcie_kept_def pcie_cfg_def)

lemma pcie_kept_rest: "ps_rest s' = ps_rest s \<Longrightarrow> pcie_kept s s'"
  using ps_rest_eqD [of s' s] ps_rest_regsD [of s' s] by (simp add: pcie_kept_def pcie_cfg_def)

lemma pcie_kept_start:
  assumes "bus_ok B" "pcie_inv s"
  shows "pcie_kept s (ldd_pcie_start B now s)"
proof -
  let ?s1 = "upd_regs (\<lambda>r. r\<lparr>r_status := LDD_STATUS_BUSY, r_xfer_bytes := 0, r_err_desc := 0\<rparr>) s"
  obtain res s2 where t: "ldd_pcie_transfer B ?s1 = (res, s2)" by fastforce
  have "pcie_props_ok ?s1" using assms(2) by (simp add: pcie_inv_def pcie_props_ok_def)
  then have "pcie_kept ?s1 s2" using transfer_frame [OF assms(1) _ t] by (intro pcie_kept_rest) simp
  then show ?thesis
    unfolding start_eq [OF t] by (simp add: pcie_kept_def pcie_cfg_def)
qed

lemma pcie_kept_write:
  assumes "bus_ok B" "pcie_inv s"
    and "a \<in> {LDD_REG_DESC_ADDR_LO, LDD_REG_DESC_ADDR_HI, LDD_REG_DESC_COUNT, LDD_REG_DEV_OFFSET, LDD_REG_DMA_CTRL, LDD_REG_XOR}"
  shows "pcie_kept s (ldd_pcie_bar0_write B now s a v)"
proof -
  let ?c = "upd_regs (\<lambda>r. r\<lparr>r_dma_ctrl := ucast v AND LDD_DMA_CTRL_DIR\<rparr>) s"
  have c: "pcie_kept s ?c" by (simp add: pcie_kept_def pcie_cfg_def)
  have "pcie_inv ?c" using assms(2) by (simp add: pcie_inv_def pcie_props_ok_def regs_ok_def ldd_pcie_busy_def)
  then have st: "pcie_kept s (ldd_pcie_start B now ?c)"
    using pcie_kept_start [OF assms(1)] pcie_kept_trans [OF c] by blast
  have "a \<noteq> LDD_REG_SCRATCH" "a \<noteq> LDD_REG_CTRL" "a \<noteq> LDD_REG_INT_STATUS" "a \<noteq> LDD_REG_INT_MASK"
    "a \<noteq> LDD_REG_INT_RAISE"
    using assms(3) by (auto simp: ldd_reg_consts)
  then show ?thesis
    unfolding ldd_pcie_bar0_write_def Let_def
    using c st pcie_kept_refl [of s] by (simp add: pcie_kept_def pcie_cfg_def)
qed

lemma pcie_program_kept:
  assumes "bus_ok B" "pcie_inv s"
  shows "pcie_inv (dma_program (pcie_hw B now) s a n pos dir x) \<and> pcie_kept s (dma_program (pcie_hw B now) s a n pos dir x)"
proof -
  let ?R = "{LDD_REG_DESC_ADDR_LO, LDD_REG_DESC_ADDR_HI, LDD_REG_DESC_COUNT, LDD_REG_DEV_OFFSET, LDD_REG_DMA_CTRL, LDD_REG_XOR}"
  let ?ok = "\<lambda>t. pcie_inv t \<and> pcie_kept s t"
  have step: "?ok (iowrite32 (pcie_hw B now) t r v)" if "?ok t" "r \<in> ?R" for t r v
    using that pcie_inv_write [OF assms(1)] pcie_kept_write [OF assms(1) _ that(2)] pcie_kept_trans
    by (auto simp: pcie_hw_def) blast+
  have "?ok s" using assms(2) pcie_kept_refl by blast
  then show ?thesis
    unfolding dma_program_def Let_def by (cases dir) (simp_all add: step)
qed

text \<open>
  What happens after the transfer ran, in terms of the state it left: the timer fires, interrupts
  the CPU, and the acknowledged device is ready again.
\<close>

lemma pcie_fire_and_ack:
  assumes "pcie_ready B maxl maxd s" "pcie_inv s1" "pcie_kept s s1"
    and "s2 = ldd_pcie_complete (s1\<lparr>ps_timer := None\<rparr>)"
    and "st = (if r_result (ps_regs s1) \<noteq> 0 then LDD_INT_DMA_ERROR else LDD_INT_DMA_DONE)"
    and "s3 = ldd_pcie_bar0_write B now s2 LDD_REG_INT_STATUS (ucast st)"
  shows "hw_irq (pcie_hw B now) s1 s2 \<and>
    ioread32 (pcie_hw B now) s2 LDD_REG_INT_STATUS AND INT_DMA_BOTH = st \<and>
    pcie_ready B maxl maxd s3 \<and> ps_bar2 s3 = ps_bar2 s1 \<and> ps_guest s3 = ps_guest s1 \<and> ps_dma64 s3 = ps_dma64 s1"
proof -
  let ?st = "r_int_status (ps_regs s)"
  have rdy: "bus_ok B" "r_int_mask (ps_regs s) = 3" "?st AND 3 = 0" "pcie_inv s"
    using assms(1) by (simp_all add: pcie_ready_def INT_DMA_BOTH_def ldd_bit_consts)
  have sent: "r_irq_sent (ps_regs s) = 0" using rdy(2-4) by (simp add: pcie_inv_def regs_ok_def)
  have st: "st AND 3 = st" "st \<noteq> 0" "(?st OR st) AND 3 = st"
    using rdy(3) by (simp_all add: assms(5) ldd_bit_consts bit.conj_disj_distrib2)
  have st2: "r_int_status (ps_regs s2) = ?st OR st"
    unfolding assms(4,5) using assms(3) by (simp add: pcie_kept_def)
  obtain u where u: "s2 = ldd_pcie_update_irq u" "r_int_status (ps_regs u) = ?st OR st" "r_int_mask (ps_regs u) = 3"
    "r_irq_sent (ps_regs u) = 0" "ps_msix u = ps_msix s" "ps_msi u = ps_msi s1" "ps_msgs u = ps_msgs s1"
    using assms(3) rdy(2) sent unfolding assms(4) ldd_pcie_complete_def
    by (simp add: pcie_kept_def pcie_cfg_def assms(5))
  have irq: "hw_irq (pcie_hw B now) s1 s2"
    using assms(1) st(2,3) u(2-7) unfolding u(1)
    by (simp add: pcie_hw_def ldd_pcie_update_irq_def Let_def pcie_ready_def)
  have i2: "pcie_inv s2" unfolding assms(4) by (rule pcie_inv_complete [OF assms(2)])
  have s3: "s3 = ldd_pcie_update_irq (upd_regs (\<lambda>r. r\<lparr>r_int_status := r_int_status r AND ucast (NOT (ucast st :: 64 word))\<rparr>) s2)"
    unfolding assms(6) by (simp add: ldd_pcie_bar0_write_def ldd_reg_consts)
  have busy: "\<not> ldd_pcie_busy s2"
    unfolding assms(4) ldd_pcie_busy_def by (simp add: status_error_idle)
  have sel2: "ps_max_seg s2 = ps_max_seg s" "ps_max_desc s2 = ps_max_desc s" "ps_master s2 = ps_master s"
    "ps_msix s2 = ps_msix s" "r_int_mask (ps_regs s2) = r_int_mask (ps_regs s)" "ps_dma64 s2 = ps_dma64 s1"
    unfolding assms(4) using assms(3) by (simp_all add: ldd_pcie_complete_def pcie_kept_def pcie_cfg_def)
  have clear: "((?st OR st) AND ucast (NOT (ucast st :: 64 word))) AND 3 = 0"
  proof -
    have "((?st OR st) AND 3) AND ucast (NOT (ucast st :: 64 word)) = 0"
      unfolding st(3) by (simp add: assms(5) ldd_bit_consts)
    then show ?thesis by (simp add: ac_simps)
  qed
  have "pcie_ready B maxl maxd s3"
    using assms(1) i2 busy sel2 st2 clear pcie_inv_write [OF rdy(1) i2, of now LDD_REG_INT_STATUS "ucast st"]
    unfolding pcie_ready_def assms(6) [symmetric]
    by (simp add: s3 ldd_pcie_busy_def INT_DMA_BOTH_def LDD_INT_DMA_DONE_def LDD_INT_DMA_ERROR_def)
  moreover have "ioread32 (pcie_hw B now) s2 LDD_REG_INT_STATUS AND INT_DMA_BOTH = st"
    using st(3) st2 by (simp add: pcie_hw_def ldd_pcie_bar0_read_def ldd_reg_consts INT_DMA_BOTH_def
        LDD_INT_DMA_DONE_def LDD_INT_DMA_ERROR_def)
  moreover have "ps_bar2 s3 = ps_bar2 s1 \<and> ps_guest s3 = ps_guest s1 \<and> ps_dma64 s3 = ps_dma64 s1"
    using sel2(6) by (simp add: s3 assms(4))
  ultimately show ?thesis using irq by blast
qed

lemma pcie_reset_ready:
  assumes "pcie_ready B maxl maxd s" "pcie_inv t" "pcie_cfg s t"
  shows "pcie_ready B maxl maxd (dma_reset (pcie_hw B now) t)"
proof -
  have B: "bus_ok B" using assms(1) by (simp add: pcie_ready_def)
  have i: "pcie_inv (dma_reset (pcie_hw B now) t)"
    unfolding dma_reset_def by (simp add: pcie_hw_def pcie_inv_write B assms(2))
  have "dma_reset (pcie_hw B now) t =
      ldd_pcie_update_irq (upd_regs (\<lambda>r. r\<lparr>r_int_mask := INT_DMA_BOTH\<rparr>) (ldd_pcie_reset t))"
    by (simp add: dma_reset_def pcie_hw_def ldd_pcie_bar0_write_def ldd_reg_consts has_flag_def INT_DMA_BOTH_def ldd_bit_consts)
  then show ?thesis
    using i assms(1,3) by (simp add: pcie_ready_def pcie_cfg_def ldd_pcie_busy_def ldd_pcie_reset_def regs_zero_def has_flag_def)
qed

lemma pcie_dread_cong:
  "ps_guest s = ps_guest t \<Longrightarrow> ps_dma64 s = ps_dma64 t \<Longrightarrow> pcie_dread B s = pcie_dread B t"
  by (simp add: fun_eq_iff pcie_dread_def ldd_pcie_dma_ok_def)

lemma ucast_of_unat: "(of_nat (unat (w :: 32 word)) :: 64 word) = ucast w"
  by (simp add: word_unat_eq_iff unat_ucast_up unat_of_nat)

lemma pcie_gather:
  assumes "\<forall>d \<in> set ds. pcie_dread B s (d_addr d) (unat (d_len d)) \<noteq> None"
  shows "gather_ok B s ds \<and> gather B (ps_guest s) ds = dgather (pcie_dread B) ds s"
proof -
  have p: "ldd_pcie_dma_ok s (d_addr d) (ucast (d_len d)) \<and>
      fst (bus_read B (ps_guest s) (d_addr d) (unat (d_len d))) \<and>
      the (pcie_dread B s (d_addr d) (unat (d_len d))) = snd (bus_read B (ps_guest s) (d_addr d) (unat (d_len d)))"
    if "d \<in> set ds" for d
    using bspec [OF assms that] by (simp add: pcie_dread_def ucast_of_unat split: if_splits)
  then have "gather B (ps_guest s) ds = dgather (pcie_dread B) ds s"
    unfolding gather_def dgather_def by (intro arg_cong [where f = concat] map_cong) simp_all
  then show ?thesis using p by (simp add: gather_ok_def)
qed

lemma pcie_scatter:
  "dscatter (pcie_dwrite B) ds data s = Some t \<Longrightarrow> length data = desc_total ds \<Longrightarrow>
   scatter_ok B s ds data (ps_guest s) \<and> t = s\<lparr>ps_guest := scatter B ds data (ps_guest s)\<rparr>"
proof (induction ds arbitrary: data s)
  case Nil
  then show ?case by simp
next
  case (Cons d ds)
  let ?n = "unat (d_len d)"
  let ?g = "snd (bus_write B (ps_guest s) (d_addr d) (take ?n data))"
  have len: "length (take ?n data) = ?n" "length (drop ?n data) = desc_total ds"
    using Cons.prems(2) by simp_all
  obtain s' where s': "pcie_dwrite B s (d_addr d) (take ?n data) = Some s'"
    "dscatter (pcie_dwrite B) ds (drop ?n data) s' = Some t"
    using Cons.prems(1) by (auto simp: bind_eq_Some_conv)
  from s'(1) have w: "ldd_pcie_dma_ok s (d_addr d) (ucast (d_len d))"
    "fst (bus_write B (ps_guest s) (d_addr d) (take ?n data))" "s' = s\<lparr>ps_guest := ?g\<rparr>"
    unfolding pcie_dwrite_def len(1) ucast_of_unat by (simp_all split: if_splits)
  have ok: "scatter_ok B (s\<lparr>ps_guest := ?g\<rparr>) = (scatter_ok B s :: ldd_desc list \<Rightarrow> _)"
    by (intro ext scatter_ok_cong) simp
  show ?case using Cons.IH [OF s'(2) len(2)] w ok by simp
qed

interpretation pcie_dma: dma_device "pcie_hw B now" "pcie_ready B maxl maxd" pcie_quiet ps_bar2
  "pcie_dread B" "pcie_dwrite B" maxl maxd
  for B now maxl maxd
proof
  fix s :: "'a ldd_pcie" and desc_bus ds pos s1 s2 s3 and x :: "32 word"
  assume rdy: "pcie_ready B maxl maxd s" and t: "dma_table_ok (pcie_dread B) maxl maxd s desc_bus ds pos"
    and rd: "\<forall>d \<in> set ds. pcie_dread B s (d_addr d) (unat (d_len d)) \<noteq> None"
    and s1: "s1 = dma_program (pcie_hw B now) s desc_bus (of_nat (length ds)) (of_nat pos) DMA_TO_DEVICE x"
    and s2: "s2 = hw_fire (pcie_hw B now) s1"
    and s3: "s3 = iowrite32 (pcie_hw B now) s2 LDD_REG_INT_STATUS LDD_INT_DMA_DONE"
  let ?p = "pcie_programmed desc_bus (of_nat (length ds)) (of_nat pos) (r_xor (ps_regs s)) s"
  note p = pcie_programmed_accepts [OF rdy t, of "r_xor (ps_regs s)"]
  have r: "bus_ok B" "pcie_inv s" "\<not> ldd_pcie_busy s" and al: "desc_bus AND 15 = 0"
    using rdy t by (simp_all add: pcie_ready_def dma_table_ok_def)
  note w = s1 [unfolded pcie_program_registers(1) [OF r(3) al]]
  have g: "gather_ok B ?p ds" using pcie_gather [OF rd] gather_ok_cong [of ?p s B ds] by simp
  have st: "s1 = (pcie_started LDD_DMA_CTRL_START ?p)
      \<lparr>ps_regs := (ps_regs (pcie_started LDD_DMA_CTRL_START ?p))\<lparr>r_xfer_bytes := of_nat (desc_total ds), r_result := 0\<rparr>,
       ps_bar2 := mem_put pos (dgather (pcie_dread B) ds s) (ps_bar2 s),
       ps_timer := Some (now + uint (ps_latency_us ?p))\<rparr>"
    using start_to_device [of B ?p now] r p g pcie_programmed_inv [OF r(2) al] pcie_gather [OF rd] unfolding w by simp
  have i1: "pcie_inv s1" and k1: "pcie_kept s s1" using pcie_program_kept [OF r(1,2)] by (simp_all add: s1)
  have "hw_irq (pcie_hw B now) s1 s2 \<and> ioread32 (pcie_hw B now) s2 LDD_REG_INT_STATUS AND INT_DMA_BOTH = LDD_INT_DMA_DONE \<and>
      pcie_ready B maxl maxd s3 \<and> ps_bar2 s3 = ps_bar2 s1 \<and> ps_guest s3 = ps_guest s1 \<and> ps_dma64 s3 = ps_dma64 s1"
    by (rule pcie_fire_and_ack [OF rdy i1 k1]) (simp_all add: s2 s3 pcie_hw_def st)
  then show "hw_irq (pcie_hw B now) s1 s2 \<and> ioread32 (pcie_hw B now) s2 LDD_REG_INT_STATUS AND INT_DMA_BOTH = LDD_INT_DMA_DONE \<and>
      pcie_ready B maxl maxd s3 \<and> ps_bar2 s3 = mem_put pos (dgather (pcie_dread B) ds s) (ps_bar2 s) \<and>
      pcie_dread B s3 = pcie_dread B s"
    using pcie_dread_cong [of s3 s B] by (simp add: st)
next
  fix s t :: "'a ldd_pcie" and desc_bus ds pos s1 s2 s3 and x :: "32 word"
  let ?d = "xored (x AND 0xff) (mem_get pos (desc_total ds) (ps_bar2 s))"
  assume rdy: "pcie_ready B maxl maxd s" and t: "dma_table_ok (pcie_dread B) maxl maxd s desc_bus ds pos"
    and wr: "dscatter (pcie_dwrite B) ds ?d s = Some t"
    and s1: "s1 = dma_program (pcie_hw B now) s desc_bus (of_nat (length ds)) (of_nat pos) DMA_FROM_DEVICE x"
    and s2: "s2 = hw_fire (pcie_hw B now) s1"
    and s3: "s3 = iowrite32 (pcie_hw B now) s2 LDD_REG_INT_STATUS LDD_INT_DMA_DONE"
  let ?p = "pcie_programmed desc_bus (of_nat (length ds)) (of_nat pos) (x AND 0xff) s"
  note p = pcie_programmed_accepts [OF rdy t, of "x AND 0xff"]
  have r: "bus_ok B" "pcie_inv s" "\<not> ldd_pcie_busy s" and al: "desc_bus AND 15 = 0"
    using rdy t by (simp_all add: pcie_ready_def dma_table_ok_def)
  note w = s1 [unfolded pcie_program_registers(2) [OF r(3) al]]
  have "length ?d = desc_total ds"
    using t r(2) by (auto simp: length_mem_get dma_table_ok_def pcie_inv_def pcie_props_ok_def min_def)
  note sc = pcie_scatter [OF wr this]
  have g: "scatter_ok B ?p ds ?d (ps_guest ?p)" using sc scatter_ok_cong [of ?p s B ds] by simp
  have st: "s1 = (pcie_started 3 ?p)
      \<lparr>ps_regs := (ps_regs (pcie_started 3 ?p))\<lparr>r_xfer_bytes := of_nat (desc_total ds), r_result := 0\<rparr>,
       ps_guest := ps_guest t, ps_timer := Some (now + uint (ps_latency_us ?p))\<rparr>"
    using start_to_guest [of ?p B ?d now] r p g pcie_programmed_inv [OF r(2) al] sc unfolding w by simp
  have i1: "pcie_inv s1" and k1: "pcie_kept s s1" using pcie_program_kept [OF r(1,2)] by (simp_all add: s1)
  have "hw_irq (pcie_hw B now) s1 s2 \<and> ioread32 (pcie_hw B now) s2 LDD_REG_INT_STATUS AND INT_DMA_BOTH = LDD_INT_DMA_DONE \<and>
      pcie_ready B maxl maxd s3 \<and> ps_bar2 s3 = ps_bar2 s1 \<and> ps_guest s3 = ps_guest s1 \<and> ps_dma64 s3 = ps_dma64 s1"
    by (rule pcie_fire_and_ack [OF rdy i1 k1]) (simp_all add: s2 s3 pcie_hw_def st)
  then show "hw_irq (pcie_hw B now) s1 s2 \<and> ioread32 (pcie_hw B now) s2 LDD_REG_INT_STATUS AND INT_DMA_BOTH = LDD_INT_DMA_DONE \<and>
      pcie_ready B maxl maxd s3 \<and> ps_bar2 s3 = ps_bar2 s \<and> pcie_dread B s3 = pcie_dread B t"
    using pcie_dread_cong [of s3 t B] sc by (simp add: st)
next
  fix s s1 s2 :: "'a ldd_pcie" and desc_bus nents pos32 dir x st
  assume rdy: "pcie_ready B maxl maxd s" and s1: "s1 = dma_program (pcie_hw B now) s desc_bus nents pos32 dir x"
    and s2: "s2 = hw_fire (pcie_hw B now) s1"
    and st: "st = ioread32 (pcie_hw B now) s2 LDD_REG_INT_STATUS AND INT_DMA_BOTH"
  have r: "bus_ok B" "pcie_inv s" using rdy by (simp_all add: pcie_ready_def)
  have k: "pcie_inv s1" "pcie_kept s s1" using pcie_program_kept [OF r] by (simp_all add: s1)
  have "s2 = ldd_pcie_complete (s1\<lparr>ps_timer := None\<rparr>)" by (simp add: s2 pcie_hw_def)
  from pcie_fire_and_ack [OF rdy k this refl refl, of now]
  show "hw_irq (pcie_hw B now) s1 s2 \<and> st \<noteq> 0 \<and> pcie_ready B maxl maxd (iowrite32 (pcie_hw B now) s2 LDD_REG_INT_STATUS st)"
    unfolding st by (auto simp: pcie_hw_def LDD_INT_DMA_DONE_def LDD_INT_DMA_ERROR_def)
next
  fix s s1 s2 :: "'a ldd_pcie" and desc_bus nents pos32 dir x v
  assume rdy: "pcie_ready B maxl maxd s" and s1: "s1 = dma_program (pcie_hw B now) s desc_bus nents pos32 dir x"
    and s2: "s2 \<in> {s1, hw_fire (pcie_hw B now) s1, iowrite32 (pcie_hw B now) (hw_fire (pcie_hw B now) s1) LDD_REG_INT_STATUS v}"
  have r: "bus_ok B" "pcie_inv s" using rdy by (simp_all add: pcie_ready_def)
  have k: "pcie_inv s1" "pcie_kept s s1" using pcie_program_kept [OF r] by (simp_all add: s1)
  have f: "pcie_inv (hw_fire (pcie_hw B now) s1)" using pcie_inv_complete [OF k(1)] by (simp add: pcie_hw_def)
  have c: "pcie_cfg s (hw_fire (pcie_hw B now) s1)"
    using k(2) by (simp add: pcie_hw_def pcie_kept_def pcie_cfg_def ldd_pcie_complete_def)
  then have a: "pcie_cfg s (iowrite32 (pcie_hw B now) (hw_fire (pcie_hw B now) s1) LDD_REG_INT_STATUS v)"
    by (simp add: pcie_hw_def pcie_cfg_def ldd_pcie_bar0_write_def ldd_reg_consts)
  have "pcie_inv (iowrite32 (pcie_hw B now) (hw_fire (pcie_hw B now) s1) LDD_REG_INT_STATUS v)"
    using pcie_inv_write [OF r(1) f, of now LDD_REG_INT_STATUS "ucast v"] by (simp add: pcie_hw_def)
  then have "pcie_inv s2 \<and> pcie_cfg s s2" using s2 k f c a by (auto simp: pcie_kept_def)
  then show "pcie_ready B maxl maxd (dma_reset (pcie_hw B now) s2)" by (intro pcie_reset_ready [OF rdy]) simp_all
next
  fix s :: "'a ldd_pcie" and v :: "32 word"
  show "ioread32 (pcie_hw B now) (iowrite32 (pcie_hw B now) s LDD_REG_CTRL 1) LDD_REG_INT_STATUS AND INT_DMA_BOTH = 0"
    by (simp add: pcie_hw_def ldd_pcie_bar0_write_def ldd_pcie_bar0_read_def ldd_reg_consts has_flag_def
        LDD_CTRL_RESET_def ldd_pcie_reset_def regs_zero_def)
  show "pcie_ready B maxl maxd s \<Longrightarrow> length (ps_bar2 s) = LDD_MEM_SIZE"
    by (simp add: pcie_ready_def pcie_inv_def pcie_props_ok_def)
  show "pcie_ready B maxl maxd s \<Longrightarrow> pcie_quiet s"
    by (auto simp: pcie_ready_def pcie_inv_def pcie_quiet_def)
  show "pcie_quiet (dma_reset (pcie_hw B now) s)"
    by (simp add: dma_reset_def pcie_quiet_def pcie_hw_def ldd_pcie_bar0_write_def ldd_reg_consts ldd_pcie_reset_def
        has_flag_def LDD_CTRL_RESET_def)
  show "pcie_quiet (hw_fire (pcie_hw B now) s)" by (simp add: pcie_quiet_def pcie_hw_def)
  show "pcie_quiet s \<Longrightarrow> pcie_quiet (iowrite32 (pcie_hw B now) s LDD_REG_INT_STATUS v)"
    by (simp add: pcie_quiet_def pcie_hw_def ldd_pcie_bar0_write_def ldd_reg_consts)
qed

end
