(* ===== verification/Byte_Store.thy ===== *)
theory Byte_Store
  imports LDD_Prelude
begin

section \<open>What a program relies on: files that take and give data in pieces\<close>

text \<open>
  Several drivers present a memory as a file: scull, sculld, the DMA device. Each of their reads
  and writes may move less than it was asked to, up to a block or a buffer, and a program loops
  until all is done. This theory has that loop, the contract a driver has to keep for the loop
  to work, as the locales \<open>byte_source\<close> and \<open>byte_store\<close>, and what follows from it: a file written in pieces and
  read in pieces is the file. \<open>view\<close> is the abstract content: the byte at a position, or
  \<open>None\<close> where the file has none.
\<close>

text \<open>
  The loops of a program, with as many iterations as there are bytes: every one makes progress,
  as shown below. \<open>None\<close> is an error or a loop that did not finish.
\<close>

fun write_all :: "('s \<Rightarrow> nat \<Rightarrow> byte list \<Rightarrow> nat result \<times> 's) \<Rightarrow> nat \<Rightarrow> 's \<Rightarrow> nat \<Rightarrow> byte list \<Rightarrow> 's option" where
  "write_all wr fuel s pos [] = Some s"
| "write_all wr 0 s pos (b # bs) = None"
| "write_all wr (Suc k) s pos (b # bs) =
     (case wr s pos (b # bs) of
        (Inl e, s') \<Rightarrow> None
      | (Inr n, s') \<Rightarrow> write_all wr k s' (pos + n) (drop n (b # bs)))"

fun read_all :: "('s \<Rightarrow> nat \<Rightarrow> nat \<Rightarrow> byte list result \<times> 's) \<Rightarrow> nat \<Rightarrow> 's \<Rightarrow> nat \<Rightarrow> nat \<Rightarrow> byte list option" where
  "read_all rd fuel s pos 0 = Some []"
| "read_all rd 0 s pos (Suc c) = None"
| "read_all rd (Suc k) s pos (Suc c) =
     (case rd s pos (Suc c) of
        (Inl e, s') \<Rightarrow> None
      | (Inr bs, s') \<Rightarrow> if bs = [] then Some []
          else map_option ((@) bs) (read_all rd k s' (pos + length bs) (Suc c - length bs)))"

definition view_at :: "(nat \<Rightarrow> byte option) \<Rightarrow> nat \<Rightarrow> byte list \<Rightarrow> bool" where
  "view_at v pos bs \<longleftrightarrow> (\<forall>i < length bs. v (pos + i) = Some (bs ! i))"

lemma view_at_Nil [simp]: "view_at v pos []"
  by (simp add: view_at_def)

lemma view_at_append:
  "view_at v pos (as @ bs) \<longleftrightarrow> view_at v pos as \<and> view_at v (pos + length as) bs"
proof
  assume all: "view_at v pos (as @ bs)"
  have "v (pos + i) = Some (as ! i)" if "i < length as" for i
    using all [unfolded view_at_def, rule_format, of i] that by (simp add: nth_append)
  moreover have "v (pos + length as + i) = Some (bs ! i)" if "i < length bs" for i
    using all [unfolded view_at_def, rule_format, of "length as + i"] that by (simp add: nth_append add.assoc)
  ultimately show "view_at v pos as \<and> view_at v (pos + length as) bs" by (simp add: view_at_def)
next
  assume both: "view_at v pos as \<and> view_at v (pos + length as) bs"
  have "v (pos + i) = Some ((as @ bs) ! i)" if i: "i < length as + length bs" for i
  proof (cases "i < length as")
    case True
    then show ?thesis using both by (simp add: view_at_def nth_append)
  next
    case False
    then have j: "i - length as < length bs" "pos + length as + (i - length as) = pos + i" using i by linarith+
    have "view_at v (pos + length as) bs" using both by blast
    from this [unfolded view_at_def, rule_format, OF j(1)] show ?thesis
      using False j(2) by (simp add: nth_append)
  qed
  then show "view_at v pos (as @ bs)" by (simp add: view_at_def)
qed

lemma view_at_unique: "view_at v pos as \<Longrightarrow> view_at v pos bs \<Longrightarrow> length as = length bs \<Longrightarrow> as = bs"
  by (rule nth_equalityI) (auto simp: view_at_def)

lemma view_at_take: "view_at v pos bs \<Longrightarrow> view_at v pos (take n bs)"
  by (simp add: view_at_def)

text \<open>The contract, for positions below \<open>lim\<close>: first of a file that is only read, then of one that is written too.\<close>

locale byte_source =
  fixes inv :: "'s \<Rightarrow> bool"
    and view :: "'s \<Rightarrow> nat \<Rightarrow> byte option"
    and rd :: "'s \<Rightarrow> nat \<Rightarrow> nat \<Rightarrow> byte list result \<times> 's"
    and lim :: nat
  assumes rd_progress: "inv s \<Longrightarrow> 0 < count \<Longrightarrow> pos + count \<le> lim \<Longrightarrow> view s pos = Some b \<Longrightarrow>
      \<exists>bs s'. rd s pos count = (Inr bs, s') \<and> bs \<noteq> []"
    and rd_fetches: "inv s \<Longrightarrow> 0 < count \<Longrightarrow> pos + count \<le> lim \<Longrightarrow> rd s pos count = (Inr bs, s') \<Longrightarrow>
      inv s' \<and> view s' = view s \<and> length bs \<le> count \<and> view_at (view s) pos bs"
begin

lemma read_all_fetches:
  assumes "inv s" "pos + length data \<le> lim" "view_at (view s) pos data" "length data \<le> fuel"
  shows "read_all rd fuel s pos (length data) = Some data"
  using assms
proof (induction fuel arbitrary: s pos data)
  case 0
  then show ?case by simp
next
  case (Suc k)
  show ?case
  proof (cases "length data")
    case 0
    then show ?thesis by simp
  next
    case (Suc c)
    then have pos: "0 < length data" by simp
    have "view s pos = Some (data ! 0)" using Suc.prems(3) pos unfolding view_at_def by fastforce
    then obtain bs s1 where r: "rd s pos (length data) = (Inr bs, s1)" "bs \<noteq> []"
      using rd_progress [OF Suc.prems(1) pos Suc.prems(2)] by blast
    have f: "inv s1" "view s1 = view s" "length bs \<le> length data" "view_at (view s) pos bs"
      using rd_fetches [OF Suc.prems(1) pos Suc.prems(2) r(1)] by simp_all
    have bs: "bs = take (length bs) data"
      using view_at_unique [OF f(4) view_at_take [OF Suc.prems(3), of "length bs"]] f(3) by simp
    let ?rest = "drop (length bs) data"
    have "view_at (view s) pos (take (length bs) data @ ?rest)" using Suc.prems(3) by simp
    then have "view_at (view s1) (pos + length bs) ?rest" using f(2,3) unfolding view_at_append by simp
    moreover have "0 < length bs" using r(2) by simp
    then have "length ?rest \<le> k" "pos + length bs + length ?rest \<le> lim"
      using Suc.prems(2,4) f(3) unfolding length_drop by linarith+
    ultimately have "read_all rd k s1 (pos + length bs) (length ?rest) = Some ?rest"
      using Suc.IH [OF f(1)] by blast
    moreover have "bs @ ?rest = data" using bs by (metis append_take_drop_id)
    ultimately show ?thesis using r Suc by simp
  qed
qed

end

locale byte_store = byte_source inv view rd lim
  for inv :: "'s \<Rightarrow> bool"
    and view :: "'s \<Rightarrow> nat \<Rightarrow> byte option"
    and rd :: "'s \<Rightarrow> nat \<Rightarrow> nat \<Rightarrow> byte list result \<times> 's"
    and lim :: nat +
  fixes wr :: "'s \<Rightarrow> nat \<Rightarrow> byte list \<Rightarrow> nat result \<times> 's"
  assumes wr_progress: "inv s \<Longrightarrow> data \<noteq> [] \<Longrightarrow> pos + length data \<le> lim \<Longrightarrow>
      \<exists>n s'. wr s pos data = (Inr n, s') \<and> 0 < n \<and> n \<le> length data"
    and wr_stores: "inv s \<Longrightarrow> data \<noteq> [] \<Longrightarrow> pos + length data \<le> lim \<Longrightarrow> wr s pos data = (Inr n, s') \<Longrightarrow>
      inv s' \<and> view_at (view s') pos (take n data)"
    and wr_keeps: "inv s \<Longrightarrow> data \<noteq> [] \<Longrightarrow> pos + length data \<le> lim \<Longrightarrow> wr s pos data = (Inr n, s') \<Longrightarrow>
      view s p = Some b \<Longrightarrow> p < pos \<or> pos + n \<le> p \<Longrightarrow> view s' p = Some b"
begin

lemma write_all_stores:
  assumes "inv s" "pos + length data \<le> lim" "length data \<le> fuel"
  shows "\<exists>s'. write_all wr fuel s pos data = Some s' \<and> inv s' \<and> view_at (view s') pos data \<and>
    (\<forall>p b. view s p = Some b \<longrightarrow> p < pos \<or> pos + length data \<le> p \<longrightarrow> view s' p = Some b)"
  using assms
proof (induction fuel arbitrary: s pos data)
  case 0
  then show ?case by simp
next
  case (Suc k)
  show ?case
  proof (cases data)
    case Nil
    then show ?thesis using Suc.prems(1) by simp
  next
    case (Cons b bs)
    then have ne: "data \<noteq> []" by simp
    obtain n s1 where w: "wr s pos data = (Inr n, s1)" "0 < n" "n \<le> length data"
      using wr_progress [OF Suc.prems(1) ne Suc.prems(2)] by blast
    have st: "inv s1" "view_at (view s1) pos (take n data)"
      using wr_stores [OF Suc.prems(1) ne Suc.prems(2) w(1)] by simp_all
    note keep = wr_keeps [OF Suc.prems(1) ne Suc.prems(2) w(1)]
    have "pos + n + length (drop n data) \<le> lim" "length (drop n data) \<le> k" using w Suc.prems by simp_all
    from Suc.IH [OF st(1) this] obtain s' where r: "write_all wr k s1 (pos + n) (drop n data) = Some s'" "inv s'"
        "view_at (view s') (pos + n) (drop n data)"
        "\<forall>p b. view s1 p = Some b \<longrightarrow> p < pos + n \<or> pos + n + length (drop n data) \<le> p \<longrightarrow> view s' p = Some b"
      by blast
    have "view_at (view s') pos (take n data)"
      using st(2) r(4) unfolding view_at_def by simp
    then have "view_at (view s') pos (take n data @ drop n data)"
      using r(3) w(3) unfolding view_at_append by simp
    moreover have "view s' p = Some c" if "view s p = Some c" "p < pos \<or> pos + length data \<le> p" for p c
      using r(4) keep [OF that(1)] that(2) w(3) by auto
    ultimately show ?thesis using r(1,2) w(1) Cons by auto
  qed
qed

text \<open>The round trip, in as many pieces as the driver likes, at any position.\<close>

theorem write_all_read_all:
  assumes "inv s" "pos + length data \<le> lim"
  obtains s' where "write_all wr (length data) s pos data = Some s'" "inv s'"
    "read_all rd (length data) s' pos (length data) = Some data"
  using write_all_stores [OF assms order_refl] read_all_fetches [OF _ assms(2)] by blast

end

end
