(* ===== verification/Dma.thy ===== *)
theory Dma
  imports Dma_Device Lifecycle Byte_Store
begin

section \<open>The single-segment DMA driver (examples/27_dma)\<close>

text \<open>
  The character device /dev/dma of the ldd-pcie device. The state of the driver is \<open>struct
  dma_dev\<close>, that of the hardware any type with the accesses of \<open>'s hw\<close>. The DMA API of the
  kernel is a parameter \<open>'s platform\<close>: mapping the buffer for the device, handing it back, and
  stores to coherent memory; \<open>platform_ok\<close> states what its documentation promises. When the
  device completes relative to the one-second timeout is the parameter \<open>arrival\<close>.
\<close>

subsection \<open>State and parameters\<close>

text \<open>The part of the state the interrupt handler works on; both DMA drivers have it.\<close>

record dma_irq =
  dd_done :: nat
  dd_int_status :: "32 word"

record dma_dev = dma_irq +
  dd_desc_bus :: "64 word"
  dd_buf :: "byte list"
  dd_chunk :: nat
  dd_removed :: bool

record 's platform =
  pf_map :: "'s \<Rightarrow> byte list \<Rightarrow> dma_dir \<Rightarrow> 64 word option \<times> 's"
  pf_unmap :: "'s \<Rightarrow> 64 word \<Rightarrow> byte list \<Rightarrow> dma_dir \<Rightarrow> byte list \<times> 's"
  pf_store :: "'s \<Rightarrow> 64 word \<Rightarrow> byte list \<Rightarrow> 's"

text \<open>
  The completion interrupt comes within the timeout, after it but before the reset, with its
  handler running only after the reset, or not at all.
\<close>

datatype arrival = InTime | BeforeReset | AcrossReset | Never

definition DMA_CHUNK :: nat where
  "DMA_CHUNK = 65536"

subsection \<open>One transfer\<close>

definition dma_handler :: "'s hw \<Rightarrow> 'd dma_irq_scheme \<Rightarrow> 's \<Rightarrow> irqreturn \<times> 'd dma_irq_scheme \<times> 's" where
  "dma_handler H dma s =
     (let status = ioread32 H s LDD_REG_INT_STATUS AND INT_DMA_BOTH
      in if status = 0 then (IRQ_NONE, dma, s)
         else (IRQ_HANDLED, dma\<lparr>dd_int_status := status, dd_done := Suc (dd_done dma)\<rparr>,
               iowrite32 H s LDD_REG_INT_STATUS status))"

text \<open>The device completes; the handler runs if that interrupts the CPU.\<close>

definition dma_fire :: "'s hw \<Rightarrow> 'd dma_irq_scheme \<Rightarrow> 's \<Rightarrow> 'd dma_irq_scheme \<times> 's" where
  "dma_fire H dma s =
     (let s1 = hw_fire H s
      in if hw_irq H s s1 then snd (dma_handler H dma s1) else (dma, s1))"

definition dma_wait :: "'s hw \<Rightarrow> arrival \<Rightarrow> 'd dma_irq_scheme \<Rightarrow> 's \<Rightarrow> bool \<times> 'd dma_irq_scheme \<times> 's" where
  "dma_wait H arr dma s =
     (case (if arr = InTime then dma_fire H dma s else (dma, s)) of
        (dma1, s1) \<Rightarrow> (0 < dd_done dma1, dma1\<lparr>dd_done := dd_done dma1 - 1\<rparr>, s1))"

text \<open>
  The reset after a timeout. \<open>synchronize_irq\<close> waits for a handler that is still running, so
  one that started late has finished when the interrupts are unmasked.
\<close>

definition dma_timed_out :: "'s hw \<Rightarrow> arrival \<Rightarrow> 'd dma_irq_scheme \<Rightarrow> 's \<Rightarrow> 'd dma_irq_scheme \<times> 's" where
  "dma_timed_out H arr dma s =
     (let (dma1, s1) = (if arr = BeforeReset then dma_fire H dma s else (dma, s));
          s2 = (if arr = AcrossReset then hw_fire H s1 else s1);
          s3 = iowrite32 H s2 LDD_REG_CTRL 1;
          (dma4, s4) = (if arr = AcrossReset \<and> hw_irq H s1 s2 then snd (dma_handler H dma1 s3) else (dma1, s3))
      in (dma4, iowrite32 H s4 LDD_REG_INT_MASK INT_DMA_BOTH))"

text \<open>From the start of the transfer to the point where the buffer is handed back.\<close>

definition dma_settle :: "'s hw \<Rightarrow> arrival \<Rightarrow> 'd dma_irq_scheme \<Rightarrow> 's \<Rightarrow> errno option \<times> 'd dma_irq_scheme \<times> 's" where
  "dma_settle H arr dma s =
     (case dma_wait H arr dma s of
        (False, dma1, s1) \<Rightarrow> (Some ETIMEDOUT, dma_timed_out H arr dma1 s1)
      | (True, dma1, s1) \<Rightarrow>
          if has_flag (dd_int_status dma1) LDD_INT_DMA_ERROR then (Some EIO, dma1, s1)
          else (None, dma1, s1))"

definition dma_xfer ::
  "'s hw \<Rightarrow> 's platform \<Rightarrow> arrival \<Rightarrow> 32 word \<Rightarrow> dma_dev \<Rightarrow> 's \<Rightarrow> nat \<Rightarrow> nat \<Rightarrow> dma_dir \<Rightarrow>
   errno option \<times> dma_dev \<times> 's" where
  "dma_xfer H P arr xor_param dma s pos len dir =
     (case pf_map P s (take len (dd_buf dma)) dir of
        (None, s1) \<Rightarrow> (Some ENOMEM, dma, s1)
      | (Some bus, s1) \<Rightarrow>
          let s2 = pf_store P s1 (dd_desc_bus dma) (enc_desc \<lparr>d_addr = bus, d_len = of_nat len, d_flags = 0\<rparr>);
              s3 = dma_program H s2 (dd_desc_bus dma) 1 (of_nat pos) dir xor_param;
              (err, dma1, s4) = dma_settle H arr (dma\<lparr>dd_done := 0\<rparr>) s3;
              (bs, s5) = pf_unmap P s4 bus (take len (dd_buf dma1)) dir
          in (err, dma1\<lparr>dd_buf := bs @ drop len (dd_buf dma1)\<rparr>, s5))"

subsection \<open>File operations\<close>

text \<open>
  \<open>intr\<close> says whether a signal interrupts the wait for the lock. A read also yields the bytes
  that reached the caller.
\<close>

definition dma_read ::
  "'s hw \<Rightarrow> 's platform \<Rightarrow> arrival \<Rightarrow> 32 word \<Rightarrow> bool \<Rightarrow> to_user \<Rightarrow> dma_dev \<Rightarrow> 's \<Rightarrow> nat \<Rightarrow> nat \<Rightarrow>
   nat result \<times> dma_dev \<times> 's \<times> nat \<times> byte list" where
  "dma_read H P arr xor_param intr ctu dma s pos count0 =
     (if pos \<ge> LDD_MEM_SIZE then (Inr 0, dma, s, pos, [])
      else let count = min count0 (min (LDD_MEM_SIZE - pos) (dd_chunk dma))
      in if count = 0 then (Inr 0, dma, s, pos, [])
      else if intr then (Inl ERESTARTSYS, dma, s, pos, [])
      else if dd_removed dma then (Inl ENODEV, dma, s, pos, [])
      else case dma_xfer H P arr xor_param dma s pos count DMA_FROM_DEVICE of
             (Some e, dma1, s1) \<Rightarrow> (Inl e, dma1, s1, pos, [])
           | (None, dma1, s1) \<Rightarrow>
               let bs = take count (dd_buf dma1); left = ctu bs
               in if left \<noteq> 0 then (Inl EFAULT, dma1, s1, pos, take (count - left) bs)
                  else (Inr count, dma1, s1, pos + count, bs))"

definition dma_write ::
  "'s hw \<Rightarrow> 's platform \<Rightarrow> arrival \<Rightarrow> 32 word \<Rightarrow> bool \<Rightarrow> from_user \<Rightarrow> dma_dev \<Rightarrow> 's \<Rightarrow> nat \<Rightarrow> nat \<Rightarrow>
   nat result \<times> dma_dev \<times> 's \<times> nat" where
  "dma_write H P arr xor_param intr cfu dma s pos count0 =
     (if pos \<ge> LDD_MEM_SIZE then (Inl ENOSPC, dma, s, pos)
      else let count = min count0 (min (LDD_MEM_SIZE - pos) (dd_chunk dma))
      in if count = 0 then (Inr 0, dma, s, pos)
      else if intr then (Inl ERESTARTSYS, dma, s, pos)
      else if dd_removed dma then (Inl ENODEV, dma, s, pos)
      else let (left, bs) = cfu count;
               dma0 = dma\<lparr>dd_buf := bs @ drop count (dd_buf dma)\<rparr>
      in if left \<noteq> 0 then (Inl EFAULT, dma0, s, pos)
      else case dma_xfer H P arr xor_param dma0 s pos count DMA_TO_DEVICE of
             (Some e, dma1, s1) \<Rightarrow> (Inl e, dma1, s1, pos)
           | (None, dma1, s1) \<Rightarrow> (Inr count, dma1, s1, pos + count))"

text \<open>\<open>fixed_size_llseek\<close> is the kernel's: a parameter.\<close>

definition dma_llseek :: "(nat \<Rightarrow> int \<Rightarrow> nat \<Rightarrow> nat \<Rightarrow> nat result) \<Rightarrow> nat \<Rightarrow> int \<Rightarrow> nat \<Rightarrow> nat result" where
  "dma_llseek fixed_size_llseek pos off whence = fixed_size_llseek pos off whence LDD_MEM_SIZE"

subsection \<open>The life of the structure\<close>

text \<open>
  References to \<open>dma->dev\<close>, as the kernel's character devices hold them: the one
  \<open>device_initialize\<close> leaves, one of the cdev until its own last reference is gone, and the one
  every open file takes here. \<open>dl_cdevs\<close> counts the references to the cdev: one while it is
  registered and one per open file.
\<close>

record dma_life =
  dl_refs :: nat
  dl_cdevs :: nat
  dl_files :: nat
  dl_registered :: bool
  dl_removed :: bool
  dl_freed :: nat

definition dma_dev_release :: "dma_life \<Rightarrow> dma_life" where
  "dma_dev_release l = l\<lparr>dl_freed := dl_freed l + 1\<rparr>"

definition put_device :: "dma_life \<Rightarrow> dma_life" where
  "put_device l =
     (let l1 = l\<lparr>dl_refs := dl_refs l - 1\<rparr> in if dl_refs l1 = 0 then dma_dev_release l1 else l1)"

definition cdev_put :: "dma_life \<Rightarrow> dma_life" where
  "cdev_put l =
     (let l1 = l\<lparr>dl_cdevs := dl_cdevs l - 1\<rparr> in if dl_cdevs l1 = 0 then put_device l1 else l1)"

definition dma_open :: "dma_life \<Rightarrow> dma_life" where
  "dma_open l = l\<lparr>dl_refs := dl_refs l + 1\<rparr>"

definition dma_release :: "dma_life \<Rightarrow> dma_life" where
  "dma_release l = put_device l"

text \<open>A probed device, and what can happen to it from then on.\<close>

definition dma_probed :: dma_life where
  "dma_probed = \<lparr>dl_refs = 2, dl_cdevs = 1, dl_files = 0, dl_registered = True, dl_removed = False, dl_freed = 0\<rparr>"

inductive dma_life_step :: "dma_life \<Rightarrow> dma_life \<Rightarrow> bool" where
  life_open: "dl_registered l \<Longrightarrow>
     dma_life_step l (dma_open (l\<lparr>dl_cdevs := dl_cdevs l + 1, dl_files := dl_files l + 1\<rparr>))"
| life_close: "0 < dl_files l \<Longrightarrow>
     dma_life_step l (cdev_put ((dma_release l)\<lparr>dl_files := dl_files l - 1\<rparr>))"
| life_remove: "dl_registered l \<Longrightarrow>
     dma_life_step l (put_device ((cdev_put (l\<lparr>dl_registered := False\<rparr>))\<lparr>dl_removed := True\<rparr>))"

subsection \<open>Probe and remove\<close>

text \<open>
  The calls that may fail, in the order they are made; those that acquire something are also the
  resources of \<open>held\<close>. What the PCI core does to the device itself is the parameter
  \<open>'s pci_core\<close>; \<open>devbus\<close> is the bus address of the coherent memory, \<open>raw\<close> what the freshly
  allocated buffer happens to hold.
\<close>

datatype dma_call = DmaStruct | DmaEnable | DmaRegions | DmaIomap | DmaMaster | DmaMask
  | DmaCoherent | DmaBuf | DmaVectors | DmaIrq | DmaName | DmaCdev

record 's pci_core =
  pci_set_master :: "'s \<Rightarrow> 's"
  pci_clear_master :: "'s \<Rightarrow> 's"
  pci_alloc_irq_vectors :: "'s \<Rightarrow> 's"
  pci_free_irq_vectors :: "'s \<Rightarrow> 's"

definition err_put :: "dma_call call list" where [life_defs]: "err_put = [Rel DmaStruct]"
definition err_disable :: "dma_call call list" where [life_defs]: "err_disable = Rel DmaEnable # err_put"
definition err_regions :: "dma_call call list" where [life_defs]: "err_regions = Rel DmaRegions # err_disable"
definition err_unmap :: "dma_call call list" where [life_defs]: "err_unmap = Rel DmaIomap # err_regions"
definition err_master :: "dma_call call list" where [life_defs]: "err_master = Rel DmaMaster # err_unmap"
definition err_coherent :: "dma_call call list" where [life_defs]: "err_coherent = Rel DmaCoherent # err_master"
definition err_buf :: "dma_call call list" where [life_defs]: "err_buf = Rel DmaBuf # err_coherent"
definition err_vectors :: "dma_call call list" where [life_defs]: "err_vectors = Rel DmaVectors # err_buf"
definition err_irq :: "dma_call call list" where [life_defs]: "err_irq = Rel DmaIrq # err_vectors"

definition dma_probe ::
  "'s hw \<Rightarrow> 's pci_core \<Rightarrow> dma_call answers \<Rightarrow> 64 word \<Rightarrow> (nat \<Rightarrow> byte) \<Rightarrow> 's \<Rightarrow>
   dma_dev result \<times> 's \<times> dma_call call list" where
  "dma_probe H K F devbus raw s =
     (if_err (F DmaStruct) (\<lambda>_. (Inl ENOMEM, s, [])) (
      let cs = [Acq DmaStruct] in
      if_err (F DmaEnable) (\<lambda>e. (Inl e, s, cs @ err_put)) (
      let cs = cs @ [Acq DmaEnable] in
      if_err (F DmaRegions) (\<lambda>e. (Inl e, s, cs @ err_disable)) (
      let cs = cs @ [Acq DmaRegions] in
      if_err (F DmaIomap) (\<lambda>_. (Inl ENOMEM, s, cs @ err_regions)) (
      let cs = cs @ [Acq DmaIomap] in
      if ioread32 H s LDD_REG_ID \<noteq> ucast LDD_ID then (Inl ENODEV, s, cs @ err_unmap)
      else
      let cs = cs @ [Acq DmaMaster]; s = pci_set_master K s in
      if_err (F DmaMask) (\<lambda>e. (Inl e, pci_clear_master K s, cs @ err_master)) (
      if_err (F DmaCoherent) (\<lambda>_. (Inl ENOMEM, pci_clear_master K s, cs @ err_master)) (
      let cs = cs @ [Acq DmaCoherent]; chunk = min DMA_CHUNK (unat (ioread32 H s LDD_REG_MAX_SEG)) in
      if_err (F DmaBuf) (\<lambda>_. (Inl ENOMEM, pci_clear_master K s, cs @ err_coherent)) (
      let cs = cs @ [Acq DmaBuf] in
      if_err (F DmaVectors) (\<lambda>e. (Inl e, pci_clear_master K s, cs @ err_buf)) (
      let cs = cs @ [Acq DmaVectors]; s = pci_alloc_irq_vectors K s in
      if_err (F DmaIrq) (\<lambda>e. (Inl e, pci_clear_master K (pci_free_irq_vectors K s), cs @ err_vectors)) (
      let cs = cs @ [Acq DmaIrq];
          s = iowrite32 H (iowrite32 H s LDD_REG_INT_STATUS INT_DMA_BOTH) LDD_REG_INT_MASK INT_DMA_BOTH;
          undone = pci_clear_master K (pci_free_irq_vectors K (iowrite32 H s LDD_REG_INT_MASK 0)) in
      if_err (F DmaName) (\<lambda>e. (Inl e, undone, cs @ err_irq)) (
      if_err (F DmaCdev) (\<lambda>e. (Inl e, undone, cs @ err_irq)) (
        (Inr \<lparr>dd_done = 0, dd_int_status = 0, dd_desc_bus = devbus, dd_buf = map raw [0..<chunk],
              dd_chunk = chunk, dd_removed = False\<rparr>, s, cs @ [Acq DmaCdev])))))))))))))"

definition dma_remove :: "'s hw \<Rightarrow> 's pci_core \<Rightarrow> dma_dev \<Rightarrow> 's \<Rightarrow> dma_dev \<times> 's \<times> dma_call call list" where
  "dma_remove H K dma s =
     (dma\<lparr>dd_removed := True\<rparr>,
      pci_clear_master K (pci_free_irq_vectors K (iowrite32 H s LDD_REG_INT_MASK 0)),
      [Rel DmaCdev, Rel DmaIrq, Rel DmaVectors, Rel DmaBuf, Rel DmaCoherent, Rel DmaMaster,
       Rel DmaIomap, Rel DmaRegions, Rel DmaEnable, Rel DmaStruct])"

datatype dma_module = DmaChrdev | DmaDriver

definition m_init :: "dma_module answers \<Rightarrow> errno option \<times> dma_module call list" where
  "m_init F =
     if_err (F DmaChrdev) (\<lambda>e. (Some e, []))
       (if_err (F DmaDriver) (\<lambda>e. (Some e, [Acq DmaChrdev, Rel DmaChrdev]))
         (None, [Acq DmaChrdev, Acq DmaDriver]))"

definition m_exit :: "dma_module call list" where
  "m_exit = [Rel DmaDriver, Rel DmaChrdev]"

subsection \<open>What the DMA API promises\<close>

text \<open>
  Mapping and unmapping keep the device ready and its memory as it is. A mapped buffer and the
  coherent table are readable where the API says they are, with their contents; a buffer mapped
  for the device to write takes what the device writes, and unmapping it hands that to the CPU.
\<close>

definition map_ok ::
  "'s platform \<Rightarrow> ('s \<Rightarrow> bool) \<Rightarrow> ('s \<Rightarrow> byte list) \<Rightarrow> ('s \<Rightarrow> 64 word \<Rightarrow> nat \<Rightarrow> byte list option) \<Rightarrow>
   ('s \<Rightarrow> 64 word \<Rightarrow> byte list \<Rightarrow> 's option) \<Rightarrow> nat \<Rightarrow> 64 word \<Rightarrow> bool" where
  "map_ok P ready onboard dread dwrite chunk desc_bus \<longleftrightarrow>
     (\<forall>s bs dir bus s1 d. ready s \<longrightarrow> length bs \<le> chunk \<longrightarrow> length d = sizeof_desc \<longrightarrow>
        pf_map P s bs dir = (Some bus, s1) \<longrightarrow>
        (let s2 = pf_store P s1 desc_bus d
         in ready s2 \<and> onboard s2 = onboard s \<and> dread s2 desc_bus sizeof_desc = Some d \<and>
            (if dir = DMA_TO_DEVICE then dread s2 bus (length bs) = Some bs
             else \<forall>ds. length ds = length bs \<longrightarrow>
                    (\<exists>t. dwrite s2 bus ds = Some t \<and> dread t bus (length bs) = Some ds))))"

definition unmap_ok ::
  "'s platform \<Rightarrow> ('s \<Rightarrow> bool) \<Rightarrow> ('s \<Rightarrow> byte list) \<Rightarrow> ('s \<Rightarrow> 64 word \<Rightarrow> nat \<Rightarrow> byte list option) \<Rightarrow> bool" where
  "unmap_ok P ready onboard dread \<longleftrightarrow>
     (\<forall>s bs dir s1. ready s \<longrightarrow> pf_map P s bs dir = (None, s1) \<longrightarrow> ready s1 \<and> onboard s1 = onboard s) \<and>
     (\<forall>s bus old dir bs s'. ready s \<longrightarrow> pf_unmap P s bus old dir = (bs, s') \<longrightarrow>
        ready s' \<and> onboard s' = onboard s \<and> length bs = length old \<and>
        (dir = DMA_FROM_DEVICE \<longrightarrow>
           (\<forall>ds. dread s bus (length old) = Some ds \<longrightarrow> length ds = length old \<longrightarrow> bs = ds)))"

definition platform_ok ::
  "'s platform \<Rightarrow> ('s \<Rightarrow> bool) \<Rightarrow> ('s \<Rightarrow> byte list) \<Rightarrow> ('s \<Rightarrow> 64 word \<Rightarrow> nat \<Rightarrow> byte list option) \<Rightarrow>
   ('s \<Rightarrow> 64 word \<Rightarrow> byte list \<Rightarrow> 's option) \<Rightarrow> nat \<Rightarrow> 64 word \<Rightarrow> bool" where
  "platform_ok P ready onboard dread dwrite chunk desc_bus \<longleftrightarrow>
     map_ok P ready onboard dread dwrite chunk desc_bus \<and> unmap_ok P ready onboard dread"

lemma map_okD:
  assumes "map_ok P ready onboard dread dwrite chunk desc_bus" "ready s" "length bs \<le> chunk"
    and "length d = sizeof_desc" "pf_map P s bs dir = (Some bus, s1)" "s2 = pf_store P s1 desc_bus d"
  shows "ready s2 \<and> onboard s2 = onboard s \<and> dread s2 desc_bus sizeof_desc = Some d \<and>
    (if dir = DMA_TO_DEVICE then dread s2 bus (length bs) = Some bs
     else \<forall>ds. length ds = length bs \<longrightarrow> (\<exists>t. dwrite s2 bus ds = Some t \<and> dread t bus (length bs) = Some ds))"
  using assms(1) [unfolded map_ok_def Let_def, rule_format, OF assms(2-5)] unfolding assms(6) .

lemma map_failedD:
  "unmap_ok P ready onboard dread \<Longrightarrow> ready s \<Longrightarrow> pf_map P s bs dir = (None, s1) \<Longrightarrow>
   ready s1 \<and> onboard s1 = onboard s"
  unfolding unmap_ok_def by blast

lemma unmap_okD:
  assumes "unmap_ok P ready onboard dread" "ready s" "pf_unmap P s bus old dir = (bs, s')"
  shows "ready s' \<and> onboard s' = onboard s \<and> length bs = length old"
    and "dir = DMA_FROM_DEVICE \<Longrightarrow> dread s bus (length old) = Some ds \<Longrightarrow> length ds = length old \<Longrightarrow> bs = ds"
  using assms(1) [unfolded unmap_ok_def, THEN conjunct2, rule_format, OF assms(2,3)] by simp_all

text \<open>The driver's own state between calls; \<open>maxl\<close> is the longest segment the device takes.\<close>

definition dma_inv :: "nat \<Rightarrow> dma_dev \<Rightarrow> bool" where
  "dma_inv maxl dma \<longleftrightarrow> dd_desc_bus dma AND 15 = 0 \<and> length (dd_buf dma) = dd_chunk dma \<and>
     dd_chunk dma \<le> maxl \<and> dd_chunk dma \<le> DMA_CHUNK"

text \<open>A transfer keeps the driver's configuration.\<close>

definition dma_same :: "dma_dev \<Rightarrow> dma_dev \<Rightarrow> bool" where
  "dma_same a b \<longleftrightarrow> dd_desc_bus b = dd_desc_bus a \<and> dd_chunk b = dd_chunk a \<and>
     length (dd_buf b) = length (dd_buf a) \<and> dd_removed b = dd_removed a"

lemma dma_same_inv: "dma_same a b \<Longrightarrow> dma_inv maxl a \<Longrightarrow> dma_inv maxl b"
  by (simp add: dma_same_def dma_inv_def)

lemma dma_same_upd [simp]:
  "dma_same a (a\<lparr>dd_done := n\<rparr>)" "dma_same a (a\<lparr>dd_int_status := v\<rparr>)" "dma_same a a"
  "dma_same a (b\<lparr>dd_done := n\<rparr>) = dma_same a b" "dma_same a (b\<lparr>dd_int_status := v\<rparr>) = dma_same a b"
  "dma_same (a\<lparr>dd_done := n\<rparr>) b = dma_same a b"
  by (simp_all add: dma_same_def)

text \<open>The handler changes its own two fields only.\<close>

definition irq_only :: "'d dma_irq_scheme \<Rightarrow> 'd dma_irq_scheme \<Rightarrow> bool" where
  "irq_only a b \<longleftrightarrow> dma_irq.more b = dma_irq.more a"

lemma irq_only_refl: "irq_only a a"
  by (simp add: irq_only_def)

lemma irq_only_done: "irq_only a b \<Longrightarrow> irq_only a (b\<lparr>dd_done := n\<rparr>)"
  by (simp add: irq_only_def)

lemma irq_only_trans: "irq_only a b \<Longrightarrow> irq_only b c \<Longrightarrow> irq_only a c"
  by (simp add: irq_only_def)

lemma irq_only_same: "irq_only a b \<Longrightarrow> dma_same a b \<and> dd_buf b = dd_buf a"
  by (cases a; cases b) (simp add: irq_only_def dma_same_def)

lemma dma_handler_keeps: "irq_only dma (fst (snd (dma_handler H dma s)))"
  by (simp add: dma_handler_def irq_only_def Let_def)

lemma dma_fire_keeps: "irq_only dma (fst (dma_fire H dma s))"
  by (simp add: dma_fire_def Let_def dma_handler_keeps irq_only_refl)

lemma dma_settle_keeps:
  assumes "dma_settle H arr dma s = (err, dma', s')"
  shows "irq_only dma dma'"
proof -
  have to: "irq_only a (fst (dma_timed_out H arr a t))" for a t
    using dma_fire_keeps [of a H t] dma_handler_keeps [of a H] irq_only_refl [of a]
    by (simp add: dma_timed_out_def Let_def case_prod_beta)
  obtain ok d1 t1 where w: "dma_wait H arr dma s = (ok, d1, t1)" using prod_cases3 by blast
  have k: "irq_only dma d1"
    using w dma_fire_keeps [of dma H s] irq_only_refl [of dma]
    by (auto simp: dma_wait_def case_prod_beta irq_only_done split: if_splits)
  show ?thesis
    using assms w k irq_only_trans [OF k to [of d1 t1]]
    by (auto simp: dma_settle_def split: bool.splits if_splits)
qed

subsection \<open>The driver over any device that keeps the contract\<close>

context dma_device
begin

text \<open>A completed transfer is settled by the handler, with what the device reported.\<close>

lemma settle_done:
  assumes "hw_irq H s1 (hw_fire H s1)"
    and "ioread32 H (hw_fire H s1) LDD_REG_INT_STATUS AND INT_DMA_BOTH = LDD_INT_DMA_DONE"
    and "dd_done dma = 0"
  shows "dma_settle H InTime dma s1 =
    (None, dma\<lparr>dd_int_status := LDD_INT_DMA_DONE, dd_done := 0\<rparr>,
     iowrite32 H (hw_fire H s1) LDD_REG_INT_STATUS LDD_INT_DMA_DONE)"
  using assms
  by (simp add: dma_settle_def dma_wait_def dma_fire_def dma_handler_def Let_def has_flag_def
      LDD_INT_DMA_DONE_def LDD_INT_DMA_ERROR_def)

text \<open>Whatever happens, the device is quiescent when the buffer is handed back.\<close>

lemma handler_quiet: "quiet s \<Longrightarrow> quiet (snd (snd (dma_handler H dma s)))"
  by (simp add: dma_handler_def Let_def quiet_ack)

lemma fire_quiet: "quiet (snd (dma_fire H dma s))"
  by (simp add: dma_fire_def Let_def quiet_fire handler_quiet)

lemma timed_out_reset: "\<exists>t. snd (dma_timed_out H arr dma s) = dma_reset H t"
proof (cases "arr = AcrossReset")
  case True
  have h: "snd (dma_handler H dma (iowrite32 H t LDD_REG_CTRL 1)) = (dma, iowrite32 H t LDD_REG_CTRL 1)" for t
    by (simp add: dma_handler_def Let_def reset_reports_nothing)
  then show ?thesis
    using True by (auto simp: dma_timed_out_def Let_def dma_reset_def)
next
  case False
  then show ?thesis by (auto simp: dma_timed_out_def Let_def dma_reset_def case_prod_beta)
qed

lemma settle_quiet:
  assumes "dd_done dma = 0"
  shows "quiet (snd (snd (dma_settle H arr dma s)))"
proof (cases "fst (dma_wait H arr dma s)")
  case False
  then obtain d1 t1 where w: "dma_wait H arr dma s = (False, d1, t1)" by (metis prod.collapse)
  obtain t where "snd (dma_timed_out H arr d1 t1) = dma_reset H t" using timed_out_reset by blast
  then show ?thesis using w quiet_reset by (simp add: dma_settle_def)
next
  case True
  then obtain d1 t1 where w: "dma_wait H arr dma s = (True, d1, t1)" by (metis prod.collapse)
  have "arr = InTime" using True assms by (auto simp: dma_wait_def split: if_splits)
  then have "t1 = snd (dma_fire H dma s)" using w by (simp add: dma_wait_def case_prod_beta)
  then show ?thesis using w fire_quiet [of dma s] by (simp add: dma_settle_def)
qed

text \<open>Whatever happens, the device is ready for the next transfer.\<close>

lemma settle_ready:
  assumes "ready s" "dd_done dma = 0" "s1 = dma_program H s desc_bus nents pos32 dir x"
  shows "ready (snd (snd (dma_settle H arr dma s1)))"
proof -
  let ?s2 = "hw_fire H s1"
  let ?st = "ioread32 H ?s2 LDD_REG_INT_STATUS AND INT_DMA_BOTH"
  note c = completes [OF assms(1,3) refl refl]
  have f: "dma_fire H dma s1 = (dma\<lparr>dd_int_status := ?st, dd_done := 1\<rparr>, iowrite32 H ?s2 LDD_REG_INT_STATUS ?st)" 
    if "dd_done dma = 0" for dma
    using c that by (simp add: dma_fire_def dma_handler_def Let_def)
  note r = recovers [OF assms(1,3)]
  show ?thesis
  proof (cases arr)
    case InTime
    then show ?thesis using c assms(2) by (simp add: dma_settle_def dma_wait_def f)
  next
    case BeforeReset
    have "ready (dma_reset H (iowrite32 H ?s2 LDD_REG_INT_STATUS ?st))" by (rule r [where v = ?st]) simp
    then show ?thesis using BeforeReset assms(2)
      by (simp add: dma_settle_def dma_wait_def dma_timed_out_def Let_def f flip: dma_reset_def)
  next
    case AcrossReset
    have "ready (dma_reset H ?s2)" by (rule r) simp
    then show ?thesis using AcrossReset assms(2) c reset_reports_nothing [of ?s2]
      by (simp add: dma_settle_def dma_wait_def dma_timed_out_def dma_handler_def Let_def dma_reset_def)
  next
    case Never
    have "ready (dma_reset H s1)" by (rule r) simp
    then show ?thesis using Never assms(2)
      by (simp add: dma_settle_def dma_wait_def dma_timed_out_def Let_def flip: dma_reset_def)
  qed
qed

lemma xfer_ready:
  assumes "ready s" "platform_ok P ready onboard dread dwrite (dd_chunk dma) (dd_desc_bus dma)"
    and "dma_inv maxl dma" "len \<le> dd_chunk dma"
    and "dma_xfer H P arr x dma s pos len dir = (err, dma', s')"
  shows "ready s' \<and> dma_same dma dma'"
proof (cases "fst (pf_map P s (take len (dd_buf dma)) dir)")
  case None
  then obtain s1 where "pf_map P s (take len (dd_buf dma)) dir = (None, s1)" by (metis prod.collapse)
  then show ?thesis
    using assms(1,2,5) by (auto simp: dma_xfer_def platform_ok_def intro: map_failedD [THEN conjunct1])
next
  case (Some bus)
  then obtain s1 where m: "pf_map P s (take len (dd_buf dma)) dir = (Some bus, s1)" by (metis prod.collapse)
  let ?d = "enc_desc \<lparr>d_addr = bus, d_len = of_nat len, d_flags = 0\<rparr>"
  let ?s2 = "pf_store P s1 (dd_desc_bus dma) ?d"
  let ?s3 = "dma_program H ?s2 (dd_desc_bus dma) 1 (of_nat pos) dir x"
  have len: "length (take len (dd_buf dma)) \<le> dd_chunk dma" using assms(3,4) by (simp add: dma_inv_def)
  have mok: "map_ok P ready onboard dread dwrite (dd_chunk dma) (dd_desc_bus dma)"
    using assms(2) by (simp add: platform_ok_def)
  have r2: "ready ?s2" using map_okD [OF mok assms(1) len length_enc_desc m refl] by simp
  obtain e d1 s4 where st: "dma_settle H arr (dma\<lparr>dd_done := 0\<rparr>) ?s3 = (e, d1, s4)" using prod_cases3 by blast
  have "ready (snd (snd (dma_settle H arr (dma\<lparr>dd_done := 0\<rparr>) ?s3)))"
    by (rule settle_ready [OF r2 _ refl]) simp
  then have r4: "ready s4" by (simp add: st)
  have k: "dma_same dma d1" "dd_buf d1 = dd_buf dma" using irq_only_same [OF dma_settle_keeps [OF st]] by simp_all
  obtain bs s5 where u: "pf_unmap P s4 bus (take len (dd_buf d1)) dir = (bs, s5)" by fastforce
  have "unmap_ok P ready onboard dread" using assms(2) by (simp add: platform_ok_def)
  note un = unmap_okD(1) [OF this r4 u]
  show ?thesis
    using assms(2,3,5) m st u un k by (auto simp: dma_xfer_def Let_def platform_ok_def dma_same_def dma_inv_def)
qed

text \<open>
  A transfer in time of a mapped buffer does what it says: the setting of both functional
  lemmas.
\<close>

lemma xfer_mapped:
  assumes "ready s" "platform_ok P ready onboard dread dwrite (dd_chunk dma) (dd_desc_bus dma)"
    and "dma_inv maxl dma" "len \<le> dd_chunk dma"
    and "pf_map P s (take len (dd_buf dma)) dir = (Some bus, s1)"
    and "s2 = pf_store P s1 (dd_desc_bus dma) (enc_desc \<lparr>d_addr = bus, d_len = of_nat len, d_flags = 0\<rparr>)"
  shows "ready s2 \<and> onboard s2 = onboard s \<and> dd_desc_bus dma AND 15 = 0 \<and> len \<le> maxl \<and> len < 2 ^ 32 \<and>
    dread s2 (dd_desc_bus dma) sizeof_desc = Some (enc_desc \<lparr>d_addr = bus, d_len = of_nat len, d_flags = 0\<rparr>) \<and>
    (if dir = DMA_TO_DEVICE then dread s2 bus len = Some (take len (dd_buf dma))
     else \<forall>ds. length ds = len \<longrightarrow> (\<exists>t. dwrite s2 bus ds = Some t \<and> dread t bus len = Some ds))"
proof -
  have len: "length (take len (dd_buf dma)) = len" using assms(3,4) by (simp add: dma_inv_def)
  have "length (take len (dd_buf dma)) \<le> dd_chunk dma" using assms(4) len by simp
  from map_okD [OF assms(2) [unfolded platform_ok_def, THEN conjunct1] assms(1) this length_enc_desc assms(5,6)]
  show ?thesis using assms(3,4) unfolding len by (simp add: dma_inv_def DMA_CHUNK_def)
qed

lemma xfer_to_device:
  assumes "ready s" "platform_ok P ready onboard dread dwrite (dd_chunk dma) (dd_desc_bus dma)"
    and "dma_inv maxl dma" "0 < len" "len \<le> dd_chunk dma" "pos + len \<le> LDD_MEM_SIZE" "1 \<le> maxd"
    and "fst (pf_map P s (take len (dd_buf dma)) DMA_TO_DEVICE) \<noteq> None"
    and "dma_xfer H P InTime x dma s pos len DMA_TO_DEVICE = (err, dma', s')"
  shows "err = None \<and> onboard s' = mem_put pos (take len (dd_buf dma)) (onboard s)"
proof -
  obtain bus s1 where m: "pf_map P s (take len (dd_buf dma)) DMA_TO_DEVICE = (Some bus, s1)"
    using assms(8) by (metis option.exhaust prod.collapse)
  define s2 where "s2 = pf_store P s1 (dd_desc_bus dma) (enc_desc \<lparr>d_addr = bus, d_len = of_nat len, d_flags = 0\<rparr>)"
  define s3 where "s3 = dma_program H s2 (dd_desc_bus dma) 1 (of_nat pos) DMA_TO_DEVICE x"
  note mp = xfer_mapped [OF assms(1-3,5) m s2_def]
  have c: "hw_irq H s3 (hw_fire H s3) \<and>
      ioread32 H (hw_fire H s3) LDD_REG_INT_STATUS AND INT_DMA_BOTH = LDD_INT_DMA_DONE \<and>
      ready (iowrite32 H (hw_fire H s3) LDD_REG_INT_STATUS LDD_INT_DMA_DONE) \<and>
      onboard (iowrite32 H (hw_fire H s3) LDD_REG_INT_STATUS LDD_INT_DMA_DONE) =
        mem_put pos (take len (dd_buf dma)) (onboard s2) \<and>
      dread (iowrite32 H (hw_fire H s3) LDD_REG_INT_STATUS LDD_INT_DMA_DONE) = dread s2"
    using mp assms(4,6,7) by (intro single_to_device [where bus = bus and n = len, OF _ _ _ _ _ _ _ _ _ s3_def refl refl]) simp_all
  let ?d = "dma\<lparr>dd_done := 0\<rparr>"
  let ?s5 = "iowrite32 H (hw_fire H s3) LDD_REG_INT_STATUS LDD_INT_DMA_DONE"
  have st: "dma_settle H InTime ?d s3 = (None, ?d\<lparr>dd_int_status := LDD_INT_DMA_DONE, dd_done := 0\<rparr>, ?s5)"
    using c by (intro settle_done) simp_all
  obtain bs s6 where u: "pf_unmap P ?s5 bus (take len (dd_buf dma)) DMA_TO_DEVICE = (bs, s6)" by fastforce
  have "unmap_ok P ready onboard dread" using assms(2) by (simp add: platform_ok_def)
  from unmap_okD(1) [OF this _ u] c have "onboard s6 = onboard ?s5" by blast
  moreover have "err = None \<and> s' = s6"
    using assms(9) m st u by (simp add: dma_xfer_def Let_def flip: s2_def s3_def)
  ultimately show ?thesis using c mp by simp
qed

lemma xfer_from_device:
  assumes "ready s" "platform_ok P ready onboard dread dwrite (dd_chunk dma) (dd_desc_bus dma)"
    and "dma_inv maxl dma" "0 < len" "len \<le> dd_chunk dma" "pos + len \<le> LDD_MEM_SIZE" "1 \<le> maxd"
    and "fst (pf_map P s (take len (dd_buf dma)) DMA_FROM_DEVICE) \<noteq> None"
    and "dma_xfer H P InTime x dma s pos len DMA_FROM_DEVICE = (err, dma', s')"
  shows "err = None \<and> onboard s' = onboard s \<and> take len (dd_buf dma') = xored (x AND 0xff) (mem_get pos len (onboard s))"
proof -
  obtain bus s1 where m: "pf_map P s (take len (dd_buf dma)) DMA_FROM_DEVICE = (Some bus, s1)"
    using assms(8) by (metis option.exhaust prod.collapse)
  define s2 where "s2 = pf_store P s1 (dd_desc_bus dma) (enc_desc \<lparr>d_addr = bus, d_len = of_nat len, d_flags = 0\<rparr>)"
  define s3 where "s3 = dma_program H s2 (dd_desc_bus dma) 1 (of_nat pos) DMA_FROM_DEVICE x"
  note mp = xfer_mapped [OF assms(1-3,5) m s2_def]
  let ?data = "xored (x AND 0xff) (mem_get pos len (onboard s2))"
  have len: "length ?data = len" using assms(6) mp ready_size [of s2] by (auto simp: min_def)
  then obtain t where t: "dwrite s2 bus ?data = Some t" "dread t bus len = Some ?data"
    using mp by (metis dma_dir.distinct(1))
  let ?s5 = "iowrite32 H (hw_fire H s3) LDD_REG_INT_STATUS LDD_INT_DMA_DONE"
  have c: "hw_irq H s3 (hw_fire H s3) \<and>
      ioread32 H (hw_fire H s3) LDD_REG_INT_STATUS AND INT_DMA_BOTH = LDD_INT_DMA_DONE \<and>
      ready ?s5 \<and> onboard ?s5 = onboard s2 \<and> dread ?s5 = dread t"
    using mp assms(4,6,7) t by (intro single_from_device [where bus = bus and n = len, OF _ _ _ _ _ _ _ _ _ s3_def refl refl]) simp_all
  let ?d = "dma\<lparr>dd_done := 0\<rparr>"
  have st: "dma_settle H InTime ?d s3 = (None, ?d\<lparr>dd_int_status := LDD_INT_DMA_DONE, dd_done := 0\<rparr>, ?s5)"
    using c by (intro settle_done) simp_all
  obtain bs s6 where u: "pf_unmap P ?s5 bus (take len (dd_buf dma)) DMA_FROM_DEVICE = (bs, s6)" by fastforce
  have um: "unmap_ok P ready onboard dread" using assms(2) by (simp add: platform_ok_def)
  have tl: "length (take len (dd_buf dma)) = len" using assms(3,5) by (simp add: dma_inv_def)
  have "bs = ?data" using unmap_okD(2) [OF um _ u refl, of ?data] c t(2) len tl by simp
  moreover have "onboard s6 = onboard ?s5" using unmap_okD(1) [OF um _ u] c by blast
  moreover have "err = None \<and> s' = s6 \<and> dd_buf dma' = bs @ drop len (dd_buf dma)"
    using assms(9) m st u by (auto simp add: dma_xfer_def Let_def simp flip: s2_def s3_def)
  ultimately show ?thesis using c mp len by simp
qed

end

text \<open>One call of the file operations, when nothing goes wrong: it moves what fits.\<close>

definition dma_count :: "dma_dev \<Rightarrow> nat \<Rightarrow> nat \<Rightarrow> nat" where
  "dma_count dma pos count = min count (min (LDD_MEM_SIZE - pos) (dd_chunk dma))"

lemma dma_count_bounds:
  assumes "n = dma_count dma pos count" "pos < LDD_MEM_SIZE" "0 < count" "0 < dd_chunk dma"
  shows "0 < n" "n \<le> dd_chunk dma" "n \<le> count" "pos + n \<le> LDD_MEM_SIZE"
  using assms unfolding dma_count_def by linarith+

context dma_device
begin

lemma write_ok:
  assumes "ready s" "platform_ok P ready onboard dread dwrite (dd_chunk dma) (dd_desc_bus dma)"
    and "\<And>s bs dir. fst (pf_map P s bs dir) \<noteq> None"
    and "dma_inv maxl dma" "\<not> dd_removed dma" "1 \<le> maxd" "0 < dd_chunk dma"
    and "pos < LDD_MEM_SIZE" "0 < count" "n = dma_count dma pos count" "cfu n = (0, bs)" "length bs = n"
  obtains dma1 s1 where "dma_write H P InTime x False cfu dma s pos count = (Inr n, dma1, s1, pos + n)"
    "ready s1" "dma_same dma dma1" "onboard s1 = mem_put pos bs (onboard s)"
proof -
  note n = dma_count_bounds [OF assms(10,8,9,7)]
  let ?dma0 = "dma\<lparr>dd_buf := bs @ drop n (dd_buf dma)\<rparr>"
  have i0: "dma_inv maxl ?dma0" using assms(4,12) n(2) by (simp add: dma_inv_def)
  obtain e d1 t1 where x: "dma_xfer H P InTime x ?dma0 s pos n DMA_TO_DEVICE = (e, d1, t1)"
    using prod_cases3 by blast
  have w: "e = None" "onboard t1 = mem_put pos bs (onboard s)"
    using xfer_to_device [OF assms(1) _ i0 n(1) _ n(4) assms(6) _ x] assms(2,3,12) n(2) by simp_all
  have k: "ready t1" "dma_same ?dma0 d1" using xfer_ready [OF assms(1) _ i0 _ x] assms(2) n(2) by simp_all
  have len: "length (dd_buf dma) = dd_chunk dma" using assms(4) by (simp add: dma_inv_def)
  have "dma_same dma ?dma0" using assms(12) n(2) len by (simp add: dma_same_def)
  then have k2: "dma_same dma d1" using k(2) by (simp add: dma_same_def)
  have "dma_write H P InTime x False cfu dma s pos count = (Inr n, d1, t1, pos + n)"
    using x w(1) assms(5,8,11) n(1) unfolding dma_write_def Let_def dma_count_def [symmetric] assms(10) [symmetric]
    by simp
  then show ?thesis using that k(1) k2 w(2) by blast
qed

lemma read_ok:
  assumes "ready s" "platform_ok P ready onboard dread dwrite (dd_chunk dma) (dd_desc_bus dma)"
    and "\<And>s bs dir. fst (pf_map P s bs dir) \<noteq> None"
    and "dma_inv maxl dma" "\<not> dd_removed dma" "1 \<le> maxd" "0 < dd_chunk dma"
    and "pos < LDD_MEM_SIZE" "0 < count" "n = dma_count dma pos count"
    and "bs = xored (x AND 0xff) (mem_get pos n (onboard s))" "ctu bs = 0"
  obtains dma1 s1 where "dma_read H P InTime x False ctu dma s pos count = (Inr n, dma1, s1, pos + n, bs)"
    "ready s1" "dma_same dma dma1" "onboard s1 = onboard s" "length bs = n"
proof -
  note n = dma_count_bounds [OF assms(10,8,9,7)]
  obtain e d1 t1 where x: "dma_xfer H P InTime x dma s pos n DMA_FROM_DEVICE = (e, d1, t1)"
    using prod_cases3 by blast
  have r: "e = None" "take n (dd_buf d1) = bs" "onboard t1 = onboard s"
    using xfer_from_device [OF assms(1,2,4) n(1,2,4) assms(6) assms(3) x] by (simp_all add: assms(11))
  have k: "ready t1" "dma_same dma d1" using xfer_ready [OF assms(1,2,4) n(2) x] by simp_all
  have "dma_read H P InTime x False ctu dma s pos count = (Inr n, d1, t1, pos + n, bs)"
    using x r(1,2) assms(5,8,12) n(1) unfolding dma_read_def Let_def dma_count_def [symmetric] assms(10) [symmetric]
    by simp
  moreover have "length bs = n" unfolding assms(11) using ready_size [OF assms(1)] n(4) by (simp add: min_def)
  ultimately show ?thesis using that k r(3) by blast
qed

lemma write_then_read:
  assumes "ready s" "platform_ok P ready onboard dread dwrite (dd_chunk dma) (dd_desc_bus dma)"
    and "\<And>s bs dir. fst (pf_map P s bs dir) \<noteq> None"
    and "dma_inv maxl dma" "\<not> dd_removed dma" "1 \<le> maxd"
    and "data \<noteq> []" "length data \<le> dd_chunk dma" "pos + length data \<le> LDD_MEM_SIZE"
    and "dma_write H P InTime x1 False (user_buffer data) dma s pos (length data) = (r1, dma1, s1, pos1)"
    and "dma_read H P InTime x2 False (user_room (length data)) dma1 s1 pos (length data) = (r2, dma2, s2, pos2, out)"
  shows "r1 = Inr (length data) \<and> pos1 = pos + length data \<and> onboard s1 = mem_put pos data (onboard s) \<and>
    r2 = Inr (length data) \<and> pos2 = pos + length data \<and> out = xored (x2 AND 0xff) data \<and> ready s2"
proof -
  let ?n = "length data"
  have n0: "0 < ?n" using assms(7) by simp
  then have pos: "pos < LDD_MEM_SIZE" "0 < dd_chunk dma" using assms(8,9) by linarith+
  have c: "?n = dma_count dma pos ?n" using assms(8,9) unfolding dma_count_def by linarith
  have u: "user_buffer data ?n = (0, data)" by (simp add: user_buffer_def)
  obtain d1 t1 where w: "dma_write H P InTime x1 False (user_buffer data) dma s pos ?n = (Inr ?n, d1, t1, pos + ?n)"
      "ready t1" "dma_same dma d1" "onboard t1 = mem_put pos data (onboard s)"
    by (rule write_ok [where cfu = "user_buffer data" and x = x1, OF assms(1-6) pos(2,1) n0 c u refl])
  have s1: "dd_chunk d1 = dd_chunk dma" "dd_desc_bus d1 = dd_desc_bus dma" "\<not> dd_removed d1" "dma_inv maxl d1"
    using w(3) assms(5) dma_same_inv [OF w(3) assms(4)] by (simp_all add: dma_same_def)
  have p1: "platform_ok P ready onboard dread dwrite (dd_chunk d1) (dd_desc_bus d1)" using assms(2) s1 by simp
  have c1: "?n = dma_count d1 pos ?n" using c s1(1) by (simp add: dma_count_def)
  have "mem_get pos ?n (onboard t1) = data"
    unfolding w(4) using ready_size [OF assms(1)] assms(9) by (intro mem_get_mem_put) simp
  then have bs: "xored (x2 AND 0xff) data = xored (x2 AND 0xff) (mem_get pos ?n (onboard t1))" by simp
  have "user_room ?n (xored (x2 AND 0xff) data) = 0" by (simp add: user_room_def)
  moreover have "0 < dd_chunk d1" using s1(1) pos(2) by simp
  ultimately obtain d2 t2 where r: "dma_read H P InTime x2 False (user_room ?n) d1 t1 pos ?n =
      (Inr ?n, d2, t2, pos + ?n, xored (x2 AND 0xff) data)" "ready t2"
    using read_ok [where ctu = "user_room ?n" and x = x2, OF w(2) p1 assms(3) s1(4,3) assms(6) _ pos(1) n0 c1 bs] by blast
  show ?thesis using assms(10,11) w r by simp
qed

text \<open>The device may be asked anything as long as it is not asked to hand back a buffer in flight.\<close>

lemma unmap_only_when_quiet:
  assumes "pf_map P' = pf_map P" "pf_store P' = pf_store P"
    and "\<And>s bus old dir. quiet s \<Longrightarrow> pf_unmap P' s bus old dir = pf_unmap P s bus old dir"
  shows "dma_xfer H P' arr x dma s pos len dir = dma_xfer H P arr x dma s pos len dir"
proof -
  have "quiet s4" if "dma_settle H arr (dma\<lparr>dd_done := 0\<rparr>) t = (e, d, s4)" for t e d s4
    using settle_quiet [of "dma\<lparr>dd_done := 0\<rparr>" arr t] that by simp
  then show ?thesis
    unfolding dma_xfer_def Let_def assms(1,2)
    by (auto simp: assms(3) split: prod.split option.split)
qed

end

subsection \<open>A platform without an IOMMU\<close>

text \<open>
  The simplest machine the driver runs on: bus addresses are physical ones, the table is at
  0x1000 and the buffer at 0x100000. The contents of the buffer are in \<open>dd_buf\<close> while the CPU
  owns it and in the memory of the machine while the device does.
\<close>

definition ram_platform :: "(64 word \<Rightarrow> byte) ldd_pcie platform" where
  "ram_platform =
     \<lparr>pf_map = (\<lambda>s bs dir. (Some 0x100000, s\<lparr>ps_guest := snd (bus_write ram_bus (ps_guest s) 0x100000 bs)\<rparr>)),
      pf_unmap = (\<lambda>s bus old dir.
        (if dir = DMA_FROM_DEVICE then snd (bus_read ram_bus (ps_guest s) bus (length old)) else old, s)),
      pf_store = (\<lambda>s a d. s\<lparr>ps_guest := snd (bus_write ram_bus (ps_guest s) a d)\<rparr>)\<rparr>"

lemma pcie_ready_guest [simp]: "pcie_ready B m d (s\<lparr>ps_guest := g\<rparr>) = pcie_ready B m d s"
  by (simp add: pcie_ready_def pcie_inv_def pcie_props_ok_def ldd_pcie_busy_def)

lemma low_dma_ok: "unat a + n \<le> 0x100000000 \<Longrightarrow> ldd_pcie_dma_ok s a (of_nat n)"
proof -
  assume le: "unat a + n \<le> 0x100000000"
  then have "unat (of_nat n :: 64 word) = n" by (simp add: unat_of_nat)
  then have "unat (a + of_nat n) = unat a + n" using le by (simp add: unat_word_ariths)
  then show ?thesis using le by (simp add: ldd_pcie_dma_ok_def word_le_nat_alt)
qed

lemma ram_read_buffer:
  assumes "n \<le> 65536" "length d \<le> 16"
  shows "bus_read ram_bus (snd (bus_write ram_bus g 0x1000 d)) 0x100000 n = bus_read ram_bus g 0x100000 n"
proof -
  have "unat (0x100000 + of_nat i - 0x1000 :: 64 word) = 0xFF000 + i" if "i < n" for i
  proof -
    have "(0x100000 + of_nat i - 0x1000 :: 64 word) = of_nat (0xFF000 + i)" by simp
    then show ?thesis using that assms(1) by (simp only: unat_of_nat) simp
  qed
  then show ?thesis using assms(2) by (auto simp: algebra_simps)
qed

lemma ram_platform_ok:
  assumes "chunk \<le> 65536"
  shows "platform_ok ram_platform (pcie_ready ram_bus maxl maxd) ps_bar2 (pcie_dread ram_bus) (pcie_dwrite ram_bus) chunk 0x1000"
  unfolding platform_ok_def
proof (intro conjI)
  let ?w = "\<lambda>g a bs. snd (bus_write ram_bus g a bs)"
  have mapped: "pcie_dread ram_bus (s\<lparr>ps_guest := ?w (?w g 0x100000 bs) 0x1000 d\<rparr>) 0x100000 (length bs) = Some bs"
    if "length bs \<le> chunk" "length d = sizeof_desc" for s :: "(64 word \<Rightarrow> byte) ldd_pcie" and g bs d
  proof -
    have "ldd_pcie_dma_ok (s\<lparr>ps_guest := ?w (?w g 0x100000 bs) 0x1000 d\<rparr>) 0x100000 (of_nat (length bs))"
      using that(1) assms by (intro low_dma_ok) simp
    moreover have "bus_read ram_bus (?w (?w g 0x100000 bs) 0x1000 d) 0x100000 (length bs) = (True, bs)"
      using that assms ram_bus_read_write [of bs g "0x100000"] ram_read_buffer [of "length bs" d "?w g 0x100000 bs"]
      by (simp add: sizeof_desc_def del: ram_bus_sel)
    ultimately show ?thesis unfolding pcie_dread_def by (simp del: ram_bus_sel)
  qed
  have written: "\<exists>t. pcie_dwrite ram_bus s 0x100000 ds = Some t \<and> pcie_dread ram_bus t 0x100000 (length ds) = Some ds"
    if "length ds \<le> chunk" for s :: "(64 word \<Rightarrow> byte) ldd_pcie" and ds
  proof -
    let ?t = "s\<lparr>ps_guest := ?w (ps_guest s) 0x100000 ds\<rparr>"
    have "ldd_pcie_dma_ok s 0x100000 (of_nat (length ds))" "ldd_pcie_dma_ok ?t 0x100000 (of_nat (length ds))"
      using that assms by (intro low_dma_ok, simp)+
    moreover have "bus_read ram_bus (?w (ps_guest s) 0x100000 ds) 0x100000 (length ds) = (True, ds)"
      using that assms by (intro ram_bus_read_write) simp
    moreover have "fst (bus_write ram_bus (ps_guest s) 0x100000 ds)" by simp
    ultimately show ?thesis by (simp add: pcie_dwrite_def pcie_dread_def del: ram_bus_sel)
  qed
  have table: "pcie_dread ram_bus (s\<lparr>ps_guest := ?w g 0x1000 d\<rparr>) 0x1000 sizeof_desc = Some d"
    if "length d = sizeof_desc" for s :: "(64 word \<Rightarrow> byte) ldd_pcie" and g d
  proof -
    have "ldd_pcie_dma_ok (s\<lparr>ps_guest := ?w g 0x1000 d\<rparr>) 0x1000 (of_nat sizeof_desc)"
      by (intro low_dma_ok) (simp add: sizeof_desc_def)
    moreover have "bus_read ram_bus (?w g 0x1000 d) 0x1000 (length d) = (True, d)"
      using that by (intro ram_bus_read_write) (simp add: sizeof_desc_def)
    ultimately show ?thesis unfolding pcie_dread_def that [symmetric] by (simp del: ram_bus_sel)
  qed
  show "map_ok ram_platform (pcie_ready ram_bus maxl maxd) ps_bar2 (pcie_dread ram_bus) (pcie_dwrite ram_bus) chunk 0x1000"
    unfolding map_ok_def Let_def ram_platform_def using mapped written table
    by (clarsimp simp del: ram_bus_sel) metis
  show "unmap_ok ram_platform (pcie_ready ram_bus maxl maxd) ps_bar2 (pcie_dread ram_bus)"
    by (auto simp: unmap_ok_def ram_platform_def pcie_dread_def split: if_splits simp del: ram_bus_sel)
qed

subsection \<open>The driver keeps the contract of a file\<close>

text \<open>
  The file operations as a program uses them, on a machine whose DMA API \<open>P\<close> keeps its promises
  and always finds a mapping, with the XOR byte at its default.
\<close>

definition dma_wr ::
  "'s hw \<Rightarrow> 's platform \<Rightarrow> dma_dev \<times> 's \<Rightarrow> nat \<Rightarrow> byte list \<Rightarrow> nat result \<times> dma_dev \<times> 's" where
  "dma_wr H P st pos data =
     (case dma_write H P InTime 0 False (user_buffer data) (fst st) (snd st) pos (length data) of
        (r, dma, s, _) \<Rightarrow> (r, dma, s))"

definition dma_rd ::
  "'s hw \<Rightarrow> 's platform \<Rightarrow> dma_dev \<times> 's \<Rightarrow> nat \<Rightarrow> nat \<Rightarrow> byte list result \<times> dma_dev \<times> 's" where
  "dma_rd H P st pos count =
     (case dma_read H P InTime 0 False (user_room count) (fst st) (snd st) pos count of
        (Inl e, dma, s, _, _) \<Rightarrow> (Inl e, dma, s) | (Inr n, dma, s, _, bs) \<Rightarrow> (Inr bs, dma, s))"

definition dma_file_inv :: "'g dma_bus \<Rightarrow> nat \<Rightarrow> nat \<Rightarrow> 'g ldd_pcie platform \<Rightarrow> dma_dev \<times> 'g ldd_pcie \<Rightarrow> bool" where
  "dma_file_inv B maxl maxd P st \<longleftrightarrow>
     pcie_ready B maxl maxd (snd st) \<and> dma_inv maxl (fst st) \<and> \<not> dd_removed (fst st) \<and> 1 \<le> maxd \<and> 0 < dd_chunk (fst st) \<and>
     platform_ok P (pcie_ready B maxl maxd) ps_bar2 (pcie_dread B) (pcie_dwrite B) (dd_chunk (fst st)) (dd_desc_bus (fst st)) \<and>
     (\<forall>s bs dir. fst (pf_map P s bs dir) \<noteq> None)"

definition dma_view :: "dma_dev \<times> 'g ldd_pcie \<Rightarrow> nat \<Rightarrow> byte option" where
  "dma_view st p = (if p < LDD_MEM_SIZE then Some (ps_bar2 (snd st) ! p) else None)"

lemma dma_file_inv_same:
  "dma_file_inv B maxl maxd P (dma, s) \<Longrightarrow> dma_same dma dma' \<Longrightarrow> pcie_ready B maxl maxd s' \<Longrightarrow>
   dma_file_inv B maxl maxd P (dma', s')"
  using dma_same_inv [of dma dma' maxl] by (auto simp: dma_file_inv_def dma_same_def)

lemma dma_wr_ok:
  assumes "dma_file_inv B maxl maxd P (dma, s)" "data \<noteq> []" "pos + length data \<le> LDD_MEM_SIZE"
  obtains n dma1 s1 where "dma_wr (pcie_hw B now) P (dma, s) pos data = (Inr n, dma1, s1)" "0 < n" "n \<le> length data"
    "dma_file_inv B maxl maxd P (dma1, s1)" "ps_bar2 s1 = mem_put pos (take n data) (ps_bar2 s)" "length (ps_bar2 s) = LDD_MEM_SIZE"
proof -
  let ?n = "dma_count dma pos (length data)"
  have i: "pcie_ready B maxl maxd s" "dma_inv maxl dma" "\<not> dd_removed dma" "1 \<le> maxd" "0 < dd_chunk dma"
    "platform_ok P (pcie_ready B maxl maxd) ps_bar2 (pcie_dread B) (pcie_dwrite B) (dd_chunk dma) (dd_desc_bus dma)"
    "\<And>s bs dir. fst (pf_map P s bs dir) \<noteq> None"
    using assms(1) by (simp_all add: dma_file_inv_def)
  have p: "0 < length data" "pos < LDD_MEM_SIZE" using assms(2,3) by (simp_all add: order_less_le_trans [rotated] flip: length_greater_0_conv)
  note n = dma_count_bounds [OF refl p(2,1) i(5)]
  have u: "user_buffer data ?n = (0, take ?n data)" using n(3) by (intro user_buffer_all)
  have l: "length (take ?n data) = ?n" using n(3) by simp
  obtain dma1 s1 where w: "dma_write (pcie_hw B now) P InTime 0 False (user_buffer data) dma s pos (length data) = (Inr ?n, dma1, s1, pos + ?n)"
      "pcie_ready B maxl maxd s1" "dma_same dma dma1" "ps_bar2 s1 = mem_put pos (take ?n data) (ps_bar2 s)"
    by (rule pcie_dma.write_ok [where cfu = "user_buffer data" and x = 0, OF i(1,6,7,2-5) p(2,1) refl u l])
  show ?thesis
    using that [of ?n dma1 s1] w n dma_file_inv_same [OF assms(1) w(3,2)] pcie_dma.ready_size [OF i(1)]
    by (simp add: dma_wr_def)
qed

lemma dma_rd_ok:
  assumes "dma_file_inv B maxl maxd P (dma, s)" "0 < count" "pos + count \<le> LDD_MEM_SIZE"
  obtains n dma1 s1 where "dma_rd (pcie_hw B now) P (dma, s) pos count = (Inr (mem_get pos n (ps_bar2 s)), dma1, s1)"
    "0 < n" "n \<le> count" "dma_file_inv B maxl maxd P (dma1, s1)" "ps_bar2 s1 = ps_bar2 s" "length (ps_bar2 s) = LDD_MEM_SIZE"
proof -
  let ?n = "dma_count dma pos count"
  have i: "pcie_ready B maxl maxd s" "dma_inv maxl dma" "\<not> dd_removed dma" "1 \<le> maxd" "0 < dd_chunk dma"
    "platform_ok P (pcie_ready B maxl maxd) ps_bar2 (pcie_dread B) (pcie_dwrite B) (dd_chunk dma) (dd_desc_bus dma)"
    "\<And>s bs dir. fst (pf_map P s bs dir) \<noteq> None"
    using assms(1) by (simp_all add: dma_file_inv_def)
  have p: "pos < LDD_MEM_SIZE" using assms(2,3) by linarith
  note n = dma_count_bounds [OF refl p assms(2) i(5)]
  have bs: "mem_get pos ?n (ps_bar2 s) = xored (0 AND 0xff) (mem_get pos ?n (ps_bar2 s))" by simp
  have u: "user_room count (mem_get pos ?n (ps_bar2 s)) = 0" using n(3) by (simp add: user_room_def)
  obtain dma1 s1 where r: "dma_read (pcie_hw B now) P InTime 0 False (user_room count) dma s pos count =
      (Inr ?n, dma1, s1, pos + ?n, mem_get pos ?n (ps_bar2 s))" "pcie_ready B maxl maxd s1" "dma_same dma dma1" "ps_bar2 s1 = ps_bar2 s"
    by (rule pcie_dma.read_ok [where ctu = "user_room count" and x = 0, OF i(1,6,7,2-5) p assms(2) refl bs u])
  show ?thesis
    using that [of ?n dma1 s1] r n dma_file_inv_same [OF assms(1) r(3,2)] pcie_dma.ready_size [OF i(1)]
    by (simp add: dma_rd_def)
qed

interpretation dma_store: byte_store "dma_file_inv B maxl maxd P" dma_view "dma_rd (pcie_hw B now) P"
  LDD_MEM_SIZE "dma_wr (pcie_hw B now) P"
  for B :: "'g dma_bus" and maxl maxd P now
proof
  fix st :: "dma_dev \<times> 'g ldd_pcie" and data :: "byte list" and pos
  assume a: "dma_file_inv B maxl maxd P st" "data \<noteq> []" "pos + length data \<le> LDD_MEM_SIZE"
  obtain dma s where st: "st = (dma, s)" by fastforce
  obtain n dma1 s1 where w: "dma_wr (pcie_hw B now) P (dma, s) pos data = (Inr n, dma1, s1)" "0 < n" "n \<le> length data"
    "dma_file_inv B maxl maxd P (dma1, s1)" "ps_bar2 s1 = mem_put pos (take n data) (ps_bar2 s)" "length (ps_bar2 s) = LDD_MEM_SIZE"
    by (rule dma_wr_ok [OF a(1) [unfolded st] a(2,3)])
  show "\<exists>n s'. dma_wr (pcie_hw B now) P st pos data = (Inr n, s') \<and> 0 < n \<and> n \<le> length data"
    using w by (simp add: st)
  have v: "dma_view (dma1, s1) p = (if pos \<le> p \<and> p < pos + n then Some (data ! (p - pos)) else dma_view st p)" for p
    using a(3) w(3,6) by (auto simp: dma_view_def st w(5) nth_mem_put length_mem_put)
  fix n' st'
  assume "dma_wr (pcie_hw B now) P st pos data = (Inr n', st')"
  then have e: "n' = n" "st' = (dma1, s1)" using w(1) by (simp_all add: st)
  show "dma_file_inv B maxl maxd P st' \<and> view_at (dma_view st') pos (take n' data)"
    using w(3,4) by (simp add: e view_at_def v)
  fix p b
  assume "dma_view st p = Some b" "p < pos \<or> pos + n' \<le> p"
  then show "dma_view st' p = Some b" by (auto simp: e v)
next
  fix st :: "dma_dev \<times> 'g ldd_pcie" and count pos :: nat
  assume a: "dma_file_inv B maxl maxd P st" "0 < count" "pos + count \<le> LDD_MEM_SIZE"
  obtain dma s where st: "st = (dma, s)" by fastforce
  obtain n dma1 s1 where r: "dma_rd (pcie_hw B now) P (dma, s) pos count = (Inr (mem_get pos n (ps_bar2 s)), dma1, s1)"
    "0 < n" "n \<le> count" "dma_file_inv B maxl maxd P (dma1, s1)" "ps_bar2 s1 = ps_bar2 s" "length (ps_bar2 s) = LDD_MEM_SIZE"
    by (rule dma_rd_ok [OF a(1) [unfolded st] a(2,3)])
  have len: "length (mem_get pos n (ps_bar2 s)) = n" using a(3) r(3,6) by simp
  then have ne: "mem_get pos n (ps_bar2 s) \<noteq> []" using r(2) by force
  show "\<exists>bs s'. dma_rd (pcie_hw B now) P st pos count = (Inr bs, s') \<and> bs \<noteq> []"
    using r(1) ne by (simp add: st)
  fix bs st'
  assume "dma_rd (pcie_hw B now) P st pos count = (Inr bs, st')"
  then have e: "bs = mem_get pos n (ps_bar2 s)" "st' = (dma1, s1)" using r(1) by (simp_all add: st)
  show "dma_file_inv B maxl maxd P st' \<and> dma_view st' = dma_view st \<and> length bs \<le> count \<and> view_at (dma_view st) pos bs"
    using r a(3) len by (auto simp: e st fun_eq_iff dma_view_def view_at_def nth_mem_get)
qed

subsection \<open>Properties\<close>

text \<open>
  Driver and device together, end to end. On a DMA API that keeps its promises, with the
  device ready and the completion in time, a write of at most one buffer stores exactly the
  caller's bytes in the on-board memory at the file position and nothing else, and a read back
  delivers the same bytes XORed with the low byte of the module parameter; both advance the
  position by the whole length and leave the device ready.
\<close>

lemma dma_write_read_roundtrip:
  fixes s :: "'g ldd_pcie"
  assumes "pcie_ready B maxl maxd s" and "1 \<le> maxd" and "dma_inv maxl dma" and "\<not> dd_removed dma"
    and "platform_ok P (pcie_ready B maxl maxd) ps_bar2 (pcie_dread B) (pcie_dwrite B) (dd_chunk dma) (dd_desc_bus dma)"
    and "\<And>s bs dir. fst (pf_map P s bs dir) \<noteq> None"
    and "data \<noteq> []" and "length data \<le> dd_chunk dma" and "pos + length data \<le> LDD_MEM_SIZE"
    and "dma_write (pcie_hw B now) P InTime x1 False (user_buffer data) dma s pos (length data) = (r1, dma1, s1, pos1)"
    and "dma_read (pcie_hw B now) P InTime x2 False (user_room (length data)) dma1 s1 pos (length data) = (r2, dma2, s2, pos2, out)"
  shows "r1 = Inr (length data) \<and> pos1 = pos + length data \<and> ps_bar2 s1 = mem_put pos data (ps_bar2 s) \<and>
    r2 = Inr (length data) \<and> pos2 = pos + length data \<and> out = xored (x2 AND 0xff) data \<and> pcie_ready B maxl maxd s2"
  by (rule pcie_dma.write_then_read [OF assms(1,5,6,3,4,2,7-11)])

text \<open>A device a driver has set up: bus master, INTx, both interrupts unmasked.\<close>

definition demo_ready :: "(64 word \<Rightarrow> byte) ldd_pcie" where
  "demo_ready = upd_regs (\<lambda>r. r\<lparr>r_int_mask := INT_DMA_BOTH\<rparr>) (demo_pcie (\<lambda>_. 0))"

definition demo_dma :: dma_dev where
  "demo_dma = \<lparr>dd_done = 0, dd_int_status = 0, dd_desc_bus = 0x1000, dd_buf = replicate 8 0, dd_chunk = 8, dd_removed = False\<rparr>"

lemma demo_ready_ok: "pcie_ready ram_bus 8 1 demo_ready"
  by (simp add: pcie_ready_def demo_ready_def demo_pcie_def ldd_pcie_properties_def pcie_inv_def pcie_props_ok_def
      regs_ok_def regs_zero_def status_ok_zero ldd_pcie_busy_def has_flag_def INT_DMA_BOTH_def ldd_bit_consts)

lemma demo_dma_ok: "dma_inv 8 demo_dma" "\<not> dd_removed demo_dma" "dd_chunk demo_dma = 8" "dd_desc_bus demo_dma = 0x1000"
  by (simp_all add: dma_inv_def demo_dma_def DMA_CHUNK_def)

lemma ram_platform_maps: "fst (pf_map ram_platform s bs dir) \<noteq> None"
  by (simp add: ram_platform_def)

lemma dma_write_read_roundtrip_witness:
  "\<exists>r1 dma1 s1 pos1 r2 dma2 s2 pos2.
     dma_write (pcie_hw ram_bus 0) ram_platform InTime 0 False (user_buffer [1, 2, 3]) demo_dma demo_ready 5 3 =
       (r1, dma1, s1, pos1) \<and>
     dma_read (pcie_hw ram_bus 0) ram_platform InTime 0x1ff False (user_room 3) dma1 s1 5 3 =
       (r2, dma2, s2, pos2, [0xfe, 0xfd, 0xfc])"
proof -
  obtain r1 dma1 s1 pos1 where w: "dma_write (pcie_hw ram_bus 0) ram_platform InTime 0 False (user_buffer [1, 2, 3])
      demo_dma demo_ready 5 (length [1, 2, 3 :: byte]) = (r1, dma1, s1, pos1)"
    using prod_cases4 by blast
  obtain r2 dma2 s2 pos2 out where r: "dma_read (pcie_hw ram_bus 0) ram_platform InTime 0x1ff False
      (user_room (length [1, 2, 3 :: byte])) dma1 s1 5 (length [1, 2, 3 :: byte]) = (r2, dma2, s2, pos2, out)"
    using prod_cases5 by blast
  have p: "platform_ok ram_platform (pcie_ready ram_bus 8 1) ps_bar2 (pcie_dread ram_bus) (pcie_dwrite ram_bus)
      (dd_chunk demo_dma) (dd_desc_bus demo_dma)"
    unfolding demo_dma_ok by (rule ram_platform_ok) simp
  have "out = xored (0x1ff AND 0xff) [1, 2, 3]"
    using dma_write_read_roundtrip [OF demo_ready_ok _ demo_dma_ok(1,2) p ram_platform_maps _ _ _ w r]
    by (simp add: demo_dma_ok LDD_MEM_SIZE_def)
  then have "out = [0xfe, 0xfd, 0xfc]" by (simp add: xored_def)
  moreover have "length [1, 2, 3 :: byte] = 3" by simp
  ultimately show ?thesis using w r by metis
qed

text \<open>
  C8: The buffer is never handed back while the device may still access it. Whatever the device
  and the driver's state, and whether the completion comes in time, late, across the reset or
  not at all, the transfer unmaps the buffer only in states in which no transfer is in flight: a
  DMA API that did anything else in other states would not make a difference.
\<close>

theorem dma_unmaps_only_idle:
  assumes "pf_map P' = pf_map P" and "pf_store P' = pf_store P"
    and "\<And>s bus old dir. ps_timer s = None \<Longrightarrow> pf_unmap P' s bus old dir = pf_unmap P s bus old dir"
  shows "dma_xfer (pcie_hw B now) P' arr x dma s pos len dir = dma_xfer (pcie_hw B now) P arr x dma s pos len dir"
  using assms by (intro pcie_dma.unmap_only_when_quiet) (simp_all add: pcie_quiet_def)

theorem dma_unmaps_only_idle_witness:
  "dma_xfer (pcie_hw ram_bus 0) (ram_platform\<lparr>pf_unmap := \<lambda>s bus old dir.
       if ps_timer s = None then pf_unmap ram_platform s bus old dir else ([0xbad], s)\<rparr>) Never 0 demo_dma demo_ready 0 8 DMA_TO_DEVICE =
   dma_xfer (pcie_hw ram_bus 0) ram_platform Never 0 demo_dma demo_ready 0 8 DMA_TO_DEVICE"
  by (rule dma_unmaps_only_idle) simp_all

text \<open>
  C9: Every transfer leaves the device ready for the next one, whatever its outcome: completed,
  reported as failed, timed out and reset, or never started because the buffer could not be
  mapped. In particular a timeout does not wedge the device, and a stale completion cannot
  satisfy a later wait.
\<close>

theorem dma_xfer_recovers:
  fixes s :: "'g ldd_pcie"
  assumes "pcie_ready B maxl maxd s" and "dma_inv maxl dma" and "len \<le> dd_chunk dma"
    and "platform_ok P (pcie_ready B maxl maxd) ps_bar2 (pcie_dread B) (pcie_dwrite B) (dd_chunk dma) (dd_desc_bus dma)"
    and "dma_xfer (pcie_hw B now) P arr x dma s pos len dir = (err, dma', s')"
  shows "pcie_ready B maxl maxd s' \<and> dma_inv maxl dma'"
  using pcie_dma.xfer_ready [OF assms(1,4,2,3,5)] dma_same_inv assms(2) by blast

theorem dma_xfer_recovers_witness:
  "pcie_ready ram_bus 8 1
     (snd (snd (dma_xfer (pcie_hw ram_bus 0) ram_platform BeforeReset 0 demo_dma demo_ready 0 8 DMA_TO_DEVICE)))"
proof -
  obtain e d t where x: "dma_xfer (pcie_hw ram_bus 0) ram_platform BeforeReset 0 demo_dma demo_ready 0 8 DMA_TO_DEVICE = (e, d, t)"
    using prod_cases3 by blast
  have p: "platform_ok ram_platform (pcie_ready ram_bus 8 1) ps_bar2 (pcie_dread ram_bus) (pcie_dwrite ram_bus)
      (dd_chunk demo_dma) (dd_desc_bus demo_dma)"
    unfolding demo_dma_ok by (rule ram_platform_ok) simp
  show ?thesis using dma_xfer_recovers [OF demo_ready_ok demo_dma_ok(1) _ p x] by (simp add: x demo_dma_ok)
qed

definition dma_life_inv :: "dma_life \<Rightarrow> bool" where
  "dma_life_inv l \<longleftrightarrow>
     dl_cdevs l = dl_files l + (if dl_registered l then 1 else 0) \<and>
     dl_refs l = dl_files l + (if dl_registered l then 1 else 0) + (if dl_cdevs l = 0 then 0 else 1) \<and>
     dl_removed l = (\<not> dl_registered l) \<and>
     dl_freed l = (if dl_removed l \<and> dl_files l = 0 then 1 else 0)"

lemma dma_life_inv_step: "dma_life_step l l' \<Longrightarrow> dma_life_inv l \<Longrightarrow> dma_life_inv l'"
  by (induction rule: dma_life_step.induct)
    (auto simp: dma_life_inv_def dma_open_def dma_release_def put_device_def cdev_put_def dma_dev_release_def
      Let_def split: if_splits)

text \<open>
  C10: The structure of the driver lives exactly as long as it is needed. However opening,
  closing and the removal of the device interleave, it is freed once, when the device has been
  removed and the last file is closed, and never while a file is open or the node exists.
\<close>

theorem dma_freed_at_last_close:
  assumes "dma_life_step\<^sup>*\<^sup>* dma_probed l"
  shows "dl_freed l = (if dl_removed l \<and> dl_files l = 0 then 1 else 0) \<and>
    (dl_refs l = 0 \<longleftrightarrow> dl_removed l \<and> dl_files l = 0)"
proof -
  have "dma_life_inv dma_probed" by (simp add: dma_life_inv_def dma_probed_def)
  with assms have "dma_life_inv l"
    by (induction rule: rtranclp_induct) (blast intro: dma_life_inv_step)+
  then show ?thesis by (auto simp: dma_life_inv_def split: if_splits)
qed

theorem dma_freed_at_last_close_witness:
  "\<exists>l. dma_life_step\<^sup>*\<^sup>* dma_probed l \<and> dl_removed l \<and> dl_files l = 1 \<and> dl_freed l = 0"
proof -
  let ?l1 = "dma_open (dma_probed\<lparr>dl_cdevs := dl_cdevs dma_probed + 1, dl_files := dl_files dma_probed + 1\<rparr>)"
  let ?l2 = "put_device ((cdev_put (?l1\<lparr>dl_registered := False\<rparr>))\<lparr>dl_removed := True\<rparr>)"
  have "dma_life_step dma_probed ?l1" by (rule life_open) (simp add: dma_probed_def)
  moreover have "dma_life_step ?l1 ?l2" by (rule life_remove) (simp add: dma_probed_def dma_open_def)
  ultimately have r: "dma_life_step\<^sup>*\<^sup>* dma_probed ?l2"
    by (rule converse_rtranclp_into_rtranclp [OF _ r_into_rtranclp])
  have "dl_removed ?l2 \<and> dl_files ?l2 = 1"
    by (simp add: dma_probed_def dma_open_def put_device_def cdev_put_def dma_dev_release_def Let_def)
  then show ?thesis using dma_freed_at_last_close [OF r] r by auto
qed

text \<open>
  Probing is all or nothing. Whichever call fails, including a device that does not answer
  with its identification, everything acquired before it is released again, in reverse order and
  once, and the error is returned; after a success, removing the device releases exactly what
  the probe acquired.
\<close>

lemma dma_probe_all_or_nothing:
  "case dma_probe H K F devbus raw s of
     (Inl e, s', cs) \<Rightarrow> held cs [] = Some []
   | (Inr dma, s', cs) \<Rightarrow> held (cs @ snd (snd (dma_remove H K dma s'))) [] = Some [] \<and> \<not> dd_removed dma"
  by (simp add: dma_probe_def life_defs dma_remove_def if_err_def Let_def split: option.split)

text \<open>
  A successful probe hands the file operations a device that is ready, and a state of the
  driver that fits it: if the PCI core does what it documents (the bus-master bit is set, the
  vectors asked for are MSI or INTx) and the coherent memory is aligned, then after the probe of
  an idle ldd-pcie device the hypotheses of the transfer theorems hold.
\<close>

lemma dma_probe_makes_ready:
  fixes s :: "'g ldd_pcie"
  assumes "bus_ok B" and "pcie_inv s" and "\<not> ldd_pcie_busy s" and "devbus AND 15 = 0"
    and "\<And>t. pci_set_master K t = t\<lparr>ps_master := True\<rparr>"
    and "\<And>t. \<exists>m. pci_alloc_irq_vectors K t = t\<lparr>ps_msix := False, ps_msi := m\<rparr>"
    and "dma_probe (pcie_hw B now) K F devbus raw s = (Inr dma, s', cs)"
  shows "pcie_ready B (dd_chunk dma) 1 s' \<and> dma_inv (dd_chunk dma) dma \<and> ps_bar2 s' = ps_bar2 s"
proof -
  obtain m where m: "pci_alloc_irq_vectors K (s\<lparr>ps_master := True\<rparr>) = s\<lparr>ps_master := True, ps_msix := False, ps_msi := m\<rparr>"
    using assms(6) [of "s\<lparr>ps_master := True\<rparr>"] by auto
  let ?s1 = "s\<lparr>ps_master := True, ps_msix := False, ps_msi := m\<rparr>"
  let ?w = "ldd_pcie_bar0_write B now"
  let ?s2 = "?w ?s1 LDD_REG_INT_STATUS (ucast INT_DMA_BOTH)"
  let ?s3 = "?w ?s2 LDD_REG_INT_MASK (ucast INT_DMA_BOTH)"
  have p: "s' = ?s3" "dd_chunk dma = min DMA_CHUNK (unat (ps_max_seg s))" "dd_desc_bus dma = devbus"
    "length (dd_buf dma) = dd_chunk dma"
    using assms(7) m
    by (simp_all add: dma_probe_def if_err_def Let_def assms(5) pcie_hw_def ldd_pcie_bar0_read_def ldd_reg_consts
        split: option.splits if_splits) auto
  have i1: "pcie_inv ?s1" using assms(2) by (simp add: pcie_inv_def pcie_props_ok_def ldd_pcie_busy_def)
  have i3: "pcie_inv ?s3" by (intro pcie_inv_write assms(1) i1)
  have md: "1 \<le> unat (ps_max_desc s)"
    using assms(2) by (simp add: pcie_inv_def pcie_props_ok_def Suc_le_eq unat_gt_0)
  have e: "?s3 = ldd_pcie_update_irq (upd_regs (\<lambda>r. r\<lparr>r_int_mask := 3\<rparr>) (ldd_pcie_update_irq
      (upd_regs (\<lambda>r. r\<lparr>r_int_status := r_int_status r AND ucast (NOT 3 :: 64 word)\<rparr>) ?s1)))"
    by (simp add: ldd_pcie_bar0_write_def ldd_reg_consts INT_DMA_BOTH_def ldd_bit_consts)
  have "(v AND ucast (NOT 3 :: 64 word)) AND 3 = 0" for v :: "32 word" by (simp add: and.assoc)
  then have "pcie_ready B (dd_chunk dma) 1 s' \<and> ps_bar2 s' = ps_bar2 s"
    unfolding pcie_ready_def p(1) using i3 [unfolded e] assms(1,3) md p(2) unfolding e
    by (simp add: ldd_pcie_busy_def INT_DMA_BOTH_def LDD_INT_DMA_DONE_def LDD_INT_DMA_ERROR_def)
  then show ?thesis using p assms(4) by (simp add: dma_inv_def)
qed

definition demo_core :: "(64 word \<Rightarrow> byte) ldd_pcie pci_core" where
  "demo_core = \<lparr>pci_set_master = (\<lambda>t. t\<lparr>ps_master := True\<rparr>), pci_clear_master = (\<lambda>t. t\<lparr>ps_master := False\<rparr>),
     pci_alloc_irq_vectors = (\<lambda>t. t\<lparr>ps_msix := False, ps_msi := True\<rparr>),
     pci_free_irq_vectors = (\<lambda>t. t\<lparr>ps_msi := False\<rparr>)\<rparr>"

lemma dma_probe_makes_ready_witness:
  "\<exists>dma s' cs. dma_probe (pcie_hw ram_bus 0) demo_core (\<lambda>_. None) 0x1000 (\<lambda>_. 0) demo_ready = (Inr dma, s', cs) \<and>
     pcie_ready ram_bus (dd_chunk dma) 1 s'"
proof -
  have idle: "pcie_inv demo_ready" "\<not> ldd_pcie_busy demo_ready" using demo_ready_ok by (simp_all add: pcie_ready_def)
  obtain dma s' cs where p: "dma_probe (pcie_hw ram_bus 0) demo_core (\<lambda>_. None) 0x1000 (\<lambda>_. 0) demo_ready = (Inr dma, s', cs)"
    by (simp add: dma_probe_def Let_def pcie_hw_def ldd_pcie_bar0_read_def ldd_reg_consts LDD_ID_def)
  have "\<exists>m. pci_alloc_irq_vectors demo_core t = t\<lparr>ps_msix := False, ps_msi := m\<rparr>" for t
    by (rule exI [of _ True]) (simp add: demo_core_def)
  then have "pcie_ready ram_bus (dd_chunk dma) 1 s' \<and> dma_inv (dd_chunk dma) dma \<and> ps_bar2 s' = ps_bar2 demo_ready"
    by (intro dma_probe_makes_ready [OF bus_ok_ram_bus idle _ _ _ p]) (simp_all add: demo_core_def)
  then show ?thesis using p by blast
qed

text \<open>The module as a whole.\<close>

lemma dma_module_clean: "clean m_init m_exit"
  by (simp add: clean_def m_init_def m_exit_def if_err_def split: option.split)

text \<open>
  C13: A program that writes a file of up to one mebibyte to /dev/dma in a loop and reads it back in
  a loop gets the file back, in however many transfers of at most one buffer that takes; both
  loops end.
\<close>

theorem dma_file_roundtrip:
  assumes "dma_file_inv B maxl maxd P st" and "pos + length data \<le> LDD_MEM_SIZE"
  shows "\<exists>st'. write_all (dma_wr (pcie_hw B now) P) (length data) st pos data = Some st' \<and>
    read_all (dma_rd (pcie_hw B now) P) (length data) st' pos (length data) = Some data"
  using dma_store.write_all_read_all [OF assms] by metis

theorem dma_file_roundtrip_witness:
  "\<exists>st'. write_all (dma_wr (pcie_hw ram_bus 0) ram_platform) 20 (demo_dma, demo_ready) 100 (replicate 20 7) = Some st' \<and>
     read_all (dma_rd (pcie_hw ram_bus 0) ram_platform) 20 st' 100 20 = Some (replicate 20 7)"
proof -
  have "platform_ok ram_platform (pcie_ready ram_bus 8 1) ps_bar2 (pcie_dread ram_bus) (pcie_dwrite ram_bus)
      (dd_chunk demo_dma) (dd_desc_bus demo_dma)"
    unfolding demo_dma_ok by (rule ram_platform_ok) simp
  then have "dma_file_inv ram_bus 8 1 ram_platform (demo_dma, demo_ready)"
    using demo_ready_ok demo_dma_ok ram_platform_maps by (simp add: dma_file_inv_def)
  from dma_file_roundtrip [OF this, of 100 "replicate 20 7" 0] show ?thesis
    by (simp add: LDD_MEM_SIZE_def)
qed

end
