(* ===== verification/Dma_Sg.thy ===== *)
theory Dma_Sg
  imports Dma
begin

section \<open>The scatter-gather DMA driver (examples/28_dma_sg)\<close>

text \<open>
  The driver moves data straight between the caller's pages and the on-board memory: it pins the
  pages, lets the kernel build and map a scatterlist, writes one descriptor per mapped segment
  and runs one transfer for all of them. The kernel's side is the parameter \<open>sg_api\<close>, over pages and
  tables of any type, with \<open>sg_map_ok\<close> for what it documents; \<open>user s a n\<close> is what the process finds in
  its memory. The largest segment, which the driver sets when it probes the device and passes on when it
  builds a table, is the field \<open>ds_max_seg\<close>. Running
  a transfer is the code of the single-segment driver with a count, so it rests on the same
  definitions, and on the same contract of the device.
\<close>

definition PAGE_SIZE :: nat where
  "PAGE_SIZE = 4096"

record dma_sg_dev = dma_irq +
  ds_max_desc :: nat
  ds_max_seg :: nat
  ds_desc_bus :: "64 word"
  ds_last_pages :: nat
  ds_last_segs :: nat
  ds_last_descs :: nat
  ds_removed :: bool

text \<open>
  \<open>sg_pin\<close>: the pages that were pinned; \<open>sg_table\<close>: the table for some pages, with the offset of the
  first byte, the number of bytes and the largest segment; \<open>sg_orig\<close>: the number of its entries;
  \<open>sg_map\<close>: bus address and length of each segment the device sees.
\<close>

record ('s, 'p, 't) sg_api =
  sg_pin :: "'s \<Rightarrow> nat \<Rightarrow> nat \<Rightarrow> bool \<Rightarrow> 'p list result"
  sg_table :: "'s \<Rightarrow> 'p list \<Rightarrow> nat \<Rightarrow> nat \<Rightarrow> nat \<Rightarrow> 't result"
  sg_orig :: "'t \<Rightarrow> nat"
  sg_map :: "'s \<Rightarrow> 't \<Rightarrow> dma_dir \<Rightarrow> (64 word \<times> 32 word) list result \<times> 's"
  sg_unmap :: "'s \<Rightarrow> 't \<Rightarrow> dma_dir \<Rightarrow> 's"
  sg_store :: "'s \<Rightarrow> 64 word \<Rightarrow> byte list \<Rightarrow> 's"

datatype sg_res = SgPages nat | SgTable | SgMapping

definition offset_in_page :: "nat \<Rightarrow> nat" where
  "offset_in_page a = a mod PAGE_SIZE"

definition div_round_up :: "nat \<Rightarrow> nat \<Rightarrow> nat" where
  "div_round_up n d = (n + d - 1) div d"

definition dma_sg_handler :: "'s hw \<Rightarrow> dma_sg_dev \<Rightarrow> 's \<Rightarrow> irqreturn \<times> dma_sg_dev \<times> 's" where
  "dma_sg_handler H dsg s = dma_handler H dsg s"

definition dma_sg_run ::
  "'s hw \<Rightarrow> arrival \<Rightarrow> 32 word \<Rightarrow> dma_sg_dev \<Rightarrow> 's \<Rightarrow> nat \<Rightarrow> nat \<Rightarrow> dma_dir \<Rightarrow> errno option \<times> dma_sg_dev \<times> 's" where
  "dma_sg_run H arr xor_param dsg s nents pos dir =
     dma_settle H arr (dsg\<lparr>dd_done := 0\<rparr>)
       (dma_program H s (ds_desc_bus dsg) (of_nat nents) (of_nat pos) dir xor_param)"

definition sg_descs :: "(64 word \<times> 32 word) list \<Rightarrow> ldd_desc list" where
  "sg_descs segs = map (\<lambda>(a, l). \<lparr>d_addr = a, d_len = l, d_flags = 0\<rparr>) segs"

definition dma_sg_xfer ::
  "'s hw \<Rightarrow> ('s, 'p, 't) sg_api \<Rightarrow> arrival \<Rightarrow> 32 word \<Rightarrow> dma_sg_dev \<Rightarrow> 's \<Rightarrow> nat \<Rightarrow> nat \<Rightarrow> nat \<Rightarrow> dma_dir \<Rightarrow>
   nat result \<times> dma_sg_dev \<times> 's \<times> sg_res call list" where
  "dma_sg_xfer H A arr xor_param dsg s ubuf count0 pos dir =
     (let offset = offset_in_page ubuf;
          npages0 = div_round_up (offset + count0) PAGE_SIZE
      in case sg_pin A s (ubuf - offset) npages0 (dir = DMA_FROM_DEVICE) of
           Inl e \<Rightarrow> (Inl e, dsg, s, [])
         | Inr pinned \<Rightarrow>
             if length pinned = 0 then (Inl EFAULT, dsg, s, [])
             else let npages = (if length pinned < npages0 then length pinned else npages0);
                      count = (if length pinned < npages0 then npages * PAGE_SIZE - offset else count0);
                      pages = SgPages npages
             in case sg_table A s (take npages pinned) offset count (ds_max_seg dsg) of
                  Inl e \<Rightarrow> (Inl e, dsg, s, [Acq pages, Rel pages])
                | Inr sgt \<Rightarrow>
                    case sg_map A s sgt dir of
                      (Inl e, s1) \<Rightarrow> (Inl e, dsg, s1, [Acq pages, Acq SgTable, Rel SgTable, Rel pages])
                    | (Inr segs, s1) \<Rightarrow>
                        let s2 = sg_store A s1 (ds_desc_bus dsg) (concat (map enc_desc (sg_descs segs)));
                            dsg1 = dsg\<lparr>ds_last_pages := npages, ds_last_segs := sg_orig A sgt, ds_last_descs := length segs\<rparr>;
                            (err, dsg2, s3) = dma_sg_run H arr xor_param dsg1 s2 (length segs) pos dir;
                            s4 = sg_unmap A s3 sgt dir
                        in (case err of Some e \<Rightarrow> Inl e | None \<Rightarrow> Inr count, dsg2, s4,
                            [Acq pages, Acq SgTable, Acq SgMapping, Rel SgMapping, Rel SgTable, Rel pages]))"

definition dma_sg_rw ::
  "'s hw \<Rightarrow> ('s, 'p, 't) sg_api \<Rightarrow> arrival \<Rightarrow> 32 word \<Rightarrow> bool \<Rightarrow> dma_sg_dev \<Rightarrow> 's \<Rightarrow> nat \<Rightarrow> nat \<Rightarrow> nat \<Rightarrow> dma_dir \<Rightarrow>
   nat result \<times> dma_sg_dev \<times> 's \<times> nat \<times> sg_res call list" where
  "dma_sg_rw H A arr xor_param intr dsg s ubuf count0 pos dir =
     (if pos \<ge> LDD_MEM_SIZE then (if dir = DMA_TO_DEVICE then Inl ENOSPC else Inr 0, dsg, s, pos, [])
      else let room = ds_max_desc dsg * PAGE_SIZE - offset_in_page ubuf;
               count = min count0 (min (LDD_MEM_SIZE - pos) room)
      in if count = 0 then (Inr 0, dsg, s, pos, [])
      else if intr then (Inl ERESTARTSYS, dsg, s, pos, [])
      else case (if ds_removed dsg then (Inl ENODEV, dsg, s, [])
                 else dma_sg_xfer H A arr xor_param dsg s ubuf count pos dir) of
             (Inl e, dsg1, s1, cs) \<Rightarrow> (Inl e, dsg1, s1, pos, cs)
           | (Inr ret, dsg1, s1, cs) \<Rightarrow> (Inr ret, dsg1, s1, pos + ret, cs))"

definition dma_sg_read ::
  "'s hw \<Rightarrow> ('s, 'p, 't) sg_api \<Rightarrow> arrival \<Rightarrow> 32 word \<Rightarrow> bool \<Rightarrow> dma_sg_dev \<Rightarrow> 's \<Rightarrow> nat \<Rightarrow> nat \<Rightarrow> nat \<Rightarrow>
   nat result \<times> dma_sg_dev \<times> 's \<times> nat \<times> sg_res call list" where
  "dma_sg_read H A arr xor_param intr dsg s ubuf count pos =
     dma_sg_rw H A arr xor_param intr dsg s ubuf count pos DMA_FROM_DEVICE"

definition dma_sg_write ::
  "'s hw \<Rightarrow> ('s, 'p, 't) sg_api \<Rightarrow> arrival \<Rightarrow> 32 word \<Rightarrow> bool \<Rightarrow> dma_sg_dev \<Rightarrow> 's \<Rightarrow> nat \<Rightarrow> nat \<Rightarrow> nat \<Rightarrow>
   nat result \<times> dma_sg_dev \<times> 's \<times> nat \<times> sg_res call list" where
  "dma_sg_write H A arr xor_param intr dsg s ubuf count pos =
     dma_sg_rw H A arr xor_param intr dsg s ubuf count pos DMA_TO_DEVICE"

definition last_show :: "dma_sg_dev \<Rightarrow> nat \<times> nat \<times> nat" where
  "last_show dsg = (ds_last_pages dsg, ds_last_segs dsg, ds_last_descs dsg)"

subsection \<open>Probe and remove\<close>

text \<open>
  The page array belongs to the structure: it is freed with it, by \<open>dma_sg_dev_release\<close>, and
  so does not appear among the labels.
\<close>

datatype dma_sg_call = DsgStruct | DsgEnable | DsgRegions | DsgIomap | DsgMaster | DsgMask
  | DsgCoherent | DsgPages | DsgVectors | DsgIrq | DsgName | DsgCdev

definition dma_sg_dev_release :: "bool \<Rightarrow> dma_sg_call call list" where
  "dma_sg_dev_release pages = (if pages then [Rel DsgPages] else []) @ [Rel DsgStruct]"

definition sg_err_put :: "bool \<Rightarrow> dma_sg_call call list" where
  [life_defs]: "sg_err_put pages = dma_sg_dev_release pages"
definition sg_err_disable :: "bool \<Rightarrow> dma_sg_call call list" where
  [life_defs]: "sg_err_disable pages = Rel DsgEnable # sg_err_put pages"
definition sg_err_regions :: "bool \<Rightarrow> dma_sg_call call list" where
  [life_defs]: "sg_err_regions pages = Rel DsgRegions # sg_err_disable pages"
definition sg_err_unmap :: "bool \<Rightarrow> dma_sg_call call list" where
  [life_defs]: "sg_err_unmap pages = Rel DsgIomap # sg_err_regions pages"
definition sg_err_master :: "bool \<Rightarrow> dma_sg_call call list" where
  [life_defs]: "sg_err_master pages = Rel DsgMaster # sg_err_unmap pages"
definition sg_err_coherent :: "bool \<Rightarrow> dma_sg_call call list" where
  [life_defs]: "sg_err_coherent pages = Rel DsgCoherent # sg_err_master pages"
definition sg_err_vectors :: "bool \<Rightarrow> dma_sg_call call list" where
  [life_defs]: "sg_err_vectors pages = Rel DsgVectors # sg_err_coherent pages"
definition sg_err_irq :: "bool \<Rightarrow> dma_sg_call call list" where
  [life_defs]: "sg_err_irq pages = Rel DsgIrq # sg_err_vectors pages"

definition dma_sg_probe ::
  "'s hw \<Rightarrow> 's pci_core \<Rightarrow> dma_sg_call answers \<Rightarrow> 64 word \<Rightarrow> 's \<Rightarrow>
   dma_sg_dev result \<times> 's \<times> dma_sg_call call list" where
  "dma_sg_probe H K F devbus s =
     if_err (F DsgStruct) (\<lambda>_. (Inl ENOMEM, s, [])) (
      let cs = [Acq DsgStruct] in
      if_err (F DsgEnable) (\<lambda>e. (Inl e, s, cs @ sg_err_put False)) (
      let cs = cs @ [Acq DsgEnable] in
      if_err (F DsgRegions) (\<lambda>e. (Inl e, s, cs @ sg_err_disable False)) (
      let cs = cs @ [Acq DsgRegions] in
      if_err (F DsgIomap) (\<lambda>_. (Inl ENOMEM, s, cs @ sg_err_regions False)) (
      let cs = cs @ [Acq DsgIomap]; max_seg = ioread32 H s LDD_REG_MAX_SEG in
      if ioread32 H s LDD_REG_ID \<noteq> ucast LDD_ID then (Inl ENODEV, s, cs @ sg_err_unmap False)
      else if unat max_seg < PAGE_SIZE then (Inl ENODEV, s, cs @ sg_err_unmap False)
      else
      let max_desc = unat (ioread32 H s LDD_REG_MAX_DESC);
          cs = cs @ [Acq DsgMaster]; s = pci_set_master K s in
      if_err (F DsgMask) (\<lambda>e. (Inl e, pci_clear_master K s, cs @ sg_err_master False)) (
      if_err (F DsgCoherent) (\<lambda>_. (Inl ENOMEM, pci_clear_master K s, cs @ sg_err_master False)) (
      let cs = cs @ [Acq DsgCoherent] in
      if_err (F DsgPages) (\<lambda>_. (Inl ENOMEM, pci_clear_master K s, cs @ sg_err_coherent False)) (
      let cs = cs @ [Acq DsgPages] in
      if_err (F DsgVectors) (\<lambda>e. (Inl e, pci_clear_master K s, cs @ sg_err_coherent True)) (
      let cs = cs @ [Acq DsgVectors]; s = pci_alloc_irq_vectors K s in
      if_err (F DsgIrq) (\<lambda>e. (Inl e, pci_clear_master K (pci_free_irq_vectors K s), cs @ sg_err_vectors True)) (
      let cs = cs @ [Acq DsgIrq];
          s = iowrite32 H (iowrite32 H s LDD_REG_INT_STATUS INT_DMA_BOTH) LDD_REG_INT_MASK INT_DMA_BOTH;
          undone = pci_clear_master K (pci_free_irq_vectors K (iowrite32 H s LDD_REG_INT_MASK 0)) in
      if_err (F DsgName) (\<lambda>e. (Inl e, undone, cs @ sg_err_irq True)) (
      if_err (F DsgCdev) (\<lambda>e. (Inl e, undone, cs @ sg_err_irq True)) (
        (Inr \<lparr>dd_done = 0, dd_int_status = 0, ds_max_desc = max_desc, ds_max_seg = unat max_seg, ds_desc_bus = devbus, ds_last_pages = 0,
              ds_last_segs = 0, ds_last_descs = 0, ds_removed = False\<rparr>, s, cs @ [Acq DsgCdev]))))))))))))"

definition dma_sg_remove ::
  "'s hw \<Rightarrow> 's pci_core \<Rightarrow> dma_sg_dev \<Rightarrow> 's \<Rightarrow> dma_sg_dev \<times> 's \<times> dma_sg_call call list" where
  "dma_sg_remove H K dsg s =
     (dsg\<lparr>ds_removed := True\<rparr>,
      pci_clear_master K (pci_free_irq_vectors K (iowrite32 H s LDD_REG_INT_MASK 0)),
      [Rel DsgCdev, Rel DsgIrq, Rel DsgVectors, Rel DsgCoherent, Rel DsgMaster, Rel DsgIomap,
       Rel DsgRegions, Rel DsgEnable] @ dma_sg_dev_release True)"

definition dma_sg_open :: "dma_life \<Rightarrow> dma_life" where
  "dma_sg_open l = l\<lparr>dl_refs := dl_refs l + 1\<rparr>"

definition dma_sg_release :: "dma_life \<Rightarrow> dma_life" where
  "dma_sg_release l = put_device l"

definition dma_sg_llseek :: "(nat \<Rightarrow> int \<Rightarrow> nat \<Rightarrow> nat \<Rightarrow> nat result) \<Rightarrow> nat \<Rightarrow> int \<Rightarrow> nat \<Rightarrow> nat result" where
  "dma_sg_llseek fixed_size_llseek pos off whence = fixed_size_llseek pos off whence LDD_MEM_SIZE"

datatype dma_sg_module = DsgChrdev | DsgDriver

definition sg_m_init :: "dma_sg_module answers \<Rightarrow> errno option \<times> dma_sg_module call list" where
  "sg_m_init F =
     if_err (F DsgChrdev) (\<lambda>e. (Some e, []))
       (if_err (F DsgDriver) (\<lambda>e. (Some e, [Acq DsgChrdev, Rel DsgChrdev]))
         (None, [Acq DsgChrdev, Acq DsgDriver]))"

definition sg_m_exit :: "dma_sg_module call list" where
  "sg_m_exit = [Rel DsgDriver, Rel DsgChrdev]"

subsection \<open>What the scatterlist API promises\<close>

definition pages_of :: "nat \<Rightarrow> nat \<Rightarrow> nat" where
  "pages_of ubuf count = div_round_up (offset_in_page ubuf + count) PAGE_SIZE"

text \<open>The segments cover the buffer, each no longer than the device takes, no more than pages.\<close>

definition segs_ok :: "nat \<Rightarrow> nat \<Rightarrow> nat \<Rightarrow> (64 word \<times> 32 word) list \<Rightarrow> bool" where
  "segs_ok maxl ubuf count segs \<longleftrightarrow> segs \<noteq> [] \<and> length segs \<le> pages_of ubuf count \<and>
     (\<forall>(a, l) \<in> set segs. l \<noteq> 0 \<and> unat l \<le> maxl) \<and> (\<Sum>(a, l)\<leftarrow>segs. unat l) = count"

text \<open>
  A table made of the pages pinned at a buffer, with segments of at most \<open>max_seg\<close> bytes, is mapped to
  segments that cover the buffer. After mapping, and storing the descriptors, device and process see the
  same bytes: what the device
  gathers is what the process has, and what it scatters is what the process finds once the pages
  are its own again.
\<close>

definition sg_map_ok ::
  "('s, 'p, 't) sg_api \<Rightarrow> ('s \<Rightarrow> bool) \<Rightarrow> ('s \<Rightarrow> byte list) \<Rightarrow> ('s \<Rightarrow> 64 word \<Rightarrow> nat \<Rightarrow> byte list option) \<Rightarrow>
   ('s \<Rightarrow> 64 word \<Rightarrow> byte list \<Rightarrow> 's option) \<Rightarrow> ('s \<Rightarrow> nat \<Rightarrow> nat \<Rightarrow> byte list) \<Rightarrow> nat \<Rightarrow> 64 word \<Rightarrow> bool" where
  "sg_map_ok A ready onboard dread dwrite user max_seg desc_bus \<longleftrightarrow>
     (\<forall>s ubuf np pinned count dir sgt segs s1. PAGE_SIZE \<le> max_seg \<longrightarrow> ready s \<longrightarrow>
        sg_pin A s (ubuf - offset_in_page ubuf) np (dir = DMA_FROM_DEVICE) = Inr pinned \<longrightarrow> pages_of ubuf count \<le> length pinned \<longrightarrow>
        sg_table A s (take (pages_of ubuf count) pinned) (offset_in_page ubuf) count max_seg = Inr sgt \<longrightarrow>
        sg_map A s sgt dir = (Inr segs, s1) \<longrightarrow>
       (let ds = sg_descs segs; s2 = sg_store A s1 desc_bus (concat (map enc_desc ds))
        in segs_ok max_seg ubuf count segs \<and> ready s2 \<and> onboard s2 = onboard s \<and>
           dread s2 desc_bus (length ds * sizeof_desc) = Some (concat (map enc_desc ds)) \<and>
           (if dir = DMA_TO_DEVICE
            then (\<forall>d \<in> set ds. dread s2 (d_addr d) (unat (d_len d)) \<noteq> None) \<and> dgather dread ds s2 = user s ubuf count
            else \<forall>data. length data = count \<longrightarrow> (\<exists>t. dscatter dwrite ds data s2 = Some t \<and>
                   (\<forall>s3. dread s3 = dread t \<longrightarrow> user (sg_unmap A s3 sgt dir) ubuf count = data)))))"

definition sg_unmap_ok :: "('s, 'p, 't) sg_api \<Rightarrow> ('s \<Rightarrow> bool) \<Rightarrow> ('s \<Rightarrow> byte list) \<Rightarrow> bool" where
  "sg_unmap_ok A ready onboard \<longleftrightarrow>
     (\<forall>s sgt dir. ready s \<longrightarrow> ready (sg_unmap A s sgt dir) \<and> onboard (sg_unmap A s sgt dir) = onboard s)"

lemma sg_map_okD:
  assumes "sg_map_ok A ready onboard dread dwrite user max_seg desc_bus" "PAGE_SIZE \<le> max_seg" "ready s"
    and "sg_pin A s (ubuf - offset_in_page ubuf) np (dir = DMA_FROM_DEVICE) = Inr pinned" "pages_of ubuf count \<le> length pinned"
    and "sg_table A s (take (pages_of ubuf count) pinned) (offset_in_page ubuf) count max_seg = Inr sgt"
    and "sg_map A s sgt dir = (Inr segs, s1)"
    and "s2 = sg_store A s1 desc_bus (concat (map enc_desc (sg_descs segs)))"
  shows "segs_ok max_seg ubuf count segs \<and> ready s2 \<and> onboard s2 = onboard s \<and>
     dread s2 desc_bus (length (sg_descs segs) * sizeof_desc) = Some (concat (map enc_desc (sg_descs segs))) \<and>
     (if dir = DMA_TO_DEVICE
      then (\<forall>d \<in> set (sg_descs segs). dread s2 (d_addr d) (unat (d_len d)) \<noteq> None) \<and>
        dgather dread (sg_descs segs) s2 = user s ubuf count
      else \<forall>data. length data = count \<longrightarrow> (\<exists>t. dscatter dwrite (sg_descs segs) data s2 = Some t \<and>
             (\<forall>s3. dread s3 = dread t \<longrightarrow> user (sg_unmap A s3 sgt dir) ubuf count = data)))"
  using assms(1) [unfolded sg_map_ok_def Let_def, rule_format, OF assms(2-7)] unfolding assms(8) .

lemma length_sg_descs [simp]: "length (sg_descs segs) = length segs"
  by (simp add: sg_descs_def)

lemma desc_total_sg: "desc_total (sg_descs segs) = (\<Sum>(a, l)\<leftarrow>segs. unat l)"
  by (induction segs) (auto simp: sg_descs_def)

text \<open>The driver never asks for more pages than it has descriptors.\<close>

lemma pages_fit:
  assumes "count \<le> max_desc * PAGE_SIZE - offset_in_page ubuf" "0 < count"
  shows "pages_of ubuf count \<le> max_desc"
proof -
  have "offset_in_page ubuf + count \<le> max_desc * PAGE_SIZE" using assms by linarith
  then have "(offset_in_page ubuf + count + PAGE_SIZE - 1) div PAGE_SIZE \<le> (max_desc * PAGE_SIZE + PAGE_SIZE - 1) div PAGE_SIZE"
    by (intro div_le_mono) simp
  also have "\<dots> = max_desc" by (simp add: PAGE_SIZE_def)
  finally show ?thesis by (simp add: pages_of_def div_round_up_def)
qed

text \<open>
  The part of a call before the transfer, when the kernel's calls succeed: \<open>n\<close> bytes are moved,
  all of the request that fits, or what the pinned pages hold of it.
\<close>

definition sg_count :: "dma_sg_dev \<Rightarrow> nat \<Rightarrow> nat \<Rightarrow> nat \<Rightarrow> nat" where
  "sg_count dsg ubuf count0 pos =
     min count0 (min (LDD_MEM_SIZE - pos) (ds_max_desc dsg * PAGE_SIZE - offset_in_page ubuf))"

definition sg_request ::
  "('s, 'p, 't) sg_api \<Rightarrow> dma_sg_dev \<Rightarrow> 's \<Rightarrow> nat \<Rightarrow> nat \<Rightarrow> nat \<Rightarrow> dma_dir \<Rightarrow> nat \<Rightarrow> 't \<Rightarrow> (64 word \<times> 32 word) list \<Rightarrow> 's \<Rightarrow> bool" where
  "sg_request A dsg s ubuf count0 pos dir n sgt segs s1 \<longleftrightarrow>
     (let count = sg_count dsg ubuf count0 pos
      in pos < LDD_MEM_SIZE \<and> 0 < count \<and> \<not> ds_removed dsg \<and>
         (\<exists>pinned. sg_pin A s (ubuf - offset_in_page ubuf) (pages_of ubuf count) (dir = DMA_FROM_DEVICE) = Inr pinned \<and>
            0 < length pinned \<and>
            n = (if length pinned < pages_of ubuf count then length pinned * PAGE_SIZE - offset_in_page ubuf else count) \<and>
            sg_table A s (take (min (length pinned) (pages_of ubuf count)) pinned) (offset_in_page ubuf) n (ds_max_seg dsg) = Inr sgt \<and>
            sg_map A s sgt dir = (Inr segs, s1)))"

lemma offset_less: "offset_in_page ubuf < PAGE_SIZE"
  by (simp add: offset_in_page_def PAGE_SIZE_def)

lemma pages_of_le: "k < pages_of ubuf count \<Longrightarrow> k * PAGE_SIZE - offset_in_page ubuf \<le> count"
proof -
  assume "k < pages_of ubuf count"
  then have "Suc k * PAGE_SIZE \<le> offset_in_page ubuf + count + PAGE_SIZE - 1"
    unfolding pages_of_def div_round_up_def
    by (simp add: PAGE_SIZE_def less_eq_div_iff_mult_less_eq flip: Suc_le_eq del: mult_Suc)
  then show ?thesis by (simp add: PAGE_SIZE_def)
qed

lemma pages_of_pinned: "0 < k \<Longrightarrow> pages_of ubuf (k * PAGE_SIZE - offset_in_page ubuf) = k"
proof -
  assume "0 < k"
  then have "PAGE_SIZE \<le> k * PAGE_SIZE" by simp
  then have "offset_in_page ubuf + (k * PAGE_SIZE - offset_in_page ubuf) = k * PAGE_SIZE" using offset_less [of ubuf] by linarith
  then show ?thesis by (simp add: pages_of_def div_round_up_def PAGE_SIZE_def)
qed

lemma sg_request_bounds:
  assumes "sg_request A dsg s ubuf count0 pos dir n sgt segs s1"
  shows "0 < n" "n \<le> count0" "pos + n \<le> LDD_MEM_SIZE" "pages_of ubuf n \<le> ds_max_desc dsg"
proof -
  let ?c = "sg_count dsg ubuf count0 pos"
  obtain pinned where p: "0 < pinned"
      "n = (if pinned < pages_of ubuf ?c then pinned * PAGE_SIZE - offset_in_page ubuf else ?c)" "0 < ?c" "pos < LDD_MEM_SIZE"
    using assms unfolding sg_request_def Let_def by blast
  have "PAGE_SIZE \<le> pinned * PAGE_SIZE" using p(1) by simp
  then have pos: "0 < pinned * PAGE_SIZE - offset_in_page ubuf" using offset_less [of ubuf] by linarith
  show n0: "0 < n" using p(2,3) pos by simp
  have le: "n \<le> ?c"
    using p(2) pages_of_le [of pinned ubuf ?c] by (cases "pinned < pages_of ubuf ?c") simp_all
  then show "n \<le> count0" "pos + n \<le> LDD_MEM_SIZE" using p(4) unfolding sg_count_def by linarith+
  show "pages_of ubuf n \<le> ds_max_desc dsg"
    using le n0 unfolding sg_count_def by (intro pages_fit) linarith+
qed

text \<open>The table of a request is one of the pages pinned at the buffer.\<close>

lemma sg_request_table:
  assumes "sg_request A dsg s ubuf count0 pos dir n sgt segs s1"
  obtains np pinned where "sg_pin A s (ubuf - offset_in_page ubuf) np (dir = DMA_FROM_DEVICE) = Inr pinned" "pages_of ubuf n \<le> length pinned"
    "sg_table A s (take (pages_of ubuf n) pinned) (offset_in_page ubuf) n (ds_max_seg dsg) = Inr sgt" "sg_map A s sgt dir = (Inr segs, s1)"
proof -
  let ?c = "sg_count dsg ubuf count0 pos"
  obtain pinned where p: "sg_pin A s (ubuf - offset_in_page ubuf) (pages_of ubuf ?c) (dir = DMA_FROM_DEVICE) = Inr pinned" "0 < length pinned"
    "n = (if length pinned < pages_of ubuf ?c then length pinned * PAGE_SIZE - offset_in_page ubuf else ?c)"
    "sg_table A s (take (min (length pinned) (pages_of ubuf ?c)) pinned) (offset_in_page ubuf) n (ds_max_seg dsg) = Inr sgt"
    "sg_map A s sgt dir = (Inr segs, s1)"
    using assms unfolding sg_request_def Let_def by blast
  have "pages_of ubuf n = min (length pinned) (pages_of ubuf ?c)" using p(3) pages_of_pinned [OF p(2)] by auto
  then show thesis using that [OF p(1)] p(4,5) by simp
qed

lemma sg_rw_request:
  assumes "sg_request A dsg s ubuf count0 pos dir n sgt segs s1"
    and "dma_sg_rw H A arr x False dsg s ubuf count0 pos dir = (r, dsg', s', pos', cs)"
  obtains err dsg1 s3 where
    "ds_desc_bus dsg1 = ds_desc_bus dsg"
    "dma_sg_run H arr x dsg1 (sg_store A s1 (ds_desc_bus dsg) (concat (map enc_desc (sg_descs segs)))) (length (sg_descs segs)) pos dir = (err, dsg', s3)"
    "s' = sg_unmap A s3 sgt dir" "held cs [] = Some []"
    "r = (case err of Some e \<Rightarrow> Inl e | None \<Rightarrow> Inr n)" "pos' = (case err of Some e \<Rightarrow> pos | None \<Rightarrow> pos + n)"
proof -
  let ?c = "sg_count dsg ubuf count0 pos"
  obtain pinned where p: "pos < LDD_MEM_SIZE" "0 < ?c" "\<not> ds_removed dsg"
    "sg_pin A s (ubuf - offset_in_page ubuf) (pages_of ubuf ?c) (dir = DMA_FROM_DEVICE) = Inr pinned" "0 < length pinned"
    "n = (if length pinned < pages_of ubuf ?c then length pinned * PAGE_SIZE - offset_in_page ubuf else ?c)"
    "sg_table A s (take (min (length pinned) (pages_of ubuf ?c)) pinned) (offset_in_page ubuf) n (ds_max_seg dsg) = Inr sgt"
    "sg_map A s sgt dir = (Inr segs, s1)"
    using assms(1) unfolding sg_request_def Let_def by blast
  let ?np = "if length pinned < pages_of ubuf ?c then length pinned else pages_of ubuf ?c"
  have np: "?np = min (length pinned) (pages_of ubuf ?c)" by simp
  have cnt: "(if length pinned < pages_of ubuf ?c then ?np * PAGE_SIZE - offset_in_page ubuf else ?c) = n" unfolding p(6) by (rule if_cong) simp_all
  let ?d1 = "dsg\<lparr>ds_last_pages := ?np, ds_last_segs := sg_orig A sgt, ds_last_descs := length segs\<rparr>"
  let ?s2 = "sg_store A s1 (ds_desc_bus dsg) (concat (map enc_desc (sg_descs segs)))"
  obtain err d2 s3 where run: "dma_sg_run H arr x ?d1 ?s2 (length segs) pos dir = (err, d2, s3)" using prod_cases3 by blast
  let ?cs = "[Acq (SgPages ?np), Acq SgTable, Acq SgMapping, Rel SgMapping, Rel SgTable, Rel (SgPages ?np)]"
  have "dma_sg_xfer H A arr x dsg s ubuf ?c pos dir =
      (case err of Some e \<Rightarrow> Inl e | None \<Rightarrow> Inr n, d2, sg_unmap A s3 sgt dir, ?cs)"
    unfolding dma_sg_xfer_def Let_def pages_of_def [symmetric] p(4) sum.case cnt
    using p(5,7,8) run unfolding np by simp
  then have "dma_sg_rw H A arr x False dsg s ubuf count0 pos dir =
      (case err of Some e \<Rightarrow> Inl e | None \<Rightarrow> Inr n, d2, sg_unmap A s3 sgt dir,
       case err of Some e \<Rightarrow> pos | None \<Rightarrow> pos + n, ?cs)"
    using p(1-3) unfolding dma_sg_rw_def Let_def sg_count_def [symmetric] by (simp split: option.split)
  then have "r = (case err of Some e \<Rightarrow> Inl e | None \<Rightarrow> Inr n)" "dsg' = d2" "s' = sg_unmap A s3 sgt dir"
      "pos' = (case err of Some e \<Rightarrow> pos | None \<Rightarrow> pos + n)" "cs = ?cs"
    using assms(2) by simp_all
  then show ?thesis using run by (intro that [of ?d1 err s3]) simp_all
qed

context dma_device
begin

lemma sg_table_ok:
  assumes "segs_ok max_seg ubuf count segs" "max_seg \<le> maxl" "pages_of ubuf count \<le> maxd" "desc_bus AND 15 = 0" "pos + count \<le> LDD_MEM_SIZE"
    and "dread s desc_bus (length (sg_descs segs) * sizeof_desc) = Some (concat (map enc_desc (sg_descs segs)))"
  shows "dma_table_ok dread maxl maxd s desc_bus (sg_descs segs) pos"
  using assms unfolding dma_table_ok_def desc_total_sg
  by (fastforce simp: segs_ok_def sg_descs_def)

text \<open>One run over a mapped list, in time.\<close>

lemma sg_run_to_device:
  assumes "ready s" "dma_table_ok dread maxl maxd s (ds_desc_bus dsg) ds pos"
    and "\<forall>d \<in> set ds. dread s (d_addr d) (unat (d_len d)) \<noteq> None"
    and "dma_sg_run H InTime x dsg s (length ds) pos DMA_TO_DEVICE = (err, dsg', s')"
  shows "err = None \<and> ready s' \<and> onboard s' = mem_put pos (dgather dread ds s) (onboard s)"
proof -
  let ?s1 = "dma_program H s (ds_desc_bus dsg) (of_nat (length ds)) (of_nat pos) DMA_TO_DEVICE x"
  note c = to_device [OF assms(1-3) refl refl refl, of x]
  have "dma_settle H InTime (dsg\<lparr>dd_done := 0\<rparr>) ?s1 = (None, dsg\<lparr>dd_done := 0, dd_int_status := LDD_INT_DMA_DONE\<rparr>,
      iowrite32 H (hw_fire H ?s1) LDD_REG_INT_STATUS LDD_INT_DMA_DONE)"
    using settle_done [of ?s1 "dsg\<lparr>dd_done := 0\<rparr>"] c by simp
  then show ?thesis using assms(4) c by (auto simp: dma_sg_run_def)
qed

lemma sg_run_from_device:
  assumes "ready s" "dma_table_ok dread maxl maxd s (ds_desc_bus dsg) ds pos"
    and "dscatter dwrite ds (xored (x AND 0xff) (mem_get pos (desc_total ds) (onboard s))) s = Some t"
    and "dma_sg_run H InTime x dsg s (length ds) pos DMA_FROM_DEVICE = (err, dsg', s')"
  shows "err = None \<and> ready s' \<and> onboard s' = onboard s \<and> dread s' = dread t"
proof -
  let ?s1 = "dma_program H s (ds_desc_bus dsg) (of_nat (length ds)) (of_nat pos) DMA_FROM_DEVICE x"
  note c = from_device [OF assms(1-3) refl refl refl]
  have "dma_settle H InTime (dsg\<lparr>dd_done := 0\<rparr>) ?s1 = (None, dsg\<lparr>dd_done := 0, dd_int_status := LDD_INT_DMA_DONE\<rparr>,
      iowrite32 H (hw_fire H ?s1) LDD_REG_INT_STATUS LDD_INT_DMA_DONE)"
    using settle_done [of ?s1 "dsg\<lparr>dd_done := 0\<rparr>"] c by simp
  then show ?thesis using assms(4) c by (auto simp: dma_sg_run_def)
qed

lemma sg_write_request:
  assumes "ready s" "sg_map_ok A ready onboard dread dwrite user (ds_max_seg dsg) (ds_desc_bus dsg)" "sg_unmap_ok A ready onboard"
    and "ds_desc_bus dsg AND 15 = 0" "ds_max_desc dsg \<le> maxd" "PAGE_SIZE \<le> ds_max_seg dsg" "ds_max_seg dsg \<le> maxl"
    and "sg_request A dsg s ubuf count0 pos DMA_TO_DEVICE n sgt segs s1"
    and "dma_sg_rw H A InTime x False dsg s ubuf count0 pos DMA_TO_DEVICE = (r, dsg', s', pos', cs)"
  shows "r = Inr n \<and> pos' = pos + n \<and> onboard s' = mem_put pos (user s ubuf n) (onboard s) \<and> ready s' \<and> held cs [] = Some []"
proof -
  obtain err dsg1 s3 where run: "ds_desc_bus dsg1 = ds_desc_bus dsg"
    "dma_sg_run H InTime x dsg1 (sg_store A s1 (ds_desc_bus dsg) (concat (map enc_desc (sg_descs segs)))) (length (sg_descs segs)) pos DMA_TO_DEVICE = (err, dsg', s3)"
    "s' = sg_unmap A s3 sgt DMA_TO_DEVICE" "held cs [] = Some []"
    "r = (case err of Some e \<Rightarrow> Inl e | None \<Rightarrow> Inr n)" "pos' = (case err of Some e \<Rightarrow> pos | None \<Rightarrow> pos + n)"
    by (rule sg_rw_request [OF assms(8,9)])
  obtain np pinned where m: "sg_pin A s (ubuf - offset_in_page ubuf) np (DMA_TO_DEVICE = DMA_FROM_DEVICE) = Inr pinned" "pages_of ubuf n \<le> length pinned"
    "sg_table A s (take (pages_of ubuf n) pinned) (offset_in_page ubuf) n (ds_max_seg dsg) = Inr sgt" "sg_map A s sgt DMA_TO_DEVICE = (Inr segs, s1)"
    by (rule sg_request_table [OF assms(8)])
  note mp = sg_map_okD [OF assms(2,6,1) m refl]
  note b = sg_request_bounds [OF assms(8)]
  let ?s2 = "sg_store A s1 (ds_desc_bus dsg) (concat (map enc_desc (sg_descs segs)))"
  have t: "dma_table_ok dread maxl maxd ?s2 (ds_desc_bus dsg1) (sg_descs segs) pos"
    using mp assms(4,5,7) b unfolding run(1) by (intro sg_table_ok [where ubuf = ubuf and count = n and max_seg = "ds_max_seg dsg"]) linarith+
  have "err = None \<and> ready s3 \<and> onboard s3 = mem_put pos (dgather dread (sg_descs segs) ?s2) (onboard ?s2)"
    using mp by (intro sg_run_to_device [OF _ t _ run(2)]) simp_all
  then show ?thesis using run mp assms(3) by (simp add: sg_unmap_ok_def)
qed

lemma sg_read_request:
  assumes "ready s" "sg_map_ok A ready onboard dread dwrite user (ds_max_seg dsg) (ds_desc_bus dsg)" "sg_unmap_ok A ready onboard"
    and "ds_desc_bus dsg AND 15 = 0" "ds_max_desc dsg \<le> maxd" "PAGE_SIZE \<le> ds_max_seg dsg" "ds_max_seg dsg \<le> maxl"
    and "sg_request A dsg s ubuf count0 pos DMA_FROM_DEVICE n sgt segs s1"
    and "dma_sg_rw H A InTime x False dsg s ubuf count0 pos DMA_FROM_DEVICE = (r, dsg', s', pos', cs)"
  shows "r = Inr n \<and> pos' = pos + n \<and> user s' ubuf n = xored (x AND 0xff) (mem_get pos n (onboard s)) \<and>
    onboard s' = onboard s \<and> ready s' \<and> held cs [] = Some []"
proof -
  obtain err dsg1 s3 where run: "ds_desc_bus dsg1 = ds_desc_bus dsg"
    "dma_sg_run H InTime x dsg1 (sg_store A s1 (ds_desc_bus dsg) (concat (map enc_desc (sg_descs segs)))) (length (sg_descs segs)) pos DMA_FROM_DEVICE = (err, dsg', s3)"
    "s' = sg_unmap A s3 sgt DMA_FROM_DEVICE" "held cs [] = Some []"
    "r = (case err of Some e \<Rightarrow> Inl e | None \<Rightarrow> Inr n)" "pos' = (case err of Some e \<Rightarrow> pos | None \<Rightarrow> pos + n)"
    by (rule sg_rw_request [OF assms(8,9)])
  obtain np pinned where m: "sg_pin A s (ubuf - offset_in_page ubuf) np (DMA_FROM_DEVICE = DMA_FROM_DEVICE) = Inr pinned" "pages_of ubuf n \<le> length pinned"
    "sg_table A s (take (pages_of ubuf n) pinned) (offset_in_page ubuf) n (ds_max_seg dsg) = Inr sgt" "sg_map A s sgt DMA_FROM_DEVICE = (Inr segs, s1)"
    by (rule sg_request_table [OF assms(8)])
  let ?s2 = "sg_store A s1 (ds_desc_bus dsg) (concat (map enc_desc (sg_descs segs)))"
  note mp = sg_map_okD [OF assms(2,6,1) m refl]
  note b = sg_request_bounds [OF assms(8)]
  have t: "dma_table_ok dread maxl maxd ?s2 (ds_desc_bus dsg1) (sg_descs segs) pos"
    using mp assms(4,5,7) b unfolding run(1) by (intro sg_table_ok [where ubuf = ubuf and count = n and max_seg = "ds_max_seg dsg"]) linarith+
  let ?data = "xored (x AND 0xff) (mem_get pos n (onboard ?s2))"
  have n: "desc_total (sg_descs segs) = n" using mp by (simp add: desc_total_sg segs_ok_def)
  have "length ?data = n" using b(3) mp ready_size [of ?s2] by (simp add: min_def)
  moreover have "\<forall>data. length data = n \<longrightarrow> (\<exists>t. dscatter dwrite (sg_descs segs) data ?s2 = Some t \<and>
      (\<forall>s3. dread s3 = dread t \<longrightarrow> user (sg_unmap A s3 sgt DMA_FROM_DEVICE) ubuf n = data))"
    using mp by simp
  ultimately obtain u where u: "dscatter dwrite (sg_descs segs) ?data ?s2 = Some u"
      "\<forall>s3. dread s3 = dread u \<longrightarrow> user (sg_unmap A s3 sgt DMA_FROM_DEVICE) ubuf n = ?data"
    by blast
  have "err = None \<and> ready s3 \<and> onboard s3 = onboard ?s2 \<and> dread s3 = dread u"
    using mp u(1) by (intro sg_run_from_device [OF _ t _ run(2)]) (simp_all add: n)
  then show ?thesis using run mp u assms(3) by (simp add: sg_unmap_ok_def)
qed

end

subsection \<open>A process with two pages\<close>

text \<open>
  Page 0 of the process is at 0x2000, page 1 at 0x5000, the table at 0x1000. A buffer of four
  bytes from 0xffe on spans both pages, so it is two segments; nothing else can be mapped.
\<close>

definition demo_user :: "(64 word \<Rightarrow> byte) ldd_pcie \<Rightarrow> nat \<Rightarrow> nat \<Rightarrow> byte list" where
  "demo_user s a n = map (\<lambda>i. ps_guest s (if a + i < 4096 then of_nat (0x2000 + a + i) else of_nat (0x4000 + a + i))) [0..<n]"

definition demo_sg :: "((64 word \<Rightarrow> byte) ldd_pcie, nat, nat list \<times> nat \<times> nat) sg_api" where
  "demo_sg =
     \<lparr>sg_pin = (\<lambda>s a n w. Inr (map (\<lambda>i. a div PAGE_SIZE + i) [0..<n])),
      sg_table = (\<lambda>s pages off c max_seg. Inr (pages, off, c)),
      sg_orig = (\<lambda>(pages, off, c). length pages),
      sg_map = (\<lambda>s sgt dir. (if sgt = ([0, 1], 0xffe, 4) then Inr [(0x2ffe, 2), (0x5000, 2)] else Inl EIO, s)),
      sg_unmap = (\<lambda>s sgt dir. s),
      sg_store = (\<lambda>s a d. s\<lparr>ps_guest := snd (bus_write ram_bus (ps_guest s) a d)\<rparr>)\<rparr>"

definition demo_dsg :: dma_sg_dev where
  "demo_dsg = \<lparr>dd_done = 0, dd_int_status = 0, ds_max_desc = 2, ds_max_seg = 4096, ds_desc_bus = 0x1000, ds_last_pages = 0,
     ds_last_segs = 0, ds_last_descs = 0, ds_removed = False\<rparr>"

lemma upt_2: "[0..<2] = [0, 1 :: nat]" by (simp add: upt_rec)
lemma upt_4: "[0..<4] = [0, 1, 2, 3 :: nat]" by (simp add: upt_rec)

lemma demo_user_4: "demo_user s 0xffe 4 = [ps_guest s 0x2ffe, ps_guest s 0x2fff, ps_guest s 0x5000, ps_guest s 0x5001]"
  by (simp add: demo_user_def upt_4)

lemma demo_dma_ok_low: "a \<le> 0x10000 \<Longrightarrow> n \<le> 0x1000 \<Longrightarrow> ldd_pcie_dma_ok s a (of_nat n)"
  by (rule low_dma_ok) (simp add: word_le_nat_alt)

lemma list_4: "length xs = 4 \<Longrightarrow> \<exists>a b c d. xs = [a, b, c, d]"
  by (auto simp: numeral_eq_Suc length_Suc_conv)

lemma demo_table:
  assumes "sg_pin demo_sg s (u - offset_in_page u) np w = Inr pinned" "pages_of u c \<le> length pinned"
    and "sg_table demo_sg s (take (pages_of u c) pinned) (offset_in_page u) c max_seg = Inr sgt" and "sg_map demo_sg s sgt dir = (Inr segs, s1)"
  shows "u = 0xffe \<and> c = 4 \<and> segs = [(0x2ffe, 2), (0x5000, 2)] \<and> s1 = s"
proof -
  have t: "take (pages_of u c) pinned = [0, 1]" "offset_in_page u = 0xffe" "c = 4" "segs = [(0x2ffe, 2), (0x5000, 2)]" "s1 = s"
    using assms(3,4) by (auto simp: demo_sg_def split: if_splits)
  have "u - offset_in_page u = u div PAGE_SIZE * PAGE_SIZE" by (simp add: offset_in_page_def minus_mod_eq_div_mult)
  then have pinned: "pinned = map (\<lambda>i. u div PAGE_SIZE + i) [0..<np]" using assms(1) by (simp add: demo_sg_def PAGE_SIZE_def)
  have k: "0 < pages_of u c" "pinned \<noteq> []" using t(1) by (cases "pages_of u c = 0"; auto)+
  have "hd pinned = 0" using hd_take [OF k(1), of pinned] t(1) by simp
  moreover have "0 < np" using k(2) pinned by (cases np) simp_all
  then have "hd pinned = u div PAGE_SIZE" unfolding pinned by (simp add: upt_conv_Cons)
  ultimately have "u div PAGE_SIZE = 0" by simp
  then show ?thesis using t by (simp add: offset_in_page_def PAGE_SIZE_def)
qed

lemma demo_sg_ok:
  "sg_map_ok demo_sg (pcie_ready ram_bus maxl maxd) ps_bar2 (pcie_dread ram_bus) (pcie_dwrite ram_bus) demo_user max_seg 0x1000"
proof -
  let ?segs = "[(0x2ffe, 2), (0x5000, 2)] :: (64 word \<times> 32 word) list"
  let ?t = "concat (map enc_desc (sg_descs ?segs))"
  have lt: "length ?t = 32" by (simp add: sg_descs_def sizeof_desc_def)
  have segs: "segs_ok max_seg 0xffe 4 ?segs" if "PAGE_SIZE \<le> max_seg"
    using that by (simp add: segs_ok_def pages_of_def div_round_up_def offset_in_page_def PAGE_SIZE_def)
  show ?thesis
    unfolding sg_map_ok_def Let_def
  proof (intro allI impI)
    fix s :: "(64 word \<Rightarrow> byte) ldd_pcie" and u np pinned c dir sgt segs s1
    assume big: "PAGE_SIZE \<le> max_seg" and rdy: "pcie_ready ram_bus maxl maxd s"
      and pin: "sg_pin demo_sg s (u - offset_in_page u) np (dir = DMA_FROM_DEVICE) = Inr pinned" "pages_of u c \<le> length pinned"
      and tbl: "sg_table demo_sg s (take (pages_of u c) pinned) (offset_in_page u) c max_seg = Inr sgt"
      and m: "sg_map demo_sg s sgt dir = (Inr segs, s1)"
    have e: "u = 0xffe" "c = 4" "segs = ?segs" "s1 = s" using demo_table [OF pin tbl m] by (simp_all only: simp_thms)
    let ?s2 = "s\<lparr>ps_guest := snd (bus_write ram_bus (ps_guest s) 0x1000 ?t)\<rparr>"
    have s2: "sg_store demo_sg s1 0x1000 (concat (map enc_desc (sg_descs segs))) = ?s2" by (simp add: e demo_sg_def)
    have tab: "pcie_dread ram_bus ?s2 0x1000 (length (sg_descs segs) * sizeof_desc) = Some (concat (map enc_desc (sg_descs segs)))"
      using ram_bus_read_write [of ?t "ps_guest s" "0x1000"] demo_dma_ok_low [of "0x1000" 32 ?s2] lt
      unfolding pcie_dread_def by (simp add: e sizeof_desc_def del: ram_bus_sel)
    have kept: "ps_guest ?s2 a = ps_guest s a" if "a \<in> {0x2ffe, 0x2fff, 0x5000, 0x5001}" for a
      using that lt by auto
    have rd: "pcie_dread ram_bus t a 2 = Some [ps_guest t a, ps_guest t (a + 1)]" if "a \<in> {0x2ffe, 0x5000}" for t a
      using that demo_dma_ok_low [of a 2 t] by (auto simp: pcie_dread_def upt_2)
    have wr: "\<exists>t. dscatter (pcie_dwrite ram_bus) (sg_descs ?segs) data ?s2 = Some t \<and>
        (\<forall>s3. pcie_dread ram_bus s3 = pcie_dread ram_bus t \<longrightarrow> demo_user (sg_unmap demo_sg s3 sgt dir) 0xffe 4 = data)"
      if "length data = 4" for data
    proof -
      have "\<exists>p q r w. data = [p, q, r, w]" by (rule list_4 [OF that])
      then obtain p q r w where data: "data = [p, q, r, w]" by blast
      let ?g = "snd (bus_write ram_bus (snd (bus_write ram_bus (ps_guest ?s2) 0x2ffe [p, q])) 0x5000 [r, w])"
      let ?t = "s\<lparr>ps_guest := ?g\<rparr>"
      have d: "pcie_dwrite ram_bus u a [x, y] = Some (u\<lparr>ps_guest := snd (bus_write ram_bus (ps_guest u) a [x, y])\<rparr>)"
        if "a \<in> {0x2ffe, 0x5000}" for u :: "(64 word \<Rightarrow> byte) ldd_pcie" and a x y
        using that demo_dma_ok_low [of a 2 u] by (auto simp: pcie_dwrite_def)
      have sc: "dscatter (pcie_dwrite ram_bus) (sg_descs ?segs) data ?s2 = Some ?t"
        using d by (simp add: data sg_descs_def del: ram_bus_sel)
      have g: "?g 0x2ffe = p" "?g 0x2fff = q" "?g 0x5000 = r" "?g 0x5001 = w" by simp_all
      have "demo_user (sg_unmap demo_sg s3 sgt dir) 0xffe 4 = data"
        if "pcie_dread ram_bus s3 = pcie_dread ram_bus ?t" for s3
      proof -
        have "[ps_guest s3 a, ps_guest s3 (a + 1)] = [ps_guest ?t a, ps_guest ?t (a + 1)]"
          if "a \<in> {0x2ffe, 0x5000}" for a
          using rd [OF that, of s3] rd [OF that, of ?t] \<open>pcie_dread ram_bus s3 = pcie_dread ram_bus ?t\<close> by simp
        from this [of "0x2ffe"] this [of "0x5000"] g show ?thesis
          by (simp add: demo_sg_def demo_user_4 data del: ram_bus_sel)
      qed
      then show ?thesis using sc by blast
    qed
    have gat: "(\<forall>d \<in> set (sg_descs ?segs). pcie_dread ram_bus ?s2 (d_addr d) (unat (d_len d)) \<noteq> None) \<and>
        dgather (pcie_dread ram_bus) (sg_descs ?segs) ?s2 = demo_user s 0xffe 4"
      using rd [of _ ?s2] kept by (simp add: sg_descs_def dgather_def demo_user_4 del: ram_bus_sel)
    show "segs_ok max_seg u c segs \<and> pcie_ready ram_bus maxl maxd (sg_store demo_sg s1 0x1000 (concat (map enc_desc (sg_descs segs)))) \<and>
        ps_bar2 (sg_store demo_sg s1 0x1000 (concat (map enc_desc (sg_descs segs)))) = ps_bar2 s \<and>
        pcie_dread ram_bus (sg_store demo_sg s1 0x1000 (concat (map enc_desc (sg_descs segs)))) 0x1000
          (length (sg_descs segs) * sizeof_desc) = Some (concat (map enc_desc (sg_descs segs))) \<and>
        (if dir = DMA_TO_DEVICE
         then (\<forall>d \<in> set (sg_descs segs). pcie_dread ram_bus (sg_store demo_sg s1 0x1000 (concat (map enc_desc (sg_descs segs))))
             (d_addr d) (unat (d_len d)) \<noteq> None) \<and>
           dgather (pcie_dread ram_bus) (sg_descs segs) (sg_store demo_sg s1 0x1000 (concat (map enc_desc (sg_descs segs)))) = demo_user s u c
         else \<forall>data. length data = c \<longrightarrow> (\<exists>t. dscatter (pcie_dwrite ram_bus) (sg_descs segs) data
             (sg_store demo_sg s1 0x1000 (concat (map enc_desc (sg_descs segs)))) = Some t \<and>
             (\<forall>s3. pcie_dread ram_bus s3 = pcie_dread ram_bus t \<longrightarrow> demo_user (sg_unmap demo_sg s3 sgt dir) u c = data)))"
      unfolding s2 using tab segs [OF big] rdy wr gat by (simp add: e del: ram_bus_sel)
  qed
qed

subsection \<open>Properties\<close>

lemma demo_sg_unmap_ok: "sg_unmap_ok demo_sg (pcie_ready ram_bus maxl maxd) ps_bar2"
  by (simp add: sg_unmap_ok_def demo_sg_def)

lemma demo_sg_ready: "pcie_ready ram_bus 4096 2 demo_ready"
  using demo_ready_ok by (simp add: pcie_ready_def demo_ready_def demo_pcie_def ldd_pcie_properties_def)

lemma demo_sg_request: "sg_request demo_sg demo_dsg demo_ready 0xffe 4 16 dir 4 ([0, 1], 0xffe, 4) [(0x2ffe, 2), (0x5000, 2)] demo_ready"
  by (simp add: upt_2 sg_request_def sg_count_def demo_sg_def demo_dsg_def pages_of_def div_round_up_def offset_in_page_def
      PAGE_SIZE_def LDD_MEM_SIZE_def)

text \<open>
  C11: Writing by scatter-gather. If pinning, building and mapping the list succeed and the device
  completes in time, a write moves exactly the first \<open>n\<close> bytes of the caller's buffer, however its
  pages are scattered, to the on-board memory at the file position, advances the position by
  \<open>n\<close>, releases pages, list and mapping, and leaves the device ready; \<open>n\<close> is all of the request
  that fits, or what the pinned pages hold.
\<close>

theorem dma_sg_write_gathers:
  fixes s :: "'g ldd_pcie"
  assumes "pcie_ready B maxl maxd s" and "ds_desc_bus dsg AND 15 = 0" and "ds_max_desc dsg \<le> maxd"
    and "PAGE_SIZE \<le> ds_max_seg dsg" and "ds_max_seg dsg \<le> maxl"
    and "sg_map_ok A (pcie_ready B maxl maxd) ps_bar2 (pcie_dread B) (pcie_dwrite B) user (ds_max_seg dsg) (ds_desc_bus dsg)"
    and "sg_unmap_ok A (pcie_ready B maxl maxd) ps_bar2"
    and "sg_request A dsg s ubuf count pos DMA_TO_DEVICE n sgt segs s1"
    and "dma_sg_write (pcie_hw B now) A InTime x False dsg s ubuf count pos = (r, dsg', s', pos', cs)"
  shows "r = Inr n \<and> pos' = pos + n \<and> ps_bar2 s' = mem_put pos (user s ubuf n) (ps_bar2 s) \<and>
    pcie_ready B maxl maxd s' \<and> held cs [] = Some []"
  by (rule pcie_dma.sg_write_request [OF assms(1,6,7,2,3,4,5,8) assms(9) [unfolded dma_sg_write_def]])

theorem dma_sg_write_gathers_witness:
  "fst (dma_sg_write (pcie_hw ram_bus 0) demo_sg InTime 0 False demo_dsg demo_ready 0xffe 4 16) = Inr 4"
proof -
  obtain r dsg' s' pos' cs where w:
    "dma_sg_write (pcie_hw ram_bus 0) demo_sg InTime 0 False demo_dsg demo_ready 0xffe 4 16 = (r, dsg', s', pos', cs)"
    using prod_cases5 by blast
  have ok: "sg_map_ok demo_sg (pcie_ready ram_bus 4096 2) ps_bar2 (pcie_dread ram_bus) (pcie_dwrite ram_bus) demo_user (ds_max_seg demo_dsg) (ds_desc_bus demo_dsg)"
    using demo_sg_ok by (simp add: demo_dsg_def)
  have "ds_desc_bus demo_dsg AND 15 = 0" "ds_max_desc demo_dsg \<le> 2" "PAGE_SIZE \<le> ds_max_seg demo_dsg" "ds_max_seg demo_dsg \<le> 4096"
    by (simp_all add: demo_dsg_def PAGE_SIZE_def)
  then show ?thesis
    using dma_sg_write_gathers [OF demo_sg_ready _ _ _ _ ok demo_sg_unmap_ok demo_sg_request w] w by simp
qed

text \<open>
  C12: Reading by scatter-gather. Under the same conditions a read leaves the first \<open>n\<close> bytes of
  the caller's buffer holding the on-board memory from the file position on, each byte XORed
  with the low byte of the module parameter, and does not change the on-board memory.
\<close>

theorem dma_sg_read_scatters:
  fixes s :: "'g ldd_pcie"
  assumes "pcie_ready B maxl maxd s" and "ds_desc_bus dsg AND 15 = 0" and "ds_max_desc dsg \<le> maxd"
    and "PAGE_SIZE \<le> ds_max_seg dsg" and "ds_max_seg dsg \<le> maxl"
    and "sg_map_ok A (pcie_ready B maxl maxd) ps_bar2 (pcie_dread B) (pcie_dwrite B) user (ds_max_seg dsg) (ds_desc_bus dsg)"
    and "sg_unmap_ok A (pcie_ready B maxl maxd) ps_bar2"
    and "sg_request A dsg s ubuf count pos DMA_FROM_DEVICE n sgt segs s1"
    and "dma_sg_read (pcie_hw B now) A InTime x False dsg s ubuf count pos = (r, dsg', s', pos', cs)"
  shows "r = Inr n \<and> pos' = pos + n \<and> user s' ubuf n = xored (x AND 0xff) (mem_get pos n (ps_bar2 s)) \<and>
    ps_bar2 s' = ps_bar2 s \<and> pcie_ready B maxl maxd s' \<and> held cs [] = Some []"
  by (rule pcie_dma.sg_read_request [OF assms(1,6,7,2,3,4,5,8) assms(9) [unfolded dma_sg_read_def]])

theorem dma_sg_read_scatters_witness:
  "demo_user (fst (snd (snd (dma_sg_read (pcie_hw ram_bus 0) demo_sg InTime 0x1aa False demo_dsg demo_ready 0xffe 4 16))))
     0xffe 4 = [0xaa, 0xaa, 0xaa, 0xaa]"
proof -
  obtain r dsg' s' pos' cs where w:
    "dma_sg_read (pcie_hw ram_bus 0) demo_sg InTime 0x1aa False demo_dsg demo_ready 0xffe 4 16 = (r, dsg', s', pos', cs)"
    using prod_cases5 by blast
  have ok: "sg_map_ok demo_sg (pcie_ready ram_bus 4096 2) ps_bar2 (pcie_dread ram_bus) (pcie_dwrite ram_bus) demo_user (ds_max_seg demo_dsg) (ds_desc_bus demo_dsg)"
    using demo_sg_ok by (simp add: demo_dsg_def)
  have d: "ds_desc_bus demo_dsg AND 15 = 0" "ds_max_desc demo_dsg \<le> 2" "PAGE_SIZE \<le> ds_max_seg demo_dsg" "ds_max_seg demo_dsg \<le> 4096"
    by (simp_all add: demo_dsg_def PAGE_SIZE_def)
  have "replicate 4 (0 :: byte) = [0, 0, 0, 0]" by (simp add: numeral_eq_Suc)
  then have "mem_get 16 4 (ps_bar2 demo_ready) = [0, 0, 0, 0]"
    by (simp add: demo_ready_def demo_pcie_def mem_get_def LDD_MEM_SIZE_def)
  moreover have "demo_user s' 0xffe 4 = xored (0x1aa AND 0xff) (mem_get 16 4 (ps_bar2 demo_ready))"
    using dma_sg_read_scatters [OF demo_sg_ready d ok demo_sg_unmap_ok demo_sg_request w] by simp
  ultimately show ?thesis by (simp add: w xored_def)
qed

text \<open>
  No call leaks or overruns. Whatever the kernel answers and whenever the device completes,
  pages, list and mapping are released in reverse order before a read or write returns, and no
  more pages are asked for than the page array and the descriptor table have room for.
\<close>

lemma dma_sg_rw_releases:
  "case dma_sg_rw H A arr x intr dsg s ubuf count pos dir of
     (r, dsg', s', pos', cs) \<Rightarrow> held cs [] = Some [] \<and>
       list_all (\<lambda>c. case c of Acq (SgPages n) \<Rightarrow> n \<le> ds_max_desc dsg | _ \<Rightarrow> True) cs"
proof -
  let ?c = "sg_count dsg ubuf count pos"
  have fit: "0 < ?c \<Longrightarrow> pages_of ubuf ?c \<le> ds_max_desc dsg" by (rule pages_fit) (simp_all add: sg_count_def)
  obtain r dsg' s' cs where x: "dma_sg_xfer H A arr x dsg s ubuf ?c pos dir = (r, dsg', s', cs)" using prod_cases4 by blast
  have cs: "held cs [] = Some []"
      "0 < ?c \<Longrightarrow> list_all (\<lambda>c. case c of Acq (SgPages n) \<Rightarrow> n \<le> ds_max_desc dsg | _ \<Rightarrow> True) cs"
    using x fit unfolding dma_sg_xfer_def Let_def pages_of_def [symmetric]
    by (auto split: sum.splits if_splits prod.splits)
  show ?thesis
    using cs x unfolding dma_sg_rw_def Let_def sg_count_def [symmetric] by (simp split: sum.split)
qed

text \<open>
  Probing is all or nothing here too. Whichever call fails, or if the device is not an
  ldd-pcie or takes segments smaller than a page, everything acquired is released, the page
  array together with the structure; removing a probed device and closing its files releases
  all of it.
\<close>

lemma dma_sg_probe_all_or_nothing:
  "case dma_sg_probe H K F devbus s of
     (Inl e, s', cs) \<Rightarrow> held_any cs [] = Some []
   | (Inr dsg, s', cs) \<Rightarrow> held_any (cs @ snd (snd (dma_sg_remove H K dsg s'))) [] = Some [] \<and> \<not> ds_removed dsg"
  by (simp add: dma_sg_probe_def life_defs dma_sg_remove_def dma_sg_dev_release_def if_err_def Let_def split: option.split)

text \<open>A device that was probed has segments of a page at least, and of what it announces at most.\<close>

lemma dma_sg_probe_max_seg:
  assumes "dma_sg_probe H K F devbus s = (Inr dsg, s', cs)"
  shows "PAGE_SIZE \<le> ds_max_seg dsg" "ds_max_seg dsg = unat (ioread32 H s LDD_REG_MAX_SEG)" "ds_max_desc dsg = unat (ioread32 H s LDD_REG_MAX_DESC)"
  using assms by (auto simp: dma_sg_probe_def life_defs if_err_def Let_def split: option.splits if_splits)

lemma dma_sg_module_clean: "clean sg_m_init sg_m_exit"
  by (simp add: clean_def sg_m_init_def sg_m_exit_def if_err_def split: option.split)

end
