(* ===== verification/Msi.thy ===== *)
theory Msi
  imports Dma
begin

unbundle bit_operations_syntax

section \<open>26_msi_interrupt: the interrupts of ldd-pcie\<close>

text \<open>
  \<open>src/examples/26_msi_interrupt/main.c\<close>, on the device of theory \<open>LDD_PCIE\<close>. The driver
  counts the device's three events. With MSI-X each has a vector and a handler call of its own;
  with MSI or INTx one handler reads which are pending, and another event may happen between its
  read and its write. The registers are accessed through \<open>hw\<close>, as in the DMA drivers;
  \<open>pci_alloc_irq_vectors\<close> and the other calls of the PCI core are parameters.
\<close>

definition LDD_NR_EVENTS :: nat where "LDD_NR_EVENTS = 3"

record msi_dev =
  mi_nvec :: int
  mi_count :: "nat \<Rightarrow> 32 word"
  mi_last_status :: "32 word"

definition count_events :: "32 word \<Rightarrow> msi_dev \<Rightarrow> msi_dev" where
  "count_events status msi = msi\<lparr>
     mi_count := (\<lambda>i. if i < LDD_NR_EVENTS \<and> bit status i then mi_count msi i + 1 else mi_count msi i),
     mi_last_status := status\<rparr>"

definition msi_vec_handler :: "'s hw \<Rightarrow> 32 word \<Rightarrow> msi_dev \<Rightarrow> 's \<Rightarrow> irqreturn \<times> msi_dev \<times> 's" where
  "msi_vec_handler H vbit msi s = (IRQ_HANDLED, count_events vbit msi, iowrite32 H s LDD_REG_INT_STATUS vbit)"

definition msi_handler_read :: "'s hw \<Rightarrow> 's \<Rightarrow> 32 word" where
  "msi_handler_read H s = ioread32 H s LDD_REG_INT_STATUS AND LDD_INT_ALL"

definition msi_handler_ack :: "'s hw \<Rightarrow> 32 word \<Rightarrow> msi_dev \<Rightarrow> 's \<Rightarrow> irqreturn \<times> msi_dev \<times> 's" where
  "msi_handler_ack H status msi s =
     (if status = 0 then (IRQ_NONE, msi, s)
      else (IRQ_HANDLED, count_events status msi, iowrite32 H s LDD_REG_INT_STATUS status))"

definition msi_handler :: "'s hw \<Rightarrow> msi_dev \<Rightarrow> 's \<Rightarrow> irqreturn \<times> msi_dev \<times> 's" where
  "msi_handler H msi s = msi_handler_ack H (msi_handler_read H s) msi s"

definition raise_store :: "'s hw \<Rightarrow> errno + 32 word \<Rightarrow> nat \<Rightarrow> 's \<Rightarrow> nat result \<times> 's" where
  "raise_store H kstr count s =
     (case kstr of
        Inl e \<Rightarrow> (Inl e, s)
      | Inr val \<Rightarrow> if val = 0 \<or> has_flag val (NOT LDD_INT_ALL) then (Inl EINVAL, s)
          else (Inr count, iowrite32 H s LDD_REG_INT_RAISE val))"

definition interrupts_show :: "msi_dev \<Rightarrow> 32 word \<times> 32 word \<times> 32 word" where
  "interrupts_show msi = (mi_count msi 0, mi_count msi 1, mi_count msi 2)"

definition last_status_show :: "msi_dev \<Rightarrow> 32 word" where
  "last_status_show msi = mi_last_status msi"

datatype irq_mode = ModeMsix | ModeMsi | ModeIntx

definition irq_mode :: "bool \<Rightarrow> bool \<Rightarrow> irq_mode" where
  "irq_mode msix_enabled msi_enabled = (if msix_enabled then ModeMsix else if msi_enabled then ModeMsi else ModeIntx)"

definition mode_show :: "bool \<Rightarrow> bool \<Rightarrow> msi_dev \<Rightarrow> irq_mode \<times> int" where
  "mode_show msix_enabled msi_enabled msi = (irq_mode msix_enabled msi_enabled, mi_nvec msi)"

subsection \<open>Vectors\<close>

definition PCI_IRQ_INTX :: "32 word" where "PCI_IRQ_INTX = 1"
definition PCI_IRQ_MSI :: "32 word" where "PCI_IRQ_MSI = 2"
definition PCI_IRQ_MSIX :: "32 word" where "PCI_IRQ_MSIX = 4"
definition PCI_IRQ_ALL_TYPES :: "32 word" where "PCI_IRQ_ALL_TYPES = 7"

lemmas pci_irq_defs = PCI_IRQ_INTX_def PCI_IRQ_MSI_def PCI_IRQ_MSIX_def PCI_IRQ_ALL_TYPES_def

text \<open>\<open>alloc min max types\<close> is the answer of \<open>pci_alloc_irq_vectors\<close>: the number of vectors, or an error.\<close>

definition alloc_vectors :: "(nat \<Rightarrow> nat \<Rightarrow> 32 word \<Rightarrow> nat result) \<Rightarrow> 32 word \<Rightarrow> nat result" where
  "alloc_vectors alloc types =
     (let rest = alloc 1 1 (types AND NOT PCI_IRQ_MSIX) in
      if has_flag types PCI_IRQ_MSIX then
        let nvec = alloc LDD_NR_EVENTS LDD_NR_EVENTS PCI_IRQ_MSIX in
        if (\<exists>n>0. nvec = Inr n) \<or> types = PCI_IRQ_MSIX then nvec else rest
      else rest)"

definition msi_m_init :: "string \<Rightarrow> errno option \<Rightarrow> 32 word \<times> errno option" where
  "msi_m_init mode register =
     (if mode = ''msix'' then (PCI_IRQ_MSIX, register)
      else if mode = ''msi'' then (PCI_IRQ_MSI, register)
      else if mode = ''intx'' then (PCI_IRQ_INTX, register)
      else if mode = ''all'' then (PCI_IRQ_ALL_TYPES, register)
      else (0, Some EINVAL))"

subsection \<open>Probing and removing\<close>

datatype msi_call = MsiStruct | MsiEnable | MsiRegions | MsiIomap | MsiMaster | MsiVectors | MsiIrq nat

fun free_irqs :: "nat \<Rightarrow> msi_call call list" where
  "free_irqs 0 = []"
| "free_irqs (Suc n) = Rel (MsiIrq n) # free_irqs n"

definition merr_free :: "msi_call call list" where [life_defs]: "merr_free = [Rel MsiStruct]"
definition merr_disable :: "msi_call call list" where [life_defs]: "merr_disable = Rel MsiEnable # merr_free"
definition merr_regions :: "msi_call call list" where [life_defs]: "merr_regions = Rel MsiRegions # merr_disable"
definition merr_unmap :: "msi_call call list" where [life_defs]: "merr_unmap = Rel MsiIomap # merr_regions"
definition merr_master :: "msi_call call list" where [life_defs]: "merr_master = Rel MsiMaster # merr_unmap"
definition merr_vectors :: "msi_call call list" where [life_defs]: "merr_vectors = Rel MsiVectors # merr_master"

fun request_irqs :: "msi_call answers \<Rightarrow> nat \<Rightarrow> nat \<Rightarrow> errno option \<times> msi_call call list" where
  "request_irqs F i 0 = (None, [])"
| "request_irqs F i (Suc k) =
     if_err (F (MsiIrq i)) (\<lambda>e. (Some e, free_irqs i))
       (case request_irqs F (i + 1) k of (r, cs) \<Rightarrow> (r, Acq (MsiIrq i) # cs))"

definition msi_probe ::
  "'s hw \<Rightarrow> 's pci_core \<Rightarrow> msi_call answers \<Rightarrow> (nat \<Rightarrow> nat \<Rightarrow> 32 word \<Rightarrow> nat result) \<Rightarrow> 32 word \<Rightarrow> 's \<Rightarrow>
   msi_dev result \<times> 's \<times> msi_call call list" where
  "msi_probe H K F alloc irq_types s =
     (if_err (F MsiStruct) (\<lambda>_. (Inl ENOMEM, s, [])) (
      let cs = [Acq MsiStruct] in
      if_err (F MsiEnable) (\<lambda>e. (Inl e, s, cs @ merr_free)) (
      let cs = cs @ [Acq MsiEnable] in
      if_err (F MsiRegions) (\<lambda>e. (Inl e, s, cs @ merr_disable)) (
      let cs = cs @ [Acq MsiRegions] in
      if_err (F MsiIomap) (\<lambda>_. (Inl ENOMEM, s, cs @ merr_regions)) (
      let cs = cs @ [Acq MsiIomap] in
      if ioread32 H s LDD_REG_ID \<noteq> ucast LDD_ID then (Inl ENODEV, s, cs @ merr_unmap)
      else
      let cs = cs @ [Acq MsiMaster]; s = pci_set_master K s in
      case alloc_vectors alloc irq_types of
        Inl e \<Rightarrow> (Inl e, pci_clear_master K s, cs @ merr_master)
      | Inr nvec \<Rightarrow>
          let cs = cs @ [Acq MsiVectors];
              s = iowrite32 H (iowrite32 H s LDD_REG_INT_MASK 0) LDD_REG_INT_STATUS LDD_INT_ALL
          in case request_irqs F 0 nvec of
               (Some e, cs') \<Rightarrow> (Inl e, pci_clear_master K (pci_free_irq_vectors K s), cs @ cs' @ merr_vectors)
             | (None, cs') \<Rightarrow> (Inr \<lparr>mi_nvec = int nvec, mi_count = (\<lambda>_. 0), mi_last_status = 0\<rparr>,
                 iowrite32 H s LDD_REG_INT_MASK LDD_INT_ALL, cs @ cs'))))))"

definition msi_remove :: "'s hw \<Rightarrow> 's pci_core \<Rightarrow> nat \<Rightarrow> 's \<Rightarrow> 's \<times> msi_call call list" where
  "msi_remove H K nvec s =
     (pci_clear_master K (pci_free_irq_vectors K (iowrite32 H s LDD_REG_INT_MASK 0)), free_irqs nvec @ merr_vectors)"

subsection \<open>Driver and device together\<close>

text \<open>
  The device, the number of its messages delivered so far, the driver, the status a handler has
  read but not yet written back, and for each event how often it has become pending.
\<close>

record 'g msi_sys =
  y_ps :: "'g ldd_pcie"
  y_done :: nat
  y_msi :: msi_dev
  y_read :: "32 word option"
  y_raised :: "nat \<Rightarrow> nat"

inductive msi_reach :: "'g dma_bus \<Rightarrow> bool \<Rightarrow> bool \<Rightarrow> 'g msi_sys \<Rightarrow> bool" for B msix msi where
  start: "pcie_inv ps \<Longrightarrow> r_int_status (ps_regs ps) = 0 \<Longrightarrow> r_int_mask (ps_regs ps) = LDD_INT_ALL \<Longrightarrow> ps_msgs ps = [] \<Longrightarrow>
    ps_msix ps = msix \<Longrightarrow> ps_msi ps = msi \<Longrightarrow> \<not> ps_intx ps \<Longrightarrow> mi_count m = (\<lambda>_. 0) \<Longrightarrow>
    msi_reach B msix msi \<lparr>y_ps = ps, y_done = 0, y_msi = m, y_read = None, y_raised = (\<lambda>_. 0)\<rparr>"
| raised: "msi_reach B msix msi y \<Longrightarrow> raise_store (pcie_hw B now) (Inr val) n (y_ps y) = (Inr n, ps') \<Longrightarrow>
    msi_reach B msix msi (y\<lparr>y_ps := ps',
      y_raised := (\<lambda>i. if bit (val AND NOT (r_int_status (ps_regs (y_ps y)))) i then y_raised y i + 1 else y_raised y i)\<rparr>)"
| vector: "msi_reach B msix msi y \<Longrightarrow> y_done y < length (ps_msgs (y_ps y)) \<Longrightarrow> ps_msgs (y_ps y) ! y_done y = MsixNotify i \<Longrightarrow>
    msi_vec_handler (pcie_hw B now) (push_bit i 1) (y_msi y) (y_ps y) = (r, m, ps') \<Longrightarrow>
    msi_reach B msix msi (y\<lparr>y_ps := ps', y_msi := m, y_done := y_done y + 1\<rparr>)"
| message: "msi_reach B msix msi y \<Longrightarrow> y_done y < length (ps_msgs (y_ps y)) \<Longrightarrow> ps_msgs (y_ps y) ! y_done y = MsiNotify i \<Longrightarrow>
    y_read y = None \<Longrightarrow>
    msi_reach B msix msi (y\<lparr>y_read := Some (msi_handler_read (pcie_hw B now) (y_ps y)), y_done := y_done y + 1\<rparr>)"
| line: "msi_reach B msix msi y \<Longrightarrow> ps_intx (y_ps y) \<Longrightarrow> y_read y = None \<Longrightarrow>
    msi_reach B msix msi (y\<lparr>y_read := Some (msi_handler_read (pcie_hw B now) (y_ps y))\<rparr>)"
| acked: "msi_reach B msix msi y \<Longrightarrow> y_read y = Some st \<Longrightarrow> msi_handler_ack (pcie_hw B now) st (y_msi y) (y_ps y) = (r, m, ps') \<Longrightarrow>
    msi_reach B msix msi (y\<lparr>y_ps := ps', y_msi := m, y_read := None\<rparr>)"

text \<open>The events of a status word lie in the three low bits.\<close>

definition events_of :: "'g ldd_pcie \<Rightarrow> 32 word" where
  "events_of ps = r_int_status (ps_regs ps)"

definition regs_ready :: "'g ldd_pcie \<Rightarrow> bool" where
  "regs_ready ps \<longleftrightarrow> r_int_mask (ps_regs ps) = LDD_INT_ALL \<and> events_of ps AND LDD_INT_ALL = events_of ps \<and> r_irq_sent (ps_regs ps) = events_of ps"

lemma bit_7: "bit (7 :: 32 word) i \<longleftrightarrow> i < 3"
  using bit_mask_iff [of 3 i, where 'a = "32 word"] by (auto simp: mask_eq_exp_minus_1 min_def)

lemma events_low: "x AND (7 :: 32 word) = x \<Longrightarrow> bit x i \<Longrightarrow> i < 3"
  by (metis bit_7 bit_and_iff)

lemma set_status:
  fixes ps :: "'g ldd_pcie"
  assumes "regs_ready ps" and "S AND LDD_INT_ALL = S"
  defines "t \<equiv> ldd_pcie_update_irq (upd_regs (\<lambda>r. r\<lparr>r_int_status := S\<rparr>) ps)"
  shows "events_of t = S" "regs_ready t" "ps_msix t = ps_msix ps" "ps_msi t = ps_msi ps"
    "ps_msgs t = ps_msgs ps @ (if ps_msix ps then map MsixNotify (filter (bit (S AND NOT (events_of ps))) [0..<3])
       else if ps_msi ps \<and> S AND NOT (events_of ps) \<noteq> 0 then [MsiNotify 0] else [])"
    "ps_intx t = (\<not> ps_msix ps \<and> \<not> ps_msi ps \<and> S \<noteq> 0)"
  using assms(1,2) by (simp_all add: t_def events_of_def regs_ready_def pcie_pending_def ldd_pcie_update_irq_def Let_def LDD_MSIX_VECTORS_def)

lemma raise_write:
  assumes "regs_ready ps" and "val AND LDD_INT_ALL = val"
  shows "iowrite32 (pcie_hw B now) ps LDD_REG_INT_RAISE val =
    ldd_pcie_update_irq (upd_regs (\<lambda>r. r\<lparr>r_int_status := events_of ps OR val\<rparr>) ps)"
proof -
  have "ucast (ucast val :: 64 word) AND LDD_INT_ALL = val" using assms(2) by simp
  then show ?thesis
    by (simp add: pcie_hw_def ldd_pcie_bar0_write_def ldd_reg_consts Let_def events_of_def)
qed

lemma ucast_not_ucast: "ucast (NOT (ucast v :: 64 word)) = NOT (v :: 32 word)"
  by (rule bit_word_eqI) (simp add: bit_simps)

lemma ack_write:
  "iowrite32 (pcie_hw B now) ps LDD_REG_INT_STATUS v =
    ldd_pcie_update_irq (upd_regs (\<lambda>r. r\<lparr>r_int_status := events_of ps AND NOT v\<rparr>) ps)"
  by (simp add: pcie_hw_def ldd_pcie_bar0_write_def ldd_reg_consts Let_def events_of_def ucast_not_ucast)

lemma read_status: "regs_ready ps \<Longrightarrow> msi_handler_read (pcie_hw B now) ps = events_of ps"
  by (simp add: msi_handler_read_def pcie_hw_def ldd_pcie_bar0_read_def ldd_reg_consts events_of_def regs_ready_def)

definition pendings :: "'g msi_sys \<Rightarrow> irq_msg list" where
  "pendings y = drop (y_done y) (ps_msgs (y_ps y))"

definition counts_ok :: "'g msi_sys \<Rightarrow> bool" where
  "counts_ok y \<longleftrightarrow> (\<forall>i. mi_count (y_msi y) i + of_bool (bit (events_of (y_ps y)) i) = of_nat (y_raised y i))"

definition read_ok :: "'g msi_sys \<Rightarrow> bool" where
  "read_ok y \<longleftrightarrow> (\<forall>st k. y_read y = Some st \<longrightarrow> bit st k \<longrightarrow> bit (events_of (y_ps y)) k)"

text \<open>What is still under way for each pending event: its message, one for all, or the line.\<close>

definition signals_ok :: "bool \<Rightarrow> bool \<Rightarrow> 'g msi_sys \<Rightarrow> bool" where
  "signals_ok msix msi y \<longleftrightarrow>
     (if msix then y_read y = None \<and> \<not> ps_intx (y_ps y) \<and> (\<forall>m \<in> set (pendings y). \<exists>i<3. m = MsixNotify i) \<and>
        (\<forall>i. count_list (pendings y) (MsixNotify i) = of_bool (bit (events_of (y_ps y)) i))
      else if msi then \<not> ps_intx (y_ps y) \<and> (\<forall>m \<in> set (pendings y). m = MsiNotify 0) \<and>
        (events_of (y_ps y) AND NOT (case y_read y of Some st \<Rightarrow> st | None \<Rightarrow> 0) \<noteq> 0 \<longrightarrow> pendings y \<noteq> [])
      else pendings y = [] \<and> ps_intx (y_ps y) = (events_of (y_ps y) \<noteq> 0))"

definition msi_inv :: "bool \<Rightarrow> bool \<Rightarrow> 'g msi_sys \<Rightarrow> bool" where
  "msi_inv msix msi y \<longleftrightarrow> regs_ready (y_ps y) \<and> ps_msix (y_ps y) = msix \<and> ps_msi (y_ps y) = msi \<and>
     y_done y \<le> length (ps_msgs (y_ps y)) \<and> counts_ok y \<and> read_ok y \<and> signals_ok msix msi y"

lemma count_list_vectors:
  "count_list (map MsixNotify (filter P [0..<3])) (MsixNotify i) = of_bool (i < 3 \<and> P i)"
proof -
  have "[0..<3] = [0, 1, 2 :: nat]" by (simp add: upt_rec)
  then show ?thesis by auto
qed

lemma raise_store_ok:
  assumes "raise_store H (Inr val) n s = (Inr n', s')"
  shows "val AND LDD_INT_ALL = val" "s' = iowrite32 H s LDD_REG_INT_RAISE val"
proof -
  have z: "val AND NOT LDD_INT_ALL = 0" using assms by (auto simp: raise_store_def has_flag_def split: if_splits)
  show "val AND LDD_INT_ALL = val"
  proof (rule bit_word_eqI)
    fix i
    assume "i < LENGTH(32)"
    then show "bit (val AND LDD_INT_ALL) i = bit val i"
      using arg_cong [OF z, of "\<lambda>w. bit w i"] by (auto simp: bit_simps)
  qed
  show "s' = iowrite32 H s LDD_REG_INT_RAISE val" using assms by (auto simp: raise_store_def split: if_splits)
qed

lemma msi_inv_raise:
  assumes i: "msi_inv msix msi y" and r: "raise_store (pcie_hw B now) (Inr val) n (y_ps y) = (Inr n, ps')"
  shows "msi_inv msix msi (y\<lparr>y_ps := ps',
      y_raised := (\<lambda>i. if bit (val AND NOT (r_int_status (ps_regs (y_ps y)))) i then y_raised y i + 1 else y_raised y i)\<rparr>)"
    (is "msi_inv msix msi ?y")
proof -
  define E where "E = events_of (y_ps y)"
  define S where "S = E OR val"
  have rdy: "regs_ready (y_ps y)" and E7: "E AND LDD_INT_ALL = E" using i by (simp_all add: msi_inv_def regs_ready_def E_def)
  note v = raise_store_ok [OF r]
  have S7: "S AND LDD_INT_ALL = S" using v(1) E7 by (simp add: S_def bit.conj_disj_distrib2)
  have ps: "ps' = ldd_pcie_update_irq (upd_regs (\<lambda>r. r\<lparr>r_int_status := S\<rparr>) (y_ps y))"
    unfolding v(2) raise_write [OF rdy v(1)] S_def E_def ..
  note t = set_status [OF rdy S7, folded ps E_def]
  have N: "bit (S AND NOT E) k \<longleftrightarrow> bit val k \<and> \<not> bit E k" for k
    by (auto simp: S_def bit_and_iff bit_or_iff bit_not_iff dest: bit_imp_le_length)
  have Sk: "bit S k \<longleftrightarrow> bit E k \<or> bit val k" for k by (simp add: S_def bit_or_iff)
  have dn: "y_done y \<le> length (ps_msgs (y_ps y))" and fl: "ps_msix (y_ps y) = msix" "ps_msi (y_ps y) = msi"
    using i by (simp_all add: msi_inv_def)
  have pend: "pendings ?y = pendings y @ (if msix then map MsixNotify (filter (bit (S AND NOT E)) [0..<3])
       else if msi \<and> S AND NOT E \<noteq> 0 then [MsiNotify 0] else [])"
    using dn by (simp add: pendings_def t(5) fl)
  have c: "counts_ok ?y"
    unfolding counts_ok_def
  proof
    fix k
    have "mi_count (y_msi y) k + of_bool (bit E k) = of_nat (y_raised y k)" using i by (simp add: msi_inv_def counts_ok_def E_def)
    then show "mi_count (y_msi ?y) k + of_bool (bit (events_of (y_ps ?y)) k) = of_nat (y_raised ?y k)"
      using bit_imp_le_length [of val k]
      by (cases "bit E k"; cases "bit val k") (simp_all add: t(1) S_def bit_simps events_of_def [symmetric] E_def [symmetric])
  qed
  have rd: "read_ok ?y"
    using i by (auto simp: read_ok_def msi_inv_def t(1) S_def E_def [symmetric] bit_or_iff)
  have sg: "signals_ok msix msi ?y"
  proof (cases msix)
    case True
    have old: "y_read y = None" "\<forall>m \<in> set (pendings y). \<exists>i<3. m = MsixNotify i"
      "\<And>k. count_list (pendings y) (MsixNotify k) = of_bool (bit E k)"
      using i True by (simp_all add: msi_inv_def signals_ok_def E_def)
    have "count_list (pendings ?y) (MsixNotify k) = of_bool (bit S k)" for k
    proof -
      have "count_list (pendings ?y) (MsixNotify k) = of_bool (bit E k) + of_bool (k < 3 \<and> bit (S AND NOT E) k)"
        using True by (simp add: pend old(3) count_list_vectors)
      also have "\<dots> = of_bool (bit S k)"
        using events_low [of S k] S7 Sk by (auto simp: N INT_ALL_eq)
      finally show ?thesis .
    qed
    then show ?thesis using True old(1,2) by (auto simp: signals_ok_def pend t(1,6) fl)
  next
    case False
    show ?thesis
    proof (cases msi)
      case True
      have old: "\<forall>m \<in> set (pendings y). m = MsiNotify 0"
        "E AND NOT (case y_read y of Some st \<Rightarrow> st | None \<Rightarrow> 0) \<noteq> 0 \<longrightarrow> pendings y \<noteq> []"
        using i False True by (simp_all add: msi_inv_def signals_ok_def E_def)
      have "S = E" if "S AND NOT E = 0"
      proof (rule bit_word_eqI)
        fix k
        assume "k < LENGTH(32)"
        show "bit S k = bit E k" using N [of k] that by (auto simp: S_def bit_or_iff)
      qed
      then show ?thesis using False True old by (auto simp: signals_ok_def pend t(1,6) fl)
    next
      case nomsi: False
      then show ?thesis using False i by (auto simp: signals_ok_def msi_inv_def pend t(1,6) fl)
    qed
  qed
  show ?thesis unfolding msi_inv_def using t(2,3,4) fl dn c rd sg by (simp add: t(5))
qed

text \<open>Clearing bits that are set: no message is sent for it, and the line follows.\<close>

lemma msi_inv_clear:
  assumes i: "msi_inv msix msi y" and v: "\<And>k. bit v k \<Longrightarrow> bit (events_of (y_ps y)) k"
    and ps: "ps' = iowrite32 (pcie_hw B now) (y_ps y) LDD_REG_INT_STATUS v"
  shows "regs_ready ps'" "ps_msix ps' = msix" "ps_msi ps' = msi" "ps_msgs ps' = ps_msgs (y_ps y)"
    "bit (events_of ps') k \<longleftrightarrow> bit (events_of (y_ps y)) k \<and> \<not> bit v k"
    "ps_intx ps' = (\<not> msix \<and> \<not> msi \<and> events_of ps' \<noteq> 0)"
    "mi_count (count_events v (y_msi y)) k + of_bool (bit (events_of ps') k) = of_nat (y_raised y k)"
proof -
  define E where "E = events_of (y_ps y)"
  define S where "S = E AND NOT v"
  have rdy: "regs_ready (y_ps y)" and E7: "E AND LDD_INT_ALL = E" and fl: "ps_msix (y_ps y) = msix" "ps_msi (y_ps y) = msi"
    and c: "mi_count (y_msi y) k + of_bool (bit E k) = of_nat (y_raised y k)" for k
    using i by (simp_all add: msi_inv_def regs_ready_def E_def counts_ok_def)
  have Sk: "bit S k \<longleftrightarrow> bit E k \<and> \<not> bit v k" for k
    by (auto simp: S_def bit_and_iff bit_not_iff dest: bit_imp_le_length)
  have S7: "S AND LDD_INT_ALL = S" unfolding S_def by (metis E7 and.assoc and.commute)
  have p: "ps' = ldd_pcie_update_irq (upd_regs (\<lambda>r. r\<lparr>r_int_status := S\<rparr>) (y_ps y))"
    unfolding ps ack_write S_def E_def ..
  note t = set_status [OF rdy S7, folded p E_def]
  have N: "S AND NOT E = 0" by (rule bit_word_eqI) (auto simp: S_def bit_simps)
  show "regs_ready ps'" "ps_msix ps' = msix" "ps_msi ps' = msi" "ps_msgs ps' = ps_msgs (y_ps y)"
    "ps_intx ps' = (\<not> msix \<and> \<not> msi \<and> events_of ps' \<noteq> 0)"
    using t fl N by simp_all
  show "bit (events_of ps') k \<longleftrightarrow> bit (events_of (y_ps y)) k \<and> \<not> bit v k" by (simp add: t(1) Sk E_def)
  have "k < 3" if "bit v k" using events_low [of E k] E7 v [OF that] by (simp add: INT_ALL_eq E_def)
  then show "mi_count (count_events v (y_msi y)) k + of_bool (bit (events_of ps') k) = of_nat (y_raised y k)"
    using c [of k] v [of k] unfolding t(1) count_events_def LDD_NR_EVENTS_def E_def [symmetric]
    by (cases "bit v k") (simp_all add: Sk)
qed

lemma msi_inv_vector:
  assumes i: "msi_inv msix msi y" and d: "y_done y < length (ps_msgs (y_ps y))" and m: "ps_msgs (y_ps y) ! y_done y = MsixNotify j"
    and h: "msi_vec_handler (pcie_hw B now) (push_bit j 1) (y_msi y) (y_ps y) = (r, m', ps')"
  shows "msi_inv msix msi (y\<lparr>y_ps := ps', y_msi := m', y_done := y_done y + 1\<rparr>)" (is "msi_inv msix msi ?y")
proof -
  have p: "pendings y = MsixNotify j # drop (y_done y + 1) (ps_msgs (y_ps y))"
    using d m by (simp add: pendings_def Cons_nth_drop_Suc [symmetric])
  have x: msix
  proof (rule ccontr)
    assume "\<not> msix"
    then show False using i p by (cases msi) (auto simp: msi_inv_def signals_ok_def)
  qed
  have old: "y_read y = None" "\<forall>m \<in> set (pendings y). \<exists>i<3. m = MsixNotify i"
      "\<And>k. count_list (pendings y) (MsixNotify k) = of_bool (bit (events_of (y_ps y)) k)"
    using i x by (simp_all add: msi_inv_def signals_ok_def)
  have bj: "bit (events_of (y_ps y)) j" using old(3) [of j] p by (cases "bit (events_of (y_ps y)) j") simp_all
  have vb: "bit (push_bit j 1 :: 32 word) k \<longleftrightarrow> k = j" for k
    using bit_imp_le_length [OF bj] by (auto simp: bit_exp_iff)
  have eq: "m' = count_events (push_bit j 1) (y_msi y)" "ps' = iowrite32 (pcie_hw B now) (y_ps y) LDD_REG_INT_STATUS (push_bit j 1)"
    using h by (simp_all add: msi_vec_handler_def)
  note c = msi_inv_clear [OF i _ eq(2)]
  have sub: "\<And>k. bit (push_bit j 1 :: 32 word) k \<Longrightarrow> bit (events_of (y_ps y)) k" using vb bj by simp
  have p': "pendings ?y = drop (y_done y + 1) (ps_msgs (y_ps y))" using c(4) [OF sub] by (simp add: pendings_def)
  have "count_list (pendings ?y) (MsixNotify k) = of_bool (bit (events_of ps') k)" for k
    using old(3) [of k] c(5) [OF sub, of k] vb [of k] bj unfolding p p' by (cases "k = j") simp_all
  moreover have "\<forall>m \<in> set (pendings ?y). \<exists>i<3. m = MsixNotify i" using old(2) unfolding p p' by simp
  ultimately have "signals_ok msix msi ?y" using x old(1) c(6) [OF sub] by (simp add: signals_ok_def)
  moreover have "counts_ok ?y" using c(7) [OF sub] by (simp add: counts_ok_def eq(1))
  moreover have "read_ok ?y" using old(1) by (simp add: read_ok_def)
  ultimately show ?thesis using c(1-4) [OF sub] d by (simp add: msi_inv_def)
qed

lemma msi_inv_ack:
  assumes i: "msi_inv msix msi y" and d: "y_read y = Some st"
    and h: "msi_handler_ack (pcie_hw B now) st (y_msi y) (y_ps y) = (r, m', ps')"
  shows "msi_inv msix msi (y\<lparr>y_ps := ps', y_msi := m', y_read := None\<rparr>)" (is "msi_inv msix msi ?y")
proof (cases "st = 0")
  case True
  then have "m' = y_msi y" "ps' = y_ps y" using h by (simp_all add: msi_handler_ack_def)
  then show ?thesis using i d True by (auto simp: msi_inv_def counts_ok_def read_ok_def signals_ok_def pendings_def)
next
  case False
  have eq: "m' = count_events st (y_msi y)" "ps' = iowrite32 (pcie_hw B now) (y_ps y) LDD_REG_INT_STATUS st"
    using h False by (simp_all add: msi_handler_ack_def)
  have sub: "\<And>k. bit st k \<Longrightarrow> bit (events_of (y_ps y)) k" using i d by (simp add: msi_inv_def read_ok_def)
  note c = msi_inv_clear [OF i sub eq(2)]
  have p: "pendings ?y = pendings y" using c(4) by (simp add: pendings_def)
  have x: "\<not> msix" using i d by (auto simp: msi_inv_def signals_ok_def)
  have e: "events_of ps' = events_of (y_ps y) AND NOT st"
    by (rule bit_word_eqI) (auto simp: c(5) bit_simps)
  have "signals_ok msix msi ?y"
    using i x d by (cases msi) (auto simp: msi_inv_def signals_ok_def p e [symmetric] c(6))
  moreover have "counts_ok ?y" using c(7) by (simp add: counts_ok_def eq(1))
  ultimately show ?thesis using c(1-4) i by (simp add: msi_inv_def read_ok_def)
qed

lemma msi_inv_read:
  assumes i: "msi_inv msix msi y" and n: "y_read y = None" and d: "y_done y \<le> dn" "dn \<le> length (ps_msgs (y_ps y))"
    and x: "\<not> msix" and k: "\<not> msi \<longrightarrow> dn = y_done y"
  shows "msi_inv msix msi (y\<lparr>y_read := Some (msi_handler_read (pcie_hw B now) (y_ps y)), y_done := dn\<rparr>)" (is "msi_inv msix msi ?y")
proof -
  have rd: "msi_handler_read (pcie_hw B now) (y_ps y) = events_of (y_ps y)"
    using i by (intro read_status) (simp add: msi_inv_def)
  have "set (pendings ?y) \<subseteq> set (pendings y)" using d(1) by (simp add: pendings_def set_drop_subset_set_drop)
  then have "signals_ok msix msi ?y"
    using i x k by (cases msi) (auto simp: msi_inv_def signals_ok_def rd pendings_def)
  then show ?thesis using i d(2) by (simp add: msi_inv_def counts_ok_def read_ok_def rd)
qed

lemma msi_reach_inv: "msi_reach B msix msi y \<Longrightarrow> msi_inv msix msi y"
proof (induction rule: msi_reach.induct)
  case (start ps m)
  then show ?case
    by (auto simp: msi_inv_def regs_ready_def events_of_def pcie_inv_def regs_ok_def counts_ok_def read_ok_def signals_ok_def pendings_def)
next
  case (raised y now val n ps')
  then show ?case using msi_inv_raise by blast
next
  case (vector y i now r m ps')
  then show ?case using msi_inv_vector by blast
next
  case (message y i now)
  have "ps_msgs (y_ps y) ! y_done y \<in> set (pendings y)" using message(2) by (simp add: pendings_def Cons_nth_drop_Suc [symmetric])
  then have "\<not> msix \<and> msi" using message by (cases msix; cases msi) (auto simp: msi_inv_def signals_ok_def)
  then show ?case using msi_inv_read [OF message.IH message(4), of "y_done y + 1"] message(2) by simp
next
  case (line y now)
  have "\<not> msix \<and> \<not> msi" using line by (cases msix; cases msi) (auto simp: msi_inv_def signals_ok_def)
  moreover have "y_done y \<le> length (ps_msgs (y_ps y))" using line.IH by (simp add: msi_inv_def)
  ultimately show ?case using msi_inv_read [OF line.IH line(3), of "y_done y"] by simp
next
  case (acked y st now r m ps')
  then show ?case using msi_inv_ack by blast
qed

subsection \<open>Properties\<close>

text \<open>
  C28: Every event is counted exactly once, and none is left pending. With MSI-X, MSI or INTx, in
  whatever order events are raised and interrupts delivered, also between the read and the
  write of a handler, each event has been counted once for every time it became pending, the one
  pending now apart; and once every message is delivered, no handler runs and the line is quiet,
  nothing is pending.
\<close>

theorem msi_counts_every_event:
  assumes "msi_reach B msix msi y"
  shows "(\<forall>i. mi_count (y_msi y) i + of_bool (bit (r_int_status (ps_regs (y_ps y))) i) = of_nat (y_raised y i)) \<and>
    (y_done y = length (ps_msgs (y_ps y)) \<and> y_read y = None \<and> \<not> ps_intx (y_ps y) \<longrightarrow> r_int_status (ps_regs (y_ps y)) = 0)"
proof -
  have i: "msi_inv msix msi y" by (rule msi_reach_inv [OF assms])
  have "events_of (y_ps y) = 0" if "y_done y = length (ps_msgs (y_ps y))" "y_read y = None" "\<not> ps_intx (y_ps y)"
  proof -
    have "pendings y = []" using that(1) by (simp add: pendings_def)
    then show ?thesis
      using i that(2,3) by (cases msix; cases msi) (auto simp: msi_inv_def signals_ok_def intro!: bit_word_eqI)
  qed
  then show ?thesis using i by (simp add: msi_inv_def counts_ok_def events_of_def)
qed

definition demo_msix :: "(64 word \<Rightarrow> byte) msi_sys" where
  "demo_msix = \<lparr>y_ps = (upd_regs (\<lambda>r. r\<lparr>r_int_mask := 7\<rparr>) (demo_pcie (\<lambda>_. 0)))\<lparr>ps_msix := True\<rparr>, y_done = 0,
     y_msi = \<lparr>mi_nvec = 3, mi_count = (\<lambda>_. 0), mi_last_status = 0\<rparr>, y_read = None, y_raised = (\<lambda>_. 0)\<rparr>"

lemma demo_msix_reach: "msi_reach ram_bus True False demo_msix"
  unfolding demo_msix_def
  by (rule msi_reach.start) (simp_all add: demo_pcie_def ldd_pcie_properties_def pcie_inv_def pcie_props_ok_def regs_ok_def
      regs_zero_def status_ok_def ldd_pcie_busy_def has_flag_def ldd_bit_consts LDD_MEM_SIZE_def)

theorem msi_counts_every_event_witness:
  "\<exists>y. msi_reach ram_bus True False y \<and> y_raised y 2 = 1 \<and> mi_count (y_msi y) 2 + of_bool (bit (r_int_status (ps_regs (y_ps y))) 2) = 1"
proof -
  obtain ps' where "raise_store (pcie_hw ram_bus 0) (Inr 4) 1 (y_ps demo_msix) = (Inr 1, ps')"
    by (simp add: raise_store_def has_flag_def ldd_bit_consts)
  from msi_reach.raised [OF demo_msix_reach this] obtain y where y: "msi_reach ram_bus True False y" "y_raised y 2 = 1"
    by (rule_tac that) (assumption, simp add: demo_msix_def demo_pcie_def ldd_pcie_properties_def regs_zero_def)
  from msi_counts_every_event [OF y(1)] show ?thesis using y by (intro exI [of _ y]) simp
qed

text \<open>
  The vectors the driver gets are three, one per event, or a single one for all, if the PCI core
  keeps to the bounds it is given.
\<close>

lemma alloc_vectors_three_or_one:
  assumes core: "\<And>lo hi t n. alloc lo hi t = Inr n \<Longrightarrow> lo \<le> n \<and> n \<le> hi"
    and "alloc_vectors alloc types = Inr n"
  shows "n = LDD_NR_EVENTS \<or> n = 1"
  using assms(2) core [of LDD_NR_EVENTS LDD_NR_EVENTS PCI_IRQ_MSIX n] core [of 1 1 "types AND NOT PCI_IRQ_MSIX" n]
  by (auto simp: alloc_vectors_def Let_def split: if_splits)

text \<open>Removing, or failing at any step of the probe, releases in reverse order exactly what was acquired.\<close>

fun irqs_held :: "nat \<Rightarrow> msi_call list" where
  "irqs_held 0 = []"
| "irqs_held (Suc n) = MsiIrq n # irqs_held n"

lemma irqs_held_set: "MsiIrq j \<in> set (irqs_held n) \<longleftrightarrow> j < n"
  by (induction n) auto

lemma free_irqs_held: "held (free_irqs n @ cs) (irqs_held n @ st) = held cs st"
  by (induction n) simp_all

lemma request_irqs_held:
  "request_irqs F i k = (r, cs) \<Longrightarrow> (\<forall>j. MsiIrq j \<notin> set st) \<Longrightarrow>
   held cs (irqs_held i @ st) = Some (if r = None then irqs_held (i + k) @ st else st)"
proof (induction k arbitrary: i r cs)
  case (Suc k)
  obtain r' cs' where l: "request_irqs F (i + 1) k = (r', cs')" by fastforce
  show ?case
  proof (cases "F (MsiIrq i)")
    case None
    then have rc: "r = r'" "cs = Acq (MsiIrq i) # cs'" using Suc.prems(1) l by simp_all
    have "held cs' (MsiIrq i # irqs_held i @ st) = Some (if r' = None then irqs_held (i + Suc k) @ st else st)"
      using Suc.IH [OF l Suc.prems(2)] by simp
    then show ?thesis using Suc.prems(2) by (simp add: rc irqs_held_set)
  next
    case (Some e)
    then have "r = Some e" "cs = free_irqs i" using Suc.prems(1) by simp_all
    then show ?thesis using free_irqs_held [of i "[]" st] by simp
  qed
qed simp

lemma msi_probe_all_or_nothing:
  "case msi_probe H K F alloc types s of
     (Inl e, s', cs) \<Rightarrow> held cs [] = Some []
   | (Inr m, s', cs) \<Rightarrow> held (cs @ snd (msi_remove H K (nat (mi_nvec m)) s')) [] = Some []"
proof (cases "alloc_vectors alloc types")
  case (Inl e)
  then show ?thesis by (simp add: msi_probe_def life_defs if_err_def Let_def split: option.split)
next
  case (Inr n)
  obtain r cs where l: "request_irqs F 0 n = (r, cs)" by fastforce
  let ?st = "[MsiVectors, MsiMaster, MsiIomap, MsiRegions, MsiEnable, MsiStruct]"
  have h: "held cs ?st = Some (if r = None then irqs_held n @ ?st else ?st)"
    using request_irqs_held [OF l, of ?st] by simp
  show ?thesis
    using Inr l h free_irqs_held [of n "merr_vectors" ?st]
    by (cases r) (auto simp: msi_probe_def msi_remove_def life_defs if_err_def Let_def held_append split: option.split)
qed

end
