(* ===== verification/Scull.thy ===== *)
theory Scull
  imports Byte_Store Lifecycle
begin

section \<open>The memory-backed character device (examples/03_scull_basic)\<close>

text \<open>
  A scull device is a list of blocks of one page, each with the number of bytes written so far;
  reads and writes never cross a block. \<open>block_counter\<close> is kept beside the list, as in the
  code: a signed 32-bit number that is compared as an unsigned 64-bit one, and wraps (the kernel is
  compiled with \<open>-fno-strict-overflow\<close>). A null pointer dereferenced is \<open>None\<close>. Which allocations succeed is a
  parameter. The mutex makes each operation atomic; \<open>intr\<close>
  says whether a signal interrupts the wait for it.
\<close>

subsection \<open>State and operations (fops.c)\<close>

definition SCULL_NR_DEVS :: nat where "SCULL_NR_DEVS = 3"
definition SCULL_BLOCK_SIZE :: nat where "SCULL_BLOCK_SIZE = 4096"

record scull_block =
  sb_offset :: nat
  sb_data :: "byte list"

record scull_dev =
  sd_block_counter :: "32 word"
  sd_block_list :: "scull_block list"

definition kzalloc_block :: scull_block where
  "kzalloc_block = \<lparr>sb_offset = 0, sb_data = replicate SCULL_BLOCK_SIZE 0\<rparr>"

fun get_block_loop :: "scull_block list \<Rightarrow> nat \<Rightarrow> scull_block option" where
  "get_block_loop [] nr = None"
| "get_block_loop (b # bs) nr = (if nr = 0 then Some b else get_block_loop bs (nr - 1))"

definition scull_get_block :: "scull_dev \<Rightarrow> nat \<Rightarrow> scull_block option" where
  "scull_get_block dev nr = get_block_loop (sd_block_list dev) nr"

definition scull_trim :: "scull_dev \<Rightarrow> scull_dev" where
  "scull_trim dev = dev\<lparr>sd_block_list := [], sd_block_counter := 0\<rparr>"

datatype accmode = O_RDONLY | O_WRONLY | O_RDWR

definition scull_open :: "bool \<Rightarrow> accmode \<Rightarrow> scull_dev \<Rightarrow> unit result \<times> scull_dev" where
  "scull_open intr mode dev =
     (if mode = O_WRONLY
      then if intr then (Inl ERESTARTSYS, dev) else (Inr (), scull_trim dev)
      else (Inr (), dev))"

definition scull_release :: "scull_dev \<Rightarrow> unit result \<times> scull_dev" where
  "scull_release dev = (Inr (), dev)"

definition scull_read ::
  "bool \<Rightarrow> to_user \<Rightarrow> scull_dev \<Rightarrow> nat \<Rightarrow> nat \<Rightarrow> nat result \<times> nat \<times> byte list" where
  "scull_read intr ctu dev f_pos count0 =
     (let tblock = f_pos div SCULL_BLOCK_SIZE; toffset = f_pos mod SCULL_BLOCK_SIZE
      in if intr then (Inl ERESTARTSYS, f_pos, [])
      else case scull_get_block dev tblock of
             None \<Rightarrow> (Inr 0, f_pos, [])
           | Some pblock \<Rightarrow>
               if toffset \<ge> sb_offset pblock then (Inr 0, f_pos, [])
               else let count = min count0 (sb_offset pblock - toffset);
                        bs = mem_get toffset count (sb_data pblock);
                        left = ctu bs
                    in if left \<noteq> 0 then (Inl EFAULT, f_pos, take (count - left) bs)
                       else (Inr count, f_pos + count, bs))"

text \<open>The loop that grows the list; \<open>alloc k\<close> says whether the allocation of block \<open>k\<close> succeeds.\<close>

lemma counter_step: "c \<noteq> - 1 \<Longrightarrow> unat (- 1 - (c + 1) :: 32 word) < unat (- 1 - c)"
proof -
  assume "c \<noteq> - 1"
  then have x: "- 1 - c \<noteq> 0" by (metis right_minus_eq)
  have "- 1 - (c + 1) = (- 1 - c) - 1" by simp
  then have "unat (- 1 - (c + 1)) = unat (- 1 - c) - 1" using unat_minus_one [OF x] by (simp only:)
  moreover have "unat (- 1 - c) > 0" using x unat_gt_0 by blast
  ultimately show ?thesis by linarith
qed

function scull_grow :: "(nat \<Rightarrow> bool) \<Rightarrow> 64 word \<Rightarrow> scull_dev \<Rightarrow> bool \<times> scull_dev" where
  "scull_grow alloc tblock dev =
     (if tblock + 1 > scast (sd_block_counter dev)
      then if alloc (length (sd_block_list dev))
           then scull_grow alloc tblock
                  (dev\<lparr>sd_block_list := sd_block_list dev @ [kzalloc_block],
                       sd_block_counter := sd_block_counter dev + 1\<rparr>)
           else (False, dev)
      else (True, dev))"
  by pat_completeness auto

termination scull_grow
proof (relation "measure (\<lambda>(alloc, tblock, dev). unat (- 1 - sd_block_counter dev))")
  fix alloc :: "nat \<Rightarrow> bool" and tblock :: "64 word" and dev :: scull_dev
  assume "tblock + 1 > scast (sd_block_counter dev)"
  then have "sd_block_counter dev \<noteq> - 1" by (auto simp: not_less)
  then show "((alloc, tblock, dev\<lparr>sd_block_list := sd_block_list dev @ [kzalloc_block],
      sd_block_counter := sd_block_counter dev + 1\<rparr>), (alloc, tblock, dev)) \<in>
      measure (\<lambda>(alloc, tblock, dev). unat (- 1 - sd_block_counter dev))"
    using counter_step by simp
qed simp

declare scull_grow.simps [simp del]

definition scull_write ::
  "bool \<Rightarrow> (nat \<Rightarrow> bool) \<Rightarrow> from_user \<Rightarrow> scull_dev \<Rightarrow> nat \<Rightarrow> nat \<Rightarrow> (nat result \<times> scull_dev \<times> nat) option" where
  "scull_write intr alloc cfu dev f_pos count0 =
     (let tblock = f_pos div SCULL_BLOCK_SIZE; toffset = f_pos mod SCULL_BLOCK_SIZE
      in if intr then Some (Inl ERESTARTSYS, dev, f_pos)
      else case scull_grow alloc (of_nat tblock) dev of
             (False, dev1) \<Rightarrow> Some (Inl ENOMEM, dev1, f_pos)
           | (True, dev1) \<Rightarrow>
               (case scull_get_block dev1 tblock of
                  None \<Rightarrow> None
                | Some pblock \<Rightarrow>
                    let count = min count0 (SCULL_BLOCK_SIZE - toffset);
                        (left, bs) = cfu count;
                        pblock1 = pblock\<lparr>sb_data := mem_put toffset bs (sb_data pblock)\<rparr>;
                        pblock2 = pblock1\<lparr>sb_offset := max (sb_offset pblock1) (toffset + count)\<rparr>
                    in Some
                      (if left \<noteq> 0
                       then (Inl EFAULT, dev1\<lparr>sd_block_list := (sd_block_list dev1)[tblock := pblock1]\<rparr>, f_pos)
                       else (Inr count, dev1\<lparr>sd_block_list := (sd_block_list dev1)[tblock := pblock2]\<rparr>, f_pos + count))))"

text \<open>The counter can count up to one block less than 2^31; positions below this limit need no more.\<close>

definition SCULL_LIMIT :: nat where "SCULL_LIMIT = (2 ^ 31 - 1) * SCULL_BLOCK_SIZE"

subsection \<open>Module (main.c)\<close>

definition init_scull_dev :: "scull_dev \<Rightarrow> scull_dev" where
  "init_scull_dev dev = dev\<lparr>sd_block_counter := 0, sd_block_list := []\<rparr>"

text \<open>Device structures and their cdevs by number.\<close>

datatype scull_res = ScullRegion | ScullStruct nat | ScullCdev nat

definition scull_destroy_devs :: "nat \<Rightarrow> scull_res call list" where
  "scull_destroy_devs count = destroy_devs ScullStruct ScullCdev count"

definition scull_m_init :: "scull_res answers \<Rightarrow> errno option \<times> scull_res call list" where
  "scull_m_init = devs_init ScullRegion ScullStruct ScullCdev SCULL_NR_DEVS"

definition scull_m_exit :: "scull_res call list" where
  "scull_m_exit = scull_destroy_devs SCULL_NR_DEVS @ [Rel ScullRegion]"

interpretation scull_array: device_array ScullRegion ScullStruct ScullCdev
  by unfold_locales simp_all

subsection \<open>Invariant and abstract content\<close>

definition scull_inv :: "scull_dev \<Rightarrow> bool" where
  "scull_inv dev \<longleftrightarrow> sd_block_counter dev = of_nat (length (sd_block_list dev)) \<and> length (sd_block_list dev) < 2 ^ 31 \<and>
     (\<forall>b \<in> set (sd_block_list dev). length (sb_data b) = SCULL_BLOCK_SIZE \<and> sb_offset b \<le> SCULL_BLOCK_SIZE)"

text \<open>The byte at a position: the block of that number, up to what was written of it.\<close>

definition scull_view :: "scull_dev \<Rightarrow> nat \<Rightarrow> byte option" where
  "scull_view dev p =
     (let k = p div SCULL_BLOCK_SIZE; off = p mod SCULL_BLOCK_SIZE
      in if k < length (sd_block_list dev) \<and> off < sb_offset (sd_block_list dev ! k)
         then Some (sb_data (sd_block_list dev ! k) ! off) else None)"

lemma get_block_loop_nth: "get_block_loop bs nr = (if nr < length bs then Some (bs ! nr) else None)"
  by (induction bs nr rule: get_block_loop.induct) (auto simp: nth_Cons split: nat.split)

lemma scull_get_block_nth:
  "scull_get_block dev nr = (if nr < length (sd_block_list dev) then Some (sd_block_list dev ! nr) else None)"
  by (simp add: scull_get_block_def get_block_loop_nth)

lemma block_size_pos: "0 < SCULL_BLOCK_SIZE"
  by (simp add: SCULL_BLOCK_SIZE_def)

lemma kzalloc_block_ok: "length (sb_data kzalloc_block) = SCULL_BLOCK_SIZE" "sb_offset kzalloc_block = 0"
  by (simp_all add: kzalloc_block_def)

text \<open>Below the limit the comparison is one of numbers.\<close>

lemma scast_count: "n < 2 ^ 31 \<Longrightarrow> (scast (of_nat n :: 32 word) :: 64 word) = of_nat n"
proof -
  assume n: "n < 2 ^ 31"
  have "sint (of_nat n :: 32 word) = int n"
    using n by (simp add: signed_of_nat signed_take_bit_int_eq_self)
  then show ?thesis by (metis of_int_sint of_int_of_nat_eq)
qed

lemma counter_less:
  assumes "scull_inv dev" "tblock < 2 ^ 31 - 1"
  shows "of_nat tblock + 1 > (scast (sd_block_counter dev) :: 64 word) \<longleftrightarrow> tblock + 1 > length (sd_block_list dev)"
proof -
  have len: "length (sd_block_list dev) < 2 ^ 31" "sd_block_counter dev = of_nat (length (sd_block_list dev))"
    using assms(1) by (simp_all add: scull_inv_def)
  have "(of_nat (tblock + 1) > (of_nat (length (sd_block_list dev)) :: 64 word)) = (tblock + 1 > length (sd_block_list dev))"
    using len(1) assms(2) by (simp add: word_less_nat_alt unat_of_nat take_bit_nat_eq_self del: of_nat_Suc of_nat_add)
  then show ?thesis using scast_count [OF len(1)] len(2) by (simp add: add.commute)
qed

lemma tblock_bound: "pos < SCULL_LIMIT \<Longrightarrow> pos div SCULL_BLOCK_SIZE < 2 ^ 31 - 1"
  by (simp add: SCULL_LIMIT_def SCULL_BLOCK_SIZE_def div_less_iff_less_mult)

text \<open>Growing appends empty blocks; if every allocation succeeds the block is there afterwards.\<close>

lemma scull_grow_spec:
  assumes "scull_inv dev" "tblock < 2 ^ 31 - 1" "scull_grow alloc (of_nat tblock) dev = (ok, dev')"
  shows "scull_inv dev' \<and> (ok \<longrightarrow> tblock < length (sd_block_list dev')) \<and> ((\<forall>k. alloc k) \<longrightarrow> ok) \<and>
    (\<exists>k. sd_block_list dev' = sd_block_list dev @ replicate k kzalloc_block)"
  using assms
proof (induction alloc "of_nat tblock :: 64 word" dev rule: scull_grow.induct)
  case (1 alloc dev)
  let ?t = "of_nat tblock :: 64 word"
  let ?d = "dev\<lparr>sd_block_list := sd_block_list dev @ [kzalloc_block], sd_block_counter := sd_block_counter dev + 1\<rparr>"
  note less = counter_less [OF 1(2,3)]
  show ?case
  proof (cases "?t + 1 > scast (sd_block_counter dev) \<and> alloc (length (sd_block_list dev))")
    case True
    then have "length (sd_block_list dev) < tblock + 1" using less by simp
    then have "scull_inv ?d" using 1(2,3) by (auto simp: scull_inv_def kzalloc_block_ok)
    moreover have "scull_grow alloc ?t ?d = (ok, dev')" using 1(4) True by (simp add: scull_grow.simps [of alloc ?t dev])
    ultimately have ih: "scull_inv dev'" "ok \<longrightarrow> tblock < length (sd_block_list dev')" "(\<forall>k. alloc k) \<longrightarrow> ok"
        "\<exists>k. sd_block_list dev' = sd_block_list ?d @ replicate k kzalloc_block"
      using 1(1,3) True by simp_all
    then obtain k where "sd_block_list dev' = sd_block_list dev @ replicate (Suc k) kzalloc_block" by auto
    then show ?thesis using ih by blast
  next
    case False
    then have "dev' = dev" "ok \<longrightarrow> \<not> ?t + 1 > scast (sd_block_counter dev)" "(\<forall>k. alloc k) \<longrightarrow> ok"
      using 1(4) by (auto simp: scull_grow.simps [of alloc ?t dev] split: if_splits)
    then show ?thesis using 1(2) less by (auto intro: exI [of _ 0])
  qed
qed

lemma scull_view_grow:
  assumes "sd_block_list dev' = sd_block_list dev @ replicate k kzalloc_block"
  shows "scull_view dev' = scull_view dev"
  using assms by (auto simp: fun_eq_iff scull_view_def Let_def nth_append kzalloc_block_ok)

text \<open>Writing to one block, in terms of the content.\<close>

lemma scull_view_update:
  assumes "k < length (sd_block_list dev)" "b = sd_block_list dev ! k" "length (sb_data b) = SCULL_BLOCK_SIZE"
    and "off + length bs \<le> SCULL_BLOCK_SIZE"
    and "dev' = dev\<lparr>sd_block_list := (sd_block_list dev)[k := b\<lparr>sb_data := mem_put off bs (sb_data b),
           sb_offset := max (sb_offset b) (off + length bs)\<rparr>]\<rparr>"
  shows "scull_view dev' p =
    (if p div SCULL_BLOCK_SIZE = k
     then if off \<le> p mod SCULL_BLOCK_SIZE \<and> p mod SCULL_BLOCK_SIZE < off + length bs
          then Some (bs ! (p mod SCULL_BLOCK_SIZE - off))
          else if p mod SCULL_BLOCK_SIZE < max (sb_offset b) (off + length bs)
          then Some (sb_data b ! (p mod SCULL_BLOCK_SIZE)) else None
     else scull_view dev p)"
proof -
  have "p mod SCULL_BLOCK_SIZE < SCULL_BLOCK_SIZE" by (simp add: block_size_pos)
  then have "mem_put off bs (sb_data b) ! (p mod SCULL_BLOCK_SIZE) =
      (if off \<le> p mod SCULL_BLOCK_SIZE \<and> p mod SCULL_BLOCK_SIZE < off + length bs
       then bs ! (p mod SCULL_BLOCK_SIZE - off) else sb_data b ! (p mod SCULL_BLOCK_SIZE))"
    using assms(3,4) by (intro nth_mem_put) simp_all
  then show ?thesis using assms(1) by (auto simp: scull_view_def assms(5) Let_def nth_list_update)
qed

lemma pos_in_block:
  "p div SCULL_BLOCK_SIZE = pos div SCULL_BLOCK_SIZE \<Longrightarrow> p = pos div SCULL_BLOCK_SIZE * SCULL_BLOCK_SIZE + p mod SCULL_BLOCK_SIZE"
  by (metis div_mult_mod_eq)

lemma scull_inv_update:
  "scull_inv dev \<Longrightarrow> length (sb_data b) = SCULL_BLOCK_SIZE \<Longrightarrow> sb_offset b \<le> SCULL_BLOCK_SIZE \<Longrightarrow>
   scull_inv (dev\<lparr>sd_block_list := (sd_block_list dev)[k := b]\<rparr>)"
  by (auto simp: scull_inv_def dest!: set_update_subset_insert [THEN subsetD])

text \<open>The content after a write that succeeded.\<close>

lemma scull_write_view:
  assumes "scull_inv dev" "pos < SCULL_LIMIT" "from_user_ok cfu" "scull_write intr alloc cfu dev pos count = Some (Inr n, dev', pos')"
  shows "scull_inv dev' \<and> n = min count (SCULL_BLOCK_SIZE - pos mod SCULL_BLOCK_SIZE) \<and> pos' = pos + n \<and>
    view_at (scull_view dev') pos (snd (cfu n)) \<and>
    (\<forall>p. p < pos \<or> pos + n \<le> p \<longrightarrow> scull_view dev' p = scull_view dev p \<or>
       (scull_view dev p = None \<and> p < pos \<and> p div SCULL_BLOCK_SIZE = pos div SCULL_BLOCK_SIZE))"
proof -
  let ?k = "pos div SCULL_BLOCK_SIZE" and ?o = "pos mod SCULL_BLOCK_SIZE"
  let ?n = "min count (SCULL_BLOCK_SIZE - ?o)"
  obtain dev1 where g: "scull_grow alloc (of_nat ?k) dev = (True, dev1)"
    using assms(4) by (auto simp: scull_write_def Let_def split: if_splits prod.splits bool.splits)
  obtain j where gs: "scull_inv dev1" "?k < length (sd_block_list dev1)"
      "sd_block_list dev1 = sd_block_list dev @ replicate j kzalloc_block"
    using scull_grow_spec [OF assms(1) tblock_bound [OF assms(2)] g] by blast
  let ?b = "sd_block_list dev1 ! ?k"
  have b: "?b \<in> set (sd_block_list dev1)" using gs(2) by simp
  have len: "length (snd (cfu ?n)) = ?n" using assms(3) by simp
  have oB: "?o < SCULL_BLOCK_SIZE" by (simp add: block_size_pos)
  have fits: "?o + length (snd (cfu ?n)) \<le> SCULL_BLOCK_SIZE" using oB unfolding len by linarith
  have bl: "length (sb_data ?b) = SCULL_BLOCK_SIZE" "sb_offset ?b \<le> SCULL_BLOCK_SIZE"
    using gs(1) b by (simp_all add: scull_inv_def)
  let ?new = "?b\<lparr>sb_data := mem_put ?o (snd (cfu ?n)) (sb_data ?b), sb_offset := max (sb_offset ?b) (?o + ?n)\<rparr>"
  have w: "n = ?n" "dev' = dev1\<lparr>sd_block_list := (sd_block_list dev1)[?k := ?new]\<rparr>" "pos' = pos + ?n"
    using assms(4) g gs(2)
    by (auto simp: scull_write_def Let_def scull_get_block_nth split: if_splits prod.splits)
  have w2: "dev' = dev1\<lparr>sd_block_list := (sd_block_list dev1)[?k := ?b\<lparr>sb_data := mem_put ?o (snd (cfu ?n)) (sb_data ?b),
      sb_offset := max (sb_offset ?b) (?o + length (snd (cfu ?n)))\<rparr>]\<rparr>"
    unfolding len by (rule w(2))
  have "scull_inv dev'"
    using bl fits len unfolding w(2) by (intro scull_inv_update gs(1)) (simp_all add: length_mem_put)
  moreover have v: "scull_view dev' p =
      (if p div SCULL_BLOCK_SIZE = ?k
       then if ?o \<le> p mod SCULL_BLOCK_SIZE \<and> p mod SCULL_BLOCK_SIZE < ?o + n
            then Some (snd (cfu n) ! (p mod SCULL_BLOCK_SIZE - ?o))
            else if p mod SCULL_BLOCK_SIZE < max (sb_offset ?b) (?o + n)
            then Some (sb_data ?b ! (p mod SCULL_BLOCK_SIZE)) else None
       else scull_view dev p)" for p
    using scull_view_update [OF gs(2) refl bl(1) fits w2, of p] scull_view_grow [OF gs(3)]
    unfolding w(1) len by simp
  have "view_at (scull_view dev') pos (snd (cfu n))"
    unfolding view_at_def
  proof (intro allI impI)
    fix i
    assume "i < length (snd (cfu n))"
    then have i: "i < n" using len by (simp add: w(1))
    then have "?o + i < SCULL_BLOCK_SIZE" using oB unfolding w(1) by linarith
    then have "(pos + i) div SCULL_BLOCK_SIZE = ?k" "(pos + i) mod SCULL_BLOCK_SIZE = ?o + i"
      by (metis div_mult_mod_eq add.assoc div_mult_self3 div_less add_0_right block_size_pos neq0_conv,
          metis mod_add_left_eq mod_less)
    then show "scull_view dev' (pos + i) = Some (snd (cfu n) ! i)" unfolding v using i by simp
  qed
  moreover have "scull_view dev' p = scull_view dev p \<or>
      (scull_view dev p = None \<and> p < pos \<and> p div SCULL_BLOCK_SIZE = ?k)" if "p < pos \<or> pos + n \<le> p" for p
  proof (cases "p div SCULL_BLOCK_SIZE = ?k")
    case True
    have pp: "p = ?k * SCULL_BLOCK_SIZE + p mod SCULL_BLOCK_SIZE" "pos = ?k * SCULL_BLOCK_SIZE + ?o"
      using pos_in_block [OF True] by simp_all
    have out: "\<not> (?o \<le> p mod SCULL_BLOCK_SIZE \<and> p mod SCULL_BLOCK_SIZE < ?o + n)" using that pp by linarith
    have old: "scull_view dev p = (if p mod SCULL_BLOCK_SIZE < sb_offset ?b then Some (sb_data ?b ! (p mod SCULL_BLOCK_SIZE)) else None)"
      using gs(2) True scull_view_grow [OF gs(3), symmetric] by (simp add: scull_view_def Let_def)
    have lt: "\<not> ?o \<le> p mod SCULL_BLOCK_SIZE \<Longrightarrow> p < pos" using pp by linarith
    show ?thesis unfolding v old using True out lt by auto
  next
    case False
    then show ?thesis unfolding v by simp
  qed
  ultimately show ?thesis using w by simp
qed

lemma scull_write_inv:
  assumes "scull_inv dev" "pos < SCULL_LIMIT" "from_user_ok cfu"
  obtains r dev' pos' where "scull_write intr alloc cfu dev pos count = Some (r, dev', pos')" "scull_inv dev'"
    "\<And>e. r = Inl e \<Longrightarrow> pos' = pos \<and> e \<in> {ERESTARTSYS, ENOMEM, EFAULT}"
proof -
  let ?k = "pos div SCULL_BLOCK_SIZE" and ?o = "pos mod SCULL_BLOCK_SIZE"
  let ?n = "min count (SCULL_BLOCK_SIZE - ?o)"
  obtain ok dev1 where g: "scull_grow alloc (of_nat ?k) dev = (ok, dev1)" by fastforce
  note gs = scull_grow_spec [OF assms(1) tblock_bound [OF assms(2)] g]
  show thesis
  proof (cases "intr \<or> \<not> ok")
    case True
    then show thesis
      using g gs assms(1) that [of "Inl ERESTARTSYS" dev pos] that [of "Inl ENOMEM" dev1 pos]
      by (cases intr) (simp_all add: scull_write_def Let_def)
  next
    case False
    let ?b = "sd_block_list dev1 ! ?k"
    have k: "?k < length (sd_block_list dev1)" using gs False by blast
    then have b: "length (sb_data ?b) = SCULL_BLOCK_SIZE" "sb_offset ?b \<le> SCULL_BLOCK_SIZE"
      using gs by (simp_all add: scull_inv_def)
    obtain left bs where c: "cfu ?n = (left, bs)" by fastforce
    have "?o < SCULL_BLOCK_SIZE" by (simp add: block_size_pos)
    then have len: "length bs = ?n" "?o + ?n \<le> SCULL_BLOCK_SIZE"
      using assms(3) c unfolding from_user_ok_def by (metis snd_conv, linarith)
    let ?b1 = "?b\<lparr>sb_data := mem_put ?o bs (sb_data ?b)\<rparr>"
    let ?d1 = "dev1\<lparr>sd_block_list := (sd_block_list dev1)[?k := ?b1]\<rparr>"
    let ?d2 = "dev1\<lparr>sd_block_list := (sd_block_list dev1)[?k := ?b1\<lparr>sb_offset := max (sb_offset ?b) (?o + ?n)\<rparr>]\<rparr>"
    have w: "scull_write intr alloc cfu dev pos count = Some (if left \<noteq> 0 then (Inl EFAULT, ?d1, pos) else (Inr ?n, ?d2, pos + ?n))"
      using False g k c by (simp add: scull_write_def Let_def scull_get_block_nth)
    have "length (sb_data ?b1) = SCULL_BLOCK_SIZE" using len b(1) by (simp add: length_mem_put)
    then have "scull_inv ?d1" "scull_inv ?d2" using gs b len by (auto intro!: scull_inv_update)
    then show thesis using w that [of "Inl EFAULT" ?d1 pos] that [of "Inr ?n" ?d2 "pos + ?n"] by (cases "left \<noteq> 0") simp_all
  qed
qed

text \<open>What a read returns, in terms of the content.\<close>

lemma scull_read_view:
  assumes "scull_inv dev" "scull_read False ctu dev pos count = (Inr n, pos', bs)" "0 < count"
  shows "n = length bs \<and> n \<le> count \<and> pos' = pos + n \<and> view_at (scull_view dev) pos bs \<and>
    (bs = [] \<longleftrightarrow> scull_view dev pos = None) \<and> (0 < n \<longrightarrow> n < count \<longrightarrow> scull_view dev (pos + n) = None \<or>
       (pos + n) mod SCULL_BLOCK_SIZE = 0)"
proof -
  let ?k = "pos div SCULL_BLOCK_SIZE" and ?o = "pos mod SCULL_BLOCK_SIZE"
  show ?thesis
  proof (cases "?k < length (sd_block_list dev) \<and> ?o < sb_offset (sd_block_list dev ! ?k)")
    case False
    then have "n = 0" "pos' = pos" "bs = []"
      using assms(2) by (auto simp: scull_read_def Let_def scull_get_block_nth split: if_splits)
    then show ?thesis using False by (auto simp: scull_view_def Let_def)
  next
    case True
    let ?b = "sd_block_list dev ! ?k"
    have b: "length (sb_data ?b) = SCULL_BLOCK_SIZE" "sb_offset ?b \<le> SCULL_BLOCK_SIZE"
      using assms(1) True by (auto simp: scull_inv_def)
    have r: "n = min count (sb_offset ?b - ?o)" "pos' = pos + n" "bs = mem_get ?o n (sb_data ?b)"
      using assms(2) True by (auto simp: scull_read_def Let_def scull_get_block_nth split: if_splits)
    have n: "n \<le> count" "?o + n \<le> sb_offset ?b" "0 < n" using r(1) True assms(3) by linarith+
    have "n \<le> SCULL_BLOCK_SIZE - ?o" using n b(2) by linarith
    then have len: "length bs = n" using r(3) b(1) by simp
    have pos: "(pos + i) div SCULL_BLOCK_SIZE = ?k \<and> (pos + i) mod SCULL_BLOCK_SIZE = ?o + i"
      if "?o + i < SCULL_BLOCK_SIZE" for i
    proof -
      have "pos + i = ?k * SCULL_BLOCK_SIZE + (?o + i)" by (simp add: add.assoc [symmetric])
      then show ?thesis using that by (metis block_size_pos div_mult_self3 div_less add_0_right mod_mult_self3 mod_less neq0_conv)
    qed
    have "view_at (scull_view dev) pos bs"
      unfolding view_at_def len
    proof (intro allI impI)
      fix i
      assume i: "i < n"
      then have "?o + i < SCULL_BLOCK_SIZE" using n b(2) by linarith
      then show "scull_view dev (pos + i) = Some (bs ! i)"
        using pos [of i] True i n b r(3) by (simp add: scull_view_def Let_def nth_mem_get)
    qed
    moreover have "scull_view dev pos \<noteq> None" using True by (simp add: scull_view_def Let_def)
    moreover have "scull_view dev (pos + n) = None \<or> (pos + n) mod SCULL_BLOCK_SIZE = 0" if "n < count"
    proof -
      have e: "?o + n = sb_offset ?b" using r(1) that n by linarith
      show ?thesis
      proof (cases "sb_offset ?b = SCULL_BLOCK_SIZE")
        case True
        then have "(pos + n) mod SCULL_BLOCK_SIZE = 0"
          using e by (metis mod_add_left_eq mod_self)
        then show ?thesis ..
      next
        case False
        then have "?o + n < SCULL_BLOCK_SIZE" using e b(2) by linarith
        then show ?thesis using pos [of n] e by (simp add: scull_view_def Let_def)
      qed
    qed
    ultimately show ?thesis using n len r(2) by auto
  qed
qed

subsection \<open>The driver keeps the contract of a file\<close>

text \<open>The operations as a program with enough memory and good buffers uses them.\<close>

definition scull_wr :: "scull_dev \<Rightarrow> nat \<Rightarrow> byte list \<Rightarrow> nat result \<times> scull_dev" where
  "scull_wr dev pos data =
     (case scull_write False (\<lambda>_. True) (user_buffer data) dev pos (length data) of
        None \<Rightarrow> (Inl (ErrOther 0), dev) | Some (r, dev', _) \<Rightarrow> (r, dev'))"

definition scull_rd :: "scull_dev \<Rightarrow> nat \<Rightarrow> nat \<Rightarrow> byte list result \<times> scull_dev" where
  "scull_rd dev pos count =
     (case scull_read False (user_room count) dev pos count of
        (Inl e, _, _) \<Rightarrow> (Inl e, dev) | (Inr n, _, bs) \<Rightarrow> (Inr bs, dev))"

lemma scull_wr_succeeds:
  assumes "scull_inv dev" "pos < SCULL_LIMIT" "data \<noteq> []"
  obtains n dev' pos' where
    "scull_write False (\<lambda>_. True) (user_buffer data) dev pos (length data) = Some (Inr n, dev', pos')" "0 < n" "n \<le> length data"
proof -
  let ?n = "min (length data) (SCULL_BLOCK_SIZE - pos mod SCULL_BLOCK_SIZE)"
  have n: "?n \<le> length data" "0 < ?n" using assms(3) by (simp_all add: block_size_pos)
  obtain ok dev1 where g: "scull_grow (\<lambda>_. True) (of_nat (pos div SCULL_BLOCK_SIZE)) dev = (ok, dev1)" by fastforce
  have "ok" "pos div SCULL_BLOCK_SIZE < length (sd_block_list dev1)"
    using scull_grow_spec [OF assms(1) tblock_bound [OF assms(2)] g] by simp_all
  then obtain dev' pos' where "scull_write False (\<lambda>_. True) (user_buffer data) dev pos (length data) = Some (Inr ?n, dev', pos')"
    by (simp add: scull_write_def Let_def g user_buffer_all scull_get_block_nth)
  then show ?thesis using n that by blast
qed

lemma scull_rd_eq:
  assumes "scull_inv dev"
  obtains n pos' bs where "scull_read False (user_room count) dev pos count = (Inr n, pos', bs)" "scull_rd dev pos count = (Inr bs, dev)"
proof -
  have "\<exists>n pos' bs. scull_read False (user_room count) dev pos count = (Inr n, pos', bs)"
    by (simp add: scull_read_def Let_def user_room_def split: option.split)
  then obtain n pos' bs where "scull_read False (user_room count) dev pos count = (Inr n, pos', bs)" by blast
  then show ?thesis using that by (simp add: scull_rd_def)
qed

interpretation scull_store: byte_store scull_inv scull_view scull_rd SCULL_LIMIT scull_wr
proof
  fix dev :: scull_dev and data :: "byte list" and pos
  assume i: "scull_inv dev" and d: "data \<noteq> []" and l: "pos + length data \<le> SCULL_LIMIT"
  have p: "pos < SCULL_LIMIT" using l d by (cases data) simp_all
  obtain n dev' pos' where w: "scull_write False (\<lambda>_. True) (user_buffer data) dev pos (length data) = Some (Inr n, dev', pos')"
      "0 < n" "n \<le> length data"
    using scull_wr_succeeds [OF i p d] by blast
  show "\<exists>n s'. scull_wr dev pos data = (Inr n, s') \<and> 0 < n \<and> n \<le> length data"
    using w by (simp add: scull_wr_def)
next
  fix dev dev' :: scull_dev and data :: "byte list" and pos n
  assume i: "scull_inv dev" and w: "scull_wr dev pos data = (Inr n, dev')" and d: "data \<noteq> []" and l: "pos + length data \<le> SCULL_LIMIT"
  have p: "pos < SCULL_LIMIT" using l d by (cases data) simp_all
  obtain pos' where w': "scull_write False (\<lambda>_. True) (user_buffer data) dev pos (length data) = Some (Inr n, dev', pos')"
    using w by (auto simp: scull_wr_def split: prod.splits option.splits)
  note v = scull_write_view [OF i p from_user_ok_user_buffer w']
  have "n \<le> length data" using v by simp
  then have "snd (user_buffer data n) = take n data" by (simp add: user_buffer_def)
  then show "scull_inv dev' \<and> view_at (scull_view dev') pos (take n data)" using v by metis
  fix p b
  assume "scull_view dev p = Some b" "p < pos \<or> pos + n \<le> p"
  then show "scull_view dev' p = Some b" using v by fastforce
next
  fix dev :: scull_dev and count pos :: nat and b
  assume i: "scull_inv dev" "0 < count" "scull_view dev pos = Some b"
  obtain n pos' bs where r: "scull_read False (user_room count) dev pos count = (Inr n, pos', bs)" "scull_rd dev pos count = (Inr bs, dev)"
    by (rule scull_rd_eq [OF i(1)])
  then show "\<exists>bs s'. scull_rd dev pos count = (Inr bs, s') \<and> bs \<noteq> []"
    using scull_read_view [OF i(1) r(1) i(2)] i(3) by auto
next
  fix dev dev' :: scull_dev and count pos :: nat and bs
  assume i: "scull_inv dev" "0 < count" and rd: "scull_rd dev pos count = (Inr bs, dev')"
  obtain n pos' bs' where r: "scull_read False (user_room count) dev pos count = (Inr n, pos', bs')" "scull_rd dev pos count = (Inr bs', dev)"
    by (rule scull_rd_eq [OF i(1)])
  then show "scull_inv dev' \<and> scull_view dev' = scull_view dev \<and> length bs \<le> count \<and> view_at (scull_view dev) pos bs"
    using scull_read_view [OF i(1) r(1) i(2)] rd i(1) by auto
qed

subsection \<open>Properties\<close>

text \<open>
  C14: A program that writes a file to a scull device and reads it back, both in loops of calls
  that move what they can, gets the file, whatever its length and position below the limit of the block
  counter (8 TiB) and however it straddles blocks; both loops end.
\<close>

theorem scull_file_roundtrip:
  assumes "scull_inv dev" and "pos + length data \<le> SCULL_LIMIT"
  shows "\<exists>dev'. write_all scull_wr (length data) dev pos data = Some dev' \<and> scull_inv dev' \<and>
    read_all scull_rd (length data) dev' pos (length data) = Some data"
  using scull_store.write_all_read_all [OF assms] by metis

theorem scull_file_roundtrip_witness:
  "\<exists>dev'. write_all scull_wr 5000 (init_scull_dev \<lparr>sd_block_counter = 9, sd_block_list = []\<rparr>) 4000 (replicate 5000 7) = Some dev' \<and>
     read_all scull_rd 5000 dev' 4000 5000 = Some (replicate 5000 7)"
proof -
  have "scull_inv (init_scull_dev \<lparr>sd_block_counter = 9, sd_block_list = []\<rparr>)"
    by (simp add: init_scull_dev_def scull_inv_def)
  from scull_file_roundtrip [OF this, of 4000 "replicate 5000 7"] show ?thesis
    by (auto simp: SCULL_LIMIT_def SCULL_BLOCK_SIZE_def)
qed



text \<open>
  Beyond the limit the counter wraps: with 2^31 - 1 blocks, a write to block 2^31 adds one block, takes
  the counter, now negative, for a huge number, finds no block of that number and dereferences the null
  pointer.
\<close>

lemma scull_counter_wraps:
  assumes "length (sd_block_list dev) = 2 ^ 31 - 1" and "sd_block_counter dev = 2 ^ 31 - 1"
  shows "scull_write False (\<lambda>_. True) cfu dev (2 ^ 31 * SCULL_BLOCK_SIZE) count = None"
proof -
  let ?t = "of_nat (2 ^ 31) :: 64 word"
  let ?d = "dev\<lparr>sd_block_list := sd_block_list dev @ [kzalloc_block], sd_block_counter := sd_block_counter dev + 1\<rparr>"
  have "?t + 1 > scast (sd_block_counter dev)" "\<not> ?t + 1 > scast (sd_block_counter ?d)"
    using assms(2) by (simp_all add: word_less_def)
  then have "scull_grow (\<lambda>_. True) ?t dev = scull_grow (\<lambda>_. True) ?t ?d" "scull_grow (\<lambda>_. True) ?t ?d = (True, ?d)"
    by (subst scull_grow.simps, simp only: if_True if_False)+
  then have "scull_grow (\<lambda>_. True) ?t dev = (True, ?d)" by simp
  moreover have "scull_get_block ?d (2 ^ 31) = None" using assms(1) by (simp add: scull_get_block_nth)
  ultimately show ?thesis by (simp add: scull_write_def Let_def block_size_pos)
qed

text \<open>
  A read returns exactly the content: bytes of the file from the position on, none exactly
  at the end of the file or in a hole, and fewer than asked for only where the content or the
  block ends.
\<close>

lemma scull_read_is_content:
  assumes "scull_inv dev" and "0 < count" and "scull_read False ctu dev pos count = (Inr n, pos', bs)"
  shows "n = length bs \<and> n \<le> count \<and> pos' = pos + n \<and> view_at (scull_view dev) pos bs \<and>
    (bs = [] \<longleftrightarrow> scull_view dev pos = None) \<and>
    (0 < n \<longrightarrow> n < count \<longrightarrow> scull_view dev (pos + n) = None \<or> (pos + n) mod SCULL_BLOCK_SIZE = 0)"
  by (rule scull_read_view [OF assms(1,3,2)])

lemma scull_read_is_content_witness:
  "\<exists>n pos' bs. scull_read False (\<lambda>_. 0) \<lparr>sd_block_counter = 1, sd_block_list = [kzalloc_block\<lparr>sb_offset := 3\<rparr>]\<rparr> 1 9 = (Inr n, pos', bs) \<and>
     n = length bs \<and> 0 < n"
proof -
  let ?d = "\<lparr>sd_block_counter = 1, sd_block_list = [kzalloc_block\<lparr>sb_offset := 3\<rparr>]\<rparr> :: scull_dev"
  have i: "scull_inv ?d" by (simp add: scull_inv_def kzalloc_block_def SCULL_BLOCK_SIZE_def)
  obtain n pos' bs where r: "scull_read False (\<lambda>_. 0) ?d 1 9 = (Inr n, pos', bs)"
    by (simp add: scull_read_def Let_def scull_get_block_nth SCULL_BLOCK_SIZE_def kzalloc_block_def)
  have "scull_view ?d 1 \<noteq> None" by (simp add: scull_view_def SCULL_BLOCK_SIZE_def)
  then show ?thesis using scull_read_is_content [OF i _ r] r by auto
qed

text \<open>
  Loading the scull module is all or nothing: whichever of its three devices cannot be
  created, for want of memory or because its number is taken, the ones created before are
  destroyed in reverse order and the numbers are given back; unloading releases exactly what
  loading acquired.
\<close>

lemma scull_module_all_or_nothing: "clean scull_m_init scull_m_exit"
  unfolding scull_m_init_def scull_m_exit_def scull_destroy_devs_def devs_exit_def [symmetric]
  by (rule scull_array.devs_clean)

end
