(* ===== verification/Pipe.thy ===== *)
theory Pipe
  imports Lifecycle
begin

section \<open>The pipes that sleep (examples/08_pipe_simple_sleep, 09_pipe_advanced_sleep)\<close>

text \<open>
  A buffer of eight bytes shared by readers and writers, who sleep while there is nothing for
  them to do. The two examples differ in how a process goes to sleep: 08 calls
  \<open>wait_event_interruptible\<close>, 09 spells out its steps with \<open>prepare_to_wait\<close>, a second test of
  the condition, \<open>schedule\<close> and \<open>finish_wait\<close>. Any number of processes run at once, so the model
  is a step relation: between two steps of a process any other may run. The mutex, the wait
  queues and the state of a task are the kernel's; of them the model has what the code uses: a
  mutex has one owner, a process on a queue whose task state is TASK_INTERRUPTIBLE does not run
  until someone wakes the queue or sends it a signal.
\<close>

definition BUFF_SIZE :: nat where "BUFF_SIZE = 8"
definition PIPE_DEV_NR :: nat where "PIPE_DEV_NR = 4"

record pipe_dev =
  pd_buff_len :: nat
  pd_rd_pos :: nat
  pd_buff :: "byte list"

datatype pipe_dir = Rd | Wr

primrec other :: "pipe_dir \<Rightarrow> pipe_dir" where
  "other Rd = Wr"
| "other Wr = Rd"

subsection \<open>What is done with the mutex held\<close>

text \<open>Outcome, device, bytes taken from or put into the stream, and whether to wake the others.\<close>

definition pipe_read_body ::
  "to_user \<Rightarrow> nat \<Rightarrow> pipe_dev \<Rightarrow> nat result \<times> pipe_dev \<times> byte list \<times> bool" where
  "pipe_read_body ctu count0 dev =
     (let count = min count0 (pd_buff_len dev - pd_rd_pos dev);
          bs = mem_get (pd_rd_pos dev) count (pd_buff dev)
      in if ctu bs \<noteq> 0 then (Inl EFAULT, dev, [], False)
         else let dev1 = dev\<lparr>pd_rd_pos := pd_rd_pos dev + count\<rparr>
              in if pd_rd_pos dev1 \<ge> pd_buff_len dev1
                 then (Inr count, dev1\<lparr>pd_buff_len := 0, pd_rd_pos := 0\<rparr>, bs, True)
                 else (Inr count, dev1, bs, False))"

definition pipe_write_body ::
  "from_user \<Rightarrow> nat \<Rightarrow> pipe_dev \<Rightarrow> nat result \<times> pipe_dev \<times> byte list \<times> bool" where
  "pipe_write_body cfu count0 dev =
     (let count = min count0 BUFF_SIZE;
          (left, bs) = cfu count;
          dev1 = dev\<lparr>pd_buff := mem_put 0 bs (pd_buff dev)\<rparr>
      in if left \<noteq> 0 then (Inl EFAULT, dev1, [], False)
         else if count > 0 then (Inr count, dev1\<lparr>pd_buff_len := count, pd_rd_pos := 0\<rparr>, bs, True)
         else (Inr count, dev1, [], False))"

text \<open>The condition of the \<open>while\<close> loops: when the process has to wait.\<close>

primrec must_wait :: "pipe_dir \<Rightarrow> pipe_dev \<Rightarrow> bool" where
  "must_wait Rd dev = (pd_buff_len dev = 0)"
| "must_wait Wr dev = (pd_buff_len dev \<noteq> 0)"

subsection \<open>Processes\<close>

text \<open>
  Where a process is in \<open>pipe_read\<close> or \<open>pipe_write\<close>: about to take the mutex for the first
  time or again, at the loop condition, past the unlock, queued (\<open>prepare_to_wait\<close> done), past
  the second test with or without \<open>schedule\<close>, in the body, about to wake the others, about to
  unlock, returned.
\<close>

datatype pipe_pc = Start | Check | Unlocked | Prepared | Scheduled | Finishing | Relock
  | Body | Wake "nat result" | Unlock "nat result" | Returned "nat result"

record proc =
  pr_dir :: pipe_dir
  pr_count :: nat
  pr_nonblock :: bool
  pr_pc :: pipe_pc
  pr_sleeping :: bool
  pr_signal :: bool

text \<open>The stream is kept beside the device: what was written and what was read so far.\<close>

record pipe_world =
  pw_dev :: pipe_dev
  pw_owner :: "nat option"
  pw_queue :: "pipe_dir \<Rightarrow> nat set"
  pw_proc :: "nat \<Rightarrow> proc"
  pw_sent :: "byte list"
  pw_received :: "byte list"

abbreviation pc_of :: "pipe_world \<Rightarrow> nat \<Rightarrow> pipe_pc" where
  "pc_of w i \<equiv> pr_pc (pw_proc w i)"

abbreviation dir_of :: "pipe_world \<Rightarrow> nat \<Rightarrow> pipe_dir" where
  "dir_of w i \<equiv> pr_dir (pw_proc w i)"

definition goto :: "nat \<Rightarrow> pipe_pc \<Rightarrow> pipe_world \<Rightarrow> pipe_world" where
  "goto i c w = w\<lparr>pw_proc := (pw_proc w)(i := (pw_proc w i)\<lparr>pr_pc := c\<rparr>)\<rparr>"

definition prepare_to_wait :: "nat \<Rightarrow> pipe_world \<Rightarrow> pipe_world" where
  "prepare_to_wait i w =
     w\<lparr>pw_queue := (pw_queue w)(dir_of w i := insert i (pw_queue w (dir_of w i))),
       pw_proc := (pw_proc w)(i := (pw_proc w i)\<lparr>pr_sleeping := True\<rparr>)\<rparr>"

definition finish_wait :: "nat \<Rightarrow> pipe_world \<Rightarrow> pipe_world" where
  "finish_wait i w =
     w\<lparr>pw_queue := (pw_queue w)(dir_of w i := pw_queue w (dir_of w i) - {i}),
       pw_proc := (pw_proc w)(i := (pw_proc w i)\<lparr>pr_sleeping := False\<rparr>)\<rparr>"

definition wake_up :: "pipe_dir \<Rightarrow> pipe_world \<Rightarrow> pipe_world" where
  "wake_up d w =
     w\<lparr>pw_proc := (\<lambda>j. if j \<in> pw_queue w d then (pw_proc w j)\<lparr>pr_sleeping := False\<rparr> else pw_proc w j)\<rparr>"

text \<open>
  The body under the mutex: a read takes bytes from the stream, a write adds some. \<open>c\<close> is the
  user memory the call was given.
\<close>

definition pipe_body :: "nat \<Rightarrow> to_user \<Rightarrow> from_user \<Rightarrow> pipe_world \<Rightarrow> pipe_world" where
  "pipe_body i ctu cfu w =
     (case dir_of w i of
        Rd \<Rightarrow> (case pipe_read_body ctu (pr_count (pw_proc w i)) (pw_dev w) of
                 (r, dev, bs, wk) \<Rightarrow>
                   goto i (if wk then Wake r else Unlock r) (w\<lparr>pw_dev := dev, pw_received := pw_received w @ bs\<rparr>))
      | Wr \<Rightarrow> (case pipe_write_body cfu (pr_count (pw_proc w i)) (pw_dev w) of
                 (r, dev, bs, wk) \<Rightarrow>
                   goto i (if wk then Wake r else Unlock r) (w\<lparr>pw_dev := dev, pw_sent := pw_sent w @ bs\<rparr>)))"

datatype sleep_style = Simple | Advanced

inductive pipe_step :: "sleep_style \<Rightarrow> pipe_world \<Rightarrow> pipe_world \<Rightarrow> bool" for v where
  pipe_call: "pc_of w i = Returned r \<Longrightarrow>
    pipe_step v w (w\<lparr>pw_proc := (pw_proc w)(i := \<lparr>pr_dir = d, pr_count = n, pr_nonblock = nb, pr_pc = Start,
      pr_sleeping = False, pr_signal = sg\<rparr>)\<rparr>)"
| pipe_signal: "pipe_step v w (w\<lparr>pw_proc := (pw_proc w)(i := (pw_proc w i)\<lparr>pr_signal := True, pr_sleeping := False\<rparr>)\<rparr>)"
| pipe_lock: "pc_of w i \<in> {Start, Relock} \<Longrightarrow> pw_owner w = None \<Longrightarrow>
    pipe_step v w (goto i Check (w\<lparr>pw_owner := Some i\<rparr>))"
| pipe_lock_interrupted: "pc_of w i \<in> {Start, Relock} \<Longrightarrow> pr_signal (pw_proc w i) \<Longrightarrow>
    pipe_step v w (goto i (Returned (Inl ERESTARTSYS)) w)"
| pipe_check_wait: "pc_of w i = Check \<Longrightarrow> must_wait (dir_of w i) (pw_dev w) \<Longrightarrow>
    pipe_step v w (goto i (if pr_nonblock (pw_proc w i) then Returned (Inl EAGAIN) else Unlocked) (w\<lparr>pw_owner := None\<rparr>))"
| pipe_check_go: "pc_of w i = Check \<Longrightarrow> \<not> must_wait (dir_of w i) (pw_dev w) \<Longrightarrow>
    pipe_step v w (goto i Body w)"
| pipe_wait_event: "v = Simple \<Longrightarrow> pc_of w i = Unlocked \<Longrightarrow> \<not> must_wait (dir_of w i) (pw_dev w) \<Longrightarrow>
    pipe_step v w (goto i Relock w)"
| pipe_wait_event_interrupted: "v = Simple \<Longrightarrow> pc_of w i = Unlocked \<Longrightarrow> pr_signal (pw_proc w i) \<Longrightarrow>
    pipe_step v w (goto i (Returned (Inl ERESTARTSYS)) w)"
| pipe_prepare: "v = Advanced \<Longrightarrow> pc_of w i = Unlocked \<Longrightarrow>
    pipe_step v w (goto i Prepared (prepare_to_wait i w))"
| pipe_test: "pc_of w i = Prepared \<Longrightarrow>
    pipe_step v w (goto i (if must_wait (dir_of w i) (pw_dev w) then Scheduled else Finishing) w)"
| pipe_schedule: "pc_of w i = Scheduled \<Longrightarrow> \<not> pr_sleeping (pw_proc w i) \<Longrightarrow>
    pipe_step v w (goto i Finishing w)"
| pipe_finish: "pc_of w i = Finishing \<Longrightarrow>
    pipe_step v w (goto i (if pr_signal (pw_proc w i) then Returned (Inl ERESTARTSYS) else Relock) (finish_wait i w))"
| pipe_run: "pc_of w i = Body \<Longrightarrow> from_user_ok cfu \<Longrightarrow> pipe_step v w (pipe_body i ctu cfu w)"
| pipe_wake: "pc_of w i = Wake r \<Longrightarrow> pipe_step v w (goto i (Unlock r) (wake_up (other (dir_of w i)) w))"
| pipe_unlock: "pc_of w i = Unlock r \<Longrightarrow> pipe_step v w (goto i (Returned r) (w\<lparr>pw_owner := None\<rparr>))"

text \<open>A pipe just created, before anyone has called anything.\<close>

definition pipe_init :: pipe_world where
  "pipe_init = \<lparr>pw_dev = \<lparr>pd_buff_len = 0, pd_rd_pos = 0, pd_buff = replicate BUFF_SIZE 0\<rparr>, pw_owner = None,
     pw_queue = (\<lambda>_. {}),
     pw_proc = (\<lambda>_. \<lparr>pr_dir = Rd, pr_count = 0, pr_nonblock = False, pr_pc = Returned (Inr 0),
       pr_sleeping = False, pr_signal = False\<rparr>), pw_sent = [], pw_received = []\<rparr>"

subsection \<open>Module (main.c)\<close>

datatype pipe_res = PipeRegion | PipeStruct nat | PipeCdev nat

definition pipe_destroy_devs :: "nat \<Rightarrow> pipe_res call list" where
  "pipe_destroy_devs count = destroy_devs PipeStruct PipeCdev count"

definition pipe_m_init :: "pipe_res answers \<Rightarrow> errno option \<times> pipe_res call list" where
  "pipe_m_init = devs_init PipeRegion PipeStruct PipeCdev PIPE_DEV_NR"

definition pipe_m_exit :: "pipe_res call list" where
  "pipe_m_exit = pipe_destroy_devs PIPE_DEV_NR @ [Rel PipeRegion]"

text \<open>The module of \<open>08_pipe_simple_sleep\<close> has devices of its own, created and destroyed the same way.\<close>

definition simple_pipe_destroy_devs :: "nat \<Rightarrow> pipe_res call list" where
  "simple_pipe_destroy_devs count = destroy_devs PipeStruct PipeCdev count"

definition simple_pipe_m_init :: "pipe_res answers \<Rightarrow> errno option \<times> pipe_res call list" where
  "simple_pipe_m_init = devs_init PipeRegion PipeStruct PipeCdev PIPE_DEV_NR"

definition simple_pipe_m_exit :: "pipe_res call list" where
  "simple_pipe_m_exit = simple_pipe_destroy_devs PIPE_DEV_NR @ [Rel PipeRegion]"

interpretation pipe_array: device_array PipeRegion PipeStruct PipeCdev
  by unfold_locales simp_all

lemma pipe_module_clean: "clean pipe_m_init pipe_m_exit"
  unfolding pipe_m_init_def pipe_m_exit_def pipe_destroy_devs_def devs_exit_def [symmetric]
  by (rule pipe_array.devs_clean)

lemma simple_pipe_module_clean: "clean simple_pipe_m_init simple_pipe_m_exit"
  unfolding simple_pipe_m_init_def simple_pipe_m_exit_def simple_pipe_destroy_devs_def devs_exit_def [symmetric]
  by (rule pipe_array.devs_clean)

subsection \<open>The invariant\<close>

definition pipe_dev_ok :: "pipe_dev \<Rightarrow> bool" where
  "pipe_dev_ok dev \<longleftrightarrow> length (pd_buff dev) = BUFF_SIZE \<and> pd_buff_len dev \<le> BUFF_SIZE \<and>
     (if pd_buff_len dev = 0 then pd_rd_pos dev = 0 else pd_rd_pos dev < pd_buff_len dev)"

text \<open>What is in the buffer and not yet read.\<close>

definition pending :: "pipe_dev \<Rightarrow> byte list" where
  "pending dev = mem_get (pd_rd_pos dev) (pd_buff_len dev - pd_rd_pos dev) (pd_buff dev)"

fun holds :: "pipe_pc \<Rightarrow> bool" where
  "holds Check = True" | "holds Body = True" | "holds (Wake r) = True" | "holds (Unlock r) = True" | "holds _ = False"

fun queued :: "pipe_pc \<Rightarrow> bool" where
  "queued Prepared = True" | "queued Scheduled = True" | "queued Finishing = True" | "queued _ = False"

definition inv_mutex :: "pipe_world \<Rightarrow> bool" where
  "inv_mutex w \<longleftrightarrow> (\<forall>i. pw_owner w = Some i \<longleftrightarrow> holds (pc_of w i))"

definition inv_body :: "pipe_world \<Rightarrow> bool" where
  "inv_body w \<longleftrightarrow> (\<forall>i. pc_of w i = Body \<longrightarrow> \<not> must_wait (dir_of w i) (pw_dev w))"

definition inv_queue :: "pipe_world \<Rightarrow> bool" where
  "inv_queue w \<longleftrightarrow> (\<forall>i d. i \<in> pw_queue w d \<longleftrightarrow> dir_of w i = d \<and> queued (pc_of w i)) \<and>
     (\<forall>i. pr_sleeping (pw_proc w i) \<longrightarrow> queued (pc_of w i))"

definition inv_sleep :: "pipe_world \<Rightarrow> bool" where
  "inv_sleep w \<longleftrightarrow> (\<forall>i. pc_of w i = Scheduled \<longrightarrow> pr_sleeping (pw_proc w i) \<longrightarrow> \<not> must_wait (dir_of w i) (pw_dev w) \<longrightarrow>
     (\<exists>j r. pc_of w j = Wake r \<and> dir_of w j = other (dir_of w i)))"

definition inv_stream :: "pipe_world \<Rightarrow> bool" where
  "inv_stream w \<longleftrightarrow> pipe_dev_ok (pw_dev w) \<and> pw_received w @ pending (pw_dev w) = pw_sent w"

lemma other_other [simp]: "other (other d) = d" by (cases d) simp_all
lemma other_neq [simp]: "other d \<noteq> d" "d \<noteq> other d" by (cases d, simp_all)+

lemma must_wait_other: "must_wait (other d) dev \<longleftrightarrow> \<not> must_wait d dev"
  by (cases d) simp_all

lemma goto_sel [simp]:
  "pw_dev (goto i c w) = pw_dev w" "pw_owner (goto i c w) = pw_owner w" "pw_queue (goto i c w) = pw_queue w"
  "pw_sent (goto i c w) = pw_sent w" "pw_received (goto i c w) = pw_received w"
  "pr_pc (pw_proc (goto i c w) j) = (if j = i then c else pc_of w j)"
  "pr_dir (pw_proc (goto i c w) j) = dir_of w j" "pr_sleeping (pw_proc (goto i c w) j) = pr_sleeping (pw_proc w j)"
  "pr_nonblock (pw_proc (goto i c w) j) = pr_nonblock (pw_proc w j)" "pr_count (pw_proc (goto i c w) j) = pr_count (pw_proc w j)"
  by (simp_all add: goto_def)

lemma wake_up_sel [simp]:
  "pw_dev (wake_up d w) = pw_dev w" "pw_owner (wake_up d w) = pw_owner w" "pw_queue (wake_up d w) = pw_queue w"
  "pw_sent (wake_up d w) = pw_sent w" "pw_received (wake_up d w) = pw_received w"
  "pr_pc (pw_proc (wake_up d w) j) = pc_of w j" "pr_dir (pw_proc (wake_up d w) j) = dir_of w j"
  "pr_sleeping (pw_proc (wake_up d w) j) = (j \<notin> pw_queue w d \<and> pr_sleeping (pw_proc w j))"
  by (simp_all add: wake_up_def)

lemma wait_sel [simp]:
  "pw_dev (prepare_to_wait i w) = pw_dev w" "pw_owner (prepare_to_wait i w) = pw_owner w"
  "pw_sent (prepare_to_wait i w) = pw_sent w" "pw_received (prepare_to_wait i w) = pw_received w"
  "pr_pc (pw_proc (prepare_to_wait i w) j) = pc_of w j" "pr_dir (pw_proc (prepare_to_wait i w) j) = dir_of w j"
  "pr_sleeping (pw_proc (prepare_to_wait i w) j) = (j = i \<or> pr_sleeping (pw_proc w j))"
  "j \<in> pw_queue (prepare_to_wait i w) d \<longleftrightarrow> j \<in> pw_queue w d \<or> (j = i \<and> d = dir_of w i)"
  "pw_dev (finish_wait i w) = pw_dev w" "pw_owner (finish_wait i w) = pw_owner w"
  "pw_sent (finish_wait i w) = pw_sent w" "pw_received (finish_wait i w) = pw_received w"
  "pr_pc (pw_proc (finish_wait i w) j) = pc_of w j" "pr_dir (pw_proc (finish_wait i w) j) = dir_of w j"
  "pr_sleeping (pw_proc (finish_wait i w) j) = (j \<noteq> i \<and> pr_sleeping (pw_proc w j))"
  "j \<in> pw_queue (finish_wait i w) d \<longleftrightarrow> j \<in> pw_queue w d \<and> (j = i \<longrightarrow> d \<noteq> dir_of w i)"
  by (auto simp: prepare_to_wait_def finish_wait_def)

text \<open>What the body does to the rest: it is a jump to the unlock, by way of a wake-up if needed.\<close>

lemma pipe_read_body_wake:
  "pipe_read_body ctu n dev = (r, dev', bs, wk) \<Longrightarrow>
   if wk then pd_buff_len dev' = 0 else pd_buff_len dev' = pd_buff_len dev"
  by (auto simp: pipe_read_body_def Let_def split: if_splits)

lemma pipe_write_body_wake:
  "pipe_write_body cfu n dev = (r, dev', bs, wk) \<Longrightarrow>
   if wk then pd_buff_len dev' \<noteq> 0 else pd_buff_len dev' = pd_buff_len dev"
  by (auto simp: pipe_write_body_def Let_def BUFF_SIZE_def split: if_splits prod.splits)

lemma pipe_body_sel [simp]:
  "pw_owner (pipe_body i ctu cfu w) = pw_owner w" "pw_queue (pipe_body i ctu cfu w) = pw_queue w"
  "pr_dir (pw_proc (pipe_body i ctu cfu w) j) = dir_of w j"
  "pr_sleeping (pw_proc (pipe_body i ctu cfu w) j) = pr_sleeping (pw_proc w j)"
  "j \<noteq> i \<Longrightarrow> pr_pc (pw_proc (pipe_body i ctu cfu w) j) = pc_of w j"
  by (simp_all add: pipe_body_def split: pipe_dir.split prod.split)

lemma pipe_body_spec:
  "\<exists>r wk. pc_of (pipe_body i ctu cfu w) i = (if wk then Wake r else Unlock r) \<and>
     (if wk then must_wait (dir_of w i) (pw_dev (pipe_body i ctu cfu w))
      else pd_buff_len (pw_dev (pipe_body i ctu cfu w)) = pd_buff_len (pw_dev w))"
proof (cases "dir_of w i")
  case Rd
  obtain r dev bs wk where b: "pipe_read_body ctu (pr_count (pw_proc w i)) (pw_dev w) = (r, dev, bs, wk)"
    using prod_cases4 by blast
  then show ?thesis
    using pipe_read_body_wake [OF b] Rd by (intro exI [of _ r] exI [of _ wk]) (simp add: pipe_body_def)
next
  case Wr
  obtain r dev bs wk where b: "pipe_write_body cfu (pr_count (pw_proc w i)) (pw_dev w) = (r, dev, bs, wk)"
    using prod_cases4 by blast
  then show ?thesis
    using pipe_write_body_wake [OF b] Wr by (intro exI [of _ r] exI [of _ wk]) (simp add: pipe_body_def)
qed

lemma must_wait_cong: "pd_buff_len dev' = pd_buff_len dev \<Longrightarrow> must_wait d dev' = must_wait d dev"
  by (cases d) simp_all

lemma inv_mutex_step: "pipe_step v w w' \<Longrightarrow> inv_mutex w \<Longrightarrow> inv_mutex w'"
proof (induction rule: pipe_step.induct)
  case (pipe_run w i cfu ctu)
  obtain r wk where "pc_of (pipe_body i ctu cfu w) i = (if wk then Wake r else Unlock r)"
    using pipe_body_spec [of i ctu cfu w] by blast
  then have "holds (pc_of (pipe_body i ctu cfu w) i)" by simp
  then show ?case using pipe_run unfolding inv_mutex_def by (metis holds.simps(2) pipe_body_sel(1,5))
next
  case (pipe_lock w i)
  then have "\<not> holds (pc_of w j)" for j unfolding inv_mutex_def by (metis option.distinct(1))
  then show ?case by (simp add: inv_mutex_def)
next
  case (pipe_check_wait w i)
  then have "holds (pc_of w j) \<longleftrightarrow> j = i" for j unfolding inv_mutex_def by (metis holds.simps(1) option.inject)
  then show ?case by (simp add: inv_mutex_def)
next
  case (pipe_unlock w i r)
  then have "holds (pc_of w j) \<longleftrightarrow> j = i" for j unfolding inv_mutex_def by (metis holds.simps(4) option.inject)
  then show ?case by (simp add: inv_mutex_def)
qed (auto simp: inv_mutex_def)

lemma holder_unique: "inv_mutex w \<Longrightarrow> holds (pc_of w i) \<Longrightarrow> holds (pc_of w j) \<Longrightarrow> j = i"
  unfolding inv_mutex_def by (metis option.inject)

lemma inv_body_step: "pipe_step v w w' \<Longrightarrow> inv_mutex w \<Longrightarrow> inv_body w \<Longrightarrow> inv_body w'"
proof (induction rule: pipe_step.induct)
  case (pipe_run w i cfu ctu)
  have "pc_of (pipe_body i ctu cfu w) i \<noteq> Body"
    using pipe_body_spec [of i ctu cfu w] by (auto split: if_splits)
  moreover have "pc_of w j \<noteq> Body" if "j \<noteq> i" for j
    using holder_unique [OF pipe_run(3), of i j] pipe_run(1) that by auto
  ultimately show ?case unfolding inv_body_def by (metis pipe_body_sel(5))
qed (auto simp: inv_body_def split: if_splits)

lemma inv_queue_step: "pipe_step v w w' \<Longrightarrow> inv_queue w \<Longrightarrow> inv_queue w'"
proof (induction rule: pipe_step.induct)
  case (pipe_run w i cfu ctu)
  have "\<not> queued (pc_of (pipe_body i ctu cfu w) i)"
    using pipe_body_spec [of i ctu cfu w] by (auto split: if_splits)
  moreover have "\<not> queued (pc_of w i)" using pipe_run(1) by simp
  ultimately have "queued (pc_of (pipe_body i ctu cfu w) j) = queued (pc_of w j)" for j
    by (cases "j = i") simp_all
  then show ?case using pipe_run(3) by (simp add: inv_queue_def)
qed (auto simp: inv_queue_def split: if_splits)

text \<open>Nobody sleeps on a condition that has come true, unless the wake-up is on its way.\<close>

lemma inv_sleep_body:
  assumes "pc_of w i = Body" "inv_mutex w" "inv_body w" "inv_sleep w"
  shows "inv_sleep (pipe_body i ctu cfu w)"
  unfolding inv_sleep_def
proof (intro allI impI)
  let ?w = "pipe_body i ctu cfu w"
  fix k
  assume k: "pc_of ?w k = Scheduled" "pr_sleeping (pw_proc ?w k)" "\<not> must_wait (dir_of ?w k) (pw_dev ?w)"
  obtain r wk where b: "pc_of ?w i = (if wk then Wake r else Unlock r)"
    "if wk then must_wait (dir_of w i) (pw_dev ?w) else pd_buff_len (pw_dev ?w) = pd_buff_len (pw_dev w)"
    using pipe_body_spec [of i ctu cfu w] by blast
  have ki: "k \<noteq> i" using k(1) b(1) by (cases "k = i") (simp_all split: if_splits)
  have nowake: "pc_of w j \<noteq> Wake r'" for j r'
    using holder_unique [OF assms(2), of i j] assms(1) by auto
  have old: "must_wait (dir_of w k) (pw_dev w)"
    using assms(4) k ki nowake unfolding inv_sleep_def by auto
  have "wk" using k(3) b(2) old must_wait_cong [of "pw_dev ?w" "pw_dev w"] by (auto split: if_splits)
  moreover have "dir_of w i = other (dir_of w k)"
  proof -
    have "\<not> must_wait (dir_of w i) (pw_dev w)" using assms(1,3) by (simp add: inv_body_def)
    then have "dir_of w i \<noteq> dir_of w k" using old by auto
    then show ?thesis by (cases "dir_of w i"; cases "dir_of w k") simp_all
  qed
  ultimately show "\<exists>j r. pc_of ?w j = Wake r \<and> dir_of ?w j = other (dir_of ?w k)"
    using b(1) by (intro exI [of _ i] exI [of _ r]) simp
qed

lemma inv_sleep_wake:
  assumes "pc_of w i = Wake r" "inv_mutex w" "inv_queue w" "inv_sleep w"
  shows "inv_sleep (goto i (Unlock r) (wake_up (other (dir_of w i)) w))"
  unfolding inv_sleep_def
proof (intro allI impI)
  let ?w = "goto i (Unlock r) (wake_up (other (dir_of w i)) w)"
  fix k
  assume k: "pc_of ?w k = Scheduled" "pr_sleeping (pw_proc ?w k)" "\<not> must_wait (dir_of ?w k) (pw_dev ?w)"
  have ki: "k \<noteq> i" using k(1) by auto
  have "queued (pc_of w k)" using k(1) ki by simp
  then have "dir_of w k \<noteq> other (dir_of w i)" using k(2) assms(3) by (auto simp: inv_queue_def)
  then have same: "dir_of w k = dir_of w i" by (cases "dir_of w i"; cases "dir_of w k") simp_all
  obtain j r' where j: "pc_of w j = Wake r'" "dir_of w j = other (dir_of w k)"
    using assms(4) k ki unfolding inv_sleep_def by auto
  have "j = i" using holder_unique [OF assms(2), of i j] j(1) assms(1) by simp
  then show "\<exists>j r. pc_of ?w j = Wake r \<and> dir_of ?w j = other (dir_of ?w k)" using j(2) same by simp
qed

text \<open>Steps that neither touch the buffer nor pass a \<open>Wake\<close>.\<close>

lemma inv_sleep_quiet:
  assumes "inv_sleep w" "pw_dev w' = pw_dev w"
    and "\<And>j. pc_of w' j = Scheduled \<Longrightarrow> pr_sleeping (pw_proc w' j) \<Longrightarrow>
      must_wait (dir_of w' j) (pw_dev w) \<or> (pc_of w j = Scheduled \<and> pr_sleeping (pw_proc w j) \<and> dir_of w' j = dir_of w j)"
    and "\<And>j r. pc_of w j = Wake r \<Longrightarrow> pc_of w' j = Wake r \<and> dir_of w' j = dir_of w j"
  shows "inv_sleep w'"
  using assms unfolding inv_sleep_def by metis

lemma inv_sleep_step:
  "pipe_step v w w' \<Longrightarrow> inv_mutex w \<Longrightarrow> inv_body w \<Longrightarrow> inv_queue w \<Longrightarrow> inv_sleep w \<Longrightarrow> inv_sleep w'"
proof (induction rule: pipe_step.induct)
  case (pipe_run w i cfu ctu)
  then show ?case by (intro inv_sleep_body)
next
  case (pipe_wake w i r)
  then show ?case by (intro inv_sleep_wake)
qed (erule inv_sleep_quiet; auto split: if_splits)+

text \<open>The stream: what was read, followed by what waits in the buffer, is what was written.\<close>

lemma pipe_read_body_stream:
  assumes "pipe_dev_ok dev" "pd_buff_len dev \<noteq> 0" "pipe_read_body ctu n dev = (r, dev', bs, wk)"
  shows "pipe_dev_ok dev' \<and> bs @ pending dev' = pending dev"
proof -
  let ?c = "min n (pd_buff_len dev - pd_rd_pos dev)"
  have "?c + (pd_buff_len dev - pd_rd_pos dev - ?c) = pd_buff_len dev - pd_rd_pos dev" by linarith
  then have "mem_get (pd_rd_pos dev) ?c (pd_buff dev) @ mem_get (pd_rd_pos dev + ?c) (pd_buff_len dev - pd_rd_pos dev - ?c) (pd_buff dev) =
      pending dev"
    unfolding pending_def mem_get_append_adjacent by (simp only:)
  then show ?thesis
    using assms by (auto simp: pipe_read_body_def Let_def pipe_dev_ok_def pending_def split: if_splits)
qed

lemma pipe_write_body_stream:
  assumes "pipe_dev_ok dev" "pd_buff_len dev = 0" "from_user_ok cfu" "pipe_write_body cfu n dev = (r, dev', bs, wk)"
  shows "pipe_dev_ok dev' \<and> pending dev' = bs"
proof -
  let ?c = "min n BUFF_SIZE"
  obtain left xs where c: "cfu ?c = (left, xs)" by fastforce
  have len: "length xs = ?c" using from_user_ok_length [OF assms(3), of ?c] c by simp
  have buf: "length (mem_put 0 xs (pd_buff dev)) = BUFF_SIZE" "mem_get 0 ?c (mem_put 0 xs (pd_buff dev)) = xs"
    using assms(1) len mem_get_mem_put [of 0 xs "pd_buff dev"] by (simp_all add: length_mem_put pipe_dev_ok_def)
  show ?thesis
    using assms(1,2,4) c buf by (auto simp: pipe_write_body_def Let_def pipe_dev_ok_def pending_def split: if_splits)
qed

lemma inv_stream_step: "pipe_step v w w' \<Longrightarrow> inv_body w \<Longrightarrow> inv_stream w \<Longrightarrow> inv_stream w'"
proof (induction rule: pipe_step.induct)
  case (pipe_run w i cfu ctu)
  have go: "\<not> must_wait (dir_of w i) (pw_dev w)" using pipe_run by (simp add: inv_body_def)
  show ?case
  proof (cases "dir_of w i")
    case Rd
    obtain r dev bs wk where b: "pipe_read_body ctu (pr_count (pw_proc w i)) (pw_dev w) = (r, dev, bs, wk)"
      using prod_cases4 by blast
    then show ?thesis
      using pipe_read_body_stream [OF _ _ b] pipe_run(4) go Rd by (simp add: inv_stream_def pipe_body_def b)
  next
    case Wr
    obtain r dev bs wk where b: "pipe_write_body cfu (pr_count (pw_proc w i)) (pw_dev w) = (r, dev, bs, wk)"
      using prod_cases4 by blast
    have "pending (pw_dev w) = []" using go Wr by (simp add: pending_def)
    then show ?thesis
      using pipe_write_body_stream [OF _ _ pipe_run(2) b] pipe_run(4) go Wr by (simp add: inv_stream_def pipe_body_def b)
  qed
qed (simp_all add: inv_stream_def)

definition pipe_inv :: "pipe_world \<Rightarrow> bool" where
  "pipe_inv w \<longleftrightarrow> inv_mutex w \<and> inv_body w \<and> inv_queue w \<and> inv_sleep w \<and> inv_stream w"

lemma pipe_inv_reachable:
  assumes "(pipe_step v)\<^sup>*\<^sup>* pipe_init w"
  shows "pipe_inv w"
  using assms
proof (induction rule: rtranclp_induct)
  case base
  then show ?case
    by (simp add: pipe_inv_def pipe_init_def inv_mutex_def inv_body_def inv_queue_def inv_sleep_def inv_stream_def
        pipe_dev_ok_def pending_def)
next
  case (step w w')
  then show ?case
    unfolding pipe_inv_def
    using inv_mutex_step inv_body_step inv_queue_step inv_sleep_step inv_stream_step by meson
qed

subsection \<open>Properties\<close>

text \<open>
  C16: No wake-up is lost in the hand-written sleep of example 09. In every interleaving of any
  number of readers and writers, if a process is asleep although what it waits for has become
  true, then the process that made it true holds the mutex and is about to wake the queue, and
  that step wakes the sleeper.
\<close>

theorem pipe_no_lost_wakeup:
  assumes "(pipe_step Advanced)\<^sup>*\<^sup>* pipe_init w"
    and "pc_of w i = Scheduled" and "pr_sleeping (pw_proc w i)" and "\<not> must_wait (dir_of w i) (pw_dev w)"
  shows "\<exists>j r. pw_owner w = Some j \<and> pc_of w j = Wake r \<and>
    pipe_step Advanced w (goto j (Unlock r) (wake_up (other (dir_of w j)) w)) \<and>
    \<not> pr_sleeping (pw_proc (goto j (Unlock r) (wake_up (other (dir_of w j)) w)) i)"
proof -
  have inv: "inv_mutex w" "inv_queue w" "inv_sleep w" using pipe_inv_reachable [OF assms(1)] by (simp_all add: pipe_inv_def)
  obtain j r where j: "pc_of w j = Wake r" "dir_of w j = other (dir_of w i)"
    using inv(3) assms(2-4) unfolding inv_sleep_def by blast
  have "i \<in> pw_queue w (dir_of w i)" using inv(2) assms(2) by (simp add: inv_queue_def)
  then show ?thesis
    using j inv(1) pipe_wake [OF j(1)] by (intro exI [of _ j] exI [of _ r]) (simp add: inv_mutex_def)
qed

text \<open>A reader asleep on an empty pipe, and a writer that has just filled it.\<close>

definition demo_reader :: pipe_world where
  "demo_reader = goto 0 Scheduled (goto 0 Prepared (prepare_to_wait 0 (goto 0 Unlocked ((goto 0 Check
     (pipe_init\<lparr>pw_proc := (pw_proc pipe_init)(0 := \<lparr>pr_dir = Rd, pr_count = 4, pr_nonblock = False, pr_pc = Start,
        pr_sleeping = False, pr_signal = False\<rparr>), pw_owner := Some 0\<rparr>))\<lparr>pw_owner := None\<rparr>))))"

definition demo_writer :: pipe_world where
  "demo_writer = pipe_body 1 (\<lambda>_. 0) (user_buffer [1, 2, 3]) (goto 1 Body (goto 1 Check
     (demo_reader\<lparr>pw_proc := (pw_proc demo_reader)(1 := \<lparr>pr_dir = Wr, pr_count = 3, pr_nonblock = False, pr_pc = Start,
        pr_sleeping = False, pr_signal = False\<rparr>), pw_owner := Some 1\<rparr>)))"

lemma demo_reader_facts:
  "pw_owner demo_reader = None" "pc_of demo_reader 0 = Scheduled" "pr_sleeping (pw_proc demo_reader 0)"
  "dir_of demo_reader 0 = Rd" "pc_of demo_reader 1 = Returned (Inr 0)" "pd_buff_len (pw_dev demo_reader) = 0"
  by (simp_all add: demo_reader_def pipe_init_def)

lemma demo_reader_reachable: "(pipe_step Advanced)\<^sup>*\<^sup>* pipe_init demo_reader"
proof -
  let ?w1 = "pipe_init\<lparr>pw_proc := (pw_proc pipe_init)(0 := \<lparr>pr_dir = Rd, pr_count = 4, pr_nonblock = False, pr_pc = Start,
        pr_sleeping = False, pr_signal = False\<rparr>)\<rparr>"
  let ?w2 = "goto 0 Check (?w1\<lparr>pw_owner := Some 0\<rparr>)"
  let ?w3 = "goto 0 Unlocked (?w2\<lparr>pw_owner := None\<rparr>)"
  let ?w4 = "goto 0 Prepared (prepare_to_wait 0 ?w3)"
  have 1: "pipe_step Advanced pipe_init ?w1" by (rule pipe_call [where r = "Inr 0"]) (simp add: pipe_init_def)
  have 2: "pipe_step Advanced ?w1 ?w2" by (rule pipe_lock) (simp_all add: pipe_init_def)
  have 3: "pipe_step Advanced ?w2 ?w3"
    using pipe_check_wait [of ?w2 0 Advanced] by (simp add: pipe_init_def)
  have 4: "pipe_step Advanced ?w3 ?w4" by (rule pipe_prepare) simp_all
  have 5: "pipe_step Advanced ?w4 demo_reader"
    using pipe_test [of ?w4 0 Advanced] by (simp add: demo_reader_def pipe_init_def)
  from 1 2 3 4 5 show ?thesis by (meson r_into_rtranclp rtranclp_trans)
qed

lemma demo_writer_reachable: "(pipe_step Advanced)\<^sup>*\<^sup>* pipe_init demo_writer"
proof -
  let ?w1 = "demo_reader\<lparr>pw_proc := (pw_proc demo_reader)(1 := \<lparr>pr_dir = Wr, pr_count = 3, pr_nonblock = False, pr_pc = Start,
        pr_sleeping = False, pr_signal = False\<rparr>)\<rparr>"
  let ?w2 = "goto 1 Check (?w1\<lparr>pw_owner := Some 1\<rparr>)"
  let ?w3 = "goto 1 Body ?w2"
  have 1: "pipe_step Advanced demo_reader ?w1" by (rule pipe_call [OF demo_reader_facts(5)])
  have 2: "pipe_step Advanced ?w1 ?w2" by (rule pipe_lock) (simp_all add: demo_reader_facts)
  have 3: "pipe_step Advanced ?w2 ?w3" by (rule pipe_check_go) (simp_all add: demo_reader_facts)
  have 4: "pipe_step Advanced ?w3 demo_writer"
    using pipe_run [of ?w3 1 "user_buffer [1, 2, 3]" Advanced "\<lambda>_. 0"] by (simp add: demo_writer_def)
  from 1 2 3 4 show ?thesis using demo_reader_reachable by (meson r_into_rtranclp rtranclp_trans)
qed

theorem pipe_no_lost_wakeup_witness:
  "\<exists>j r. pw_owner demo_writer = Some j \<and> pc_of demo_writer j = Wake r"
proof -
  have "pc_of demo_writer 0 = Scheduled" "pr_sleeping (pw_proc demo_writer 0)" "dir_of demo_writer 0 = Rd"
    by (simp_all add: demo_writer_def demo_reader_facts)
  moreover have "pd_buff_len (pw_dev demo_writer) \<noteq> 0"
    by (simp add: demo_writer_def pipe_body_def pipe_write_body_def Let_def BUFF_SIZE_def user_buffer_def)
  ultimately show ?thesis using pipe_no_lost_wakeup [OF demo_writer_reachable, of 0] by auto
qed

text \<open>
  C17: The pipe is a stream. However many readers and writers interleave, sleep, are interrupted
  by signals or give bad buffers, in either example, the bytes read so far followed by the bytes
  in the buffer are exactly the bytes written so far, in order: none is lost, repeated or
  reordered, and the buffer is never overrun.
\<close>

theorem pipe_is_a_stream:
  assumes "(pipe_step v)\<^sup>*\<^sup>* pipe_init w"
  shows "pw_received w @ pending (pw_dev w) = pw_sent w \<and> length (pd_buff (pw_dev w)) = BUFF_SIZE \<and>
    pd_rd_pos (pw_dev w) \<le> pd_buff_len (pw_dev w) \<and> pd_buff_len (pw_dev w) \<le> BUFF_SIZE"
  using pipe_inv_reachable [OF assms] by (auto simp: pipe_inv_def inv_stream_def pipe_dev_ok_def split: if_splits)

theorem pipe_is_a_stream_witness:
  "pw_received demo_writer @ pending (pw_dev demo_writer) = pw_sent demo_writer \<and> pw_sent demo_writer = [1, 2, 3]"
proof -
  have "pw_sent demo_reader = []" by (simp add: demo_reader_def pipe_init_def)
  then have "pw_sent demo_writer = [1, 2, 3]"
    by (simp add: demo_writer_def pipe_body_def pipe_write_body_def Let_def BUFF_SIZE_def user_buffer_def)
  then show ?thesis using pipe_is_a_stream [OF demo_writer_reachable] by simp
qed

text \<open>
  The mutex does its work. At most one process is between lock and unlock, it is the owner of
  the mutex, it never sleeps there, and it enters the body only when the condition it waited for
  holds.
\<close>

lemma pipe_mutual_exclusion:
  assumes "(pipe_step v)\<^sup>*\<^sup>* pipe_init w" and "holds (pc_of w i)"
  shows "pw_owner w = Some i \<and> (\<forall>j. holds (pc_of w j) \<longrightarrow> j = i) \<and> \<not> pr_sleeping (pw_proc w i) \<and>
    (pc_of w i = Body \<longrightarrow> \<not> must_wait (dir_of w i) (pw_dev w))"
proof -
  have inv: "inv_mutex w" "inv_body w" "inv_queue w" using pipe_inv_reachable [OF assms(1)] by (simp_all add: pipe_inv_def)
  have "\<not> queued (pc_of w i)" using assms(2) by (cases "pc_of w i") simp_all
  then have "\<not> pr_sleeping (pw_proc w i)" using inv(3) by (auto simp: inv_queue_def)
  moreover have "j = i" if "holds (pc_of w j)" for j by (rule holder_unique [OF inv(1) assms(2) that])
  ultimately show ?thesis using assms(2) inv(1,2) unfolding inv_mutex_def inv_body_def by blast
qed

lemma pipe_mutual_exclusion_witness: "pw_owner demo_writer = Some 1"
proof -
  have "holds (pc_of demo_writer 1)"
    by (simp add: demo_writer_def pipe_body_def pipe_write_body_def Let_def BUFF_SIZE_def user_buffer_def)
  then show ?thesis by (rule pipe_mutual_exclusion [OF demo_writer_reachable, THEN conjunct1])
qed

end
