(* ===== verification/Memdisk.thy ===== *)
theory Memdisk
  imports Lifecycle
begin

section \<open>The RAM disk (examples/29_block_device)\<close>

text \<open>
  A disk kept in memory. The block layer hands the driver requests, lists of bios that cover
  consecutive sectors, each a list of segments in memory; in its bio-based mode single bios. A
  segment is modelled by its contents: a write reads them, a read replaces them. Sectors and
  sizes are 64-bit words, as the range check computes with them.
\<close>

definition SECTOR_SHIFT :: nat where "SECTOR_SHIFT = 9"
definition SECTOR_SIZE :: nat where "SECTOR_SIZE = 512"
definition MEMDISK_PAGE_SIZE :: nat where "MEMDISK_PAGE_SIZE = 4096"

record memdisk =
  md_size :: "64 word"
  md_data :: "byte list"

datatype blk_status = BLK_STS_OK | BLK_STS_IOERR | BLK_STS_NOTSUPP

datatype req_op = REQ_OP_READ | REQ_OP_WRITE | REQ_OP_FLUSH | REQ_OP_DISCARD

type_synonym bvec = "byte list"

record bio =
  bi_op :: req_op
  bi_sector :: "64 word"
  bi_segs :: "bvec list"

subsection \<open>Data path\<close>

definition memdisk_transfer :: "memdisk \<Rightarrow> 64 word \<Rightarrow> bvec \<Rightarrow> bool \<Rightarrow> blk_status \<times> memdisk \<times> bvec" where
  "memdisk_transfer dev sector bv write =
     (let offset = push_bit SECTOR_SHIFT sector
      in if offset + of_nat (length bv) > md_size dev then (BLK_STS_IOERR, dev, bv)
         else if write then (BLK_STS_OK, dev\<lparr>md_data := mem_put (unat offset) bv (md_data dev)\<rparr>, bv)
         else (BLK_STS_OK, dev, mem_get (unat offset) (length bv) (md_data dev)))"

text \<open>How far a segment advances the sector.\<close>

definition bv_sectors :: "bvec \<Rightarrow> 64 word" where
  "bv_sectors bv = of_nat (length bv div 2 ^ SECTOR_SHIFT)"

text \<open>
  The loop over segments; it starts out with the status it returns if there are none. Segments
  after a failure are left alone.
\<close>

fun seg_loop :: "blk_status \<Rightarrow> memdisk \<Rightarrow> 64 word \<Rightarrow> bvec list \<Rightarrow> bool \<Rightarrow> blk_status \<times> memdisk \<times> bvec list" where
  "seg_loop status dev sector [] write = (status, dev, [])"
| "seg_loop status dev sector (bv # bvs) write =
     (case memdisk_transfer dev sector bv write of
        (st, dev1, bv1) \<Rightarrow>
          if st \<noteq> BLK_STS_OK then (st, dev1, bv1 # bvs)
          else (case seg_loop st dev1 (sector + bv_sectors bv) bvs write of
                  (st', dev2, bvs1) \<Rightarrow> (st', dev2, bv1 # bvs1)))"

definition memdisk_xfer_bio :: "memdisk \<Rightarrow> bio \<Rightarrow> blk_status \<times> memdisk \<times> bio" where
  "memdisk_xfer_bio dev b =
     (case seg_loop BLK_STS_OK dev (bi_sector b) (bi_segs b) (bi_op b = REQ_OP_WRITE) of
        (st, dev1, segs) \<Rightarrow> (st, dev1, b\<lparr>bi_segs := segs\<rparr>))"

definition memdisk_rw :: "req_op \<Rightarrow> bool" where
  "memdisk_rw op \<longleftrightarrow> op = REQ_OP_READ \<or> op = REQ_OP_WRITE"

text \<open>
  A request is its bios. \<open>rq_for_each_segment\<close> walks the segments of all of them as one list;
  \<open>restore\<close> deals the transferred segments out to the bios again.
\<close>

fun restore :: "bio list \<Rightarrow> bvec list \<Rightarrow> bio list" where
  "restore [] bvs = []"
| "restore (b # bs) bvs = b\<lparr>bi_segs := take (length (bi_segs b)) bvs\<rparr> # restore bs (drop (length (bi_segs b)) bvs)"

definition rq_op :: "bio list \<Rightarrow> req_op" where
  "rq_op rq = bi_op (hd rq)"

definition blk_rq_pos :: "bio list \<Rightarrow> 64 word" where
  "blk_rq_pos rq = bi_sector (hd rq)"

definition memdisk_queue_rq_simple :: "memdisk \<Rightarrow> bio list \<Rightarrow> blk_status \<times> memdisk \<times> bio list" where
  "memdisk_queue_rq_simple dev rq =
     (if memdisk_rw (rq_op rq)
      then (case seg_loop BLK_STS_NOTSUPP dev (blk_rq_pos rq) (concat (map bi_segs rq)) (rq_op rq = REQ_OP_WRITE) of
              (st, dev1, bvs) \<Rightarrow> (st, dev1, restore rq bvs))
      else (BLK_STS_NOTSUPP, dev, rq))"

fun bio_loop :: "blk_status \<Rightarrow> memdisk \<Rightarrow> bio list \<Rightarrow> blk_status \<times> memdisk \<times> bio list" where
  "bio_loop status dev [] = (status, dev, [])"
| "bio_loop status dev (b # bs) =
     (case memdisk_xfer_bio dev b of
        (st, dev1, b1) \<Rightarrow>
          if st \<noteq> BLK_STS_OK then (st, dev1, b1 # bs)
          else (case bio_loop st dev1 bs of (st', dev2, bs1) \<Rightarrow> (st', dev2, b1 # bs1)))"

definition memdisk_queue_rq_full :: "memdisk \<Rightarrow> bio list \<Rightarrow> blk_status \<times> memdisk \<times> bio list" where
  "memdisk_queue_rq_full dev rq =
     (if memdisk_rw (rq_op rq) then bio_loop BLK_STS_NOTSUPP dev rq else (BLK_STS_NOTSUPP, dev, rq))"

definition memdisk_submit_bio :: "memdisk \<Rightarrow> bio \<Rightarrow> blk_status \<times> memdisk \<times> bio" where
  "memdisk_submit_bio dev b =
     (if memdisk_rw (bi_op b) then memdisk_xfer_bio dev b else (BLK_STS_NOTSUPP, dev, b))"

subsection \<open>Module\<close>

datatype request_mode = RM_SIMPLE | RM_FULL | RM_NOQUEUE

datatype memdisk_call = MdStruct | MdData | MdMajor | MdTags | MdDisk | MdLive

definition err_tags :: "request_mode \<Rightarrow> memdisk_call call list" where
  [life_defs]: "err_tags mode = (if mode \<noteq> RM_NOQUEUE then [Rel MdTags] else [])"

definition memdisk_create_disk :: "request_mode \<Rightarrow> memdisk_call answers \<Rightarrow> errno option \<times> memdisk_call call list" where
  "memdisk_create_disk mode F =
     (let tags = (if mode = RM_NOQUEUE then [] else [Acq MdTags])
      in if_err (if mode = RM_NOQUEUE then None else F MdTags) (\<lambda>e. (Some e, []))
        (if_err (F MdDisk) (\<lambda>e. (Some e, tags @ err_tags mode))
          (if_err (F MdLive) (\<lambda>e. (Some e, tags @ [Acq MdDisk, Rel MdDisk] @ err_tags mode))
            (None, tags @ [Acq MdDisk, Acq MdLive]))))"

definition memdisk_destroy_disk :: "request_mode \<Rightarrow> memdisk_call call list" where
  "memdisk_destroy_disk mode = [Rel MdLive, Rel MdDisk] @ err_tags mode"

definition is_power_of_2_64 :: "64 word \<Rightarrow> bool" where
  "is_power_of_2_64 v \<longleftrightarrow> v \<noteq> 0 \<and> v AND (v - 1) = 0"

definition memdisk_params_ok :: "64 word \<Rightarrow> int \<Rightarrow> int \<Rightarrow> bool" where
  "memdisk_params_ok nsectors hardsect_size mode \<longleftrightarrow>
     \<not> (\<not> is_power_of_2_64 (of_int hardsect_size) \<or> hardsect_size < int SECTOR_SIZE \<or>
        hardsect_size > int MEMDISK_PAGE_SIZE \<or> nsectors = 0 \<or> mode < 0 \<or> mode > 2)"

definition mode_of :: "int \<Rightarrow> request_mode" where
  "mode_of m = (if m = 0 then RM_SIMPLE else if m = 1 then RM_FULL else RM_NOQUEUE)"

definition memdisk_m_init ::
  "64 word \<Rightarrow> int \<Rightarrow> int \<Rightarrow> memdisk_call answers \<Rightarrow> memdisk result \<times> memdisk_call call list" where
  "memdisk_m_init nsectors hardsect_size mode F =
     (if \<not> memdisk_params_ok nsectors hardsect_size mode then (Inl EINVAL, [])
      else if_err (F MdStruct) (\<lambda>_. (Inl ENOMEM, [])) (
      let size = nsectors * of_int hardsect_size in
      if_err (F MdData) (\<lambda>_. (Inl ENOMEM, [Acq MdStruct, Rel MdStruct])) (
      if_err (F MdMajor) (\<lambda>e. (Inl e, [Acq MdStruct, Acq MdData, Rel MdData, Rel MdStruct])) (
      case memdisk_create_disk (mode_of mode) F of
        (Some e, cs) \<Rightarrow>
          (Inl e, [Acq MdStruct, Acq MdData, Acq MdMajor] @ cs @ [Rel MdMajor, Rel MdData, Rel MdStruct])
      | (None, cs) \<Rightarrow>
          (Inr \<lparr>md_size = size, md_data = replicate (unat size) 0\<rparr>, [Acq MdStruct, Acq MdData, Acq MdMajor] @ cs)))))"

definition memdisk_m_exit :: "int \<Rightarrow> memdisk_call call list" where
  "memdisk_m_exit mode = memdisk_destroy_disk (mode_of mode) @ [Rel MdMajor, Rel MdData, Rel MdStruct]"

subsection \<open>Well-formed disks, bios and requests\<close>

definition memdisk_inv :: "memdisk \<Rightarrow> bool" where
  "memdisk_inv dev \<longleftrightarrow> length (md_data dev) = unat (md_size dev)"

text \<open>What the block layer guarantees: whole sectors, and positions that fit into 64 bits of bytes.\<close>

definition bytes_of :: "bvec list \<Rightarrow> nat" where
  "bytes_of bvs = (\<Sum>bv\<leftarrow>bvs. length bv)"

definition segs_at :: "64 word \<Rightarrow> bvec list \<Rightarrow> bool" where
  "segs_at sector bvs \<longleftrightarrow> (\<forall>bv \<in> set bvs. 512 dvd length bv) \<and> unat sector * 512 + bytes_of bvs < 2 ^ 64"

fun consecutive :: "64 word \<Rightarrow> bio list \<Rightarrow> bool" where
  "consecutive sector [] \<longleftrightarrow> True"
| "consecutive sector (b # bs) \<longleftrightarrow>
     bi_sector b = sector \<and> bi_segs b \<noteq> [] \<and> consecutive (sector + (\<Sum>bv\<leftarrow>bi_segs b. bv_sectors bv)) bs"

definition request_ok :: "bio list \<Rightarrow> bool" where
  "request_ok rq \<longleftrightarrow> rq \<noteq> [] \<and> (\<forall>b \<in> set rq. bi_op b = rq_op rq) \<and> consecutive (blk_rq_pos rq) rq"

subsection \<open>The two ways to walk a request\<close>

lemma seg_loop_length: "seg_loop st dev sector bvs w = (st', dev', bvs') \<Longrightarrow> length bvs' = length bvs"
  by (induction st dev sector bvs w arbitrary: st' dev' bvs' rule: seg_loop.induct)
    (auto split: prod.splits if_splits)

lemma seg_loop_status: "bvs \<noteq> [] \<Longrightarrow> seg_loop st dev sector bvs w = seg_loop st' dev sector bvs w"
  by (cases bvs) simp_all

lemma seg_loop_append:
  "seg_loop st dev sector (xs @ ys) w =
    (case seg_loop st dev sector xs w of
       (st1, dev1, xs1) \<Rightarrow>
         if xs \<noteq> [] \<and> st1 \<noteq> BLK_STS_OK then (st1, dev1, xs1 @ ys)
         else case seg_loop st1 dev1 (sector + (\<Sum>bv\<leftarrow>xs. bv_sectors bv)) ys w of
                (st2, dev2, ys1) \<Rightarrow> (st2, dev2, xs1 @ ys1))"
proof (induction xs arbitrary: st dev sector)
  case Nil
  then show ?case by (simp split: prod.split)
next
  case (Cons bv xs)
  obtain st1 dev1 bv1 where t: "memdisk_transfer dev sector bv w = (st1, dev1, bv1)" using prod_cases3 by blast
  show ?case
  proof (cases "st1 = BLK_STS_OK")
    case False
    then show ?thesis by (simp add: t)
  next
    case True
    then show ?thesis
      using Cons.IH [of BLK_STS_OK dev1 "sector + bv_sectors bv"]
      by (cases "xs = []") (auto simp: t add.assoc split: prod.split if_splits)
  qed
qed

lemma restore_same: "restore bs (concat (map bi_segs bs)) = bs"
  by (induction bs) simp_all

lemma loops_agree:
  "consecutive sector bs \<Longrightarrow> (\<forall>b \<in> set bs. (bi_op b = REQ_OP_WRITE) = w) \<Longrightarrow>
   seg_loop st dev sector (concat (map bi_segs bs)) w = (st', dev', bvs) \<Longrightarrow>
   bio_loop st dev bs = (st', dev', restore bs bvs)"
proof (induction bs arbitrary: st dev sector st' dev' bvs)
  case Nil
  then show ?case by simp
next
  case (Cons b bs)
  let ?xs = "bi_segs b" and ?ys = "concat (map bi_segs bs)"
  have ne: "?xs \<noteq> []" and sec: "bi_sector b = sector" and op: "(bi_op b = REQ_OP_WRITE) = w"
    using Cons.prems(1,2) by auto
  obtain st1 dev1 xs1 where x: "seg_loop st dev sector ?xs w = (st1, dev1, xs1)" using prod_cases3 by blast
  have len: "length xs1 = length ?xs" using seg_loop_length [OF x] .
  have b: "memdisk_xfer_bio dev b = (st1, dev1, b\<lparr>bi_segs := xs1\<rparr>)"
    using x seg_loop_status [OF ne, of BLK_STS_OK dev sector w st] by (simp add: memdisk_xfer_bio_def sec op)
  show ?case
  proof (cases "st1 = BLK_STS_OK")
    case False
    then have "st' = st1" "dev' = dev1" "bvs = xs1 @ ?ys"
      using Cons.prems(3) ne by (simp_all add: seg_loop_append x)
    then show ?thesis using False b len by (simp add: restore_same)
  next
    case True
    let ?s = "sector + (\<Sum>bv\<leftarrow>?xs. bv_sectors bv)"
    obtain st2 dev2 ys1 where y: "seg_loop BLK_STS_OK dev1 ?s ?ys w = (st2, dev2, ys1)" using prod_cases3 by blast
    have e: "st' = st2" "dev' = dev2" "bvs = xs1 @ ys1"
      using Cons.prems(3) True y by (simp_all add: seg_loop_append x)
    have "bio_loop BLK_STS_OK dev1 bs = (st2, dev2, restore bs ys1)"
      using Cons.prems(1,2) by (intro Cons.IH [OF _ _ y]) simp_all
    then show ?thesis using True b len by (simp add: e)
  qed
qed

subsection \<open>Transfers in range\<close>

lemma push_bit_sector:
  fixes sector :: "64 word"
  assumes "unat sector * 512 < 2 ^ 64"
  shows "unat (push_bit SECTOR_SHIFT sector) = unat sector * 512"
proof -
  have "push_bit SECTOR_SHIFT sector = sector * 512" by (simp add: push_bit_eq_mult SECTOR_SHIFT_def)
  then show ?thesis using assms by (simp add: unat_word_ariths)
qed

lemma segs_at_Cons:
  assumes "segs_at sector (bv # bvs)"
  shows "segs_at (sector + bv_sectors bv) bvs" "unat (sector + bv_sectors bv) * 512 = unat sector * 512 + length bv"
    "unat (push_bit SECTOR_SHIFT sector) = unat sector * 512"
    "unat (push_bit SECTOR_SHIFT sector + of_nat (length bv)) = unat sector * 512 + length bv"
proof -
  have a: "512 dvd length bv" "unat sector * 512 + (length bv + bytes_of bvs) < 2 ^ 64"
    using assms by (simp_all add: segs_at_def bytes_of_def)
  then obtain k where k: "length bv = 512 * k" by (auto elim: dvdE)
  have ks: "bv_sectors bv = of_nat k" by (simp add: bv_sectors_def k SECTOR_SHIFT_def)
  have "unat sector + k < 2 ^ 64" using a(2) k by simp
  moreover from this have "unat (of_nat k :: 64 word) = k" by (simp add: unat_of_nat)
  ultimately have u: "unat (sector + bv_sectors bv) = unat sector + k"
    unfolding ks by (simp add: unat_word_ariths)
  then show e: "unat (sector + bv_sectors bv) * 512 = unat sector * 512 + length bv" by (simp add: k)
  show "segs_at (sector + bv_sectors bv) bvs" using assms a(2) unfolding segs_at_def e by simp
  show p: "unat (push_bit SECTOR_SHIFT sector) = unat sector * 512" using a(2) by (intro push_bit_sector) simp
  have "unat (of_nat (length bv) :: 64 word) = length bv" using a(2) by (simp add: unat_of_nat)
  then show "unat (push_bit SECTOR_SHIFT sector + of_nat (length bv)) = unat sector * 512 + length bv"
    using a(2) by (simp add: unat_word_ariths p)
qed

text \<open>The range check is exact: no wrap-around lets a segment outside the disk through.\<close>

lemma memdisk_transfer_spec:
  assumes "segs_at sector (bv # bvs)" "memdisk_inv dev"
  shows "memdisk_transfer dev sector bv w =
    (let off = unat sector * 512
     in if off + length bv > unat (md_size dev) then (BLK_STS_IOERR, dev, bv)
        else if w then (BLK_STS_OK, dev\<lparr>md_data := mem_put off bv (md_data dev)\<rparr>, bv)
        else (BLK_STS_OK, dev, mem_get off (length bv) (md_data dev)))"
  using segs_at_Cons(3,4) [OF assms(1)]
  by (simp add: memdisk_transfer_def word_less_nat_alt Let_def)

lemma seg_loop_write:
  "segs_at sector bvs \<Longrightarrow> memdisk_inv dev \<Longrightarrow> unat sector * 512 + bytes_of bvs \<le> unat (md_size dev) \<Longrightarrow>
   seg_loop st dev sector bvs True =
     (if bvs = [] then st else BLK_STS_OK,
      dev\<lparr>md_data := mem_put (unat sector * 512) (concat bvs) (md_data dev)\<rparr>, bvs)"
proof (induction bvs arbitrary: st dev sector)
  case Nil
  then show ?case by simp
next
  case (Cons bv bvs)
  note s = segs_at_Cons [OF Cons.prems(1)]
  let ?d = "dev\<lparr>md_data := mem_put (unat sector * 512) bv (md_data dev)\<rparr>"
  have len: "length (md_data dev) = unat (md_size dev)" using Cons.prems(2) by (simp add: memdisk_inv_def)
  have fit: "unat sector * 512 + length bv + bytes_of bvs \<le> unat (md_size dev)"
    using Cons.prems(3) by (simp add: bytes_of_def)
  have i: "memdisk_inv ?d" using len fit by (simp add: memdisk_inv_def length_mem_put)
  have t: "memdisk_transfer dev sector bv True = (BLK_STS_OK, ?d, bv)"
    using memdisk_transfer_spec [OF Cons.prems(1,2), of True] fit by (simp add: Let_def)
  have r: "seg_loop BLK_STS_OK ?d (sector + bv_sectors bv) bvs True =
      (BLK_STS_OK, ?d\<lparr>md_data := mem_put (unat sector * 512 + length bv) (concat bvs) (md_data ?d)\<rparr>, bvs)"
    using Cons.IH [OF s(1) i, of BLK_STS_OK] fit unfolding s(2) by simp
  have "length (concat bvs) = bytes_of bvs" by (simp add: bytes_of_def length_concat)
  then have "mem_put (unat sector * 512 + length bv) (concat bvs) (mem_put (unat sector * 512) bv (md_data dev)) =
      mem_put (unat sector * 512) (bv @ concat bvs) (md_data dev)"
    using fit len by (intro mem_put_append_adjacent) simp
  then show ?case using t r by simp
qed

lemma seg_loop_read:
  "segs_at sector bvs \<Longrightarrow> memdisk_inv dev \<Longrightarrow> unat sector * 512 + bytes_of bvs \<le> unat (md_size dev) \<Longrightarrow>
   \<exists>bvs'. seg_loop st dev sector bvs False = (if bvs = [] then st else BLK_STS_OK, dev, bvs') \<and>
     map length bvs' = map length bvs \<and> concat bvs' = mem_get (unat sector * 512) (bytes_of bvs) (md_data dev)"
proof (induction bvs arbitrary: st sector)
  case Nil
  then show ?case by (simp add: bytes_of_def)
next
  case (Cons bv bvs)
  note s = segs_at_Cons [OF Cons.prems(1)]
  have fit: "unat sector * 512 + length bv + bytes_of bvs \<le> unat (md_size dev)"
    using Cons.prems(3) by (simp add: bytes_of_def)
  let ?bv = "mem_get (unat sector * 512) (length bv) (md_data dev)"
  have t: "memdisk_transfer dev sector bv False = (BLK_STS_OK, dev, ?bv)"
    using memdisk_transfer_spec [OF Cons.prems(1,2), of False] fit by (simp add: Let_def)
  obtain bvs' where r: "seg_loop BLK_STS_OK dev (sector + bv_sectors bv) bvs False = (BLK_STS_OK, dev, bvs')"
      "map length bvs' = map length bvs" "concat bvs' = mem_get (unat sector * 512 + length bv) (bytes_of bvs) (md_data dev)"
    using Cons.IH [OF s(1) Cons.prems(2), of BLK_STS_OK] fit unfolding s(2) by auto
  have "length ?bv = length bv" using fit Cons.prems(2) by (simp add: memdisk_inv_def)
  moreover have "?bv @ concat bvs' = mem_get (unat sector * 512) (bytes_of (bv # bvs)) (md_data dev)"
    unfolding r(3) mem_get_append_adjacent by (simp add: bytes_of_def)
  ultimately show ?case using t r(1,2) by simp
qed

lemma seg_loop_range:
  "segs_at sector bvs \<Longrightarrow> memdisk_inv dev \<Longrightarrow> unat sector * 512 + bytes_of bvs > unat (md_size dev) \<Longrightarrow>
   bvs \<noteq> [] \<Longrightarrow> fst (seg_loop st dev sector bvs w) = BLK_STS_IOERR"
proof (induction bvs arbitrary: st dev sector)
  case Nil
  then show ?case by simp
next
  case (Cons bv bvs)
  note s = segs_at_Cons [OF Cons.prems(1)]
  note t = memdisk_transfer_spec [OF Cons.prems(1,2), of w]
  show ?case
  proof (cases "unat sector * 512 + length bv > unat (md_size dev)")
    case True
    then show ?thesis by (simp add: t Let_def)
  next
    case False
    let ?d = "if w then dev\<lparr>md_data := mem_put (unat sector * 512) bv (md_data dev)\<rparr> else dev"
    have "memdisk_inv ?d" using False Cons.prems(2) by (simp add: memdisk_inv_def length_mem_put)
    moreover have "md_size ?d = md_size dev" by simp
    moreover have more: "unat (sector + bv_sectors bv) * 512 + bytes_of bvs > unat (md_size dev)"
      using Cons.prems(3) unfolding s(2) by (simp add: bytes_of_def)
    moreover have "bvs \<noteq> []" using more False unfolding s(2) by (auto simp: bytes_of_def)
    ultimately have "fst (seg_loop BLK_STS_OK ?d (sector + bv_sectors bv) bvs w) = BLK_STS_IOERR"
      using Cons.IH [OF s(1), of ?d BLK_STS_OK] by simp
    moreover have "memdisk_transfer dev sector bv w =
        (BLK_STS_OK, ?d, if w then bv else mem_get (unat sector * 512) (length bv) (md_data dev))"
      using t False by (simp add: Let_def)
    ultimately show ?thesis by (simp add: case_prod_beta)
  qed
qed

lemma seg_loop_inv: "memdisk_inv dev \<Longrightarrow> segs_at sector bvs \<Longrightarrow> memdisk_inv (fst (snd (seg_loop st dev sector bvs w)))"
proof (induction bvs arbitrary: st dev sector)
  case Nil
  then show ?case by simp
next
  case (Cons bv bvs)
  note s = segs_at_Cons [OF Cons.prems(2)]
  obtain st1 dev1 bv1 where t: "memdisk_transfer dev sector bv w = (st1, dev1, bv1)" using prod_cases3 by blast
  have "memdisk_inv dev1"
    using t Cons.prems(1) memdisk_transfer_spec [OF Cons.prems(2,1), of w]
    by (auto simp: Let_def memdisk_inv_def length_mem_put split: if_splits)
  then show ?case using Cons.IH [OF _ s(1), of dev1 BLK_STS_OK] t by (simp add: case_prod_beta)
qed

lemma concat_restore: "length bvs = length (concat (map bi_segs rq)) \<Longrightarrow> concat (map bi_segs (restore rq bvs)) = bvs"
  by (induction rq arbitrary: bvs) simp_all

subsection \<open>Properties\<close>

text \<open>
  C19: The two request functions are equivalent: for every request of the block layer, walking its
  segments in one loop and walking it bio by bio give the same status, leave the same disk and
  move the same data, also when a segment fails half way.
\<close>

theorem memdisk_simple_equals_full:
  assumes "request_ok rq"
  shows "memdisk_queue_rq_simple dev rq = memdisk_queue_rq_full dev rq"
proof (cases "memdisk_rw (rq_op rq)")
  case False
  then show ?thesis by (simp add: memdisk_queue_rq_simple_def memdisk_queue_rq_full_def)
next
  case True
  obtain st dev' bvs where l: "seg_loop BLK_STS_NOTSUPP dev (blk_rq_pos rq) (concat (map bi_segs rq)) (rq_op rq = REQ_OP_WRITE) = (st, dev', bvs)"
    using prod_cases3 by blast
  have "bio_loop BLK_STS_NOTSUPP dev rq = (st, dev', restore rq bvs)"
    using assms by (intro loops_agree [OF _ _ l]) (auto simp: request_ok_def)
  then show ?thesis using True l by (simp add: memdisk_queue_rq_simple_def memdisk_queue_rq_full_def)
qed

definition demo_disk :: memdisk where
  "demo_disk = \<lparr>md_size = 2048, md_data = replicate 2048 0\<rparr>"

text \<open>Two bios of one sector each, at sectors 1 and 2.\<close>

definition demo_rq :: "req_op \<Rightarrow> byte \<Rightarrow> bio list" where
  "demo_rq op b = [\<lparr>bi_op = op, bi_sector = 1, bi_segs = [replicate 512 b]\<rparr>, \<lparr>bi_op = op, bi_sector = 2, bi_segs = [replicate 512 b]\<rparr>]"

lemma demo_rq_ok: "request_ok (demo_rq op b)" "rq_op (demo_rq op b) = op" "blk_rq_pos (demo_rq op b) = 1"
  "concat (map bi_segs (demo_rq op b)) = [replicate 512 b, replicate 512 b]"
  by (simp_all add: request_ok_def demo_rq_def rq_op_def blk_rq_pos_def bv_sectors_def SECTOR_SHIFT_def)

theorem memdisk_simple_equals_full_witness:
  "memdisk_queue_rq_simple demo_disk (demo_rq REQ_OP_WRITE 7) = memdisk_queue_rq_full demo_disk (demo_rq REQ_OP_WRITE 7)"
  by (rule memdisk_simple_equals_full [OF demo_rq_ok(1)])

text \<open>
  C18: The disk keeps what is written to it. A write request within the capacity completes with OK,
  stores its data at its position and changes nothing else; a read request of the same range, of
  any shape, then completes with OK, leaves the disk alone and returns exactly that data.
\<close>

theorem memdisk_write_read:
  assumes "memdisk_inv dev" and "request_ok wq" and "rq_op wq = REQ_OP_WRITE" and "request_ok rq" and "rq_op rq = REQ_OP_READ"
    and "blk_rq_pos rq = blk_rq_pos wq" and "bytes_of (concat (map bi_segs rq)) = bytes_of (concat (map bi_segs wq))"
    and "segs_at (blk_rq_pos wq) (concat (map bi_segs wq))" and "segs_at (blk_rq_pos wq) (concat (map bi_segs rq))"
    and "unat (blk_rq_pos wq) * 512 + bytes_of (concat (map bi_segs wq)) \<le> unat (md_size dev)"
    and "memdisk_queue_rq_simple dev wq = (st1, dev1, wq')" and "memdisk_queue_rq_simple dev1 rq = (st2, dev2, rq')"
  shows "st1 = BLK_STS_OK \<and>
    dev1 = dev\<lparr>md_data := mem_put (unat (blk_rq_pos wq) * 512) (concat (concat (map bi_segs wq))) (md_data dev)\<rparr> \<and>
    st2 = BLK_STS_OK \<and> dev2 = dev1 \<and> concat (concat (map bi_segs rq')) = concat (concat (map bi_segs wq))"
proof -
  let ?w = "concat (map bi_segs wq)" and ?r = "concat (map bi_segs rq)" and ?off = "unat (blk_rq_pos wq) * 512"
  have ne: "?w \<noteq> []" "?r \<noteq> []" using assms(2,4) by (auto simp: request_ok_def neq_Nil_conv)
  let ?d1 = "dev\<lparr>md_data := mem_put ?off (concat ?w) (md_data dev)\<rparr>"
  have "seg_loop BLK_STS_NOTSUPP dev (blk_rq_pos wq) ?w True = (BLK_STS_OK, ?d1, ?w)"
    unfolding seg_loop_write [OF assms(8,1,10)] using ne(1) by (simp only: if_False)
  then have w: "st1 = BLK_STS_OK" "dev1 = ?d1"
    using assms(11) by (simp_all add: memdisk_queue_rq_simple_def memdisk_rw_def assms(3))
  have lc: "length (concat ?w) = bytes_of ?w" by (simp add: bytes_of_def length_concat)
  have len: "length (md_data dev) = unat (md_size dev)" using assms(1) by (simp add: memdisk_inv_def)
  have i1: "memdisk_inv ?d1" using len lc assms(10) by (simp add: memdisk_inv_def length_mem_put)
  have fit: "unat (blk_rq_pos wq) * 512 + bytes_of ?r \<le> unat (md_size ?d1)" using assms(7,10) by simp
  have st: "(if ?r = [] then BLK_STS_NOTSUPP else BLK_STS_OK) = BLK_STS_OK" using ne(2) by (simp only: if_False)
  obtain bvs where r: "seg_loop BLK_STS_NOTSUPP ?d1 (blk_rq_pos wq) ?r False = (BLK_STS_OK, ?d1, bvs)"
      "map length bvs = map length ?r" "concat bvs = mem_get ?off (bytes_of ?r) (md_data ?d1)"
    using seg_loop_read [OF assms(9) i1 fit, of BLK_STS_NOTSUPP] unfolding st by blast
  have "st2 = BLK_STS_OK" "dev2 = dev1" "rq' = restore rq bvs"
    using assms(12) r(1) by (simp_all add: memdisk_queue_rq_simple_def memdisk_rw_def assms(5,6) w(2))
  moreover have "concat (map bi_segs (restore rq bvs)) = bvs"
    using r(2) by (intro concat_restore) (metis length_map)
  moreover have "mem_get ?off (bytes_of ?r) (mem_put ?off (concat ?w) (md_data dev)) = concat ?w"
    using assms(7,10) len lc mem_get_mem_put [of ?off "concat ?w" "md_data dev"] by simp
  ultimately show ?thesis using w r(3) by simp
qed

theorem memdisk_write_read_witness:
  "\<exists>dev1 wq' dev2 rq'. memdisk_queue_rq_simple demo_disk (demo_rq REQ_OP_WRITE 7) = (BLK_STS_OK, dev1, wq') \<and>
     memdisk_queue_rq_simple dev1 (demo_rq REQ_OP_READ 0) = (BLK_STS_OK, dev2, rq') \<and>
     concat (concat (map bi_segs rq')) = replicate 512 7 @ replicate 512 7"
proof -
  obtain st1 dev1 wq' where w: "memdisk_queue_rq_simple demo_disk (demo_rq REQ_OP_WRITE 7) = (st1, dev1, wq')"
    using prod_cases3 by blast
  obtain st2 dev2 rq' where r: "memdisk_queue_rq_simple dev1 (demo_rq REQ_OP_READ 0) = (st2, dev2, rq')"
    using prod_cases3 by blast
  have i: "memdisk_inv demo_disk" by (simp add: memdisk_inv_def demo_disk_def)
  have "st1 = BLK_STS_OK \<and> st2 = BLK_STS_OK \<and> concat (concat (map bi_segs rq')) = concat (concat (map bi_segs (demo_rq REQ_OP_WRITE 7)))"
    using memdisk_write_read [OF i demo_rq_ok(1,2) demo_rq_ok(1,2) _ _ _ _ _ w r]
    by (simp add: demo_rq_ok demo_disk_def segs_at_def bytes_of_def)
  then show ?thesis using w r by (auto simp: demo_rq_ok)
qed

text \<open>
  C20: No bio reaches outside the disk. For every bio the block layer can submit, in whatever state
  of the disk, the size of the disk's memory stays what it is; the bio completes with OK exactly
  if it lies within the disk, with IOERR if it reaches past the end, and any operation other than
  reading and writing is refused without touching the disk.
\<close>

theorem memdisk_bio_bounds:
  assumes "memdisk_inv dev" and "segs_at (bi_sector b) (bi_segs b)" and "bi_segs b \<noteq> []"
    and "memdisk_submit_bio dev b = (st, dev', b')"
  shows "memdisk_inv dev' \<and> md_size dev' = md_size dev \<and>
    st = (if \<not> memdisk_rw (bi_op b) then BLK_STS_NOTSUPP
          else if unat (bi_sector b) * 512 + bytes_of (bi_segs b) \<le> unat (md_size dev) then BLK_STS_OK else BLK_STS_IOERR) \<and>
    (bi_op b \<noteq> REQ_OP_WRITE \<longrightarrow> dev' = dev)"
proof (cases "memdisk_rw (bi_op b)")
  case False
  then show ?thesis using assms(1,4) by (auto simp: memdisk_submit_bio_def)
next
  case True
  let ?w = "bi_op b = REQ_OP_WRITE"
  obtain segs where l: "seg_loop BLK_STS_OK dev (bi_sector b) (bi_segs b) ?w = (st, dev', segs)"
    using assms(4) True by (auto simp: memdisk_submit_bio_def memdisk_xfer_bio_def split: prod.splits)
  have size: "md_size (fst (snd (seg_loop s d sec bvs w))) = md_size d" for s d sec bvs w
    by (induction s d sec bvs w rule: seg_loop.induct)
      (auto simp: memdisk_transfer_def Let_def split: prod.splits if_splits)
  have same: "fst (snd (seg_loop s d sec bvs False)) = d" for s d sec bvs
    by (induction s d sec bvs False rule: seg_loop.induct)
      (auto simp: memdisk_transfer_def Let_def split: prod.splits if_splits)
  have "st = (if unat (bi_sector b) * 512 + bytes_of (bi_segs b) \<le> unat (md_size dev) then BLK_STS_OK else BLK_STS_IOERR)"
  proof (cases "unat (bi_sector b) * 512 + bytes_of (bi_segs b) \<le> unat (md_size dev)")
    case le: True
    then show ?thesis
      using l seg_loop_write [OF assms(2,1) le, of BLK_STS_OK] seg_loop_read [OF assms(2,1) le, of BLK_STS_OK]
      by (cases ?w) auto
  next
    case False
    then show ?thesis using seg_loop_range [OF assms(2,1) _ assms(3), of BLK_STS_OK ?w] l by simp
  qed
  moreover have "memdisk_inv dev'" using seg_loop_inv [OF assms(1,2), of BLK_STS_OK ?w] l by simp
  moreover have "md_size dev' = md_size dev" using size [of BLK_STS_OK dev "bi_sector b" "bi_segs b" ?w] l by simp
  moreover have "\<not> ?w \<Longrightarrow> dev' = dev" using same [of BLK_STS_OK dev "bi_sector b" "bi_segs b"] l by simp
  ultimately show ?thesis using True by simp
qed

theorem memdisk_bio_bounds_witness:
  "fst (memdisk_submit_bio demo_disk \<lparr>bi_op = REQ_OP_WRITE, bi_sector = 4, bi_segs = [replicate 512 1]\<rparr>) = BLK_STS_IOERR"
proof -
  let ?b = "\<lparr>bi_op = REQ_OP_WRITE, bi_sector = 4, bi_segs = [replicate 512 1]\<rparr> :: bio"
  have "memdisk_inv demo_disk" "segs_at (bi_sector ?b) (bi_segs ?b)" "bi_segs ?b \<noteq> []"
    by (simp_all add: memdisk_inv_def demo_disk_def segs_at_def bytes_of_def)
  moreover obtain st dev' b' where r: "memdisk_submit_bio demo_disk ?b = (st, dev', b')" using prod_cases3 by blast
  ultimately have "st = BLK_STS_IOERR"
    using memdisk_bio_bounds [of demo_disk ?b st dev' b'] by (simp add: memdisk_rw_def bytes_of_def demo_disk_def)
  then show ?thesis using r by simp
qed

text \<open>
  Loading the module is all or nothing in each of its three modes: parameters out of range are
  refused before anything is acquired, a failure of any later call releases what was acquired in
  reverse order, and unloading releases exactly what loading acquired.
\<close>

lemma memdisk_module_all_or_nothing:
  "case memdisk_m_init nsectors hardsect_size mode F of
     (Inl e, cs) \<Rightarrow> held cs [] = Some []
   | (Inr dev, cs) \<Rightarrow> held (cs @ memdisk_m_exit mode) [] = Some [] \<and> memdisk_inv dev"
  by (simp add: memdisk_m_init_def memdisk_create_disk_def memdisk_m_exit_def memdisk_destroy_disk_def life_defs
      if_err_def Let_def memdisk_inv_def split: option.split)

text \<open>The size is a 64-bit product of the parameters: a huge count makes a tiny disk.\<close>

lemma memdisk_size_wraps:
  "\<exists>dev cs. memdisk_m_init 0x80000000000001 512 0 (\<lambda>_. None) = (Inr dev, cs) \<and> md_size dev = 512"
  by (simp add: memdisk_m_init_def memdisk_params_ok_def is_power_of_2_64_def SECTOR_SIZE_def MEMDISK_PAGE_SIZE_def
      memdisk_create_disk_def mode_of_def Let_def)

end
