(* ===== verification/Netdev.thy ===== *)
theory Netdev
  imports Lifecycle "HOL-Library.Multiset"
begin

unbundle bit_operations_syntax

section \<open>30_netdev: two network interfaces wired to each other\<close>

text \<open>
  \<open>src/examples/30_netdev/main.c\<close>. The frame buffers are nodes of a store, linked by their
  \<open>next\<close> field: each is at any time in the pool of the device it belongs to, in the receive queue
  of the twin, or in the hands of the code. A frame sent by one device is queued at the other,
  which is interrupted by calling its handler, as the source does; the handler passes it up at
  once or, with NAPI, schedules the poll function. What the network stack got and which socket
  buffers were freed are recorded with the device. The kernel's part is a parameter: whether
  \<open>dev_alloc_skb\<close> succeeds, the checksum function, the mode, what the twin sends while the poll
  function runs, and whether \<open>napi_complete_done\<close> lets it finish. A transmission, with the interrupts
  it raises, is one step although the source takes and drops the locks of pool and queue several times
  in it: transmissions that overlap on different processors are not interleaved below that.
\<close>

definition ETH_ALEN :: nat where "ETH_ALEN = 6"
definition ETH_HLEN :: nat where "ETH_HLEN = 14"
definition ETH_ZLEN :: nat where "ETH_ZLEN = 60"
definition ETH_FRAME_LEN :: nat where "ETH_FRAME_LEN = 1514"
definition ETH_P_IP :: "16 word" where "ETH_P_IP = 0x0800"
definition sizeof_iphdr :: nat where "sizeof_iphdr = 20"
definition NETDEV_RX_INTR :: "32 word" where "NETDEV_RX_INTR = 1"
definition NETDEV_TX_INTR :: "32 word" where "NETDEV_TX_INTR = 2"

lemmas eth_defs = ETH_ALEN_def ETH_HLEN_def ETH_ZLEN_def ETH_FRAME_LEN_def sizeof_iphdr_def
lemmas intr_defs = NETDEV_RX_INTR_def NETDEV_TX_INTR_def

datatype netid = Sn0 | Sn1

type_synonym pktref = "netid \<times> nat"

record ldd_packet =
  pk_next :: "pktref option"
  pk_dev :: netid
  pk_datalen :: nat
  pk_data :: "byte list"

record sk_buff =
  skb_protocol :: "16 word"
  skb_data :: "byte list"

text \<open>\<open>struct ldd_dev\<close>, the state of the kernel's queue and NAPI context, statistics and logs.\<close>

record ldd_dev =
  nd_running :: bool
  nd_rx_int_enabled :: bool
  nd_status :: "32 word"
  nd_pool :: "pktref option"
  nd_rx_head :: "pktref option"
  nd_rx_tail :: "pktref option"
  nd_tx_skb :: "sk_buff option"
  nd_stopped :: bool
  nd_napi_on :: bool
  nd_napi_sched :: bool
  nd_rx_packets :: "64 word"
  nd_rx_bytes :: "64 word"
  nd_rx_dropped :: "64 word"
  nd_tx_packets :: "64 word"
  nd_tx_bytes :: "64 word"
  nd_tx_dropped :: "64 word"
  nd_up :: "byte list list"
  nd_freed :: "sk_buff list"

record netsys =
  net_pkts :: "pktref \<Rightarrow> ldd_packet"
  net_devs :: "netid \<Rightarrow> ldd_dev"
  net_there :: "netid \<Rightarrow> bool"

record net_cfg =
  use_napi :: bool
  alloc_skb :: "netsys \<Rightarrow> bool"
  ip_fast_csum :: "byte list \<Rightarrow> nat \<Rightarrow> byte \<times> byte"

datatype netdev_tx = NETDEV_TX_OK | NETDEV_TX_BUSY

fun ldd_peer :: "netid \<Rightarrow> netid" where
  "ldd_peer Sn0 = Sn1"
| "ldd_peer Sn1 = Sn0"

definition on_dev :: "netid \<Rightarrow> (ldd_dev \<Rightarrow> ldd_dev) \<Rightarrow> netsys \<Rightarrow> netsys" where
  "on_dev d f s = s\<lparr>net_devs := (net_devs s)(d := f (net_devs s d))\<rparr>"

definition on_pkt :: "pktref \<Rightarrow> (ldd_packet \<Rightarrow> ldd_packet) \<Rightarrow> netsys \<Rightarrow> netsys" where
  "on_pkt p f s = s\<lparr>net_pkts := (net_pkts s)(p := f (net_pkts s p))\<rparr>"

subsection \<open>Buffers\<close>

definition netif_stop_queue :: "netid \<Rightarrow> netsys \<Rightarrow> netsys" where
  "netif_stop_queue d = on_dev d (nd_stopped_update (\<lambda>_. True))"

definition netif_wake_queue :: "netid \<Rightarrow> netsys \<Rightarrow> netsys" where
  "netif_wake_queue d = on_dev d (nd_stopped_update (\<lambda>_. False))"

definition ldd_get_tx_buffer :: "netid \<Rightarrow> netsys \<Rightarrow> pktref option \<times> netsys" where
  "ldd_get_tx_buffer d s =
     (case nd_pool (net_devs s d) of
        None \<Rightarrow> (None, s)
      | Some p \<Rightarrow>
          let s1 = on_dev d (nd_pool_update (\<lambda>_. pk_next (net_pkts s p))) s in
          (Some p, if nd_pool (net_devs s1 d) = None then netif_stop_queue d s1 else s1))"

definition ldd_release_buffer :: "pktref \<Rightarrow> netsys \<Rightarrow> netsys" where
  "ldd_release_buffer p s =
     (let d = pk_dev (net_pkts s p);
          was_empty = (nd_pool (net_devs s d) = None);
          s1 = on_pkt p (pk_next_update (\<lambda>_. nd_pool (net_devs s d))) s;
          s2 = on_dev d (nd_pool_update (\<lambda>_. Some p)) s1
      in if was_empty then netif_wake_queue d s2 else s2)"

definition ldd_rx_dequeue :: "netid \<Rightarrow> netsys \<Rightarrow> pktref option \<times> netsys" where
  "ldd_rx_dequeue d s =
     (case nd_rx_head (net_devs s d) of
        None \<Rightarrow> (None, s)
      | Some p \<Rightarrow>
          let s1 = on_dev d (nd_rx_head_update (\<lambda>_. pk_next (net_pkts s p))) s in
          (Some p, if nd_rx_head (net_devs s1 d) = None then on_dev d (nd_rx_tail_update (\<lambda>_. None)) s1 else s1))"

subsection \<open>Receiving\<close>

definition frame :: "netsys \<Rightarrow> pktref \<Rightarrow> byte list" where
  "frame s p = take (pk_datalen (net_pkts s p)) (pk_data (net_pkts s p))"

text \<open>\<open>netif_receive_skb\<close> and \<open>netif_rx\<close> both hand the frame to the stack.\<close>

definition ldd_rx :: "net_cfg \<Rightarrow> netid \<Rightarrow> pktref \<Rightarrow> netsys \<Rightarrow> netsys" where
  "ldd_rx c d p s =
     (if \<not> alloc_skb c s then on_dev d (nd_rx_dropped_update (\<lambda>n. n + 1)) s
      else on_dev d (\<lambda>dv. dv\<lparr>nd_rx_packets := nd_rx_packets dv + 1,
             nd_rx_bytes := nd_rx_bytes dv + of_nat (pk_datalen (net_pkts s p)),
             nd_up := nd_up dv @ [frame s p]\<rparr>) s)"

definition ldd_ack_interrupt :: "netid \<Rightarrow> netsys \<Rightarrow> 32 word \<times> sk_buff option \<times> netsys" where
  "ldd_ack_interrupt d s =
     (let status = nd_status (net_devs s d);
          s1 = on_dev d (nd_status_update (\<lambda>_. 0)) s
      in if has_flag status NETDEV_TX_INTR
         then (status, nd_tx_skb (net_devs s d), on_dev d (nd_tx_skb_update (\<lambda>_. None)) s1)
         else (status, None, s1))"

definition ldd_tx_done :: "netid \<Rightarrow> sk_buff \<Rightarrow> netsys \<Rightarrow> netsys" where
  "ldd_tx_done d skb = on_dev d (\<lambda>dv. dv\<lparr>nd_tx_packets := nd_tx_packets dv + 1,
     nd_tx_bytes := nd_tx_bytes dv + of_nat (length (skb_data skb)), nd_freed := nd_freed dv @ [skb]\<rparr>)"

definition ldd_regular_interrupt :: "net_cfg \<Rightarrow> netid \<Rightarrow> netsys \<Rightarrow> netsys" where
  "ldd_regular_interrupt c d s =
     (case ldd_ack_interrupt d s of (status, tx_skb, s1) \<Rightarrow>
      case (if has_flag status NETDEV_RX_INTR then ldd_rx_dequeue d s1 else (None, s1)) of (pkt, s2) \<Rightarrow>
      let s3 = (case pkt of Some p \<Rightarrow> ldd_release_buffer p (ldd_rx c d p s2) | None \<Rightarrow> s2)
      in case tx_skb of Some skb \<Rightarrow> ldd_tx_done d skb s3 | None \<Rightarrow> s3)"

text \<open>\<open>napi_schedule\<close> does nothing while the context is disabled or already scheduled.\<close>

definition napi_schedule :: "netid \<Rightarrow> netsys \<Rightarrow> netsys" where
  "napi_schedule d = on_dev d (\<lambda>dv. if nd_napi_on dv then dv\<lparr>nd_napi_sched := True\<rparr> else dv)"

definition ldd_napi_interrupt :: "netid \<Rightarrow> netsys \<Rightarrow> netsys" where
  "ldd_napi_interrupt d s =
     (case ldd_ack_interrupt d s of (status, tx_skb, s1) \<Rightarrow>
      let s2 = (if has_flag status NETDEV_RX_INTR
                then napi_schedule d (on_dev d (nd_rx_int_enabled_update (\<lambda>_. False)) s1) else s1)
      in case tx_skb of Some skb \<Rightarrow> ldd_tx_done d skb s2 | None \<Rightarrow> s2)"

definition ldd_interrupt :: "net_cfg \<Rightarrow> netid \<Rightarrow> netsys \<Rightarrow> netsys" where
  "ldd_interrupt c d s = (if use_napi c then ldd_napi_interrupt d s else ldd_regular_interrupt c d s)"

definition rx_link :: "netid \<Rightarrow> pktref \<Rightarrow> netsys \<Rightarrow> netsys" where
  "rx_link d p s =
     (let s1 = on_pkt p (pk_next_update (\<lambda>_. None)) s;
          s2 = (case nd_rx_tail (net_devs s d) of
                  Some t \<Rightarrow> on_pkt t (pk_next_update (\<lambda>_. Some p)) s1
                | None \<Rightarrow> on_dev d (nd_rx_head_update (\<lambda>_. Some p)) s1)
      in on_dev d (nd_rx_tail_update (\<lambda>_. Some p)) s2)"

definition ldd_rx_enqueue :: "net_cfg \<Rightarrow> netid \<Rightarrow> pktref \<Rightarrow> netsys \<Rightarrow> netsys" where
  "ldd_rx_enqueue c d p s =
     (if \<not> nd_running (net_devs s d) then ldd_release_buffer p s
      else
        let s1 = rx_link d p s
        in if nd_rx_int_enabled (net_devs s1 d)
           then ldd_interrupt c d (on_dev d (nd_status_update (\<lambda>w. w OR NETDEV_RX_INTR)) s1)
           else s1)"

subsection \<open>Transmitting\<close>

text \<open>\<open>ip_send_check\<close> zeroes the checksum field of the header and stores the sum of the header.\<close>

definition ip_send_check :: "net_cfg \<Rightarrow> byte list \<Rightarrow> byte list" where
  "ip_send_check c data =
     (let d0 = data[ETH_HLEN + 10 := 0, ETH_HLEN + 11 := 0];
          ihl = unat (d0 ! ETH_HLEN AND 0xF)
      in case ip_fast_csum c (mem_get ETH_HLEN (4 * ihl) d0) ihl of
           (a, b) \<Rightarrow> d0[ETH_HLEN + 10 := a, ETH_HLEN + 11 := b])"

text \<open>The third bytes of \<open>saddr\<close>, at offset 12 of the header, and of \<open>daddr\<close>, at offset 16.\<close>

definition flip_addrs :: "byte list \<Rightarrow> byte list" where
  "flip_addrs data =
     (let d1 = data[ETH_HLEN + 12 + 2 := data ! (ETH_HLEN + 12 + 2) XOR 1]
      in d1[ETH_HLEN + 16 + 2 := d1 ! (ETH_HLEN + 16 + 2) XOR 1])"

definition xmit_refused :: "netsys \<Rightarrow> sk_buff \<Rightarrow> netid \<Rightarrow> bool" where
  "xmit_refused s skb d \<longleftrightarrow> skb_protocol skb \<noteq> ETH_P_IP \<or> \<not> net_there s (ldd_peer d) \<or>
     length (skb_data skb) < ETH_HLEN + sizeof_iphdr \<or> length (skb_data skb) > ETH_FRAME_LEN"

definition fill_packet :: "net_cfg \<Rightarrow> sk_buff \<Rightarrow> ldd_packet \<Rightarrow> ldd_packet" where
  "fill_packet c skb pkt =
     (let len = max (length (skb_data skb)) ETH_ZLEN;
          data = mem_put 0 (skb_data skb) (mem_put 0 (replicate len 0) (pk_data pkt))
      in pkt\<lparr>pk_data := ip_send_check c (flip_addrs data), pk_datalen := len\<rparr>)"

definition ldd_start_xmit :: "net_cfg \<Rightarrow> sk_buff \<Rightarrow> netid \<Rightarrow> netsys \<Rightarrow> netdev_tx \<times> netsys" where
  "ldd_start_xmit c skb d s =
     (if xmit_refused s skb d
      then (NETDEV_TX_OK, on_dev d (\<lambda>dv. dv\<lparr>nd_tx_dropped := nd_tx_dropped dv + 1, nd_freed := nd_freed dv @ [skb]\<rparr>) s)
      else case ldd_get_tx_buffer d s of
        (None, s1) \<Rightarrow> (NETDEV_TX_BUSY, s1)
      | (Some p, s1) \<Rightarrow>
          let s2 = on_pkt p (fill_packet c skb) s1;
              s3 = ldd_rx_enqueue c (ldd_peer d) p s2;
              s4 = on_dev d (\<lambda>dv. dv\<lparr>nd_tx_skb := Some skb, nd_status := nd_status dv OR NETDEV_TX_INTR\<rparr>) s3
          in (NETDEV_TX_OK, ldd_interrupt c d s4))"

definition xmits :: "net_cfg \<Rightarrow> netid \<Rightarrow> sk_buff list \<Rightarrow> netsys \<Rightarrow> netsys" where
  "xmits c d skbs s = fold (\<lambda>skb s. snd (ldd_start_xmit c skb d s)) skbs s"

subsection \<open>NAPI\<close>

text \<open>
  The poll function gives up the lock before each turn of its loop and after it: there the twin,
  on another processor, may send frames, \<open>late done\<close> before the turn that takes frame \<open>done\<close> and
  \<open>after\<close> between the loop and the second look at the queue.
\<close>

fun poll_loop :: "net_cfg \<Rightarrow> (nat \<Rightarrow> sk_buff list) \<Rightarrow> netid \<Rightarrow> nat \<Rightarrow> nat \<Rightarrow> netsys \<Rightarrow> nat \<times> netsys" where
  "poll_loop c late d 0 done s = (done, s)"
| "poll_loop c late d (Suc left) done s =
     (case ldd_rx_dequeue d (xmits c (ldd_peer d) (late done) s) of
        (None, s1) \<Rightarrow> (done, s1)
      | (Some p, s1) \<Rightarrow> poll_loop c late d left (done + 1) (ldd_release_buffer p (ldd_rx c d p s1)))"

definition ldd_poll :: "net_cfg \<Rightarrow> (nat \<Rightarrow> sk_buff list) \<Rightarrow> sk_buff list \<Rightarrow> bool \<Rightarrow> netid \<Rightarrow> nat \<Rightarrow> netsys \<Rightarrow> nat \<times> netsys" where
  "ldd_poll c late after complete d budget s =
     (case poll_loop c late d budget 0 s of (done, s1) \<Rightarrow>
        if done = budget then (done, s1)
        else
          let s2 = xmits c (ldd_peer d) after s1 in
          if complete then
            let s3 = on_dev d (nd_napi_sched_update (\<lambda>_. False)) s2;
                more = (nd_rx_head (net_devs s3 d) \<noteq> None);
                s4 = on_dev d (nd_rx_int_enabled_update (\<lambda>_. \<not> more)) s3
            in (done, if more then napi_schedule d s4 else s4)
          else (done, s2))"

subsection \<open>Opening, closing, headers\<close>

definition ldd_open :: "net_cfg \<Rightarrow> netid \<Rightarrow> netsys \<Rightarrow> netsys" where
  "ldd_open c d s =
     (let s1 = (if use_napi c then on_dev d (nd_napi_on_update (\<lambda>_. True)) s else s);
          s2 = on_dev d (\<lambda>dv. dv\<lparr>nd_running := True, nd_rx_int_enabled := True\<rparr>) s1
      in netif_wake_queue d s2)"

text \<open>
  \<open>napi_disable\<close> waits until the poll function does not run; a scheduled one may run some more
  times before.
\<close>

primrec polls :: "net_cfg \<Rightarrow> netid \<Rightarrow> nat \<Rightarrow> netsys \<Rightarrow> netsys" where
  "polls c d 0 s = s"
| "polls c d (Suc n) s =
     polls c d n (if nd_napi_sched (net_devs s d) then snd (ldd_poll c (\<lambda>_. []) [] True d 2 s) else s)"

definition napi_disable :: "net_cfg \<Rightarrow> netid \<Rightarrow> nat \<Rightarrow> netsys \<Rightarrow> netsys" where
  "napi_disable c d n s = on_dev d (\<lambda>dv. dv\<lparr>nd_napi_on := False, nd_napi_sched := False\<rparr>) (polls c d n s)"

text \<open>The loop ends because each turn shortens the queue; the fuel bounds the number of turns.\<close>

fun drain :: "nat \<Rightarrow> netid \<Rightarrow> netsys \<Rightarrow> netsys option" where
  "drain 0 d s = None"
| "drain (Suc n) d s =
     (case ldd_rx_dequeue d s of (None, s1) \<Rightarrow> Some s1 | (Some p, s1) \<Rightarrow> drain n d (ldd_release_buffer p s1))"

definition ldd_stop :: "nat \<Rightarrow> net_cfg \<Rightarrow> nat \<Rightarrow> netid \<Rightarrow> netsys \<Rightarrow> netsys option" where
  "ldd_stop fuel c n d s =
     (let s1 = netif_stop_queue d s;
          s2 = on_dev d (\<lambda>dv. dv\<lparr>nd_running := False, nd_rx_int_enabled := False\<rparr>) s1;
          s3 = (if use_napi c then napi_disable c d n s2 else s2)
      in drain fuel d s3)"

definition ldd_header :: "byte list \<Rightarrow> 16 word \<Rightarrow> byte list option \<Rightarrow> byte list option \<Rightarrow> sk_buff \<Rightarrow> nat \<times> sk_buff" where
  "ldd_header dev_addr type daddr saddr skb =
     (let src = (case saddr of Some a \<Rightarrow> a | None \<Rightarrow> dev_addr);
          dst = (case daddr of Some a \<Rightarrow> a | None \<Rightarrow> dev_addr)
      in (ETH_HLEN, skb\<lparr>skb_data := dst[ETH_ALEN - 1 := dst ! (ETH_ALEN - 1) XOR 1] @ src @
            [ucast (drop_bit 8 type), ucast type] @ skb_data skb\<rparr>))"

subsection \<open>Creation\<close>

definition net_addr :: "netid \<Rightarrow> byte list" where
  "net_addr d = [0, 0x53, 0x4E, 0x55, 0x4C, (case d of Sn0 \<Rightarrow> 0x30 | Sn1 \<Rightarrow> 0x31)]"

definition zero_dev :: ldd_dev where
  "zero_dev = \<lparr>nd_running = False, nd_rx_int_enabled = False, nd_status = 0, nd_pool = None, nd_rx_head = None,
     nd_rx_tail = None, nd_tx_skb = None, nd_stopped = False, nd_napi_on = False, nd_napi_sched = False,
     nd_rx_packets = 0, nd_rx_bytes = 0, nd_rx_dropped = 0, nd_tx_packets = 0, nd_tx_bytes = 0, nd_tx_dropped = 0,
     nd_up = [], nd_freed = []\<rparr>"

definition ldd_pool :: "nat \<Rightarrow> netid \<Rightarrow> netsys \<Rightarrow> netsys" where
  "ldd_pool pool_size d s = s\<lparr>
     net_pkts := (\<lambda>p. if fst p = d \<and> snd p < pool_size
        then \<lparr>pk_next = (if snd p + 1 < pool_size then Some (d, snd p + 1) else None), pk_dev = d, pk_datalen = 0,
              pk_data = replicate ETH_FRAME_LEN 0\<rparr>
        else net_pkts s p),
     net_devs := (net_devs s)(d := zero_dev\<lparr>nd_pool := Some (d, 0)\<rparr>),
     net_there := (net_there s)(d := True)\<rparr>"

datatype net_call = NetDevice netid | PktArr netid | NetRegistered netid

definition ldd_create :: "net_call answers \<Rightarrow> netid \<Rightarrow> errno option \<times> net_call call list" where
  "ldd_create F i =
     if_err (F (NetDevice i)) (\<lambda>_. (Some ENOMEM, []))
     (if_err (F (PktArr i)) (\<lambda>_. (Some ENOMEM, [Acq (NetDevice i), Rel (NetDevice i)]))
     (if_err (F (NetRegistered i))
        (\<lambda>e. (Some e, [Acq (NetDevice i), Acq (PktArr i), Rel (PktArr i), Rel (NetDevice i)]))
        (None, [Acq (NetDevice i), Acq (PktArr i), Acq (NetRegistered i)])))"

definition ldd_destroy :: "netid list \<Rightarrow> net_call call list" where
  "ldd_destroy ds = map (\<lambda>i. Rel (NetRegistered i)) ds @ concat (map (\<lambda>i. [Rel (PktArr i), Rel (NetDevice i)]) ds)"

definition netdev_m_init :: "int \<Rightarrow> net_call answers \<Rightarrow> errno option \<times> net_call call list" where
  "netdev_m_init pool_size F =
     (if pool_size < 1 then (Some EINVAL, [])
      else case ldd_create F Sn0 of
        (Some e, cs) \<Rightarrow> (Some e, cs @ ldd_destroy [])
      | (None, cs) \<Rightarrow> (case ldd_create F Sn1 of
          (Some e, cs') \<Rightarrow> (Some e, cs @ cs' @ ldd_destroy [Sn0])
        | (None, cs') \<Rightarrow> (None, cs @ cs')))"

definition netdev_m_exit :: "net_call call list" where
  "netdev_m_exit = ldd_destroy [Sn0, Sn1]"

subsection \<open>Linked lists of buffers\<close>

fun chain :: "(pktref \<Rightarrow> ldd_packet) \<Rightarrow> pktref option \<Rightarrow> pktref list \<Rightarrow> bool" where
  "chain h p [] \<longleftrightarrow> p = None"
| "chain h p (x # xs) \<longleftrightarrow> p = Some x \<and> chain h (pk_next (h x)) xs"

lemma chain_None [simp]: "chain h None xs \<longleftrightarrow> xs = []"
  by (cases xs) auto

lemma chain_Some: "chain h (Some p) xs \<longleftrightarrow> (\<exists>ys. xs = p # ys \<and> chain h (pk_next (h p)) ys)"
  by (cases xs) auto

fun first_of :: "'a list \<Rightarrow> 'a option" where
  "first_of [] = None"
| "first_of (x # xs) = Some x"

definition last_of :: "'a list \<Rightarrow> 'a option" where
  "last_of xs = (if xs = [] then None else Some (last xs))"

lemma first_of_None [simp]: "first_of xs = None \<longleftrightarrow> xs = []" "None = first_of xs \<longleftrightarrow> xs = []"
  by (cases xs; simp)+

lemma last_of_simps [simp]: "last_of [] = None" "last_of (xs @ [x]) = Some x" "last_of (x # xs) = Some (last (x # xs))"
  by (simp_all add: last_of_def)

lemma chain_head: "chain h p xs \<Longrightarrow> p = first_of xs"
  by (cases xs) auto

lemma chain_cong: "\<forall>x\<in>set xs. pk_next (h' x) = pk_next (h x) \<Longrightarrow> chain h' p xs = chain h p xs"
  by (induction xs arbitrary: p) auto

lemma chain_snoc:
  assumes "chain h p xs" and "xs \<noteq> []" and "distinct xs" and "x \<notin> set xs"
    and "\<forall>y\<in>set xs. pk_next (h' y) = (if y = last xs then Some x else pk_next (h y))" and "pk_next (h' x) = None"
  shows "chain h' p (xs @ [x])"
  using assms
proof (induction xs arbitrary: p)
  case (Cons y ys)
  show ?case
  proof (cases ys)
    case Nil
    then show ?thesis using Cons.prems by simp
  next
    case Cons' : (Cons z zs)
    have "chain h' (pk_next (h y)) (ys @ [x])" using Cons.prems Cons' by (intro Cons.IH) auto
    moreover have "pk_next (h' y) = pk_next (h y)" using Cons.prems Cons' by auto
    ultimately show ?thesis using Cons.prems by simp
  qed
qed simp

lemma net_devs_on_dev [simp]: "net_devs (on_dev d f s) e = (if e = d then f (net_devs s d) else net_devs s e)"
  by (simp add: on_dev_def)

lemma net_pkts_on_dev [simp]: "net_pkts (on_dev d f s) = net_pkts s"
  by (simp add: on_dev_def)

lemma net_there_on_dev [simp]: "net_there (on_dev d f s) = net_there s"
  by (simp add: on_dev_def)

lemma net_devs_on_pkt [simp]: "net_devs (on_pkt p f s) = net_devs s"
  by (simp add: on_pkt_def)

lemma net_pkts_on_pkt [simp]: "net_pkts (on_pkt p f s) q = (if q = p then f (net_pkts s p) else net_pkts s q)"
  by (simp add: on_pkt_def)

lemma net_there_on_pkt [simp]: "net_there (on_pkt p f s) = net_there s"
  by (simp add: on_pkt_def)

lemma ldd_peer_peer [simp]: "ldd_peer (ldd_peer d) = d"
  by (cases d) simp_all

lemma ldd_peer_neq [simp]: "ldd_peer d \<noteq> d" "d \<noteq> ldd_peer d"
  by (cases d; simp)+

lemma ldd_peer_eq [simp]: "ldd_peer d = ldd_peer e \<longleftrightarrow> d = e"
  by (cases d; cases e) simp_all

lemma nd_same [simp]: "dv\<lparr>nd_stopped := nd_stopped dv\<rparr> = dv" "dv\<lparr>nd_pool := P, nd_stopped := nd_stopped dv\<rparr> = dv\<lparr>nd_pool := P\<rparr>"
  by (cases dv; simp)+

lemma netid_two: "e = d \<or> e = ldd_peer d"
  by (cases d; cases e) simp_all

text \<open>
  The buffers of each device: \<open>pl d\<close> in its pool, \<open>rq (ldd_peer d)\<close> in the queue of the twin and
  those in the hands of the code, \<open>fl\<close>; together each of the \<open>N\<close> buffers exactly once.
\<close>

definition owned :: "nat \<Rightarrow> (netid \<Rightarrow> pktref list) \<Rightarrow> (netid \<Rightarrow> pktref list) \<Rightarrow> pktref list \<Rightarrow> bool" where
  "owned N pl rq fl \<longleftrightarrow> (\<forall>d. mset (pl d) + mset (rq (ldd_peer d)) + mset (filter (\<lambda>p. fst p = d) fl) = mset (map (Pair d) [0..<N]))"

definition pkts_ok :: "nat \<Rightarrow> netsys \<Rightarrow> bool" where
  "pkts_ok N s \<longleftrightarrow> (\<forall>d i. i < N \<longrightarrow> pk_dev (net_pkts s (d, i)) = d \<and>
     length (pk_data (net_pkts s (d, i))) = ETH_FRAME_LEN \<and> pk_datalen (net_pkts s (d, i)) \<le> ETH_FRAME_LEN)"

definition net_rep :: "nat \<Rightarrow> netsys \<Rightarrow> (netid \<Rightarrow> pktref list) \<Rightarrow> (netid \<Rightarrow> pktref list) \<Rightarrow> pktref list \<Rightarrow> bool" where
  "net_rep N s pl rq fl \<longleftrightarrow>
     (\<forall>d. chain (net_pkts s) (nd_pool (net_devs s d)) (pl d) \<and>
          chain (net_pkts s) (nd_rx_head (net_devs s d)) (rq d) \<and>
          nd_rx_tail (net_devs s d) = last_of (rq d)) \<and>
     owned N pl rq fl \<and> pkts_ok N s"

lemma owned_mset:
  "owned N pl rq fl \<Longrightarrow> mset (pl d @ rq (ldd_peer d) @ filter (\<lambda>p. fst p = d) fl) = mset (map (Pair d) [0..<N])"
  unfolding owned_def mset_append by (metis add.assoc)

lemma owned_distinct:
  assumes "owned N pl rq fl"
  shows "distinct (pl d @ rq (ldd_peer d) @ filter (\<lambda>p. fst p = d) fl)"
  using mset_eq_imp_distinct_iff [OF owned_mset [OF assms, of d]] by (simp add: distinct_map inj_on_def)

lemma owned_set:
  assumes "owned N pl rq fl"
  shows "set (pl d) \<union> set (rq (ldd_peer d)) \<union> {p \<in> set fl. fst p = d} = {d} \<times> {0..<N}"
  using mset_eq_setD [OF owned_mset [OF assms, of d]] by auto

lemma owned_fst:
  assumes "owned N pl rq fl"
  shows "p \<in> set (pl d) \<Longrightarrow> fst p = d \<and> snd p < N" and "p \<in> set (rq d) \<Longrightarrow> fst p = ldd_peer d \<and> snd p < N"
    and "p \<in> set fl \<Longrightarrow> snd p < N"
proof -
  have s: "q \<in> set (pl e) \<or> q \<in> set (rq (ldd_peer e)) \<or> q \<in> set fl \<and> fst q = e \<longleftrightarrow> q \<in> {e} \<times> {0..<N}" for e q
    using owned_set [OF assms, of e] by blast
  show "p \<in> set (pl d) \<Longrightarrow> fst p = d \<and> snd p < N" using s [of p d] by (cases p) simp
  show "p \<in> set (rq d) \<Longrightarrow> fst p = ldd_peer d \<and> snd p < N" using s [of p "ldd_peer d"] by (cases p) simp
  show "p \<in> set fl \<Longrightarrow> snd p < N" using s [of p "fst p"] by (cases p) simp
qed

lemma owned_flight:
  assumes "owned N pl rq fl" and "p \<in> set fl"
  shows "p \<notin> set (pl d)" and "p \<notin> set (rq d)"
proof -
  have a: "distinct (pl (fst p) @ rq (ldd_peer (fst p)) @ filter (\<lambda>q. fst q = fst p) fl)"
    by (rule owned_distinct [OF assms(1)])
  show "p \<notin> set (pl d)" using a assms(2) owned_fst(1) [OF assms(1), of p d] by auto
  show "p \<notin> set (rq d)" using a assms(2) owned_fst(2) [OF assms(1), of p d] by auto
qed

lemma owned_pool_queue:
  assumes "owned N pl rq fl"
  shows "p \<in> set (pl d) \<Longrightarrow> p \<notin> set (rq e)" and "distinct (pl d)" and "distinct (rq d)"
    and "p \<in> set (pl d) \<Longrightarrow> p \<in> set (pl e) \<Longrightarrow> d = e" and "p \<in> set (rq d) \<Longrightarrow> p \<in> set (rq e) \<Longrightarrow> d = e"
proof -
  have a: "distinct (pl x @ rq (ldd_peer x) @ filter (\<lambda>q. fst q = x) fl)" for x by (rule owned_distinct [OF assms])
  note f = owned_fst [OF assms]
  show "p \<notin> set (rq e)" if "p \<in> set (pl d)"
  proof
    assume "p \<in> set (rq e)"
    then have "e = ldd_peer d" using f(2) [of p e] f(1) [OF that] by auto
    then show False using a [of d] that \<open>p \<in> set (rq e)\<close> by auto
  qed
  show "distinct (pl d)" using a [of d] by simp
  show "distinct (rq d)" using a [of "ldd_peer d"] by simp
  show "p \<in> set (pl d) \<Longrightarrow> p \<in> set (pl e) \<Longrightarrow> d = e" using f(1) [of p d] f(1) [of p e] by simp
  show "p \<in> set (rq d) \<Longrightarrow> p \<in> set (rq e) \<Longrightarrow> d = e" using f(2) [of p d] f(2) [of p e] by simp
qed

subsection \<open>The operations on buffers\<close>

lemma net_repD:
  assumes "net_rep N s pl rq fl"
  shows "chain (net_pkts s) (nd_pool (net_devs s d)) (pl d)" "chain (net_pkts s) (nd_rx_head (net_devs s d)) (rq d)"
    "nd_rx_tail (net_devs s d) = last_of (rq d)" "owned N pl rq fl" "pkts_ok N s"
  using assms by (auto simp: net_rep_def)

lemma net_rep_pool: "net_rep N s pl rq fl \<Longrightarrow> nd_pool (net_devs s d) = first_of (pl d)"
  by (rule chain_head [OF net_repD(1)])

lemma net_rep_head: "net_rep N s pl rq fl \<Longrightarrow> nd_rx_head (net_devs s d) = first_of (rq d)"
  by (rule chain_head [OF net_repD(2)])

lemma net_rep_on_dev [simp]:
  assumes "\<And>dv. nd_pool (f dv) = nd_pool dv" and "\<And>dv. nd_rx_head (f dv) = nd_rx_head dv" and "\<And>dv. nd_rx_tail (f dv) = nd_rx_tail dv"
  shows "net_rep N (on_dev d f s) pl rq fl = net_rep N s pl rq fl"
proof -
  have "nd_pool (net_devs (on_dev d f s) e) = nd_pool (net_devs s e)" "nd_rx_head (net_devs (on_dev d f s) e) = nd_rx_head (net_devs s e)"
    "nd_rx_tail (net_devs (on_dev d f s) e) = nd_rx_tail (net_devs s e)" for e
    by (simp_all add: assms)
  then show ?thesis by (simp only: net_rep_def pkts_ok_def net_pkts_on_dev)
qed

lemma frame_on_dev [simp]: "frame (on_dev d f s) = frame s"
  by (simp add: frame_def fun_eq_iff)

lemma frame_on_next [simp]: "frame (on_pkt p (pk_next_update f) s) = frame s"
  by (simp add: frame_def fun_eq_iff)

lemma pkts_ok_dev:
  assumes "net_rep N s pl rq fl" and "p \<in> set fl"
  shows "pk_dev (net_pkts s p) = fst p"
  using net_repD(5) [OF assms(1)] owned_fst(3) [OF net_repD(4) [OF assms(1)] assms(2)]
  by (cases p) (simp add: pkts_ok_def)

lemma pkts_ok_on_next [simp]: "pkts_ok N (on_pkt p (pk_next_update f) s) = pkts_ok N s"
proof -
  have "pk_dev (net_pkts (on_pkt p (pk_next_update f) s) q) = pk_dev (net_pkts s q)"
    "pk_data (net_pkts (on_pkt p (pk_next_update f) s) q) = pk_data (net_pkts s q)"
    "pk_datalen (net_pkts (on_pkt p (pk_next_update f) s) q) = pk_datalen (net_pkts s q)" for q by simp_all
  then show ?thesis by (simp only: pkts_ok_def)
qed

lemma pkts_ok_on_dev [simp]: "pkts_ok N (on_dev d f s) = pkts_ok N s"
  by (simp add: pkts_ok_def)

lemma get_spec:
  assumes r: "net_rep N s pl rq []" and pl: "pl d = p # xs"
  defines "t \<equiv> on_dev d (\<lambda>dv. dv\<lparr>nd_pool := first_of xs, nd_stopped := (xs = [] \<or> nd_stopped dv)\<rparr>) s"
  shows "ldd_get_tx_buffer d s = (Some p, t)"
    and "net_rep N t (pl(d := xs)) rq [p]" and "fst p = d"
proof -
  have c: "nd_pool (net_devs s d) = Some p" "chain (net_pkts s) (pk_next (net_pkts s p)) xs"
    using net_repD(1) [OF r, of d] by (simp_all add: pl)
  then have h: "pk_next (net_pkts s p) = first_of xs" using chain_head by blast
  show "ldd_get_tx_buffer d s = (Some p, t)"
    using c h by (cases "xs = []") (simp_all add: t_def ldd_get_tx_buffer_def Let_def netif_stop_queue_def on_dev_def)
  have o: "owned N pl rq []" using net_repD(4) [OF r] .
  show f: "fst p = d" using owned_fst(1) [OF o, of p d] by (simp add: pl)
  have "owned N (pl(d := xs)) rq [p]"
    unfolding owned_def
  proof
    fix e
    show "mset ((pl(d := xs)) e) + mset (rq (ldd_peer e)) + mset (filter (\<lambda>p. fst p = e) [p]) = mset (map (Pair e) [0..<N])"
      using o [unfolded owned_def, rule_format, of e] by (cases "e = d") (simp_all add: pl f)
  qed
  then show "net_rep N t (pl(d := xs)) rq [p]" using r c h by (simp add: net_rep_def t_def)
qed

lemma get_none: "net_rep N s pl rq [] \<Longrightarrow> pl d = [] \<Longrightarrow> ldd_get_tx_buffer d s = (None, s)"
  using net_rep_pool [of N s pl rq "[]" d] by (simp add: ldd_get_tx_buffer_def)

lemma release_spec:
  assumes r: "net_rep N s pl rq [p]"
  defines "t \<equiv> on_dev (fst p) (\<lambda>dv. dv\<lparr>nd_pool := Some p, nd_stopped := (nd_stopped dv \<and> pl (fst p) \<noteq> [])\<rparr>)
    (on_pkt p (pk_next_update (\<lambda>_. nd_pool (net_devs s (fst p)))) s)"
  shows "ldd_release_buffer p s = t"
    and "net_rep N t (pl(fst p := p # pl (fst p))) rq []"
proof -
  have d: "pk_dev (net_pkts s p) = fst p" using pkts_ok_dev [OF r] by simp
  have o: "owned N pl rq [p]" using net_repD(4) [OF r] .
  have n: "p \<notin> set (pl e)" "p \<notin> set (rq e)" for e using owned_flight [OF o] by simp_all
  show "ldd_release_buffer p s = t"
    using net_rep_pool [OF r, of "fst p"]
    by (auto simp: t_def ldd_release_buffer_def d Let_def netif_wake_queue_def on_dev_def on_pkt_def fun_eq_iff)
  have "owned N (pl(fst p := p # pl (fst p))) rq []"
    unfolding owned_def
  proof
    fix e
    show "mset ((pl(fst p := p # pl (fst p))) e) + mset (rq (ldd_peer e)) + mset (filter (\<lambda>p. fst p = e) []) = mset (map (Pair e) [0..<N])"
      using o [unfolded owned_def, rule_format, of e] by (cases "fst p = e") auto
  qed
  moreover have "chain (net_pkts (on_pkt p (pk_next_update f) s)) q (pl e) = chain (net_pkts s) q (pl e)"
    "chain (net_pkts (on_pkt p (pk_next_update f) s)) q (rq e) = chain (net_pkts s) q (rq e)" for e q f
    using n by (auto intro!: chain_cong)
  ultimately show "net_rep N t (pl(fst p := p # pl (fst p))) rq []" using r by (simp add: net_rep_def t_def)
qed

lemma dequeue_spec:
  assumes r: "net_rep N s pl rq []" and rq: "rq d = p # xs"
  defines "t \<equiv> on_dev d (\<lambda>dv. dv\<lparr>nd_rx_head := first_of xs,
    nd_rx_tail := (if xs = [] then None else nd_rx_tail dv)\<rparr>) s"
  shows "ldd_rx_dequeue d s = (Some p, t)"
    and "net_rep N t pl (rq(d := xs)) [p]" and "fst p = ldd_peer d"
proof -
  have c: "nd_rx_head (net_devs s d) = Some p" "chain (net_pkts s) (pk_next (net_pkts s p)) xs"
    using net_repD(2) [OF r, of d] by (simp_all add: rq)
  then have h: "pk_next (net_pkts s p) = first_of xs" using chain_head by blast
  show "ldd_rx_dequeue d s = (Some p, t)"
    using c h by (auto simp: t_def ldd_rx_dequeue_def on_dev_def fun_eq_iff)
  have o: "owned N pl rq []" using net_repD(4) [OF r] .
  show f: "fst p = ldd_peer d" using owned_fst(2) [OF o, of p d] by (simp add: rq)
  have "owned N pl (rq(d := xs)) [p]"
    unfolding owned_def
  proof
    fix e
    show "mset (pl e) + mset ((rq(d := xs)) (ldd_peer e)) + mset (filter (\<lambda>p. fst p = e) [p]) = mset (map (Pair e) [0..<N])"
      using o [unfolded owned_def, rule_format, of e] netid_two [of e d]
      by (cases "e = d") (auto simp: rq f)
  qed
  then show "net_rep N t pl (rq(d := xs)) [p]" using r c h net_repD(3) [OF r, of d] by (cases xs) (simp_all add: net_rep_def rq t_def)
qed

lemma dequeue_none: "net_rep N s pl rq [] \<Longrightarrow> rq d = [] \<Longrightarrow> ldd_rx_dequeue d s = (None, s)"
  using net_rep_head [of N s pl rq "[]" d] by (simp add: ldd_rx_dequeue_def)

lemma link_spec:
  assumes r: "net_rep N s pl rq [p]" and f: "fst p = ldd_peer d"
  shows "net_rep N (rx_link d p s) pl (rq(d := rq d @ [p])) []"
proof -
  have o: "owned N pl rq [p]" using net_repD(4) [OF r] .
  have n: "p \<notin> set (pl e)" "p \<notin> set (rq e)" for e using owned_flight [OF o] by simp_all
  note q = owned_pool_queue [OF o]
  have o': "owned N pl (rq(d := rq d @ [p])) []"
    unfolding owned_def
  proof
    fix e
    show "mset (pl e) + mset ((rq(d := rq d @ [p])) (ldd_peer e)) + mset (filter (\<lambda>p. fst p = e) []) = mset (map (Pair e) [0..<N])"
      using o [unfolded owned_def, rule_format, of e] netid_two [of e d] by (cases "e = d") (auto simp: f)
  qed
  let ?s = "rx_link d p s"
  have t: "nd_rx_tail (net_devs s d) = last_of (rq d)" using net_repD(3) [OF r] .
  have nx: "pk_next (net_pkts ?s x) = (if x = p then None else if rq d \<noteq> [] \<and> x = last (rq d) then Some p else pk_next (net_pkts s x))" for x
    using n(2) [of d] by (auto simp: rx_link_def t last_of_def Let_def)
  have pool: "nd_pool (net_devs ?s e) = nd_pool (net_devs s e)" for e
    by (simp add: rx_link_def Let_def split: option.split)
  have hd: "nd_rx_head (net_devs ?s e) = (if e = d \<and> rq d = [] then Some p else nd_rx_head (net_devs s e))" for e
    by (simp add: rx_link_def t last_of_def Let_def)
  have tl: "nd_rx_tail (net_devs ?s e) = (if e = d then Some p else nd_rx_tail (net_devs s e))" for e
    by (simp add: rx_link_def Let_def split: option.split)
  have ne: "last (rq d) \<in> set (rq d)" if "rq d \<noteq> []" using that by simp
  have c1: "chain (net_pkts ?s) (nd_pool (net_devs ?s e)) (pl e)" for e
  proof -
    have "\<forall>x\<in>set (pl e). pk_next (net_pkts ?s x) = pk_next (net_pkts s x)"
    proof
      fix x
      assume x: "x \<in> set (pl e)"
      have "x \<noteq> p" "\<not> (rq d \<noteq> [] \<and> x = last (rq d))" using n(1) [of e] ne q(1) [OF x, of d] x by metis+
      then show "pk_next (net_pkts ?s x) = pk_next (net_pkts s x)" by (simp only: nx if_False)
    qed
    from chain_cong [OF this] show ?thesis using net_repD(1) [OF r, of e] by (simp add: pool)
  qed
  have c2: "chain (net_pkts ?s) (nd_rx_head (net_devs ?s e)) ((rq(d := rq d @ [p])) e)" for e
  proof (cases "e = d")
    case True
    show ?thesis
    proof (cases "rq d = []")
      case True
      then show ?thesis using \<open>e = d\<close> by (simp add: hd nx)
    next
      case False
      have "chain (net_pkts ?s) (nd_rx_head (net_devs s d)) (rq d @ [p])"
        by (rule chain_snoc [OF net_repD(2) [OF r] False q(3) n(2)]) (use n(2) [of d] False in \<open>auto simp: nx\<close>)
      then show ?thesis using \<open>e = d\<close> False by (simp add: hd)
    qed
  next
    case False
    have "\<forall>x\<in>set (rq e). pk_next (net_pkts ?s x) = pk_next (net_pkts s x)"
    proof
      fix x
      assume x: "x \<in> set (rq e)"
      have "x \<noteq> p" "\<not> (rq d \<noteq> [] \<and> x = last (rq d))" using n(2) [of e] ne q(5) [OF x, of d] x False by metis+
      then show "pk_next (net_pkts ?s x) = pk_next (net_pkts s x)" by (simp only: nx if_False)
    qed
    from chain_cong [OF this] show ?thesis using net_repD(2) [OF r, of e] False by (simp add: hd)
  qed
  have "pkts_ok N ?s" using net_repD(5) [OF r] by (simp add: rx_link_def Let_def split: option.split)
  then show ?thesis using c1 c2 o' tl net_repD(3) [OF r] unfolding net_rep_def by auto
qed

lemma link_fields:
  "net_devs (rx_link d p s) e = (if e = d
     then (net_devs s d)\<lparr>nd_rx_head := (if nd_rx_tail (net_devs s d) = None then Some p else nd_rx_head (net_devs s d)), nd_rx_tail := Some p\<rparr>
     else net_devs s e)"
  "frame (rx_link d p s) = frame s" "net_there (rx_link d p s) = net_there s"
  by (cases "net_devs s d") (simp_all add: rx_link_def Let_def split: option.split)

subsection \<open>What holds between calls\<close>

text \<open>
  Between the calls of the kernel no interrupt is pending; a device that is up and has a free
  buffer is not stopped; and frames wait in the queue only with NAPI and only while the poll
  function is scheduled, as it is while receive interrupts are off.
\<close>

definition dev_quiet :: "net_cfg \<Rightarrow> ldd_dev \<Rightarrow> bool" where
  "dev_quiet c dv \<longleftrightarrow> nd_status dv = 0 \<and> nd_tx_skb dv = None \<and>
     (nd_running dv \<and> nd_stopped dv \<longrightarrow> nd_pool dv = None) \<and>
     (nd_rx_head dv \<noteq> None \<longrightarrow> use_napi c \<and> nd_running dv \<and> nd_napi_sched dv) \<and>
     (use_napi c \<longrightarrow> nd_napi_on dv = nd_running dv \<and> (nd_napi_sched dv \<longrightarrow> nd_running dv) \<and> (nd_running dv \<longrightarrow> nd_rx_int_enabled dv = (\<not> nd_napi_sched dv))) \<and>
     (\<not> use_napi c \<longrightarrow> nd_rx_int_enabled dv = nd_running dv)"

definition net_ok :: "net_cfg \<Rightarrow> nat \<Rightarrow> netsys \<Rightarrow> (netid \<Rightarrow> pktref list) \<Rightarrow> (netid \<Rightarrow> pktref list) \<Rightarrow> pktref list \<Rightarrow> bool" where
  "net_ok c N s pl rq fl \<longleftrightarrow> net_rep N s pl rq fl \<and> (\<forall>d. dev_quiet c (net_devs s d))"

text \<open>The frames that have arrived at a device: passed up, or waiting in its queue.\<close>

definition arrived :: "netsys \<Rightarrow> (netid \<Rightarrow> pktref list) \<Rightarrow> netid \<Rightarrow> byte list list" where
  "arrived s rq d = nd_up (net_devs s d) @ map (frame s) (rq d)"

lemma net_okD: "net_ok c N s pl rq fl \<Longrightarrow> net_rep N s pl rq fl" "net_ok c N s pl rq fl \<Longrightarrow> dev_quiet c (net_devs s d)"
  by (simp_all add: net_ok_def)

text \<open>One frame taken from the queue, passed up, its buffer given back.\<close>

definition take_frame :: "net_cfg \<Rightarrow> netid \<Rightarrow> pktref \<Rightarrow> netsys \<Rightarrow> netsys" where
  "take_frame c d p s = ldd_release_buffer p (ldd_rx c d p s)"

lemma ldd_rx_rep [simp]: "net_rep N (ldd_rx c d p s) pl rq fl = net_rep N s pl rq fl"
  by (simp add: ldd_rx_def)

lemma take_spec:
  assumes r: "net_rep N s pl rq []" and rq: "rq d = p # xs"
    and u: "ldd_rx_dequeue d s = (Some p, t)"
  shows "net_rep N (take_frame c d p t) (pl(ldd_peer d := p # pl (ldd_peer d))) (rq(d := xs)) []"
    and "frame (take_frame c d p t) = frame s" and "net_there (take_frame c d p t) = net_there s"
    and "net_devs (take_frame c d p t) (ldd_peer d) =
      (net_devs s (ldd_peer d))\<lparr>nd_pool := Some p, nd_stopped := (nd_stopped (net_devs s (ldd_peer d)) \<and> pl (ldd_peer d) \<noteq> [])\<rparr>"
    and "net_devs (take_frame c d p t) d = net_devs (ldd_rx c d p t) d"
    and "t = on_dev d (\<lambda>dv. dv\<lparr>nd_rx_head := first_of xs, nd_rx_tail := (if xs = [] then None else nd_rx_tail dv)\<rparr>) s"
proof -
  note dq = dequeue_spec [OF r rq]
  have t: "t = on_dev d (\<lambda>dv. dv\<lparr>nd_rx_head := first_of xs, nd_rx_tail := (if xs = [] then None else nd_rx_tail dv)\<rparr>) s"
    using dq(1) u by simp
  show "t = on_dev d (\<lambda>dv. dv\<lparr>nd_rx_head := first_of xs, nd_rx_tail := (if xs = [] then None else nd_rx_tail dv)\<rparr>) s" by (rule t)
  have rt: "net_rep N (ldd_rx c d p t) pl (rq(d := xs)) [p]" using dq(2) by (simp add: t)
  note rl = release_spec [OF rt]
  show "net_rep N (take_frame c d p t) (pl(ldd_peer d := p # pl (ldd_peer d))) (rq(d := xs)) []"
    using rl(2) by (simp add: take_frame_def rl(1) dq(3))
  show "frame (take_frame c d p t) = frame s" "net_there (take_frame c d p t) = net_there s"
    unfolding take_frame_def rl(1) by (simp_all add: ldd_rx_def t)
  show "net_devs (take_frame c d p t) (ldd_peer d) =
      (net_devs s (ldd_peer d))\<lparr>nd_pool := Some p, nd_stopped := (nd_stopped (net_devs s (ldd_peer d)) \<and> pl (ldd_peer d) \<noteq> [])\<rparr>"
    unfolding take_frame_def rl(1) by (simp add: dq(3) ldd_rx_def t)
  show "net_devs (take_frame c d p t) d = net_devs (ldd_rx c d p t) d"
    by (simp add: take_frame_def rl(1) dq(3))
qed

lemma dev_quiet_release:
  "dev_quiet c dv \<Longrightarrow> nd_pool dv = first_of pl \<Longrightarrow>
   dev_quiet c (dv\<lparr>nd_pool := Some p, nd_stopped := (nd_stopped dv \<and> pl \<noteq> [])\<rparr>)"
  by (auto simp: dev_quiet_def)

lemma dev_quiet_get:
  "dev_quiet c dv \<Longrightarrow> nd_pool dv = Some p \<Longrightarrow> dev_quiet c (dv\<lparr>nd_pool := first_of xs, nd_stopped := (xs = [] \<or> nd_stopped dv)\<rparr>)"
  by (auto simp: dev_quiet_def)

subsection \<open>Interrupts\<close>

lemma has_intr [simp]:
  "has_flag NETDEV_TX_INTR NETDEV_TX_INTR" "\<not> has_flag NETDEV_TX_INTR NETDEV_RX_INTR"
  "has_flag NETDEV_RX_INTR NETDEV_RX_INTR" "\<not> has_flag NETDEV_RX_INTR NETDEV_TX_INTR"
  by (simp_all add: has_flag_def intr_defs)

lemma status_same: "nd_status dv = 0 \<Longrightarrow> dv\<lparr>nd_status := 0\<rparr> = dv"
  by (cases dv) simp

lemma on_dev_on_dev [simp]: "on_dev d f (on_dev d g s) = on_dev d (\<lambda>dv. f (g dv)) s"
  by (simp add: on_dev_def)

lemma on_dev_id: "f (net_devs s d) = net_devs s d \<Longrightarrow> on_dev d f s = s"
  by (simp add: on_dev_def)

lemma on_dev_cong: "f (net_devs s d) = g (net_devs s d) \<Longrightarrow> on_dev d f s = on_dev d g s"
  by (simp add: on_dev_def)

lemma interrupt_tx:
  assumes "nd_status (net_devs s d) = 0"
  shows "ldd_interrupt c d (on_dev d (\<lambda>dv. dv\<lparr>nd_tx_skb := Some skb, nd_status := nd_status dv OR NETDEV_TX_INTR\<rparr>) s) =
    ldd_tx_done d skb (on_dev d (\<lambda>dv. dv\<lparr>nd_status := 0, nd_tx_skb := None\<rparr>) s)"
  by (simp add: ldd_interrupt_def ldd_napi_interrupt_def ldd_regular_interrupt_def ldd_ack_interrupt_def assms Let_def)

lemma interrupt_rx:
  assumes "nd_status (net_devs s d) = 0"
  shows "ldd_interrupt c d (on_dev d (nd_status_update (\<lambda>w. w OR NETDEV_RX_INTR)) s) =
    (if use_napi c then napi_schedule d (on_dev d (nd_rx_int_enabled_update (\<lambda>_. False)) s)
     else case ldd_rx_dequeue d s of (Some p, t) \<Rightarrow> take_frame c d p t | (None, t) \<Rightarrow> t)"
proof -
  have "on_dev d (\<lambda>dv. nd_status_update (\<lambda>_. 0) (nd_status_update (\<lambda>w. w OR NETDEV_RX_INTR) dv)) s = s"
    by (rule on_dev_id) (cases "net_devs s d", use assms in simp)
  then show ?thesis
    by (auto simp: ldd_interrupt_def ldd_napi_interrupt_def ldd_regular_interrupt_def ldd_ack_interrupt_def assms Let_def
        take_frame_def split: prod.split option.split)
qed

subsection \<open>A frame arrives\<close>

lemma enqueue_down:
  assumes k: "net_ok c N s pl rq [p]" and f: "fst p = ldd_peer d" and nr: "\<not> nd_running (net_devs s d)"
  shows "net_ok c N (ldd_rx_enqueue c d p s) (pl(ldd_peer d := p # pl (ldd_peer d))) rq []"
    and "arrived (ldd_rx_enqueue c d p s) rq e = arrived s rq e" and "net_there (ldd_rx_enqueue c d p s) = net_there s"
    and "nd_freed (net_devs (ldd_rx_enqueue c d p s) e) = nd_freed (net_devs s e)"
proof -
  note r = net_okD(1) [OF k] and rl = release_spec [OF net_okD(1) [OF k]]
  have e: "ldd_rx_enqueue c d p s = ldd_release_buffer p s" using nr by (simp add: ldd_rx_enqueue_def)
  have q: "dev_quiet c (net_devs s x)" for x using k by (simp add: net_ok_def)
  show "net_ok c N (ldd_rx_enqueue c d p s) (pl(ldd_peer d := p # pl (ldd_peer d))) rq []"
    using rl(2) q dev_quiet_release [OF q net_rep_pool [OF r]] by (simp add: net_ok_def e rl(1) f)
  show "arrived (ldd_rx_enqueue c d p s) rq e = arrived s rq e" "net_there (ldd_rx_enqueue c d p s) = net_there s"
    "nd_freed (net_devs (ldd_rx_enqueue c d p s) e) = nd_freed (net_devs s e)"
    by (simp_all add: e rl(1) arrived_def)
qed

lemma enqueue_napi:
  assumes k: "net_ok c N s pl rq [p]" and f: "fst p = ldd_peer d" and rn: "nd_running (net_devs s d)" and na: "use_napi c"
  shows "net_ok c N (ldd_rx_enqueue c d p s) pl (rq(d := rq d @ [p])) []"
    and "arrived (ldd_rx_enqueue c d p s) (rq(d := rq d @ [p])) e = (if e = d then arrived s rq d @ [frame s p] else arrived s rq e)"
    and "net_there (ldd_rx_enqueue c d p s) = net_there s" and "nd_freed (net_devs (ldd_rx_enqueue c d p s) e) = nd_freed (net_devs s e)"
proof -
  let ?t = "ldd_rx_enqueue c d p s" and ?l = "rx_link d p s"
  have q: "dev_quiet c (net_devs s x)" for x using k by (simp add: net_ok_def)
  note lf = link_fields [of d p s]
  have st: "nd_status (net_devs ?l d) = 0" using q [of d] lf(1) [of d] by (simp add: dev_quiet_def)
  have e: "?t = (if nd_rx_int_enabled (net_devs s d) then napi_schedule d (on_dev d (nd_rx_int_enabled_update (\<lambda>_. False)) ?l) else ?l)"
    using rn lf(1) [of d] interrupt_rx [OF st, of c] na by (simp add: ldd_rx_enqueue_def Let_def)
  have rep: "net_rep N ?l pl (rq(d := rq d @ [p])) []" by (rule link_spec [OF net_okD(1) [OF k] f])
  then have rep': "net_rep N ?t pl (rq(d := rq d @ [p])) []" by (simp add: e napi_schedule_def)
  have "dev_quiet c (net_devs ?t x)" for x
    using q [of x] q [of d] rn na lf(1) [of x] by (auto simp: e napi_schedule_def dev_quiet_def)
  then show "net_ok c N ?t pl (rq(d := rq d @ [p])) []" using rep' by (simp add: net_ok_def)
  have fr: "frame ?t = frame s" by (simp add: e napi_schedule_def lf)
  have up: "nd_up (net_devs ?t x) = nd_up (net_devs s x)" "nd_freed (net_devs ?t x) = nd_freed (net_devs s x)" for x
    by (simp_all add: e napi_schedule_def lf(1))
  show "arrived ?t (rq(d := rq d @ [p])) e = (if e = d then arrived s rq d @ [frame s p] else arrived s rq e)"
    by (simp add: arrived_def fr up)
  show "net_there ?t = net_there s" by (simp add: e napi_schedule_def lf)
  show "nd_freed (net_devs ?t e) = nd_freed (net_devs s e)" by (rule up)
qed

lemma enqueue_regular:
  assumes k: "net_ok c N s pl rq [p]" and f: "fst p = ldd_peer d" and rn: "nd_running (net_devs s d)" and na: "\<not> use_napi c"
  shows "net_ok c N (ldd_rx_enqueue c d p s) (pl(ldd_peer d := p # pl (ldd_peer d))) rq []"
    and "arrived (ldd_rx_enqueue c d p s) rq (ldd_peer d) = arrived s rq (ldd_peer d)"
    and "\<exists>b. arrived (ldd_rx_enqueue c d p s) rq d = arrived s rq d @ (if b then [frame s p] else []) \<and> ((\<forall>t. alloc_skb c t) \<longrightarrow> b)"
    and "net_there (ldd_rx_enqueue c d p s) = net_there s" and "nd_freed (net_devs (ldd_rx_enqueue c d p s) e) = nd_freed (net_devs s e)"
proof -
  let ?t = "ldd_rx_enqueue c d p s" and ?l = "rx_link d p s"
  have q: "dev_quiet c (net_devs s x)" for x using k by (simp add: net_ok_def)
  note lf = link_fields [of d p s]
  have st: "nd_status (net_devs ?l d) = 0" using q [of d] lf(1) [of d] by (simp add: dev_quiet_def)
  have rep: "net_rep N ?l pl (rq(d := rq d @ [p])) []" by (rule link_spec [OF net_okD(1) [OF k] f])
  have "nd_rx_head (net_devs s d) = None" using q [of d] na unfolding dev_quiet_def by blast
  then have em: "rq d = []" using net_rep_head [OF net_okD(1) [OF k], of d] by simp
  then have em': "(rq(d := rq d @ [p])) d = p # []" "(rq(d := rq d @ [p]))(d := []) = rq" by (auto simp: fun_eq_iff)
  obtain t where u: "ldd_rx_dequeue d ?l = (Some p, t)" using dequeue_spec(1) [OF rep em'(1)] by blast
  have e: "?t = take_frame c d p t"
    using rn q [of d] na lf(1) [of d] interrupt_rx [OF st, of c] u by (simp add: ldd_rx_enqueue_def Let_def dev_quiet_def)
  note tk = take_spec(1-5) [OF rep em'(1) u, where c = c] take_spec(6) [OF rep em'(1) u]
  have rep': "net_rep N ?t (pl(ldd_peer d := p # pl (ldd_peer d))) rq []" using tk(1) unfolding em'(2) by (simp only: e)
  have pd: "net_devs ?t (ldd_peer d) = (net_devs s (ldd_peer d))\<lparr>nd_pool := Some p, nd_stopped := (nd_stopped (net_devs s (ldd_peer d)) \<and> pl (ldd_peer d) \<noteq> [])\<rparr>"
    using tk(4) lf(1) [of "ldd_peer d"] by (simp add: e)
  have dd: "net_devs ?t d = net_devs (ldd_rx c d p t) d" "t = on_dev d (\<lambda>dv. dv\<lparr>nd_rx_head := None, nd_rx_tail := None\<rparr>) ?l"
    using tk(5,6) by (simp_all add: e)
  have qd: "dev_quiet c (net_devs ?t d)"
    using q [of d] lf(1) [of d] by (simp add: dd ldd_rx_def dev_quiet_def)
  have qp: "dev_quiet c (net_devs ?t (ldd_peer d))"
    unfolding pd by (rule dev_quiet_release [OF q net_rep_pool [OF net_okD(1) [OF k]]])
  have "dev_quiet c (net_devs ?t x)" for x using qd qp netid_two [of x d] by metis
  then show "net_ok c N ?t (pl(ldd_peer d := p # pl (ldd_peer d))) rq []" using rep' by (simp add: net_ok_def)
  have fr: "frame ?t = frame s" using tk(2) by (simp add: e lf)
  show "arrived ?t rq (ldd_peer d) = arrived s rq (ldd_peer d)" by (simp add: arrived_def fr pd)
  show "\<exists>b. arrived ?t rq d = arrived s rq d @ (if b then [frame s p] else []) \<and> ((\<forall>t. alloc_skb c t) \<longrightarrow> b)"
    by (rule exI [of _ "alloc_skb c t"]) (simp add: arrived_def fr em dd ldd_rx_def lf)
  show "net_there ?t = net_there s" using tk(3) by (simp add: e lf)
  show "nd_freed (net_devs ?t e) = nd_freed (net_devs s e)"
    using netid_two [of e d] by (auto simp: pd dd ldd_rx_def lf)
qed

subsection \<open>A frame is sent\<close>

text \<open>
  The frame on the wire: the socket buffer's data, padded with zeros to the Ethernet minimum, with
  the two address bits flipped and the header checksum renewed.
\<close>

definition pad :: "sk_buff \<Rightarrow> byte list" where
  "pad skb = skb_data skb @ replicate (ETH_ZLEN - length (skb_data skb)) 0"

definition wire :: "net_cfg \<Rightarrow> sk_buff \<Rightarrow> byte list" where
  "wire c skb = ip_send_check c (flip_addrs (pad skb))"

text \<open>The header, of the length it gives, lies within the frame.\<close>

definition header_fits :: "sk_buff \<Rightarrow> bool" where
  "header_fits skb \<longleftrightarrow> ETH_HLEN + 4 * unat (skb_data skb ! ETH_HLEN AND 0xF) \<le> length (skb_data skb)"

lemma length_pad: "length (pad skb) = max (length (skb_data skb)) ETH_ZLEN"
  by (simp add: pad_def)

lemma length_rewrite [simp]: "length (flip_addrs xs) = length xs" "length (ip_send_check c xs) = length xs"
  by (simp_all add: flip_addrs_def ip_send_check_def Let_def split: prod.split)

lemma flip_addrs_append: "34 \<le> length xs \<Longrightarrow> flip_addrs (xs @ ys) = flip_addrs xs @ ys"
  by (simp add: flip_addrs_def Let_def eth_defs nth_append list_update_append)

lemma flip_addrs_nth: "34 \<le> length xs \<Longrightarrow> flip_addrs xs ! 14 = xs ! 14"
  by (simp add: flip_addrs_def Let_def eth_defs)

lemma ip_send_check_append:
  assumes "34 \<le> length xs" and "14 + 4 * unat (xs ! 14 AND 0xF) \<le> length xs"
  shows "ip_send_check c (xs @ ys) = ip_send_check c xs @ ys"
proof -
  have "mem_get 14 (4 * unat (xs ! 14 AND 0xF)) ((xs @ ys)[24 := 0, 25 := 0]) = mem_get 14 (4 * unat (xs ! 14 AND 0xF)) (xs[24 := 0, 25 := 0])"
    using assms by (simp add: list_update_append mem_get_def)
  then show ?thesis using assms(1)
    by (simp add: ip_send_check_def Let_def eth_defs list_update_append nth_append split: prod.split)
qed

lemma fill_data:
  assumes "length (skb_data skb) \<le> ETH_FRAME_LEN" and "length old = ETH_FRAME_LEN"
  shows "mem_put 0 (skb_data skb) (mem_put 0 (replicate (max (length (skb_data skb)) ETH_ZLEN) 0) old) =
    pad skb @ drop (max (length (skb_data skb)) ETH_ZLEN) old"
  using assms by (auto simp: mem_put_def pad_def max_def)

lemma fill_frame:
  assumes "34 \<le> length (skb_data skb)" and "length (skb_data skb) \<le> ETH_FRAME_LEN" and "length (pk_data pkt) = ETH_FRAME_LEN"
  shows "length (pk_data (fill_packet c skb pkt)) = ETH_FRAME_LEN" and "pk_datalen (fill_packet c skb pkt) \<le> ETH_FRAME_LEN"
    and "header_fits skb \<Longrightarrow> take (pk_datalen (fill_packet c skb pkt)) (pk_data (fill_packet c skb pkt)) = wire c skb"
proof -
  note d = fill_data [OF assms(2,3)]
  show "length (pk_data (fill_packet c skb pkt)) = ETH_FRAME_LEN" "pk_datalen (fill_packet c skb pkt) \<le> ETH_FRAME_LEN"
    using assms by (simp_all add: fill_packet_def Let_def d length_pad) (simp_all add: eth_defs)
  assume h: "header_fits skb"
  have p: "34 \<le> length (pad skb)" "pad skb ! 14 = skb_data skb ! 14" using assms(1) by (simp_all add: pad_def nth_append)
  have f: "14 + 4 * unat (flip_addrs (pad skb) ! 14 AND 0xF) \<le> length (flip_addrs (pad skb))"
    using h p by (simp add: header_fits_def flip_addrs_nth ETH_HLEN_def length_pad)
  have "ip_send_check c (flip_addrs (pad skb @ zs)) = wire c skb @ zs" for zs
    using ip_send_check_append [of "flip_addrs (pad skb)" c zs] p(1) f by (simp add: wire_def flip_addrs_append)
  moreover have "length (wire c skb) = max (length (skb_data skb)) ETH_ZLEN" by (simp add: wire_def length_pad)
  ultimately show "take (pk_datalen (fill_packet c skb pkt)) (pk_data (fill_packet c skb pkt)) = wire c skb"
    by (simp add: fill_packet_def Let_def d)
qed

lemma fill_rep:
  assumes r: "net_rep N s pl rq [p]" and n: "34 \<le> length (skb_data skb)" "length (skb_data skb) \<le> ETH_FRAME_LEN"
  shows "net_rep N (on_pkt p (fill_packet c skb) s) pl rq [p]"
    and "x \<noteq> p \<Longrightarrow> frame (on_pkt p (fill_packet c skb) s) x = frame s x"
    and "header_fits skb \<Longrightarrow> frame (on_pkt p (fill_packet c skb) s) p = wire c skb"
proof -
  let ?t = "on_pkt p (fill_packet c skb) s"
  have o: "owned N pl rq [p]" and k: "pkts_ok N s" using net_repD(4,5) [OF r] .
  have pn: "snd p < N" using owned_fst(3) [OF o, of p] by simp
  then have l: "length (pk_data (net_pkts s p)) = ETH_FRAME_LEN" using k by (cases p) (simp add: pkts_ok_def)
  note ff = fill_frame [OF n l]
  have nx: "pk_next (net_pkts ?t x) = pk_next (net_pkts s x)" "pk_dev (net_pkts ?t x) = pk_dev (net_pkts s x)" for x
    by (simp_all add: fill_packet_def Let_def)
  have "chain (net_pkts ?t) h xs = chain (net_pkts s) h xs" for h xs by (rule chain_cong) (use nx in blast)
  moreover have "pkts_ok N ?t"
    unfolding pkts_ok_def
  proof (intro allI impI)
    fix d i
    assume "i < N"
    then show "pk_dev (net_pkts ?t (d, i)) = d \<and> length (pk_data (net_pkts ?t (d, i))) = ETH_FRAME_LEN \<and> pk_datalen (net_pkts ?t (d, i)) \<le> ETH_FRAME_LEN"
      using k ff(1,2) unfolding nx pkts_ok_def by simp
  qed
  ultimately show "net_rep N ?t pl rq [p]" using r by (simp add: net_rep_def)
  show "x \<noteq> p \<Longrightarrow> frame ?t x = frame s x" by (simp add: frame_def)
  show "header_fits skb \<Longrightarrow> frame ?t p = wire c skb" using ff(3) by (simp add: frame_def)
qed

text \<open>What became of the frame: the frames that arrived at the twin, with it or without.\<close>

definition sent :: "net_cfg \<Rightarrow> sk_buff \<Rightarrow> netid \<Rightarrow> nat \<Rightarrow> netsys \<Rightarrow> (netid \<Rightarrow> pktref list) \<Rightarrow> netsys \<Rightarrow> bool" where
  "sent c skb d N s rq s' \<longleftrightarrow> (\<exists>pl' rq'. net_ok c N s' pl' rq' [] \<and> arrived s' rq' d = arrived s rq d \<and>
     nd_freed (net_devs s' d) = nd_freed (net_devs s d) @ [skb] \<and>
     nd_freed (net_devs s' (ldd_peer d)) = nd_freed (net_devs s (ldd_peer d)) \<and> net_there s' = net_there s \<and>
     (\<exists>b f. arrived s' rq' (ldd_peer d) = arrived s rq (ldd_peer d) @ (if b then [f] else []) \<and>
        (header_fits skb \<longrightarrow> f = wire c skb) \<and>
        ((\<forall>t. alloc_skb c t) \<longrightarrow> b = (\<not> xmit_refused s skb d \<and> nd_running (net_devs s (ldd_peer d))))))"

lemma tx_done_ok:
  fixes d :: netid and skb :: sk_buff
  assumes "net_ok c N s pl rq []"
  defines "t \<equiv> ldd_tx_done d skb (on_dev d (\<lambda>dv. dv\<lparr>nd_status := 0, nd_tx_skb := None\<rparr>) s)"
  shows "net_ok c N t pl rq []" "arrived t rq e = arrived s rq e" "net_there t = net_there s"
    "nd_freed (net_devs t e) = (if e = d then nd_freed (net_devs s d) @ [skb] else nd_freed (net_devs s e))"
  using assms(1) by (simp_all add: t_def net_ok_def ldd_tx_done_def dev_quiet_def arrived_def)

lemma xmit_taken:
  assumes k: "net_ok c N s pl rq []" and nr: "\<not> xmit_refused s skb d" and pl: "pl d = p # xs"
    and x: "ldd_start_xmit c skb d s = (r, s')"
  shows "r = NETDEV_TX_OK \<and> sent c skb d N s rq s'"
proof -
  note g = get_spec [OF net_okD(1) [OF k] pl]
  let ?s1 = "on_dev d (\<lambda>dv. dv\<lparr>nd_pool := first_of xs, nd_stopped := (xs = [] \<or> nd_stopped dv)\<rparr>) s"
  let ?s2 = "on_pkt p (fill_packet c skb) ?s1"
  let ?s3 = "ldd_rx_enqueue c (ldd_peer d) p ?s2"
  have n: "34 \<le> length (skb_data skb)" "length (skb_data skb) \<le> ETH_FRAME_LEN"
    using nr by (simp_all add: xmit_refused_def eth_defs)
  note fl = fill_rep [OF g(2) n, where c = c]
  have q: "dev_quiet c (net_devs s e)" for e using k by (simp add: net_ok_def)
  have "dev_quiet c (net_devs ?s2 e)" for e
    using q dev_quiet_get [OF q, of d p xs] net_rep_pool [OF net_okD(1) [OF k], of d] by (simp add: pl)
  then have k2: "net_ok c N ?s2 (pl(d := xs)) rq [p]" using fl(1) by (simp add: net_ok_def)
  have f: "fst p = ldd_peer (ldd_peer d)" using g(3) by simp
  have o2: "owned N (pl(d := xs)) rq [p]" by (rule net_repD(4) [OF fl(1)])
  have pn: "p \<notin> set (rq e)" for e using owned_flight(2) [OF o2] by simp
  have "map (frame ?s2) (rq e) = map (frame s) (rq e)" for e
  proof (rule map_cong [OF refl])
    fix y
    assume "y \<in> set (rq e)"
    then have "y \<noteq> p" using pn [of e] by blast
    from fl(2) [OF this] show "frame ?s2 y = frame s y" by simp
  qed
  then have a2: "arrived ?s2 rq e = arrived s rq e" for e by (simp add: arrived_def)
  have rn: "nd_running (net_devs ?s2 (ldd_peer d)) = nd_running (net_devs s (ldd_peer d))" by simp
  have fr2: "nd_freed (net_devs ?s2 e) = nd_freed (net_devs s e)" for e by simp
  have "\<exists>pl' rq'. net_ok c N ?s3 pl' rq' [] \<and> arrived ?s3 rq' d = arrived s rq d \<and> net_there ?s3 = net_there s \<and>
     (\<forall>e. nd_freed (net_devs ?s3 e) = nd_freed (net_devs s e)) \<and>
     (\<exists>b. arrived ?s3 rq' (ldd_peer d) = arrived s rq (ldd_peer d) @ (if b then [frame ?s2 p] else []) \<and>
        ((\<forall>t. alloc_skb c t) \<longrightarrow> b = nd_running (net_devs s (ldd_peer d))))"
  proof (cases "nd_running (net_devs s (ldd_peer d))")
    case False
    then have nr2: "\<not> nd_running (net_devs ?s2 (ldd_peer d))" by simp
    note en = enqueue_down [OF k2 f nr2]
    show ?thesis
      using en(1)
      by (intro exI [of _ "(pl(d := xs))(ldd_peer (ldd_peer d) := p # (pl(d := xs)) (ldd_peer (ldd_peer d)))"] exI [of _ rq] exI [of _ False] conjI)
        (simp_all add: en(2-4) a2 fr2 False)
  next
    case True
    then have r2: "nd_running (net_devs ?s2 (ldd_peer d))" by simp
    show ?thesis
    proof (cases "use_napi c")
      case na: True
      note en = enqueue_napi [OF k2 f r2 na]
      show ?thesis
        using en(1)
        by (intro exI [of _ "pl(d := xs)"] exI [of _ "rq(ldd_peer d := rq (ldd_peer d) @ [p])"] exI [of _ True] conjI)
          (simp_all add: en(2-4) a2 fr2 True)
    next
      case na: False
      note en = enqueue_regular [OF k2 f r2 na]
      obtain b where b: "arrived ?s3 rq (ldd_peer d) = arrived ?s2 rq (ldd_peer d) @ (if b then [frame ?s2 p] else [])"
        "(\<forall>t. alloc_skb c t) \<longrightarrow> b" using en(3) by blast
      show ?thesis
        using en(1) b en(2)
        by (intro exI [of _ "(pl(d := xs))(ldd_peer (ldd_peer d) := p # (pl(d := xs)) (ldd_peer (ldd_peer d)))"] exI [of _ rq] exI [of _ b] conjI)
          (simp_all add: en(4-5) a2 fr2 True)
    qed
  qed
  then obtain pl' rq' b where s3: "net_ok c N ?s3 pl' rq' []" "arrived ?s3 rq' d = arrived s rq d" "net_there ?s3 = net_there s"
     "\<And>e. nd_freed (net_devs ?s3 e) = nd_freed (net_devs s e)"
     "arrived ?s3 rq' (ldd_peer d) = arrived s rq (ldd_peer d) @ (if b then [frame ?s2 p] else [])"
     "(\<forall>t. alloc_skb c t) \<longrightarrow> b = nd_running (net_devs s (ldd_peer d))" by blast
  have st: "nd_status (net_devs ?s3 d) = 0" using net_okD(2) [OF s3(1), of d] by (simp add: dev_quiet_def)
  have e: "r = NETDEV_TX_OK" "s' = ldd_tx_done d skb (on_dev d (\<lambda>dv. dv\<lparr>nd_status := 0, nd_tx_skb := None\<rparr>) ?s3)"
    using x nr interrupt_tx [OF st, of c skb] by (simp_all add: ldd_start_xmit_def g(1) Let_def)
  note td = tx_done_ok [OF s3(1), of d skb, folded e(2)]
  have "header_fits skb \<longrightarrow> frame ?s2 p = wire c skb" using fl(3) by blast
  then have "\<exists>b f. arrived s' rq' (ldd_peer d) = arrived s rq (ldd_peer d) @ (if b then [f] else []) \<and>
      (header_fits skb \<longrightarrow> f = wire c skb) \<and> ((\<forall>t. alloc_skb c t) \<longrightarrow> b = (\<not> xmit_refused s skb d \<and> nd_running (net_devs s (ldd_peer d))))"
    using s3(5,6) nr unfolding td(2) by blast
  then show ?thesis unfolding sent_def using td(1) e(1) s3(2,3,4) td(2,3,4) by (intro conjI exI [of _ pl'] exI [of _ rq']) simp_all
qed

lemma xmit_refused_spec:
  assumes "net_ok c N s pl rq []" and "xmit_refused s skb d" and "ldd_start_xmit c skb d s = (r, s')"
  shows "r = NETDEV_TX_OK \<and> sent c skb d N s rq s'"
proof -
  have s': "r = NETDEV_TX_OK" "s' = on_dev d (\<lambda>dv. dv\<lparr>nd_tx_dropped := nd_tx_dropped dv + 1, nd_freed := nd_freed dv @ [skb]\<rparr>) s"
    using assms(2,3) by (simp_all add: ldd_start_xmit_def)
  have "net_ok c N s' pl rq []" using assms(1) by (simp add: s' net_ok_def dev_quiet_def)
  moreover have "arrived s' rq e = arrived s rq e" for e by (simp add: s' arrived_def)
  ultimately show ?thesis
    unfolding sent_def by (intro conjI exI [of _ pl] exI [of _ rq] exI [of _ False] exI [of _ "wire c skb"]) (simp_all add: s' assms(2))
qed

lemma xmit_busy:
  assumes "net_ok c N s pl rq []" and "\<not> xmit_refused s skb d" and "pl d = []"
  shows "ldd_start_xmit c skb d s = (NETDEV_TX_BUSY, s)"
  using assms get_none [OF net_okD(1)] by (simp add: ldd_start_xmit_def)

lemma xmit_spec:
  assumes k: "net_ok c N s pl rq []" and x: "ldd_start_xmit c skb d s = (r, s')"
  shows "if \<not> xmit_refused s skb d \<and> pl d = [] then r = NETDEV_TX_BUSY \<and> s' = s
    else r = NETDEV_TX_OK \<and> sent c skb d N s rq s'"
proof (cases "xmit_refused s skb d")
  case True
  then show ?thesis using xmit_refused_spec [OF k True x] by simp
next
  case False
  then show ?thesis
    using xmit_busy [OF k False] xmit_taken [OF k False _ x] x by (cases "pl d") auto
qed

lemma xmit_ok:
  assumes "net_ok c N s pl rq []"
  shows "\<exists>pl' rq'. net_ok c N (snd (ldd_start_xmit c skb d s)) pl' rq' []"
proof -
  obtain r s' where x: "ldd_start_xmit c skb d s = (r, s')" by fastforce
  have "s' = s \<or> sent c skb d N s rq s'" using xmit_spec [OF assms x] by (simp split: if_splits)
  then have "\<exists>pl' rq'. net_ok c N s' pl' rq' []" using assms unfolding sent_def by blast
  then show ?thesis using x by simp
qed

lemma xmits_ok: "net_ok c N s pl rq [] \<Longrightarrow> \<exists>pl' rq'. net_ok c N (xmits c d skbs s) pl' rq' []"
proof (induction skbs arbitrary: s pl rq)
  case (Cons skb skbs)
  obtain pl' rq' where "net_ok c N (snd (ldd_start_xmit c skb d s)) pl' rq' []" using xmit_ok [OF Cons.prems] by blast
  from Cons.IH [OF this] show ?case by (simp add: xmits_def)
qed (auto simp: xmits_def)

subsection \<open>Polling\<close>

lemma take_ok:
  assumes k: "net_ok c N s pl rq []" and rq: "rq d = p # xs" and u: "ldd_rx_dequeue d s = (Some p, t)"
  shows "net_ok c N (take_frame c d p t) (pl(ldd_peer d := p # pl (ldd_peer d))) (rq(d := xs)) []"
    and "alloc_skb c t \<Longrightarrow> nd_up (net_devs (take_frame c d p t) d) = nd_up (net_devs s d) @ [frame s p]"
proof -
  note tk = take_spec(1-5) [OF net_okD(1) [OF k] rq u, where c = c] and t = take_spec(6) [OF net_okD(1) [OF k] rq u]
  have q: "dev_quiet c (net_devs s x)" for x using k by (simp add: net_ok_def)
  have "nd_rx_head (net_devs s d) \<noteq> None" using net_rep_head [OF net_okD(1) [OF k], of d] rq by simp
  then have na: "use_napi c \<and> nd_running (net_devs s d) \<and> nd_napi_sched (net_devs s d)"
    using q [of d] unfolding dev_quiet_def by blast
  have qd: "dev_quiet c (net_devs (take_frame c d p t) d)"
    using q [of d] na unfolding tk(5) by (simp add: t ldd_rx_def dev_quiet_def)
  have qp: "dev_quiet c (net_devs (take_frame c d p t) (ldd_peer d))"
    unfolding tk(4) by (rule dev_quiet_release [OF q net_rep_pool [OF net_okD(1) [OF k]]])
  have "dev_quiet c (net_devs (take_frame c d p t) x)" for x using qd qp netid_two [of x d] by metis
  then show "net_ok c N (take_frame c d p t) (pl(ldd_peer d := p # pl (ldd_peer d))) (rq(d := xs)) []"
    using tk(1) by (simp add: net_ok_def)
  show "alloc_skb c t \<Longrightarrow> nd_up (net_devs (take_frame c d p t) d) = nd_up (net_devs s d) @ [frame s p]"
    unfolding tk(5) by (simp add: ldd_rx_def t frame_def)
qed

lemma poll_loop_ok:
  "net_ok c N s pl rq [] \<Longrightarrow> \<exists>pl' rq'. net_ok c N (snd (poll_loop c late d left dn s)) pl' rq' []"
proof (induction c late d left dn s arbitrary: pl rq rule: poll_loop.induct)
  case (2 c late d left dn s)
  obtain pl1 rq1 where k: "net_ok c N (xmits c (ldd_peer d) (late dn) s) pl1 rq1 []" using xmits_ok [OF 2(2)] by blast
  show ?case
  proof (cases "rq1 d")
    case Nil
    then show ?thesis using dequeue_none [OF net_okD(1) [OF k] Nil] k by auto
  next
    case (Cons p xs)
    obtain t where u: "ldd_rx_dequeue d (xmits c (ldd_peer d) (late dn) s) = (Some p, t)"
      using dequeue_spec(1) [OF net_okD(1) [OF k] Cons] by blast
    show ?thesis
      using 2(1) [OF u [symmetric] refl take_ok(1) [OF k Cons u, unfolded take_frame_def]] by (simp add: u)
  qed
qed auto

lemma poll_ok:
  assumes na: "use_napi c" and k: "net_ok c N s pl rq []"
  shows "\<exists>pl' rq'. net_ok c N (snd (ldd_poll c late after complete d budget s)) pl' rq' []"
proof -
  obtain dn s1 where l: "poll_loop c late d budget 0 s = (dn, s1)" by fastforce
  obtain pl1 rq1 where k1: "net_ok c N s1 pl1 rq1 []" using poll_loop_ok [OF k, of late d budget 0] l by auto
  obtain pl2 rq2 where k2: "net_ok c N (xmits c (ldd_peer d) after s1) pl2 rq2 []" using xmits_ok [OF k1] by blast
  define s2 where "s2 = xmits c (ldd_peer d) after s1"
  let ?s4 = "on_dev d (\<lambda>dv. dv\<lparr>nd_napi_sched := False, nd_rx_int_enabled := (nd_rx_head (net_devs s2 d) = None)\<rparr>) s2"
  let ?s5 = "if nd_rx_head (net_devs s2 d) \<noteq> None then napi_schedule d ?s4 else ?s4"
  have r: "net_rep N ?s5 pl2 rq2 []" using net_okD(1) [OF k2 [folded s2_def]] by (simp add: napi_schedule_def)
  have "dev_quiet c (net_devs ?s5 e)" for e
    using net_okD(2) [OF k2 [folded s2_def], of e] net_okD(2) [OF k2 [folded s2_def], of d] na
    by (cases "nd_rx_head (net_devs s2 d)") (simp_all add: napi_schedule_def dev_quiet_def)
  then have k5: "net_ok c N ?s5 pl2 rq2 []" using r unfolding net_ok_def by blast
  have e: "snd (ldd_poll c late after complete d budget s) = (if dn = budget then s1 else if complete then ?s5 else s2)"
    by (cases "nd_rx_head (net_devs s2 d)") (simp_all add: ldd_poll_def l Let_def s2_def [symmetric])
  have "\<exists>pl' rq'. net_ok c N (if dn = budget then s1 else if complete then x else s2) pl' rq' []" if "net_ok c N x pl2 rq2 []" for x
    using that k1 k2 [folded s2_def] by auto
  from this [OF k5] show ?thesis unfolding e .
qed

text \<open>Undisturbed and with memory, polling passes up the oldest frames, at most a budget of them.\<close>

lemma poll_loop_passes_up:
  assumes al: "\<forall>t. alloc_skb c t"
  shows "net_ok c N s pl rq [] \<Longrightarrow> poll_loop c (\<lambda>_. []) d left dn s = (dn', s') \<Longrightarrow>
    dn' = dn + min left (length (rq d)) \<and> nd_up (net_devs s' d) = nd_up (net_devs s d) @ map (frame s) (take left (rq d)) \<and>
    (\<exists>pl'. net_ok c N s' pl' (rq(d := drop left (rq d))) [])"
proof (induction left arbitrary: dn s pl rq)
  case 0
  then show ?case by auto
next
  case (Suc left)
  have x: "xmits c (ldd_peer d) [] s = s" by (simp add: xmits_def)
  show ?case
  proof (cases "rq d")
    case Nil
    then have "rq(d := drop (Suc left) (rq d)) = rq" by (simp add: fun_eq_iff)
    then show ?thesis using Suc.prems dequeue_none [OF net_okD(1) [OF Suc.prems(1)] Nil] Nil by (auto simp: x)
  next
    case (Cons p xs)
    obtain t where u: "ldd_rx_dequeue d s = (Some p, t)"
      using dequeue_spec(1) [OF net_okD(1) [OF Suc.prems(1)] Cons] by blast
    note tk = take_ok [OF Suc.prems(1) Cons u]
    have l: "poll_loop c (\<lambda>_. []) d left (dn + 1) (take_frame c d p t) = (dn', s')"
      using Suc.prems(2) by (simp add: x u take_frame_def)
    have fr: "frame (take_frame c d p t) = frame s" by (rule take_spec(2) [OF net_okD(1) [OF Suc.prems(1)] Cons u])
    have e: "(rq(d := xs))(d := drop left ((rq(d := xs)) d)) = rq(d := drop (Suc left) (rq d))" by (simp add: Cons)
    note ih = Suc.IH [OF tk(1) l]
    have "\<exists>pl'. net_ok c N s' pl' (rq(d := drop (Suc left) (rq d))) []" using ih unfolding e by blast
    moreover have "dn' = dn + min (Suc left) (length (rq d))" using ih by (simp add: Cons)
    moreover have "nd_up (net_devs s' d) = nd_up (net_devs s d) @ map (frame s) (take (Suc left) (rq d))"
      using ih tk(2) al by (simp add: fr Cons)
    ultimately show ?thesis by blast
  qed
qed

subsection \<open>Opening and closing\<close>

lemma open_ok:
  assumes "net_ok c N s pl rq []" and "\<not> nd_running (net_devs s d)"
  shows "net_ok c N (ldd_open c d s) pl rq []"
proof -
  have "net_rep N (ldd_open c d s) pl rq []"
    using net_okD(1) [OF assms(1)] by (simp add: ldd_open_def Let_def netif_wake_queue_def)
  moreover have "dev_quiet c (net_devs (ldd_open c d s) e)" for e
    using net_okD(2) [OF assms(1), of e] assms(2)
    by (cases "use_napi c"; cases "e = d") (auto simp: ldd_open_def netif_wake_queue_def dev_quiet_def)
  ultimately show ?thesis by (simp add: net_ok_def)
qed

text \<open>While a device is being closed it is down, but its queue may still hold frames.\<close>

definition stop_inv :: "net_cfg \<Rightarrow> nat \<Rightarrow> netid \<Rightarrow> netsys \<Rightarrow> (netid \<Rightarrow> pktref list) \<Rightarrow> (netid \<Rightarrow> pktref list) \<Rightarrow> bool" where
  "stop_inv c N d s pl rq \<longleftrightarrow> net_rep N s pl rq [] \<and> dev_quiet c (net_devs s (ldd_peer d)) \<and>
     nd_status (net_devs s d) = 0 \<and> nd_tx_skb (net_devs s d) = None \<and> \<not> nd_running (net_devs s d) \<and>
     (\<not> use_napi c \<longrightarrow> \<not> nd_rx_int_enabled (net_devs s d))"

lemma stop_inv_take:
  assumes i: "stop_inv c N d s pl rq" and rq: "rq d = p # xs" and u: "ldd_rx_dequeue d s = (Some p, t)"
  shows "stop_inv c N d (take_frame c d p t) (pl(ldd_peer d := p # pl (ldd_peer d))) (rq(d := xs))"
    and "stop_inv c N d (ldd_release_buffer p t) (pl(ldd_peer d := p # pl (ldd_peer d))) (rq(d := xs))"
proof -
  have r: "net_rep N s pl rq []" and q: "dev_quiet c (net_devs s (ldd_peer d))" using i by (simp_all add: stop_inv_def)
  note tk = take_spec(1-5) [OF r rq u, where c = c] and t = take_spec(6) [OF r rq u]
  have qp: "dev_quiet c (net_devs (take_frame c d p t) (ldd_peer d))"
    unfolding tk(4) by (rule dev_quiet_release [OF q net_rep_pool [OF r]])
  have "nd_status (net_devs (ldd_rx c d p t) d) = 0 \<and> nd_tx_skb (net_devs (ldd_rx c d p t) d) = None \<and>
    \<not> nd_running (net_devs (ldd_rx c d p t) d) \<and> (\<not> use_napi c \<longrightarrow> \<not> nd_rx_int_enabled (net_devs (ldd_rx c d p t) d))"
    using i by (simp add: stop_inv_def t ldd_rx_def)
  then show "stop_inv c N d (take_frame c d p t) (pl(ldd_peer d := p # pl (ldd_peer d))) (rq(d := xs))"
    unfolding stop_inv_def tk(5) using tk(1) qp by blast
  have rt: "net_rep N t pl (rq(d := xs)) [p]" and f: "fst p = ldd_peer d" using dequeue_spec [OF r rq] u by simp_all
  note rl = release_spec [OF rt]
  have "dev_quiet c (net_devs (ldd_release_buffer p t) (ldd_peer d))"
    using dev_quiet_release [OF q net_rep_pool [OF r]] by (simp add: rl(1) f) (simp add: t)
  then show "stop_inv c N d (ldd_release_buffer p t) (pl(ldd_peer d := p # pl (ldd_peer d))) (rq(d := xs))"
    using i rl(2) unfolding stop_inv_def by (simp add: rl(1) f) (simp add: t)
qed

lemma stop_inv_loop:
  "stop_inv c N d s pl rq \<Longrightarrow> \<exists>pl' rq'. stop_inv c N d (snd (poll_loop c (\<lambda>_. []) d left dn s)) pl' rq'"
proof (induction left arbitrary: dn s pl rq)
  case (Suc left)
  have r: "net_rep N s pl rq []" using Suc.prems by (simp add: stop_inv_def)
  have x: "xmits c (ldd_peer d) [] s = s" by (simp add: xmits_def)
  show ?case
  proof (cases "rq d")
    case Nil
    then show ?thesis using dequeue_none [OF r Nil] Suc.prems by (auto simp: x)
  next
    case (Cons p xs)
    obtain t where u: "ldd_rx_dequeue d s = (Some p, t)" using dequeue_spec(1) [OF r Cons] by blast
    show ?thesis using Suc.IH [OF stop_inv_take(1) [OF Suc.prems Cons u], of "dn + 1"] by (simp add: x u take_frame_def)
  qed
qed auto

lemma stop_inv_napi:
  assumes "use_napi c" and "stop_inv c N d s pl rq"
  shows "stop_inv c N d (on_dev d (\<lambda>dv. dv\<lparr>nd_napi_sched := a, nd_rx_int_enabled := b\<rparr>) s) pl rq"
    and "stop_inv c N d (on_dev d (\<lambda>dv. dv\<lparr>nd_napi_on := a, nd_napi_sched := b\<rparr>) s) pl rq"
    and "stop_inv c N d (napi_schedule d s) pl rq"
  using assms by (simp_all add: stop_inv_def napi_schedule_def)

lemma stop_inv_polls:
  "use_napi c \<Longrightarrow> stop_inv c N d s pl rq \<Longrightarrow> \<exists>pl' rq'. stop_inv c N d (polls c d n s) pl' rq'"
proof (induction n arbitrary: s pl rq)
  case (Suc n)
  obtain dn s1 where l: "poll_loop c (\<lambda>_. []) d 2 0 s = (dn, s1)" by fastforce
  obtain pl1 rq1 where i: "stop_inv c N d s1 pl1 rq1" using stop_inv_loop [OF Suc.prems(2), of 2 0] l by auto
  define b where "b = (nd_rx_head (net_devs s1 d) = None)"
  let ?s2 = "on_dev d (\<lambda>dv. dv\<lparr>nd_napi_sched := False, nd_rx_int_enabled := b\<rparr>) s1"
  have i2: "stop_inv c N d ?s2 pl1 rq1" by (rule stop_inv_napi(1) [OF Suc.prems(1) i])
  have "snd (ldd_poll c (\<lambda>_. []) [] True d 2 s) = (if dn = 2 then s1 else if \<not> b then napi_schedule d ?s2 else ?s2)"
    by (cases "nd_rx_head (net_devs s1 d)") (simp_all add: ldd_poll_def l Let_def xmits_def b_def)
  then have "stop_inv c N d (snd (ldd_poll c (\<lambda>_. []) [] True d 2 s)) pl1 rq1"
    using i i2 stop_inv_napi(3) [OF Suc.prems(1) i2] by (cases "dn = 2"; cases b) simp_all
  then show ?case using Suc.IH [OF Suc.prems(1)] Suc.prems(2) by auto
qed auto

lemma drain_ok:
  "stop_inv c N d s pl rq \<Longrightarrow> length (rq d) < fuel \<Longrightarrow> \<exists>s' pl' rq'. drain fuel d s = Some s' \<and> stop_inv c N d s' pl' rq' \<and> rq' d = [] \<and>
     nd_napi_on (net_devs s' d) = nd_napi_on (net_devs s d) \<and> nd_napi_sched (net_devs s' d) = nd_napi_sched (net_devs s d)"
proof (induction fuel arbitrary: s pl rq)
  case (Suc fuel)
  have r: "net_rep N s pl rq []" using Suc.prems(1) by (simp add: stop_inv_def)
  show ?case
  proof (cases "rq d")
    case Nil
    then show ?thesis using dequeue_none [OF r Nil] Suc.prems by auto
  next
    case (Cons p xs)
    obtain t where u: "ldd_rx_dequeue d s = (Some p, t)" using dequeue_spec(1) [OF r Cons] by blast
    have rt: "net_rep N t pl (rq(d := xs)) [p]" and f: "fst p = ldd_peer d"
      and t: "t = on_dev d (\<lambda>dv. dv\<lparr>nd_rx_head := first_of xs, nd_rx_tail := (if xs = [] then None else nd_rx_tail dv)\<rparr>) s"
      using dequeue_spec [OF r Cons] u by simp_all
    have same: "nd_napi_on (net_devs (ldd_release_buffer p t) d) = nd_napi_on (net_devs s d)"
      "nd_napi_sched (net_devs (ldd_release_buffer p t) d) = nd_napi_sched (net_devs s d)"
      unfolding release_spec(1) [OF rt] f by (simp_all add: t)
    have "length ((rq(d := xs)) d) < fuel" using Suc.prems(2) Cons by simp
    from Suc.IH [OF stop_inv_take(2) [OF Suc.prems(1) Cons u] this] show ?thesis by (simp add: u same)
  qed
qed simp

lemma owned_queue_length: "owned N pl rq fl \<Longrightarrow> length (rq d) \<le> N"
  using arg_cong [OF owned_mset [of N pl rq fl "ldd_peer d"], of size] by simp

lemma stop_ok:
  assumes k: "net_ok c N s pl rq []"
  shows "\<exists>s' pl' rq'. ldd_stop (Suc N) c n d s = Some s' \<and> net_ok c N s' pl' rq' [] \<and> rq' d = [] \<and> \<not> nd_running (net_devs s' d)"
proof -
  define s2 where "s2 = on_dev d (\<lambda>dv. dv\<lparr>nd_running := False, nd_rx_int_enabled := False\<rparr>) (netif_stop_queue d s)"
  have i2: "stop_inv c N d s2 pl rq"
    using net_okD(1) [OF k] net_okD(2) [OF k, of d] net_okD(2) [OF k, of "ldd_peer d"]
    by (simp add: stop_inv_def s2_def netif_stop_queue_def dev_quiet_def)
  define s3 where "s3 = (if use_napi c then napi_disable c d n s2 else s2)"
  have "\<exists>pl3 rq3. stop_inv c N d s3 pl3 rq3 \<and> (use_napi c \<longrightarrow> \<not> nd_napi_on (net_devs s3 d) \<and> \<not> nd_napi_sched (net_devs s3 d))"
  proof (cases "use_napi c")
    case True
    obtain pl3 rq3 where "stop_inv c N d (polls c d n s2) pl3 rq3" using stop_inv_polls [OF True i2] by blast
    from stop_inv_napi(2) [OF True this, of False False] have "stop_inv c N d s3 pl3 rq3" by (simp add: s3_def napi_disable_def True)
    moreover have "\<not> nd_napi_on (net_devs s3 d) \<and> \<not> nd_napi_sched (net_devs s3 d)" by (simp add: s3_def napi_disable_def True)
    ultimately show ?thesis by blast
  next
    case False
    then show ?thesis using i2 by (auto simp: s3_def)
  qed
  then obtain pl3 rq3 where i3: "stop_inv c N d s3 pl3 rq3"
    "use_napi c \<longrightarrow> \<not> nd_napi_on (net_devs s3 d) \<and> \<not> nd_napi_sched (net_devs s3 d)" by blast
  have "length (rq3 d) < Suc N"
    using owned_queue_length [of N pl3 rq3 "[]" d] i3(1) by (simp add: stop_inv_def net_rep_def)
  from drain_ok [OF i3(1) this] obtain s' pl' rq' where d: "drain (Suc N) d s3 = Some s'" "stop_inv c N d s' pl' rq'" "rq' d = []"
    "nd_napi_on (net_devs s' d) = nd_napi_on (net_devs s3 d)" "nd_napi_sched (net_devs s' d) = nd_napi_sched (net_devs s3 d)" by blast
  have r: "net_rep N s' pl' rq' []" using d(2) by (simp add: stop_inv_def)
  have h: "nd_rx_head (net_devs s' d) = None" using net_rep_head [OF r, of d] d(3) by simp
  have qd: "dev_quiet c (net_devs s' d)" using d(2,4,5) i3(2) h by (auto simp: stop_inv_def dev_quiet_def)
  have qp: "dev_quiet c (net_devs s' (ldd_peer d))" using d(2) by (simp add: stop_inv_def)
  have "dev_quiet c (net_devs s' e)" for e using qd qp netid_two [of e d] by metis
  then have "net_ok c N s' pl' rq' []" using r by (simp add: net_ok_def)
  moreover have "ldd_stop (Suc N) c n d s = Some s'"
    using d(1) unfolding ldd_stop_def Let_def s3_def s2_def .
  ultimately show ?thesis using d(2,3) unfolding stop_inv_def by blast
qed

subsection \<open>All runs\<close>

fun walk :: "nat \<Rightarrow> (pktref \<Rightarrow> ldd_packet) \<Rightarrow> pktref option \<Rightarrow> pktref list" where
  "walk (Suc n) h (Some p) = p # walk n h (pk_next (h p))"
| "walk n h p = []"

definition pool_list :: "nat \<Rightarrow> netsys \<Rightarrow> netid \<Rightarrow> pktref list" where
  "pool_list N s d = walk N (net_pkts s) (nd_pool (net_devs s d))"

definition rx_list :: "nat \<Rightarrow> netsys \<Rightarrow> netid \<Rightarrow> pktref list" where
  "rx_list N s d = walk N (net_pkts s) (nd_rx_head (net_devs s d))"

definition frames_at :: "nat \<Rightarrow> netsys \<Rightarrow> netid \<Rightarrow> byte list list" where
  "frames_at N s d = nd_up (net_devs s d) @ map (frame s) (rx_list N s d)"

lemma walk_chain: "chain h p xs \<Longrightarrow> length xs \<le> n \<Longrightarrow> walk n h p = xs"
  by (induction n h p arbitrary: xs rule: walk.induct) (auto simp: chain_Some)

lemma owned_pool_length: "owned N pl rq fl \<Longrightarrow> length (pl d) \<le> N"
  using arg_cong [OF owned_mset [of N pl rq fl d], of size] by simp

lemma net_rep_lists:
  assumes "net_rep N s pl rq []"
  shows "pool_list N s d = pl d" and "rx_list N s d = rq d" and "frames_at N s d = arrived s rq d"
  using walk_chain [OF net_repD(1) [OF assms]] walk_chain [OF net_repD(2) [OF assms]]
    owned_pool_length [OF net_repD(4) [OF assms]] owned_queue_length [OF net_repD(4) [OF assms]]
  by (simp_all add: pool_list_def rx_list_def frames_at_def arrived_def)

definition net_init :: "nat \<Rightarrow> netsys" where
  "net_init N = ldd_pool N Sn1 (ldd_pool N Sn0
     \<lparr>net_pkts = (\<lambda>_. \<lparr>pk_next = None, pk_dev = Sn0, pk_datalen = 0, pk_data = []\<rparr>), net_devs = (\<lambda>_. zero_dev), net_there = (\<lambda>_. False)\<rparr>)"

inductive net_reach :: "net_cfg \<Rightarrow> nat \<Rightarrow> netsys \<Rightarrow> bool" for c N where
  init: "0 < N \<Longrightarrow> net_reach c N (net_init N)"
| xmit: "net_reach c N s \<Longrightarrow> nd_running (net_devs s d) \<Longrightarrow> net_reach c N (snd (ldd_start_xmit c skb d s))"
| poll: "net_reach c N s \<Longrightarrow> use_napi c \<Longrightarrow> nd_napi_sched (net_devs s d) \<Longrightarrow> net_reach c N (snd (ldd_poll c late after complete d budget s))"
| up: "net_reach c N s \<Longrightarrow> \<not> nd_running (net_devs s d) \<Longrightarrow> net_reach c N (ldd_open c d s)"
| down: "net_reach c N s \<Longrightarrow> nd_running (net_devs s d) \<Longrightarrow> ldd_stop (Suc N) c n d s = Some s' \<Longrightarrow> net_reach c N s'"

lemma init_pkts:
  "i < N \<Longrightarrow> net_pkts (net_init N) (d, i) = \<lparr>pk_next = (if i + 1 < N then Some (d, i + 1) else None), pk_dev = d, pk_datalen = 0,
     pk_data = replicate ETH_FRAME_LEN 0\<rparr>"
  by (cases d) (simp_all add: net_init_def ldd_pool_def)

lemma init_chain:
  "k \<le> N \<Longrightarrow> chain (net_pkts (net_init N)) (if k < N then Some (d, k) else None) (map (Pair d) [k..<N])"
proof (induction "N - k" arbitrary: k)
  case 0
  then show ?case by simp
next
  case (Suc x)
  then have k: "k < N" and ih: "chain (net_pkts (net_init N)) (if Suc k < N then Some (d, Suc k) else None) (map (Pair d) [Suc k..<N])"
    by simp_all
  have "[k..<N] = k # [Suc k..<N]" using k by (simp add: upt_conv_Cons)
  then show ?case using ih k by (simp only: list.map chain.simps if_True init_pkts [OF k] ldd_packet.simps) (simp split: if_splits)
qed

lemma init_ok:
  assumes "0 < N"
  shows "net_ok c N (net_init N) (\<lambda>d. map (Pair d) [0..<N]) (\<lambda>_. []) []"
proof -
  have dv: "net_devs (net_init N) d = zero_dev\<lparr>nd_pool := Some (d, 0)\<rparr>" for d by (cases d) (simp_all add: net_init_def ldd_pool_def)
  have "net_rep N (net_init N) (\<lambda>d. map (Pair d) [0..<N]) (\<lambda>_. []) []"
    using init_chain [of 0 N] assms by (simp add: net_rep_def dv zero_dev_def owned_def pkts_ok_def init_pkts)
  then show ?thesis by (simp add: net_ok_def dv dev_quiet_def zero_dev_def)
qed

lemma net_reach_ok: "net_reach c N s \<Longrightarrow> \<exists>pl rq. net_ok c N s pl rq []"
proof (induction rule: net_reach.induct)
  case init
  then show ?case using init_ok by blast
next
  case (xmit s d skb)
  then show ?case using xmit_ok by blast
next
  case (poll s d late after complete budget)
  then show ?case using poll_ok by blast
next
  case (up s d)
  then show ?case using open_ok by blast
next
  case (down s d n s')
  then obtain pl rq where "net_ok c N s pl rq []" by blast
  from stop_ok [OF this, of n d] down(3) show ?case by auto
qed

subsection \<open>Properties\<close>

text \<open>
  C21: In every state the two interfaces reach, in whatever order frames are sent, the poll
  function runs with frames arriving meanwhile, and the interfaces are brought up and down, every
  buffer is in exactly one place, the pool of its device or the receive queue of the twin; a
  device that is up and has a free buffer is not stopped, so that sending never stalls; and frames
  wait in a receive queue only while polling is scheduled, so that none is left lying.
\<close>

theorem net_buffers_conserved:
  assumes "net_reach c N s"
  shows "mset (pool_list N s d) + mset (rx_list N s (ldd_peer d)) = mset (map (Pair d) [0..<N]) \<and>
    (nd_running (net_devs s d) \<and> nd_stopped (net_devs s d) \<longrightarrow> pool_list N s d = []) \<and>
    (rx_list N s d \<noteq> [] \<longrightarrow> use_napi c \<and> nd_running (net_devs s d) \<and> nd_napi_sched (net_devs s d)) \<and>
    nd_tx_skb (net_devs s d) = None"
proof -
  obtain pl rq where k: "net_ok c N s pl rq []" using net_reach_ok [OF assms] by blast
  note r = net_okD(1) [OF k] and q = net_okD(2) [OF k, of d]
  have "owned N pl rq []" by (rule net_repD(4) [OF r])
  then have m: "mset (pl d) + mset (rq (ldd_peer d)) = mset (map (Pair d) [0..<N])" by (simp add: owned_def)
  have "nd_running (net_devs s d) \<and> nd_stopped (net_devs s d) \<longrightarrow> pl d = []"
    using q net_rep_pool [OF r, of d] by (auto simp: dev_quiet_def)
  moreover have "rq d \<noteq> [] \<longrightarrow> use_napi c \<and> nd_running (net_devs s d) \<and> nd_napi_sched (net_devs s d)"
    using q net_rep_head [OF r, of d] unfolding dev_quiet_def by (metis first_of_None(1))
  moreover have "nd_tx_skb (net_devs s d) = None" using q by (simp add: dev_quiet_def)
  ultimately show ?thesis using m net_rep_lists [OF r] by simp
qed

definition demo_net :: net_cfg where
  "demo_net = \<lparr>use_napi = True, alloc_skb = (\<lambda>_. True), ip_fast_csum = (\<lambda>xs n. (of_nat n, sum_list xs))\<rparr>"

definition demo_skb :: sk_buff where
  "demo_skb = \<lparr>skb_protocol = 0x0800, skb_data = replicate 14 1 @ 0x45 # replicate 19 2\<rparr>"

definition demo_up :: netsys where
  "demo_up = ldd_open demo_net Sn1 (ldd_open demo_net Sn0 (net_init 2))"

lemma demo_up_reach: "net_reach demo_net 2 demo_up" "nd_running (net_devs demo_up Sn0)" "nd_running (net_devs demo_up Sn1)"
proof -
  have z: "\<not> nd_running (net_devs (net_init 2) d)" for d by (cases d) (simp_all add: net_init_def ldd_pool_def zero_dev_def)
  have o: "nd_running (net_devs (ldd_open c d s) e) \<longleftrightarrow> e = d \<or> nd_running (net_devs s e)" for c d s e
    by (simp add: ldd_open_def Let_def netif_wake_queue_def)
  have i: "net_reach demo_net 2 (net_init 2)" by (rule net_reach.init) simp
  show "net_reach demo_net 2 demo_up"
    unfolding demo_up_def by (rule net_reach.up [OF net_reach.up [OF i z]]) (simp add: o z)
  show "nd_running (net_devs demo_up Sn0)" "nd_running (net_devs demo_up Sn1)" by (simp_all add: demo_up_def o)
qed

theorem net_buffers_conserved_witness:
  "mset (pool_list 2 (snd (ldd_start_xmit demo_net demo_skb Sn0 demo_up)) Sn0) +
     mset (rx_list 2 (snd (ldd_start_xmit demo_net demo_skb Sn0 demo_up)) Sn1) = mset (map (Pair Sn0) [0..<2])"
  using net_buffers_conserved [OF net_reach.xmit [OF demo_up_reach(1,2), of demo_skb], of Sn0] by simp

text \<open>
  C22: The wire is a queue. Sending a well-formed IPv4 frame while the device has a free buffer
  succeeds; if the twin is up, exactly one frame is added behind those that have arrived there, and
  it is the frame sent, padded, with the two address bits flipped and a fresh checksum; if it is
  down, none is. The sender's own frames are left alone and its socket buffer is freed once. This
  holds with NAPI and with an interrupt per frame.
\<close>

theorem net_xmit_arrives:
  assumes "net_reach c N s" and "\<forall>t. alloc_skb c t" and "\<not> xmit_refused s skb d" and "header_fits skb"
    and "pool_list N s d \<noteq> []" and "ldd_start_xmit c skb d s = (r, s')"
  shows "r = NETDEV_TX_OK \<and> frames_at N s' d = frames_at N s d \<and> nd_freed (net_devs s' d) = nd_freed (net_devs s d) @ [skb] \<and>
    frames_at N s' (ldd_peer d) = frames_at N s (ldd_peer d) @ (if nd_running (net_devs s (ldd_peer d)) then [wire c skb] else [])"
proof -
  obtain pl rq where k: "net_ok c N s pl rq []" using net_reach_ok [OF assms(1)] by blast
  have "pl d \<noteq> []" using assms(5) net_rep_lists(1) [OF net_okD(1) [OF k], of d] by simp
  then have "r = NETDEV_TX_OK" and st: "sent c skb d N s rq s'" using xmit_spec [OF k assms(6)] by simp_all
  moreover obtain pl' rq' where k': "net_ok c N s' pl' rq' []" "arrived s' rq' d = arrived s rq d"
     "nd_freed (net_devs s' d) = nd_freed (net_devs s d) @ [skb]"
     "\<exists>b f. arrived s' rq' (ldd_peer d) = arrived s rq (ldd_peer d) @ (if b then [f] else []) \<and>
        (header_fits skb \<longrightarrow> f = wire c skb) \<and>
        ((\<forall>t. alloc_skb c t) \<longrightarrow> b = (\<not> xmit_refused s skb d \<and> nd_running (net_devs s (ldd_peer d))))"
    using st unfolding sent_def by blast
  ultimately show ?thesis
    using net_rep_lists(3) [OF net_okD(1) [OF k]] net_rep_lists(3) [OF net_okD(1) [OF k'(1)]] assms(2,3,4) by auto
qed

lemma demo_up_xmit: "\<not> xmit_refused demo_up demo_skb Sn0" "header_fits demo_skb" "pool_list 2 demo_up Sn0 \<noteq> []"
proof -
  have "net_there demo_up d" for d
    by (cases d) (simp_all add: demo_up_def ldd_open_def Let_def netif_wake_queue_def net_init_def ldd_pool_def demo_net_def)
  then show "\<not> xmit_refused demo_up demo_skb Sn0"
    by (simp add: xmit_refused_def demo_skb_def ETH_P_IP_def eth_defs)
  show "header_fits demo_skb" by (simp add: header_fits_def demo_skb_def eth_defs nth_append)
  have "nd_pool (net_devs demo_up Sn0) = Some (Sn0, 0)"
    by (simp add: demo_up_def ldd_open_def Let_def netif_wake_queue_def net_init_def ldd_pool_def demo_net_def)
  then show "pool_list 2 demo_up Sn0 \<noteq> []" by (simp add: pool_list_def numeral_2_eq_2)
qed

theorem net_xmit_arrives_witness:
  "frames_at 2 (snd (ldd_start_xmit demo_net demo_skb Sn0 demo_up)) Sn1 = frames_at 2 demo_up Sn1 @ [wire demo_net demo_skb]"
  using net_xmit_arrives [OF demo_up_reach(1) _ demo_up_xmit prod.collapse [symmetric]] demo_up_reach(3)
  by (simp add: demo_net_def)

text \<open>
  C23: Bringing an interface down always ends: in every reachable state, however often a scheduled
  poll still runs, the loop that gives back the waiting frames needs at most one turn per buffer
  and one more. Afterwards the interface is down, its queue is empty and all buffers of the twin
  are back in the twin's pool.
\<close>

theorem net_stop_terminates:
  assumes "net_reach c N s"
  shows "\<exists>s'. ldd_stop (Suc N) c n d s = Some s' \<and> \<not> nd_running (net_devs s' d) \<and> rx_list N s' d = [] \<and>
    mset (pool_list N s' (ldd_peer d)) = mset (map (Pair (ldd_peer d)) [0..<N])"
proof -
  obtain pl rq where k: "net_ok c N s pl rq []" using net_reach_ok [OF assms] by blast
  obtain s' pl' rq' where s': "ldd_stop (Suc N) c n d s = Some s'" "net_ok c N s' pl' rq' []" "rq' d = []" "\<not> nd_running (net_devs s' d)"
    using stop_ok [OF k] by blast
  note r = net_okD(1) [OF s'(2)]
  have "mset (pl' (ldd_peer d)) = mset (map (Pair (ldd_peer d)) [0..<N])"
    using net_repD(4) [OF r, unfolded owned_def, rule_format, of "ldd_peer d"] s'(3) by simp
  then show ?thesis using s' net_rep_lists(1,2) [OF r] by simp
qed

theorem net_stop_terminates_witness: "\<exists>s'. ldd_stop 3 demo_net 5 Sn1 (snd (ldd_start_xmit demo_net demo_skb Sn0 demo_up)) = Some s' \<and> rx_list 2 s' Sn1 = []"
proof -
  have "Suc 2 = (3 :: nat)" by simp
  then show ?thesis using net_stop_terminates [OF net_reach.xmit [OF demo_up_reach(1,2), of demo_skb], of 5 Sn1] by auto
qed

text \<open>The header built for a frame without a given destination carries the address of the twin.\<close>

lemma header_to_twin:
  "ldd_header (net_addr d) type None None skb =
     (14, skb\<lparr>skb_data := net_addr (ldd_peer d) @ net_addr d @ [ucast (drop_bit 8 type), ucast type] @ skb_data skb\<rparr>)"
  by (cases d) (simp_all add: ldd_header_def net_addr_def eth_defs)

text \<open>Flipping the address bits twice restores the frame: an answer to the sender's address finds its way back.\<close>

lemma flip_addrs_twice: "34 \<le> length xs \<Longrightarrow> flip_addrs (flip_addrs xs) = xs"
  by (rule nth_equalityI) (auto simp: flip_addrs_def Let_def eth_defs nth_list_update xor.assoc)

text \<open>With frames and memory, one poll passes up the oldest frames, at most a budget of them.\<close>

lemma net_poll_passes_up:
  assumes "use_napi c" and "net_reach c N s" and "\<forall>t. alloc_skb c t" and "ldd_poll c (\<lambda>_. []) [] True d budget s = (n, s')"
  shows "n = min budget (length (rx_list N s d)) \<and>
    nd_up (net_devs s' d) = nd_up (net_devs s d) @ map (frame s) (take budget (rx_list N s d))"
proof -
  obtain pl rq where k: "net_ok c N s pl rq []" using net_reach_ok [OF assms(2)] by blast
  obtain dn s1 where l: "poll_loop c (\<lambda>_. []) d budget 0 s = (dn, s1)" by fastforce
  have "n = dn" "nd_up (net_devs s' d) = nd_up (net_devs s1 d)"
    using assms(4) by (auto simp: ldd_poll_def l Let_def xmits_def napi_schedule_def split: if_splits)
  then show ?thesis using poll_loop_passes_up [OF assms(3) k l] net_rep_lists(2) [OF net_okD(1) [OF k]] by simp
qed

text \<open>
  Loading the module is all or nothing: if any call fails, both devices are gone with their
  buffers; unloading releases what loading acquired, both devices unregistered before either is
  freed.
\<close>

lemma netdev_module_all_or_nothing:
  "fst (netdev_m_init pool_size F) \<noteq> None \<Longrightarrow> held_any (snd (netdev_m_init pool_size F)) [] = Some []"
  "fst (netdev_m_init pool_size F) = None \<Longrightarrow> held_any (snd (netdev_m_init pool_size F) @ netdev_m_exit) [] = Some []"
  by (simp_all add: netdev_m_init_def netdev_m_exit_def ldd_create_def ldd_destroy_def if_err_def split: option.splits if_splits)

end
