(* ===== verification/LDD_USB.thy ===== *)
theory LDD_USB
  imports LDD_Prelude
begin

unbundle bit_operations_syntax

section \<open>ldd-usb: the ticking USB device\<close>

text \<open>
  \<open>src/tools/qemu/hw/ldd/usb.c\<close>. The state of \<open>LDDUSBState\<close>, with the time the timer is set to;
  the descriptors; the handlers of reset and of the three endpoints. The virtual clock, in
  milliseconds, and the host's time as text are arguments of what reads them. A packet is its
  token, its endpoint, and the bytes it carries (OUT) or the room it has (IN); a handler gives
  its status and the bytes returned.
\<close>

definition LDD_USB_VENDOR_ID :: "16 word" where "LDD_USB_VENDOR_ID = 0x1234"
definition LDD_USB_PRODUCT_ID :: "16 word" where "LDD_USB_PRODUCT_ID = 0x7863"
definition LDD_USB_EP_TIME :: nat where "LDD_USB_EP_TIME = 1"
definition LDD_USB_EP_INTERVAL :: nat where "LDD_USB_EP_INTERVAL = 2"
definition LDD_USB_EP_TICK :: nat where "LDD_USB_EP_TICK = 3"
definition LDD_USB_BULK_PACKET :: nat where "LDD_USB_BULK_PACKET = 64"
definition LDD_USB_INT_PACKET :: nat where "LDD_USB_INT_PACKET = 8"
definition LDD_USB_INTERVAL_MAX :: "32 word" where "LDD_USB_INTERVAL_MAX = 3600"
definition LDD_USB_TIME_LEN :: nat where "LDD_USB_TIME_LEN = 20"

lemmas usb_consts = LDD_USB_EP_TIME_def LDD_USB_EP_INTERVAL_def LDD_USB_EP_TICK_def LDD_USB_BULK_PACKET_def
  LDD_USB_INT_PACKET_def LDD_USB_INTERVAL_MAX_def LDD_USB_TIME_LEN_def

record ldd_usb =
  us_interval :: "32 word"
  us_tick_pending :: bool
  us_time :: "byte list"
  us_default_interval :: "32 word"
  us_timer :: "int option"

subsection \<open>Descriptors\<close>

datatype xfer_type = USB_ENDPOINT_XFER_BULK | USB_ENDPOINT_XFER_INT

record usb_ep_desc =
  ep_in :: bool
  ep_nr :: nat
  ep_attr :: xfer_type
  ep_maxp :: nat
  ep_interval :: nat

definition desc_iface :: "usb_ep_desc list" where
  "desc_iface =
     [\<lparr>ep_in = True, ep_nr = LDD_USB_EP_TIME, ep_attr = USB_ENDPOINT_XFER_BULK, ep_maxp = LDD_USB_BULK_PACKET, ep_interval = 0\<rparr>,
      \<lparr>ep_in = False, ep_nr = LDD_USB_EP_INTERVAL, ep_attr = USB_ENDPOINT_XFER_BULK, ep_maxp = LDD_USB_BULK_PACKET, ep_interval = 0\<rparr>,
      \<lparr>ep_in = True, ep_nr = LDD_USB_EP_TICK, ep_attr = USB_ENDPOINT_XFER_INT, ep_maxp = LDD_USB_INT_PACKET, ep_interval = 10\<rparr>]"

subsection \<open>Handlers\<close>

datatype usb_token = USB_TOKEN_IN | USB_TOKEN_OUT | USB_TOKEN_SETUP

datatype usb_ret = USB_RET_SUCCESS | USB_RET_NAK | USB_RET_STALL

definition ldd_usb_stamp_time :: "byte list \<Rightarrow> ldd_usb \<Rightarrow> ldd_usb" where
  "ldd_usb_stamp_time stamp s = s\<lparr>us_time := stamp\<rparr>"

definition ldd_usb_arm_timer :: "int \<Rightarrow> ldd_usb \<Rightarrow> ldd_usb" where
  "ldd_usb_arm_timer now s = s\<lparr>us_timer := Some (now + uint (us_interval s) * 1000)\<rparr>"

definition ldd_usb_tick :: "int \<Rightarrow> byte list \<Rightarrow> ldd_usb \<Rightarrow> ldd_usb" where
  "ldd_usb_tick now stamp s = ldd_usb_arm_timer now ((ldd_usb_stamp_time stamp s)\<lparr>us_tick_pending := True\<rparr>)"

definition ldd_usb_handle_reset :: "int \<Rightarrow> byte list \<Rightarrow> ldd_usb \<Rightarrow> ldd_usb" where
  "ldd_usb_handle_reset now stamp s =
     ldd_usb_arm_timer now (ldd_usb_stamp_time stamp (s\<lparr>us_interval := us_default_interval s, us_tick_pending := False\<rparr>))"

text \<open>The standard requests are answered from the descriptors by QEMU; \<open>answer\<close> is negative for any other.\<close>

definition ldd_usb_handle_control :: "int \<Rightarrow> usb_ret \<Rightarrow> usb_ret" where
  "ldd_usb_handle_control answer status = (if answer < 0 then USB_RET_STALL else status)"

definition ldd_usb_set_interval :: "int \<Rightarrow> byte list \<Rightarrow> ldd_usb \<Rightarrow> usb_ret \<times> ldd_usb" where
  "ldd_usb_set_interval now data s =
     (if length data \<noteq> 4 then (USB_RET_STALL, s)
      else
        let s1 = s\<lparr>us_interval := min (max (le_word data) 1) LDD_USB_INTERVAL_MAX, us_tick_pending := False\<rparr>
        in (USB_RET_SUCCESS, ldd_usb_arm_timer now s1))"

definition ldd_usb_report_tick :: "nat \<Rightarrow> ldd_usb \<Rightarrow> usb_ret \<times> byte list \<times> ldd_usb" where
  "ldd_usb_report_tick room s =
     (if \<not> us_tick_pending s then (USB_RET_NAK, [], s)
      else
        let report = le_bytes 4 (1 :: 32 word) @ le_bytes 4 (us_interval s)
        in (USB_RET_SUCCESS, take (min 8 room) report, s\<lparr>us_tick_pending := False\<rparr>))"

definition ldd_usb_handle_data :: "int \<Rightarrow> usb_token \<Rightarrow> nat \<Rightarrow> byte list \<Rightarrow> nat \<Rightarrow> ldd_usb \<Rightarrow> usb_ret \<times> byte list \<times> ldd_usb" where
  "ldd_usb_handle_data now pid nr data room s =
     (case pid of
        USB_TOKEN_OUT \<Rightarrow>
          if nr = LDD_USB_EP_INTERVAL then (case ldd_usb_set_interval now data s of (st, s1) \<Rightarrow> (st, [], s1))
          else (USB_RET_STALL, [], s)
      | USB_TOKEN_IN \<Rightarrow>
          if nr = LDD_USB_EP_TIME then (USB_RET_SUCCESS, take (min LDD_USB_TIME_LEN room) (us_time s), s)
          else if nr = LDD_USB_EP_TICK then ldd_usb_report_tick room s
          else (USB_RET_STALL, [], s)
      | USB_TOKEN_SETUP \<Rightarrow> (USB_RET_STALL, [], s))"

text \<open>A new object is zeroed, with the properties given; the timer is made but not armed until the reset.\<close>

definition ldd_usb_realize :: "32 word \<Rightarrow> ldd_usb" where
  "ldd_usb_realize default_interval = \<lparr>us_interval = 0, us_tick_pending = False, us_time = replicate LDD_USB_TIME_LEN 0,
     us_default_interval = default_interval, us_timer = None\<rparr>"

definition ldd_usb_properties :: "32 word" where
  "ldd_usb_properties = 1"

definition ldd_usb_unrealize :: "ldd_usb \<Rightarrow> ldd_usb" where
  "ldd_usb_unrealize s = s\<lparr>us_timer := None\<rparr>"

subsection \<open>Runs\<close>

text \<open>
  A run of the device since its reset, with the times of the ticks of its timer, newest first, and the number of
  reports delivered on the interrupt endpoint. The timer fires at its time or any time later, and until it
  does anything else may happen. The time as text has the length of the buffer.
\<close>

inductive usb_run :: "32 word \<Rightarrow> int \<Rightarrow> int list \<Rightarrow> nat \<Rightarrow> ldd_usb \<Rightarrow> bool" for dflt where
  start: "length stamp = LDD_USB_TIME_LEN \<Longrightarrow> usb_run dflt now [] 0 (ldd_usb_handle_reset now stamp (ldd_usb_realize dflt))"
| later: "usb_run dflt now ts r s \<Longrightarrow> now \<le> now' \<Longrightarrow> usb_run dflt now' ts r s"
| tick: "usb_run dflt now ts r s \<Longrightarrow> us_timer s = Some t \<Longrightarrow> t \<le> now \<Longrightarrow> length stamp = LDD_USB_TIME_LEN \<Longrightarrow>
    usb_run dflt now (now # ts) r (ldd_usb_tick now stamp s)"
| data: "usb_run dflt now ts r s \<Longrightarrow> ldd_usb_handle_data now pid nr bytes room s = (st, out, s') \<Longrightarrow>
    usb_run dflt now ts (if pid = USB_TOKEN_IN \<and> nr = LDD_USB_EP_TICK \<and> st = USB_RET_SUCCESS then Suc r else r) s'"
| reset: "usb_run dflt now ts r s \<Longrightarrow> length stamp = LDD_USB_TIME_LEN \<Longrightarrow> usb_run dflt now ts r (ldd_usb_handle_reset now stamp s)"

definition interval_ok :: "32 word \<Rightarrow> bool" where
  "interval_ok w \<longleftrightarrow> 1 \<le> w \<and> w \<le> LDD_USB_INTERVAL_MAX"

text \<open>The timer was armed at some time, for one interval later, and there was no tick since.\<close>

definition armed_since :: "int \<Rightarrow> int list \<Rightarrow> ldd_usb \<Rightarrow> bool" where
  "armed_since now ts s \<longleftrightarrow>
     (\<exists>a. a \<le> now \<and> us_timer s = Some (a + uint (us_interval s) * 1000) \<and> (\<forall>t \<in> set ts. t \<le> a))"

definition usb_inv :: "32 word \<Rightarrow> int \<Rightarrow> int list \<Rightarrow> nat \<Rightarrow> ldd_usb \<Rightarrow> bool" where
  "usb_inv dflt now ts r s \<longleftrightarrow> us_default_interval s = dflt \<and> length (us_time s) = LDD_USB_TIME_LEN \<and>
     r + of_bool (us_tick_pending s) \<le> length ts \<and> armed_since now ts s \<and>
     (interval_ok dflt \<longrightarrow> interval_ok (us_interval s) \<and> sorted_wrt (\<lambda>b a. a + 1000 \<le> b) ts)"

lemma clamp_ok: "interval_ok (min (max w 1) LDD_USB_INTERVAL_MAX)"
  by (auto simp: interval_ok_def LDD_USB_INTERVAL_MAX_def min_def max_def)

lemma armed_past: "armed_since now ts s \<Longrightarrow> \<forall>t \<in> set ts. t \<le> now"
  by (auto simp: armed_since_def)

lemma arm_inv:
  "us_default_interval s = dflt \<Longrightarrow> length (us_time s) = LDD_USB_TIME_LEN \<Longrightarrow> r + of_bool (us_tick_pending s) \<le> length ts \<Longrightarrow>
   \<forall>t \<in> set ts. t \<le> now \<Longrightarrow> interval_ok dflt \<longrightarrow> interval_ok (us_interval s) \<and> sorted_wrt (\<lambda>b a. a + 1000 \<le> b) ts \<Longrightarrow>
   usb_inv dflt now ts r (ldd_usb_arm_timer now s)"
  by (auto simp: usb_inv_def armed_since_def ldd_usb_arm_timer_def)

lemma tick_spaced:
  assumes "armed_since now ts s" "us_timer s = Some t" "t \<le> now" "interval_ok (us_interval s)" "x \<in> set ts"
  shows "x + 1000 \<le> now"
proof -
  obtain a where a: "t = a + uint (us_interval s) * 1000" "x \<le> a" using assms(1,2,5) by (auto simp: armed_since_def)
  have "1 \<le> uint (us_interval s)" using assms(4) by (simp add: interval_ok_def word_le_def)
  then show ?thesis using a assms(3) by linarith
qed

lemma handle_data_inv:
  assumes i: "usb_inv dflt now ts r s" and h: "ldd_usb_handle_data now pid nr bytes room s = (st, out, s')"
  shows "usb_inv dflt now ts (if pid = USB_TOKEN_IN \<and> nr = LDD_USB_EP_TICK \<and> st = USB_RET_SUCCESS then Suc r else r) s'"
proof (cases pid)
  case USB_TOKEN_IN
  then show ?thesis
    using i h by (auto simp: ldd_usb_handle_data_def ldd_usb_report_tick_def usb_inv_def armed_since_def usb_consts Let_def split: if_splits)
next
  case USB_TOKEN_OUT
  show ?thesis
  proof (cases "nr = LDD_USB_EP_INTERVAL \<and> length bytes = 4")
    case True
    let ?s = "s\<lparr>us_interval := min (max (le_word bytes) 1) LDD_USB_INTERVAL_MAX, us_tick_pending := False\<rparr>"
    have "s' = ldd_usb_arm_timer now ?s"
      using h USB_TOKEN_OUT True by (simp add: ldd_usb_handle_data_def ldd_usb_set_interval_def Let_def)
    moreover have "usb_inv dflt now ts r (ldd_usb_arm_timer now ?s)"
      by (rule arm_inv) (use i in \<open>auto simp: usb_inv_def clamp_ok dest: armed_past\<close>)
    ultimately show ?thesis using USB_TOKEN_OUT by simp
  next
    case False
    then have "s' = s" using h USB_TOKEN_OUT by (auto simp: ldd_usb_handle_data_def ldd_usb_set_interval_def split: if_splits)
    then show ?thesis using i USB_TOKEN_OUT by simp
  qed
next
  case USB_TOKEN_SETUP
  then show ?thesis using i h by (simp add: ldd_usb_handle_data_def)
qed

lemma usb_run_inv: "usb_run dflt now ts r s \<Longrightarrow> usb_inv dflt now ts r s"
proof (induction rule: usb_run.induct)
  case (start stamp now)
  then show ?case
    unfolding ldd_usb_handle_reset_def by (intro arm_inv) (simp_all add: ldd_usb_stamp_time_def ldd_usb_realize_def)
next
  case (later now ts r s now')
  then show ?case by (fastforce simp: usb_inv_def armed_since_def)
next
  case (tick now ts r s t stamp)
  have "\<forall>x \<in> set ts. interval_ok (us_interval s) \<longrightarrow> x + 1000 \<le> now"
    using tick_spaced [OF _ tick.hyps(2,3)] tick.IH by (auto simp: usb_inv_def)
  then show ?case
    unfolding ldd_usb_tick_def using tick by (intro arm_inv) (auto simp: ldd_usb_stamp_time_def usb_inv_def dest: armed_past)
next
  case (data now ts r s pid nr bytes room st out s')
  from handle_data_inv [OF data.IH data.hyps(2)] show ?case .
next
  case (reset now ts r s stamp)
  then show ?case
    unfolding ldd_usb_handle_reset_def
    by (intro arm_inv) (auto simp: ldd_usb_stamp_time_def usb_inv_def dest: armed_past)
qed

text \<open>
  C24: In every run, however late the timer fires: the reports delivered and the one pending are no more than the
  ticks; the timer is always armed, for one interval after it was last set, and there was no tick since.
  If the default interval given on the command line is within the limits, which the device does not check, then so is the interval
  in force, whatever the driver sends, and any two ticks are at least a second apart.
\<close>

theorem usb_one_report_per_tick:
  assumes "usb_run dflt now ts r s"
  shows "r + of_bool (us_tick_pending s) \<le> length ts \<and>
    (\<exists>a. a \<le> now \<and> us_timer s = Some (a + uint (us_interval s) * 1000) \<and> (\<forall>t \<in> set ts. t \<le> a)) \<and>
    (1 \<le> dflt \<and> dflt \<le> LDD_USB_INTERVAL_MAX \<longrightarrow>
       1 \<le> us_interval s \<and> us_interval s \<le> LDD_USB_INTERVAL_MAX \<and> sorted_wrt (\<lambda>b a. a + 1000 \<le> b) ts)"
  using usb_run_inv [OF assms] unfolding usb_inv_def armed_since_def interval_ok_def by blast

definition demo_usb :: ldd_usb where
  "demo_usb = ldd_usb_tick 6000 (replicate 20 0x31) (ldd_usb_handle_reset 0 (replicate 20 0x30) (ldd_usb_realize 5))"

lemma demo_usb_run: "usb_run 5 6000 [6000] 0 demo_usb"
proof -
  let ?s = "ldd_usb_handle_reset 0 (replicate 20 0x30) (ldd_usb_realize 5)"
  have t: "us_timer ?s = Some 5000" by (simp add: ldd_usb_handle_reset_def ldd_usb_arm_timer_def ldd_usb_stamp_time_def ldd_usb_realize_def)
  have "usb_run 5 0 [] 0 ?s" by (rule usb_run.start) (simp add: usb_consts)
  then have "usb_run 5 6000 [] 0 ?s" by (rule usb_run.later) simp
  from usb_run.tick [OF this t, of "replicate 20 0x31"] show ?thesis by (simp add: demo_usb_def usb_consts)
qed

theorem usb_one_report_per_tick_witness:
  "us_tick_pending demo_usb \<and> 1 \<le> us_interval demo_usb \<and> us_interval demo_usb \<le> LDD_USB_INTERVAL_MAX"
proof -
  have "us_tick_pending demo_usb"
    by (simp add: demo_usb_def ldd_usb_tick_def ldd_usb_arm_timer_def ldd_usb_stamp_time_def)
  then show ?thesis using usb_one_report_per_tick [OF demo_usb_run] by (simp add: LDD_USB_INTERVAL_MAX_def)
qed

text \<open>
  The \<open>interval\<close> property is not clamped as the bulk endpoint's value is: with 0 the timer is
  armed for the moment it fires, again and again.
\<close>

lemma usb_zero_default: "us_timer (ldd_usb_tick now stamp (ldd_usb_handle_reset now' stamp' (ldd_usb_realize 0))) = Some now"
  by (simp add: ldd_usb_tick_def ldd_usb_arm_timer_def ldd_usb_stamp_time_def ldd_usb_handle_reset_def ldd_usb_realize_def)

text \<open>A tick is reported exactly once, with the interval in force; before the next tick the endpoint answers NAK.\<close>

lemma usb_tick_report:
  assumes "8 \<le> room"
  shows "\<exists>s1. ldd_usb_handle_data now USB_TOKEN_IN 3 [] room (ldd_usb_tick now stamp s) =
      (USB_RET_SUCCESS, le_bytes 4 (1 :: 32 word) @ le_bytes 4 (us_interval s), s1) \<and>
    ldd_usb_handle_data now USB_TOKEN_IN 3 [] room s1 = (USB_RET_NAK, [], s1)"
  using assms by (simp add: ldd_usb_handle_data_def ldd_usb_report_tick_def usb_consts ldd_usb_tick_def ldd_usb_arm_timer_def
      ldd_usb_stamp_time_def Let_def min_def)

end
