(* ===== verification/Usb_Skel.thy ===== *)
theory Usb_Skel
  imports LDD_USB Lifecycle
begin

section \<open>21_usb_skel: the driver of ldd-usb\<close>

text \<open>
  \<open>src/examples/21_usb_skel/main.c\<close>. One \<open>struct usb_skel\<close> per device, shared by the open
  files, each with the number of ticks it has seen. The interrupt URB is active from its
  submission until it completes or is killed. \<open>skel_disconnect\<close> gives up its mutex between
  marking the device gone and killing the URB, so it is four steps, between which files may be
  closed, read and written and the URB may complete. The answers of the USB core are parameters:
  of a submission an \<open>errno option\<close>, of a bulk transfer an error or the bytes received.
\<close>

definition LDD_USB_TICK_LEN :: nat where "LDD_USB_TICK_LEN = 8"

text \<open>How far \<open>skel_disconnect\<close> has come.\<close>

datatype gone = Attached | Deregistered | Marked | Killed | Gone

record usb_skel =
  sk_bulk_in_size :: nat
  sk_ticks :: "32 word"
  sk_disconnected :: bool
  sk_open_count :: int
  sk_kref :: nat
  sk_urb :: bool
  sk_files :: "nat \<Rightarrow> 32 word option"
  sk_gone :: gone
  sk_deleted :: nat

text \<open>\<open>skel_delete\<close>, called for the last reference; the number of calls is kept.\<close>

definition skel_delete :: "usb_skel \<Rightarrow> usb_skel" where
  "skel_delete s = s\<lparr>sk_deleted := sk_deleted s + 1\<rparr>"

definition kref_put :: "usb_skel \<Rightarrow> usb_skel" where
  "kref_put s = (let s1 = s\<lparr>sk_kref := sk_kref s - 1\<rparr> in if sk_kref s1 = 0 then skel_delete s1 else s1)"

subsection \<open>The interrupt URB\<close>

datatype urb_status = UrbOk | UrbKilled | UrbError

text \<open>\<open>UrbKilled\<close> stands for ECONNRESET, ENOENT and ESHUTDOWN, \<open>UrbError\<close> for any other error.\<close>

definition skel_resubmit :: "errno option \<Rightarrow> usb_skel \<Rightarrow> usb_skel" where
  "skel_resubmit err s = (case err of None \<Rightarrow> s\<lparr>sk_urb := True\<rparr> | Some _ \<Rightarrow> s)"

definition skel_tick_complete :: "urb_status \<Rightarrow> byte list \<Rightarrow> errno option \<Rightarrow> usb_skel \<Rightarrow> usb_skel" where
  "skel_tick_complete status buf err s =
     (let s0 = s\<lparr>sk_urb := False\<rparr> in
      case status of
        UrbKilled \<Rightarrow> s0
      | UrbError \<Rightarrow> skel_resubmit err s0
      | UrbOk \<Rightarrow>
          if length buf = LDD_USB_TICK_LEN \<and> le_word (take 4 buf) = (1 :: 32 word)
          then skel_resubmit err (s0\<lparr>sk_ticks := sk_ticks s0 + 1\<rparr>)
          else skel_resubmit err s0)"

definition usb_kill_urb :: "usb_skel \<Rightarrow> usb_skel" where
  "usb_kill_urb s = s\<lparr>sk_urb := False\<rparr>"

subsection \<open>Files\<close>

text \<open>
  \<open>found\<close> tells whether the core knows the minor, \<open>mem\<close> whether the allocation succeeds; \<open>err\<close> is
  the answer of \<open>usb_submit_urb\<close>; \<open>f\<close> names the file.
\<close>

definition skel_open :: "bool \<Rightarrow> bool \<Rightarrow> errno option \<Rightarrow> nat \<Rightarrow> usb_skel \<Rightarrow> errno option \<times> usb_skel" where
  "skel_open found mem err f s =
     (if \<not> found then (Some ENODEV, s)
      else if \<not> mem then (Some ENOMEM, s)
      else if sk_disconnected s then (Some ENODEV, s)
      else
        let first = (sk_open_count s = 0);
            s1 = s\<lparr>sk_open_count := sk_open_count s + 1\<rparr>
        in case (if first then err else None) of
             Some e \<Rightarrow> (Some e, s1\<lparr>sk_open_count := sk_open_count s1 - 1\<rparr>)
           | None \<Rightarrow>
               let s2 = (if first then s1\<lparr>sk_urb := True\<rparr> else s1)
               in (None, s2\<lparr>sk_kref := sk_kref s2 + 1, sk_files := (sk_files s2)(f \<mapsto> sk_ticks s2)\<rparr>))"

definition skel_release :: "nat \<Rightarrow> usb_skel \<Rightarrow> usb_skel" where
  "skel_release f s =
     (let s1 = s\<lparr>sk_open_count := sk_open_count s - 1, sk_files := (sk_files s)(f := None)\<rparr>;
          s2 = (if sk_open_count s1 = 0 \<and> \<not> sk_disconnected s1 then usb_kill_urb s1 else s1)
      in kref_put s2)"

text \<open>
  The C function \<open>strnlen\<close>, and the line made of what the bulk endpoint returned. The buffer
  has \<open>sk_bulk_in_size\<close> bytes; the store of the newline is at \<open>len\<close>, inside it or not.
\<close>

fun strnlen :: "byte list \<Rightarrow> nat \<Rightarrow> nat" where
  "strnlen (b # bs) (Suc n) = (if b = 0 then 0 else Suc (strnlen bs n))"
| "strnlen bs n = 0"

definition line_len :: "nat \<Rightarrow> byte list \<Rightarrow> nat \<Rightarrow> nat" where
  "line_len sz buf actual = (let len = strnlen buf actual in if len = sz then len - 1 else len)"

definition line_of :: "nat \<Rightarrow> byte list \<Rightarrow> nat \<Rightarrow> byte list" where
  "line_of sz buf actual = take (line_len sz buf actual + 1) (buf[line_len sz buf actual := 0x0A])"

text \<open>
  A read waits for a tick, remembers their number, then takes the mutex; in between ticks may
  arrive and the device may go, so the two parts see the structure at two times, \<open>s0\<close> and \<open>s\<close>.
  \<open>seen\<close> is the number the file has seen (both parts run for an open file). \<open>woken\<close> tells whether the wait
  ended by its condition rather than by a signal, \<open>locked\<close> whether the mutex was taken; \<open>bulk\<close> is
  the answer of \<open>usb_bulk_msg\<close>: an error, or the buffer after the transfer and the number of bytes
  received. The result is an error or the bytes copied.
\<close>

definition skel_read_wait :: "bool \<Rightarrow> bool \<Rightarrow> 32 word \<Rightarrow> usb_skel \<Rightarrow> 32 word result" where
  "skel_read_wait nonblock woken seen s0 =
     (if nonblock then if sk_ticks s0 = seen then Inl EAGAIN else Inr (sk_ticks s0)
      else if \<not> woken then Inl ERESTARTSYS else Inr (sk_ticks s0))"

definition skel_read_body ::
  "32 word \<Rightarrow> (errno + byte list \<times> nat) \<Rightarrow> to_user \<Rightarrow> nat \<Rightarrow> nat \<Rightarrow> usb_skel \<Rightarrow> byte list result \<times> usb_skel" where
  "skel_read_body ticks bulk ctu count f s =
     (if sk_disconnected s then (Inl ENODEV, s)
      else case bulk of
        Inl e \<Rightarrow> (Inl e, s)
      | Inr (buf, actual) \<Rightarrow>
          let out = take count (line_of (sk_bulk_in_size s) buf actual) in
          if ctu out \<noteq> 0 then (Inl EFAULT, s)
          else (Inr out, s\<lparr>sk_files := (sk_files s)(f \<mapsto> ticks)\<rparr>))"

definition skel_read ::
  "bool \<Rightarrow> bool \<Rightarrow> bool \<Rightarrow> (errno + byte list \<times> nat) \<Rightarrow> to_user \<Rightarrow> nat \<Rightarrow> 32 word \<Rightarrow> nat \<Rightarrow> usb_skel \<Rightarrow> usb_skel \<Rightarrow> byte list result \<times> usb_skel" where
  "skel_read nonblock woken locked bulk ctu count seen f s0 s =
     (case skel_read_wait nonblock woken seen s0 of
        Inl e \<Rightarrow> (Inl e, s)
      | Inr ticks \<Rightarrow> if \<not> locked then (Inl ERESTARTSYS, s) else skel_read_body ticks bulk ctu count f s)"

text \<open>The condition a blocking read waits for.\<close>

definition skel_readable :: "nat \<Rightarrow> usb_skel \<Rightarrow> bool" where
  "skel_readable f s \<longleftrightarrow> sk_files s f \<noteq> Some (sk_ticks s) \<or> sk_disconnected s"

datatype poll_bit = EPOLLIN | EPOLLRDNORM | EPOLLHUP | EPOLLERR

definition skel_poll :: "nat \<Rightarrow> usb_skel \<Rightarrow> poll_bit set" where
  "skel_poll f s = (if sk_files s f \<noteq> Some (sk_ticks s) then {EPOLLIN, EPOLLRDNORM} else {}) \<union>
     (if sk_disconnected s then {EPOLLHUP, EPOLLERR} else {})"

text \<open>
  A write makes a buffer and a URB, submits it and drops its reference. A submitted URB's buffer is
  freed by \<open>skel_write_complete\<close>. \<open>kstr\<close> is the answer of \<open>kstrtouint_from_user\<close>. The result is an
  error or the count, with the calls made and the bytes handed to the bulk OUT endpoint, if any.
\<close>

datatype write_res = WrData | WrUrb

definition skel_write ::
  "errno + 32 word \<Rightarrow> write_res answers \<Rightarrow> errno option \<Rightarrow> nat \<Rightarrow> usb_skel \<Rightarrow> nat result \<times> byte list option \<times> write_res call list" where
  "skel_write kstr F submit count s =
     (case kstr of
        Inl e \<Rightarrow> (Inl e, None, [])
      | Inr interval \<Rightarrow>
          if_err (F WrData) (\<lambda>_. (Inl ENOMEM, None, []))
          (if_err (F WrUrb) (\<lambda>_. (Inl ENOMEM, None, [Acq WrData, Rel WrData]))
          (if_err (if sk_disconnected s then Some ENODEV else submit)
             (\<lambda>e. (Inl e, None, [Acq WrData, Acq WrUrb, Rel WrUrb, Rel WrData]))
             (Inr count, Some (le_bytes 4 interval), [Acq WrData, Acq WrUrb, Rel WrUrb]))))"

definition skel_write_complete :: "write_res call list" where
  "skel_write_complete = [Rel WrData]"

subsection \<open>Attaching and detaching\<close>

datatype skel_res = SkDev | SkUdev | SkEndpoints | SkBulkBuf | SkUrb | SkTickBuf | SkMinor

text \<open>The frees of \<open>skel_delete\<close>, for a structure that has the given allocations.\<close>

definition delete_calls :: "bool \<Rightarrow> bool \<Rightarrow> bool \<Rightarrow> skel_res call list" where
  "delete_calls tick_buffer tick_urb bulk_in_buffer =
     (if tick_buffer then [Rel SkTickBuf] else []) @ (if tick_urb then [Rel SkUrb] else []) @
     (if bulk_in_buffer then [Rel SkBulkBuf] else []) @ [Rel SkUdev, Rel SkDev]"

definition skel_probe :: "skel_res answers \<Rightarrow> errno option \<times> skel_res call list" where
  "skel_probe F =
     if_err (F SkDev) (\<lambda>_. (Some ENOMEM, []))
     (if_err (F SkEndpoints) (\<lambda>e. (Some e, [Acq SkDev, Acq SkUdev] @ delete_calls False False False))
     (let bulk = (F SkBulkBuf = None); urb = (F SkUrb = None); tick = urb \<and> F SkTickBuf = None;
          got = [Acq SkDev, Acq SkUdev] @ (if bulk then [Acq SkBulkBuf] else []) @
            (if urb then [Acq SkUrb] else []) @ (if tick then [Acq SkTickBuf] else [])
      in if \<not> bulk \<or> \<not> urb \<or> \<not> tick then (Some ENOMEM, got @ delete_calls tick urb bulk)
         else if_err (F SkMinor) (\<lambda>e. (Some e, got @ delete_calls True True True))
           (None, got @ [Acq SkMinor])))"

definition skel_disconnect_calls :: "skel_res call list" where
  "skel_disconnect_calls = [Rel SkMinor]"

text \<open>The four steps of \<open>skel_disconnect\<close>.\<close>

definition skel_deregister :: "usb_skel \<Rightarrow> usb_skel" where
  "skel_deregister s = s\<lparr>sk_gone := Deregistered\<rparr>"

definition skel_mark :: "usb_skel \<Rightarrow> usb_skel" where
  "skel_mark s = s\<lparr>sk_disconnected := True, sk_gone := Marked\<rparr>"

definition skel_kill :: "usb_skel \<Rightarrow> usb_skel" where
  "skel_kill s = (usb_kill_urb s)\<lparr>sk_gone := Killed\<rparr>"

definition skel_put :: "usb_skel \<Rightarrow> usb_skel" where
  "skel_put s = kref_put (s\<lparr>sk_gone := Gone\<rparr>)"

definition skel_probed :: "nat \<Rightarrow> usb_skel" where
  "skel_probed sz = \<lparr>sk_bulk_in_size = sz, sk_ticks = 0, sk_disconnected = False, sk_open_count = 0, sk_kref = 1,
     sk_urb = False, sk_files = Map.empty, sk_gone = Attached, sk_deleted = 0\<rparr>"

subsection \<open>Lifetime\<close>

inductive skel_reach :: "nat \<Rightarrow> usb_skel \<Rightarrow> bool" for sz where
  probed: "skel_reach sz (skel_probed sz)"
| opened: "skel_reach sz s \<Longrightarrow> sk_gone s = Attached \<Longrightarrow> sk_files s f = None \<Longrightarrow> skel_open found mem err f s = (r, s') \<Longrightarrow> skel_reach sz s'"
| closed: "skel_reach sz s \<Longrightarrow> sk_files s f \<noteq> None \<Longrightarrow> skel_reach sz (skel_release f s)"
| completed: "skel_reach sz s \<Longrightarrow> sk_urb s \<Longrightarrow> skel_reach sz (skel_tick_complete status buf err s)"
| read: "skel_reach sz s \<Longrightarrow> sk_files s f \<noteq> None \<Longrightarrow> skel_read_body ticks bulk ctu count f s = (r, s') \<Longrightarrow> skel_reach sz s'"
| deregistered: "skel_reach sz s \<Longrightarrow> sk_gone s = Attached \<Longrightarrow> skel_reach sz (skel_deregister s)"
| marked: "skel_reach sz s \<Longrightarrow> sk_gone s = Deregistered \<Longrightarrow> skel_reach sz (skel_mark s)"
| killed: "skel_reach sz s \<Longrightarrow> sk_gone s = Marked \<Longrightarrow> skel_reach sz (skel_kill s)"
| put: "skel_reach sz s \<Longrightarrow> sk_gone s = Killed \<Longrightarrow> skel_reach sz (skel_put s)"

definition skel_inv :: "nat \<Rightarrow> usb_skel \<Rightarrow> bool" where
  "skel_inv sz s \<longleftrightarrow> sk_bulk_in_size s = sz \<and> finite (dom (sk_files s)) \<and> sk_open_count s = int (card (dom (sk_files s))) \<and>
     sk_kref s = card (dom (sk_files s)) + of_bool (sk_gone s \<noteq> Gone) \<and> sk_deleted s = of_bool (sk_kref s = 0) \<and>
     sk_disconnected s = (sk_gone s \<in> {Marked, Killed, Gone}) \<and>
     (sk_urb s \<longrightarrow> sk_gone s \<notin> {Killed, Gone} \<and> (0 < sk_open_count s \<or> sk_gone s = Marked))"

lemma skel_inv_open:
  assumes "skel_inv sz s" and "sk_gone s = Attached" and "sk_files s f = None" and "skel_open found mem err f s = (r, s')"
  shows "skel_inv sz s'"
proof -
  have "f \<notin> dom (sk_files s)" using assms(3) by blast
  then have c: "card (insert f (dom (sk_files s))) = Suc (card (dom (sk_files s)))" using assms(1) by (simp add: skel_inv_def)
  show ?thesis
    using assms(1,2,4) c
    by (cases "sk_open_count s = 0"; cases err) (auto simp: skel_inv_def skel_open_def Let_def split: if_splits)
qed

lemma skel_inv_release:
  assumes i: "skel_inv sz s" and f: "sk_files s f \<noteq> None"
  shows "skel_inv sz (skel_release f s)"
proof -
  have d: "f \<in> dom (sk_files s)" "finite (dom (sk_files s))" using i f by (auto simp: skel_inv_def)
  have c: "card (dom (sk_files s)) = Suc (card (dom (sk_files s) - {f}))" by (rule card.remove [OF d(2,1)])
  have u: "dom ((sk_files s)(f := None)) = dom (sk_files s) - {f}" by simp
  show ?thesis
    using i c d(2) unfolding skel_release_def kref_put_def Let_def usb_kill_urb_def skel_delete_def skel_inv_def
    by (cases "sk_gone s") (simp_all add: u of_nat_diff card_gt_0_iff)
qed

lemma skel_inv_complete: "skel_inv sz s \<Longrightarrow> sk_urb s \<Longrightarrow> skel_inv sz (skel_tick_complete status buf err s)"
  by (cases status; cases err) (auto simp: skel_inv_def skel_tick_complete_def skel_resubmit_def Let_def)

lemma skel_inv_read:
  assumes "skel_inv sz s" and "sk_files s f \<noteq> None" and "skel_read_body ticks bulk ctu count f s = (r, s')"
  shows "skel_inv sz s'"
proof -
  have "insert f (dom (sk_files s)) = dom (sk_files s)" using assms(2) by blast
  then show ?thesis
    using assms(1,3) by (auto simp: skel_inv_def skel_read_body_def Let_def split: if_splits sum.splits)
qed

lemma skel_reach_inv: "skel_reach sz s \<Longrightarrow> skel_inv sz s"
proof (induction rule: skel_reach.induct)
  case probed
  then show ?case by (simp add: skel_inv_def skel_probed_def)
next
  case (opened s f found mem err r s')
  then show ?case using skel_inv_open [OF opened.IH opened.hyps(2-4)] by blast
next
  case (closed s f)
  then show ?case using skel_inv_release by blast
next
  case (completed s status buf err)
  then show ?case using skel_inv_complete by blast
next
  case (read s f ticks bulk ctu count r s')
  then show ?case using skel_inv_read [OF read.IH read.hyps(2,3)] by blast
next
  case (deregistered s)
  then show ?case by (auto simp: skel_inv_def skel_deregister_def)
next
  case (marked s)
  then show ?case by (auto simp: skel_inv_def skel_mark_def)
next
  case (killed s)
  then show ?case by (auto simp: skel_inv_def skel_kill_def usb_kill_urb_def)
next
  case (put s)
  then show ?case by (auto simp: skel_inv_def skel_put_def kref_put_def skel_delete_def Let_def)
qed

text \<open>
  C25: The structure is freed exactly once, and not while anything uses it. However opening,
  closing, ticks, reads and the steps of a disconnection interleave, \<open>skel_delete\<close> has been called
  once if the device is gone and every file closed, and else not at all; the interrupt URB is never
  active once the device is gone or the structure freed; and when the first file of a device is
  opened, the URB is idle, so it is never submitted twice.
\<close>

theorem skel_freed_once:
  assumes "skel_reach sz s"
  shows "sk_deleted s = of_bool (sk_gone s = Gone \<and> sk_files s = Map.empty) \<and>
    (sk_urb s \<longrightarrow> sk_deleted s = 0 \<and> sk_gone s \<noteq> Gone) \<and>
    (sk_gone s = Attached \<and> sk_open_count s = 0 \<longrightarrow> \<not> sk_urb s)"
proof -
  have i: "skel_inv sz s" by (rule skel_reach_inv [OF assms])
  have "card (dom (sk_files s)) = 0 \<longleftrightarrow> sk_files s = Map.empty" using i by (simp add: skel_inv_def)
  then show ?thesis using i by (auto simp: skel_inv_def)
qed

definition demo_skel :: usb_skel where
  "demo_skel = skel_release 7 (skel_put (skel_kill (skel_mark (skel_deregister (snd (skel_open True True None 7 (skel_probed 64)))))))"

lemmas skel_step_defs = skel_open_def skel_release_def skel_put_def skel_kill_def skel_mark_def skel_deregister_def skel_probed_def
  kref_put_def skel_delete_def usb_kill_urb_def Let_def

lemma demo_skel_reach: "skel_reach 64 demo_skel"
proof -
  let ?o = "snd (skel_open True True None 7 (skel_probed 64))"
  have "skel_reach 64 ?o"
    by (rule skel_reach.opened [OF skel_reach.probed _ _ prod.collapse [symmetric]]) (simp_all add: skel_probed_def)
  from skel_reach.deregistered [OF this] have "skel_reach 64 (skel_deregister ?o)" by (simp add: skel_step_defs)
  from skel_reach.marked [OF this] have "skel_reach 64 (skel_mark (skel_deregister ?o))" by (simp add: skel_step_defs)
  from skel_reach.killed [OF this] have "skel_reach 64 (skel_kill (skel_mark (skel_deregister ?o)))" by (simp add: skel_step_defs)
  from skel_reach.put [OF this] have "skel_reach 64 (skel_put (skel_kill (skel_mark (skel_deregister ?o))))" by (simp add: skel_step_defs)
  from skel_reach.closed [OF this, of 7] show ?thesis unfolding demo_skel_def by (simp add: skel_step_defs)
qed

theorem skel_freed_once_witness: "sk_deleted demo_skel = 1"
  using skel_freed_once [OF demo_skel_reach] by (simp add: demo_skel_def skel_step_defs)

subsection \<open>From the device's tick to the reader's line\<close>

lemma strnlen_le: "strnlen bs n \<le> n" "strnlen bs n \<le> length bs"
  by (induction bs n rule: strnlen.induct) simp_all

text \<open>The newline is stored inside the buffer, whatever the device sent.\<close>

lemma line_in_buffer:
  assumes "0 < sz" and "actual \<le> sz"
  shows "line_len sz buf actual < sz"
  using strnlen_le(1) [of buf actual] assms by (auto simp: line_len_def Let_def)

lemma strnlen_text: "0 \<notin> set cs \<Longrightarrow> length cs < n \<Longrightarrow> strnlen (cs @ 0 # bs) n = length cs"
proof (induction cs arbitrary: n)
  case Nil
  then show ?case by (cases n) simp_all
next
  case (Cons c cs)
  then show ?case by (cases n) auto
qed

lemma line_of_text:
  assumes "0 \<notin> set cs" and "length cs < n" and "length cs < sz"
  shows "line_of sz (cs @ 0 # bs) n = cs @ [0x0A]"
  using assms by (simp add: line_of_def line_len_def strnlen_text)

text \<open>
  C26: From the device's tick to the reader's line. A reader that has seen all ticks has nothing to
  read. When the device ticks, its report completes the interrupt URB and the reader becomes
  readable; the read then takes the time of that tick from the bulk endpoint and returns it as
  one line, without its NUL and with a newline; after it there is again nothing to read.
\<close>

theorem skel_reads_the_tick:
  assumes "stamp = cs @ [0]" and "length cs = 19" and "0 \<notin> set cs"
    and "sk_files s f = Some (sk_ticks s)" and "\<not> sk_disconnected s" and "sk_bulk_in_size s = 64" and "length buf = 64"
    and "ldd_usb_handle_data now USB_TOKEN_IN 3 [] 8 (ldd_usb_tick now stamp dev) = (st1, report, dev1)"
    and "s1 = skel_tick_complete UrbOk report err s"
    and "ldd_usb_handle_data now USB_TOKEN_IN 1 [] 64 dev1 = (st2, out, dev2)"
    and "\<forall>bs. ctu bs = 0" and "20 \<le> count"
    and "skel_read True True True (Inr (mem_put 0 out buf, length out)) ctu count (sk_ticks s) f s1 s1 = (r, s2)"
  shows "\<not> skel_readable f s \<and> skel_readable f s1 \<and> r = Inr (cs @ [0x0A]) \<and> \<not> skel_readable f s2"
proof -
  have rep: "report = le_bytes 4 (1 :: 32 word) @ le_bytes 4 (us_interval dev)" "us_time dev1 = stamp"
    using assms(8) by (auto simp: ldd_usb_handle_data_def ldd_usb_report_tick_def usb_consts ldd_usb_tick_def ldd_usb_arm_timer_def
        ldd_usb_stamp_time_def Let_def)
  have "le_word (take 4 report) = (1 :: 32 word)" "length report = 8" using rep(1) by (simp_all add: le_word_le_bytes)
  then have s1: "sk_ticks s1 = sk_ticks s + 1" "sk_files s1 = sk_files s" "sk_disconnected s1 = sk_disconnected s"
    "sk_bulk_in_size s1 = sk_bulk_in_size s"
    unfolding assms(9) by (simp_all add: skel_tick_complete_def LDD_USB_TICK_LEN_def skel_resubmit_def Let_def split: option.split)
  have o: "out = cs @ [0]" using assms(1,2,10) rep(2) by (simp add: ldd_usb_handle_data_def usb_consts)
  have l: "line_of 64 (mem_put 0 out buf) (length out) = cs @ [0x0A]"
    using line_of_text [OF assms(3), of 20 64 "drop 20 buf"] assms(2) by (simp add: o mem_put_def)
  have "r = Inr (cs @ [0x0A])" "s2 = s1\<lparr>sk_files := (sk_files s1)(f \<mapsto> sk_ticks s1)\<rparr>"
    using assms(2,5,6,11,12,13) l by (simp_all add: skel_read_def skel_read_wait_def skel_read_body_def s1)
  then show ?thesis using assms(4,5) by (simp add: skel_readable_def s1)
qed

theorem skel_reads_the_tick_witness:
  "\<exists>s1 s2. skel_read True True True (Inr (mem_put 0 (replicate 19 0x31 @ [0]) (replicate 64 9), 20)) (\<lambda>_. 0) 4096 0 7 s1 s1 =
     (Inr (replicate 19 0x31 @ [0x0A]), s2)"
proof -
  let ?s = "snd (skel_open True True None 7 (skel_probed 64))" and ?dev = "ldd_usb_realize 1"
  let ?d = "ldd_usb_tick 0 (replicate 19 0x31 @ [0]) ?dev"
  obtain st1 report dev1 where d: "ldd_usb_handle_data 0 USB_TOKEN_IN 3 [] 8 ?d = (st1, report, dev1)" using prod_cases3 by blast
  obtain st2 out dev2 where e: "ldd_usb_handle_data 0 USB_TOKEN_IN 1 [] 64 dev1 = (st2, out, dev2)" using prod_cases3 by blast
  have "us_time dev1 = replicate 19 0x31 @ [0]"
    using d by (auto simp: ldd_usb_handle_data_def ldd_usb_report_tick_def usb_consts ldd_usb_tick_def ldd_usb_arm_timer_def
        ldd_usb_stamp_time_def Let_def)
  then have o: "out = replicate 19 0x31 @ [0]" using e by (simp add: ldd_usb_handle_data_def usb_consts)
  let ?s1 = "skel_tick_complete UrbOk report None ?s"
  obtain r s2 where x: "skel_read True True True (Inr (mem_put 0 out (replicate 64 9), length out)) (\<lambda>_. 0) 4096 (sk_ticks ?s) 7 ?s1 ?s1 = (r, s2)"
    by fastforce
  have "r = Inr (replicate 19 0x31 @ [0x0A])"
    using skel_reads_the_tick [OF refl _ _ _ _ _ _ d refl e _ _ x] by (simp add: skel_open_def skel_probed_def)
  with x have "skel_read True True True (Inr (mem_put 0 (replicate 19 0x31 @ [0]) (replicate 64 9), 20)) (\<lambda>_. 0) 4096 0 7 ?s1 ?s1 =
     (Inr (replicate 19 0x31 @ [0x0A]), s2)" by (simp add: o skel_open_def skel_probed_def)
  then show ?thesis by blast
qed

subsection \<open>From the writer's number to the device's interval\<close>

text \<open>
  Writing a number sets the device's interval. Whatever fails, a write leaves no buffer and no
  URB behind and sends nothing; if it succeeds, only the buffer of the submitted URB remains, its
  completion frees it, and the bytes sent, received by the device, set the interval to the number,
  limited to 1 to 3600 seconds, drop a tick not yet reported and restart the timer.
\<close>

lemma skel_write_sets_interval:
  "case skel_write kstr F submit count s of
     (Inl e, sent, cs) \<Rightarrow> sent = None \<and> held cs [] = Some []
   | (Inr n, sent, cs) \<Rightarrow> held (cs @ skel_write_complete) [] = Some [] \<and> \<not> sk_disconnected s \<and>
       (\<exists>bytes v. sent = Some bytes \<and> kstr = Inr v \<and>
          ldd_usb_handle_data now USB_TOKEN_OUT 2 bytes room dev =
            (USB_RET_SUCCESS, [], ldd_usb_arm_timer now (dev\<lparr>us_interval := min (max v 1) 3600, us_tick_pending := False\<rparr>)))"
proof (cases kstr)
  case (Inl e)
  then show ?thesis by (simp add: skel_write_def)
next
  case (Inr v)
  have "le_word (le_bytes 4 v) = v" by (simp add: le_word_le_bytes take_bit_word_eq_self)
  then show ?thesis
    using Inr by (auto simp: skel_write_def skel_write_complete_def if_err_def ldd_usb_handle_data_def ldd_usb_set_interval_def
        usb_consts Let_def split: option.split)
qed

text \<open>
  Attaching is all or nothing: whatever cannot be allocated, found or registered, all that was
  acquired is released; after a successful attachment, disconnecting and deleting release the rest.
\<close>

lemma skel_probe_all_or_nothing:
  "fst (skel_probe F) \<noteq> None \<Longrightarrow> held_any (snd (skel_probe F)) [] = Some []"
  "fst (skel_probe F) = None \<Longrightarrow> held_any (snd (skel_probe F) @ skel_disconnect_calls @ delete_calls True True True) [] = Some []"
  by (auto simp: skel_probe_def delete_calls_def skel_disconnect_calls_def if_err_def Let_def split: option.splits if_splits)

text \<open>
  A reader that does not block is told to try again even after the device is gone, as long as it
  has seen all ticks, though \<open>skel_poll\<close> reports a hang-up and a blocking reader gets ENODEV.
\<close>

lemma skel_nonblock_after_disconnect:
  assumes "sk_files s f = Some (sk_ticks s)" and "sk_disconnected s"
  shows "skel_read True woken locked bulk ctu count (sk_ticks s) f s s = (Inl EAGAIN, s)"
    and "EPOLLHUP \<in> skel_poll f s" and "skel_read False True True bulk ctu count (sk_ticks s) f s s = (Inl ENODEV, s)"
  using assms by (simp_all add: skel_read_def skel_read_wait_def skel_read_body_def skel_poll_def)

text \<open>The driver finds the endpoints of the device in its descriptors.\<close>

lemma desc_iface_endpoints:
  "map ep_nr (filter (\<lambda>e. ep_in e \<and> ep_attr e = USB_ENDPOINT_XFER_BULK) desc_iface) = [LDD_USB_EP_TIME]"
  "map ep_nr (filter (\<lambda>e. \<not> ep_in e \<and> ep_attr e = USB_ENDPOINT_XFER_BULK) desc_iface) = [LDD_USB_EP_INTERVAL]"
  "map ep_nr (filter (\<lambda>e. ep_in e \<and> ep_attr e = USB_ENDPOINT_XFER_INT) desc_iface) = [LDD_USB_EP_TICK]"
  by (simp_all add: desc_iface_def)

end
