(* ===== verification/Tty.thy ===== *)
theory Tty
  imports Lifecycle
begin

unbundle bit_operations_syntax

section \<open>31_tty: a tty that prints what is written to it\<close>

text \<open>
  \<open>src/examples/31_tty/main.c\<close>. A device collects the characters written to it and prints a line
  when one ends or is full; a timer makes it receive a character a second while it is open. The
  kernel's port counts the opens, calling \<open>activate\<close> on the first and \<open>shutdown\<close> on the last
  close. Printed lines and received characters are recorded with the device. \<open>%s\<close> prints up to the
  first NUL, so a NUL written by the user cuts its line short, in the specification of the lines
  too. Stores into the buffer go through \<open>mem_put\<close>: one beyond its end makes the list longer, and
  nothing makes it shorter again, so that a buffer of \<open>LDD_TTY_MAX_ROOM\<close> bytes has not been overrun.
\<close>

definition LDD_TTY_MINOR_NR :: nat where "LDD_TTY_MINOR_NR = 4"
definition LDD_LINE_LONG :: nat where "LDD_LINE_LONG = 80"
definition LDD_TTY_MAX_ROOM :: nat where "LDD_TTY_MAX_ROOM = 4096"
definition MCR_DTR :: "32 word" where "MCR_DTR = 0x01"
definition MCR_RTS :: "32 word" where "MCR_RTS = 0x02"
definition MCR_LOOP :: "32 word" where "MCR_LOOP = 0x04"
definition MSR_CTS :: "32 word" where "MSR_CTS = 0x08"
definition MSR_CD :: "32 word" where "MSR_CD = 0x10"
definition MSR_RI :: "32 word" where "MSR_RI = 0x20"
definition MSR_DSR :: "32 word" where "MSR_DSR = 0x40"

lemmas mcr_defs = MCR_DTR_def MCR_RTS_def MCR_LOOP_def MSR_CTS_def MSR_CD_def MSR_RI_def MSR_DSR_def
lemmas tty_sizes = LDD_LINE_LONG_def LDD_TTY_MAX_ROOM_def

record ldd_tty_dev =
  tt_msr :: "32 word"
  tt_mcr :: "32 word"
  tt_curr :: nat
  tt_buffer :: "byte list"
  tt_timer :: bool
  tt_opens :: nat
  tt_printed :: "byte list list"
  tt_received :: "byte list"

subsection \<open>Receiving, opening, closing\<close>

definition ldd_tty_timer_func :: "ldd_tty_dev \<Rightarrow> ldd_tty_dev" where
  "ldd_tty_timer_func d = d\<lparr>tt_received := tt_received d @ [0x7A], tt_timer := True\<rparr>"

definition ldd_tty_flush :: "ldd_tty_dev \<Rightarrow> ldd_tty_dev" where
  "ldd_tty_flush d =
     (if tt_curr d > 0 then
        let d1 = d\<lparr>tt_buffer := mem_put (tt_curr d) [0] (tt_buffer d)\<rparr>
        in d1\<lparr>tt_printed := tt_printed d1 @ [takeWhile (\<lambda>b. b \<noteq> 0) (tt_buffer d1)], tt_curr := 0\<rparr>
      else d)"

definition ldd_port_activate :: "ldd_tty_dev \<Rightarrow> ldd_tty_dev" where
  "ldd_port_activate d = d\<lparr>tt_timer := True\<rparr>"

definition ldd_port_shutdown :: "ldd_tty_dev \<Rightarrow> ldd_tty_dev" where
  "ldd_port_shutdown d = ldd_tty_flush (d\<lparr>tt_timer := False\<rparr>)"

definition ldd_tty_open :: "ldd_tty_dev \<Rightarrow> ldd_tty_dev" where
  "ldd_tty_open d =
     (let d1 = d\<lparr>tt_opens := tt_opens d + 1\<rparr> in if tt_opens d = 0 then ldd_port_activate d1 else d1)"

definition ldd_tty_close :: "ldd_tty_dev \<Rightarrow> ldd_tty_dev" where
  "ldd_tty_close d =
     (let d1 = d\<lparr>tt_opens := tt_opens d - 1\<rparr> in if tt_opens d1 = 0 then ldd_port_shutdown d1 else d1)"

definition ldd_tty_hangup :: "ldd_tty_dev \<Rightarrow> ldd_tty_dev" where
  "ldd_tty_hangup d = ldd_port_shutdown (d\<lparr>tt_opens := 0\<rparr>)"

subsection \<open>Writing\<close>

definition put_char :: "byte \<Rightarrow> ldd_tty_dev \<Rightarrow> ldd_tty_dev" where
  "put_char b d = d\<lparr>tt_buffer := mem_put (tt_curr d) [b] (tt_buffer d), tt_curr := tt_curr d + 1\<rparr>"

definition wrap_line :: "ldd_tty_dev \<Rightarrow> ldd_tty_dev" where
  "wrap_line d = (if tt_curr d \<ge> LDD_LINE_LONG then ldd_tty_flush (put_char 0x5C d) else d)"

function ldd_tty_printk :: "byte list \<Rightarrow> ldd_tty_dev \<Rightarrow> ldd_tty_dev" where
  "ldd_tty_printk [] d = d"
| "ldd_tty_printk (b # bs) d =
     (let d1 = wrap_line d in
      if b = 0x0D then ldd_tty_printk (if bs \<noteq> [] \<and> hd bs = 0x0A then tl bs else bs) (ldd_tty_flush d1)
      else if b = 0x0A then ldd_tty_printk bs (ldd_tty_flush d1)
      else ldd_tty_printk bs (put_char b d1))"
  by pat_completeness auto
termination by (relation "measure (length \<circ> fst)") (auto simp: less_Suc_eq_le)

definition ldd_tty_write :: "byte list \<Rightarrow> ldd_tty_dev \<Rightarrow> nat \<times> ldd_tty_dev" where
  "ldd_tty_write buf d = (length buf, ldd_tty_printk buf d)"

definition ldd_tty_write_room :: "ldd_tty_dev \<Rightarrow> nat" where
  "ldd_tty_write_room d = LDD_TTY_MAX_ROOM - tt_curr d"

subsection \<open>Settings and modem lines\<close>

datatype parity = ParityNone | ParityOdd | ParityEven

text \<open>What \<open>ldd_tty_set_termios\<close> reports, or nothing if it finds nothing to change.\<close>

record line_settings =
  ls_data_bits :: nat
  ls_parity :: parity
  ls_stop_bits :: nat
  ls_rtscts :: bool
  ls_ixoff :: bool
  ls_ixon :: bool

definition CSIZE :: "32 word" where "CSIZE = 0x30"
definition INTEREST_IFLAGS :: "32 word" where "INTEREST_IFLAGS = 0x1F"

definition data_bits :: "32 word \<Rightarrow> nat" where
  "data_bits cflag =
     (if cflag AND CSIZE = 0 then 5 else if cflag AND CSIZE = 0x10 then 6 else if cflag AND CSIZE = 0x20 then 7 else 8)"

definition ldd_tty_set_termios :: "32 word \<Rightarrow> 32 word \<Rightarrow> (32 word \<times> 32 word) option \<Rightarrow> line_settings option" where
  "ldd_tty_set_termios cflag iflag old =
     (if (case old of None \<Rightarrow> False
          | Some (ocflag, oiflag) \<Rightarrow> cflag = ocflag \<and> iflag AND INTEREST_IFLAGS = oiflag AND INTEREST_IFLAGS)
      then None
      else Some \<lparr>ls_data_bits = data_bits cflag,
        ls_parity = (if has_flag cflag 0x100 then if has_flag cflag 0x200 then ParityOdd else ParityEven else ParityNone),
        ls_stop_bits = (if has_flag cflag 0x40 then 2 else 1), ls_rtscts = has_flag cflag 0x80000000,
        ls_ixoff = has_flag iflag 0x1000, ls_ixon = has_flag iflag 0x400\<rparr>)"

definition TIOCM_DTR :: "32 word" where "TIOCM_DTR = 0x002"
definition TIOCM_RTS :: "32 word" where "TIOCM_RTS = 0x004"
definition TIOCM_CTS :: "32 word" where "TIOCM_CTS = 0x020"
definition TIOCM_CAR :: "32 word" where "TIOCM_CAR = 0x040"
definition TIOCM_RI :: "32 word" where "TIOCM_RI = 0x080"
definition TIOCM_DSR :: "32 word" where "TIOCM_DSR = 0x100"
definition TIOCM_LOOP :: "32 word" where "TIOCM_LOOP = 0x8000"

lemmas tiocm_defs = TIOCM_DTR_def TIOCM_RTS_def TIOCM_CTS_def TIOCM_CAR_def TIOCM_RI_def TIOCM_DSR_def TIOCM_LOOP_def

definition ldd_tty_tiocmget :: "ldd_tty_dev \<Rightarrow> 32 word" where
  "ldd_tty_tiocmget d =
     (if has_flag (tt_mcr d) MCR_DTR then TIOCM_DTR else 0) OR (if has_flag (tt_mcr d) MCR_RTS then TIOCM_RTS else 0) OR
     (if has_flag (tt_mcr d) MCR_LOOP then TIOCM_LOOP else 0) OR (if has_flag (tt_msr d) MSR_CTS then TIOCM_CTS else 0) OR
     (if has_flag (tt_msr d) MSR_CD then TIOCM_CAR else 0) OR (if has_flag (tt_msr d) MSR_RI then TIOCM_RI else 0) OR
     (if has_flag (tt_msr d) MSR_DSR then TIOCM_DSR else 0)"

definition ldd_tty_tiocmset :: "32 word \<Rightarrow> 32 word \<Rightarrow> ldd_tty_dev \<Rightarrow> ldd_tty_dev" where
  "ldd_tty_tiocmset setb clear d =
     (let m0 = tt_mcr d;
          m1 = (if has_flag setb TIOCM_RTS then m0 OR MCR_RTS else m0);
          m2 = (if has_flag setb TIOCM_DTR then m1 OR MCR_DTR else m1);
          m3 = (if has_flag clear TIOCM_RTS then m2 AND NOT MCR_RTS else m2);
          m4 = (if has_flag clear TIOCM_DTR then m3 AND NOT MCR_DTR else m3)
      in d\<lparr>tt_mcr := m4\<rparr>)"

definition ldd_tty_proc_show :: "(nat \<Rightarrow> ldd_tty_dev) \<Rightarrow> nat list" where
  "ldd_tty_proc_show table = filter (\<lambda>i. tt_opens (table i) > 0) [0..<LDD_TTY_MINOR_NR]"

subsection \<open>Module\<close>

datatype tty_res = TtyDriver | TtyTable | TtyPort nat | TtyRegistered

definition destroy_ports :: "tty_res call list" where
  "destroy_ports = map (\<lambda>i. Rel (TtyPort i)) [0..<LDD_TTY_MINOR_NR]"

definition tty_m_init :: "tty_res answers \<Rightarrow> errno option \<times> tty_res call list" where
  "tty_m_init F =
     if_err (F TtyDriver) (\<lambda>e. (Some e, []))
     (if_err (F TtyTable) (\<lambda>_. (Some ENOMEM, [Acq TtyDriver, Rel TtyDriver]))
     (let got = [Acq TtyDriver, Acq TtyTable] @ map (\<lambda>i. Acq (TtyPort i)) [0..<LDD_TTY_MINOR_NR]
      in if_err (F TtyRegistered) (\<lambda>e. (Some e, got @ destroy_ports @ [Rel TtyTable, Rel TtyDriver]))
           (None, got @ [Acq TtyRegistered])))"

definition tty_m_exit :: "tty_res call list" where
  "tty_m_exit = [Rel TtyRegistered] @ destroy_ports @ [Rel TtyTable, Rel TtyDriver]"

definition tty_new :: ldd_tty_dev where
  "tty_new = \<lparr>tt_msr = 0, tt_mcr = 0, tt_curr = 0, tt_buffer = replicate LDD_TTY_MAX_ROOM 0, tt_timer = False, tt_opens = 0,
     tt_printed = [], tt_received = []\<rparr>"

subsection \<open>Lines\<close>

text \<open>
  What the device should do: a line grows by the characters written and is printed when a carriage
  return or newline ends it, unless it is empty; a line of 80 characters is printed with a
  backslash before the next character. Of a line that is printed one sees what precedes its first
  NUL, if it has one.
\<close>

definition shown :: "byte list \<Rightarrow> byte list" where
  "shown l = takeWhile (\<lambda>b. b \<noteq> 0) l"

definition end_line :: "byte list \<times> byte list list \<Rightarrow> byte list \<times> byte list list" where
  "end_line s = (case s of (cur, out) \<Rightarrow> if cur = [] then s else ([], out @ [shown cur]))"

definition break_line :: "byte list \<times> byte list list \<Rightarrow> byte list \<times> byte list list" where
  "break_line s = (case s of (cur, out) \<Rightarrow> if length cur \<ge> LDD_LINE_LONG then ([], out @ [shown (cur @ [0x5C])]) else s)"

definition spec_char :: "byte \<Rightarrow> byte list \<times> byte list list \<Rightarrow> byte list \<times> byte list list" where
  "spec_char b s =
     (case break_line s of (cur, out) \<Rightarrow> if b = 0x0D \<or> b = 0x0A then end_line (cur, out) else (cur @ [b], out))"

definition tty_abs :: "ldd_tty_dev \<Rightarrow> byte list \<times> byte list list" where
  "tty_abs d = (take (tt_curr d) (tt_buffer d), tt_printed d)"

definition tty_inv :: "ldd_tty_dev \<Rightarrow> bool" where
  "tty_inv d \<longleftrightarrow> length (tt_buffer d) = LDD_TTY_MAX_ROOM \<and> tt_curr d \<le> LDD_LINE_LONG"

lemma shown_line: "n < length xs \<Longrightarrow> takeWhile (\<lambda>b. b \<noteq> 0) (mem_put n [0 :: byte] xs) = shown (take n xs)"
  by (simp add: mem_put_def shown_def takeWhile_tail)

lemma flush_abs:
  assumes "length (tt_buffer d) = LDD_TTY_MAX_ROOM" and "tt_curr d \<le> LDD_LINE_LONG + 1"
  shows "length (tt_buffer (ldd_tty_flush d)) = LDD_TTY_MAX_ROOM" "tt_curr (ldd_tty_flush d) = 0"
    "tty_abs (ldd_tty_flush d) = end_line (tty_abs d)"
  using assms by (auto simp: ldd_tty_flush_def length_mem_put shown_line tty_abs_def end_line_def Let_def tty_sizes)

lemma put_abs:
  assumes "length (tt_buffer d) = LDD_TTY_MAX_ROOM" and "tt_curr d \<le> LDD_LINE_LONG"
  shows "length (tt_buffer (put_char b d)) = LDD_TTY_MAX_ROOM" "tt_curr (put_char b d) = tt_curr d + 1"
    "tty_abs (put_char b d) = (fst (tty_abs d) @ [b], snd (tty_abs d))"
  using assms by (simp_all add: put_char_def length_mem_put tty_abs_def mem_put_def tty_sizes)

lemma wrap_abs:
  assumes "tty_inv d"
  shows "length (tt_buffer (wrap_line d)) = LDD_TTY_MAX_ROOM" "tt_curr (wrap_line d) < LDD_LINE_LONG"
    "tty_abs (wrap_line d) = break_line (tty_abs d)"
proof -
  have p: "length (tt_buffer d) = LDD_TTY_MAX_ROOM" "tt_curr d \<le> LDD_LINE_LONG" using assms by (simp_all add: tty_inv_def)
  note q = put_abs [OF p, of "0x5C"]
  note fl = flush_abs [of "put_char 0x5C d", unfolded q, OF refl]
  have len: "length (fst (tty_abs d)) = tt_curr d" using p by (simp add: tty_abs_def tty_sizes)
  show "length (tt_buffer (wrap_line d)) = LDD_TTY_MAX_ROOM" "tt_curr (wrap_line d) < LDD_LINE_LONG"
    using p fl(1,2) by (auto simp: wrap_line_def LDD_LINE_LONG_def)
  show "tty_abs (wrap_line d) = break_line (tty_abs d)"
    using fl(3) len p(2) by (cases "tty_abs d") (simp add: wrap_line_def end_line_def break_line_def)
qed

lemma spec_newline_again: "spec_char 0x0A (end_line s) = end_line s"
  by (cases s) (auto simp: spec_char_def break_line_def end_line_def LDD_LINE_LONG_def)

lemma printk_abs:
  "tty_inv d \<Longrightarrow> tty_inv (ldd_tty_printk bs d) \<and> tty_abs (ldd_tty_printk bs d) = fold spec_char bs (tty_abs d)"
proof (induction bs d rule: ldd_tty_printk.induct)
  case (2 b bs d)
  let ?w = "wrap_line d"
  note w = wrap_abs [OF 2(4)]
  have l: "tt_curr ?w \<le> LDD_LINE_LONG" "tt_curr ?w \<le> LDD_LINE_LONG + 1" using w(2) by simp_all
  have fl: "tty_inv (ldd_tty_flush ?w)" "tty_abs (ldd_tty_flush ?w) = end_line (tty_abs ?w)"
    using flush_abs [OF w(1) l(2)] by (simp_all add: tty_inv_def)
  have pu: "tty_inv (put_char b ?w)" "tty_abs (put_char b ?w) = (fst (tty_abs ?w) @ [b], snd (tty_abs ?w))"
    using put_abs [OF w(1) l(1), of b] w(2) by (simp_all add: tty_inv_def)
  have st: "spec_char b (tty_abs d) = (if b = 0x0D \<or> b = 0x0A then end_line (tty_abs ?w) else (fst (tty_abs ?w) @ [b], snd (tty_abs ?w)))"
    by (simp add: spec_char_def w(3) split: prod.split)
  have skip: "fold spec_char (if bs \<noteq> [] \<and> hd bs = 0x0A then tl bs else bs) (end_line s) = fold spec_char bs (end_line s)" for s
    by (cases bs) (simp_all add: spec_newline_again)
  consider (cr) "b = 0x0D" | (nl) "b \<noteq> 0x0D" "b = 0x0A" | (other) "b \<noteq> 0x0D" "b \<noteq> 0x0A" by blast
  then show ?case
  proof cases
    case cr then show ?thesis using 2(1) [OF refl cr fl(1)] st fl(2) skip by simp
  next
    case nl then show ?thesis using 2(2) [OF refl nl fl(1)] st fl(2) by simp
  next
    case other then show ?thesis using 2(3) [OF refl other pu(1)] st pu(2) by simp
  qed
qed simp

subsection \<open>Properties\<close>

definition tty_writes :: "byte list list \<Rightarrow> ldd_tty_dev \<Rightarrow> ldd_tty_dev" where
  "tty_writes chunks d = fold (\<lambda>buf d. snd (ldd_tty_write buf d)) chunks d"

lemma tty_writes_abs:
  "tty_inv d \<Longrightarrow> tty_abs (tty_writes chunks d) = fold spec_char (concat chunks) (tty_abs d) \<and> tty_inv (tty_writes chunks d)"
  by (induction chunks arbitrary: d) (simp_all add: tty_writes_def ldd_tty_write_def printk_abs)

text \<open>
  C27: What is printed depends on the text alone, not on how it is cut into writes. Writing any
  bytes in any chunks, even with a carriage return and its newline in two of them, prints
  the lines of the specification, in which a line is ended by either or both, and a longer line is
  broken after 80 characters; the line begun is in the buffer, and no store, whatever is written,
  NULs included, falls beyond the buffer's end.
\<close>

theorem tty_prints_lines:
  assumes "tty_inv d"
  shows "tty_abs (tty_writes chunks d) = fold spec_char (concat chunks) (tty_abs d) \<and> tty_inv (tty_writes chunks d)"
  using tty_writes_abs [OF assms] .

lemma tty_new_inv: "tty_inv tty_new" "tty_abs tty_new = ([], [])"
  by (simp_all add: tty_new_def tty_inv_def tty_abs_def)

theorem tty_prints_lines_witness:
  "tty_inv tty_new \<and> tty_abs (tty_writes [[0x61, 0x0D], [0x0A, 0x62, 0, 0x65, 0x0A, 0x63]] tty_new) = ([0x63], [[0x61], [0x62]])"
  using tty_prints_lines [OF tty_new_inv(1), of "[[0x61, 0x0D], [0x0A, 0x62, 0, 0x65, 0x0A, 0x63]]"] tty_new_inv(1)
  by (simp add: tty_new_inv(2) spec_char_def break_line_def end_line_def shown_def LDD_LINE_LONG_def)

text \<open>
  No character of a text without NULs is lost or made up: apart from line ends and continuation
  marks, the lines and the buffer are the text.
\<close>

fun unmark :: "byte list \<Rightarrow> byte list" where
  "unmark l = (if length l > LDD_LINE_LONG then butlast l else l)"

definition text_of :: "byte list \<times> byte list list \<Rightarrow> byte list" where
  "text_of s = concat (map unmark (snd s)) @ fst s"

lemma shown_all: "0 \<notin> set l \<Longrightarrow> shown l = l"
  by (auto simp: shown_def takeWhile_eq_all_conv)

lemma spec_char_text:
  assumes "length (fst s) \<le> LDD_LINE_LONG" and "0 \<notin> set (b # fst s)"
  shows "text_of (spec_char b s) = text_of s @ (if b = 0x0D \<or> b = 0x0A then [] else [b])"
    "length (fst (spec_char b s)) \<le> LDD_LINE_LONG" "0 \<notin> set (fst (spec_char b s))"
  using assms by (cases s; auto simp: spec_char_def break_line_def end_line_def shown_all text_of_def LDD_LINE_LONG_def)+

lemma tty_text_kept:
  "length (fst s) \<le> LDD_LINE_LONG \<Longrightarrow> 0 \<notin> set (bs @ fst s) \<Longrightarrow>
   text_of (fold spec_char bs s) = text_of s @ filter (\<lambda>b. b \<noteq> 0x0D \<and> b \<noteq> 0x0A) bs"
  by (induction bs arbitrary: s) (simp_all add: spec_char_text)

text \<open>While the timer runs the device is open, and it runs while the device is open; closing prints what is left.\<close>

lemma tty_timer_open:
  assumes "tt_timer d = (tt_opens d > 0)"
  shows "tt_timer (ldd_tty_open d) = (tt_opens (ldd_tty_open d) > 0)"
    "0 < tt_opens d \<Longrightarrow> tt_timer (ldd_tty_close d) = (tt_opens (ldd_tty_close d) > 0)"
    "tt_timer (ldd_tty_hangup d) = (tt_opens (ldd_tty_hangup d) > 0)"
    "tt_timer d \<Longrightarrow> tt_timer (ldd_tty_timer_func d) = (tt_opens (ldd_tty_timer_func d) > 0)"
  using assms by (simp_all add: ldd_tty_open_def ldd_tty_close_def ldd_tty_hangup_def ldd_port_activate_def ldd_port_shutdown_def
      ldd_tty_flush_def ldd_tty_timer_func_def Let_def)

text \<open>Setting the modem lines is seen by reading them; clearing wins over setting, and the other lines keep their state.\<close>

lemma tiocmget_bits:
  "bit (ldd_tty_tiocmget d) 1 = bit (tt_mcr d) 0" "bit (ldd_tty_tiocmget d) 2 = bit (tt_mcr d) 1"
  by (simp_all add: ldd_tty_tiocmget_def tiocm_defs mcr_defs flag_simps bit_simps)

lemma tiocm_roundtrip:
  "bit (ldd_tty_tiocmget (ldd_tty_tiocmset setb clear d)) 2 = (\<not> bit clear 2 \<and> (bit setb 2 \<or> bit (ldd_tty_tiocmget d) 2))"
  "bit (ldd_tty_tiocmget (ldd_tty_tiocmset setb clear d)) 1 = (\<not> bit clear 1 \<and> (bit setb 1 \<or> bit (ldd_tty_tiocmget d) 1))"
  unfolding tiocmget_bits by (auto simp: ldd_tty_tiocmset_def tiocm_defs mcr_defs flag_simps bit_simps Let_def)

text \<open>The flow-control flags are reported but not among those compared: switching them alone goes unnoticed.\<close>

lemma tty_flow_control_unnoticed: "ldd_tty_set_termios cflag (iflag OR 0x1400) (Some (cflag, iflag)) = None"
proof -
  have "(iflag OR 0x1400) AND 0x1F = iflag AND (0x1F :: 32 word)" by (simp add: bit.conj_disj_distrib2)
  then show ?thesis by (simp add: ldd_tty_set_termios_def INTEREST_IFLAGS_def)
qed

lemma tty_module_all_or_nothing:
  "fst (tty_m_init F) \<noteq> None \<Longrightarrow> held_any (snd (tty_m_init F)) [] = Some []"
  "fst (tty_m_init F) = None \<Longrightarrow> held_any (snd (tty_m_init F) @ tty_m_exit) [] = Some []"
  by (simp_all add: tty_m_init_def tty_m_exit_def destroy_ports_def LDD_TTY_MINOR_NR_def upt_conv_Cons if_err_def Let_def
      split: option.splits)

end
