(* ===== verification/Short.thy ===== *)
theory Short
  imports LDD_IO Lifecycle
begin

unbundle bit_operations_syntax

section \<open>15 to 19: the drivers of ldd-io\<close>

text \<open>
  \<open>src/examples/15_short_ioport\<close>, \<open>16_short_port_remap\<close> and \<open>17_short_mmio\<close> have the same two
  devices, polled bytes with LEDs and the LED matrix, over port instructions, a port cookie and
  mapped memory; \<open>18_short_irq\<close> and \<open>19_short_irq_probe\<close> receive by interrupt. The accesses are
  those of a bus, \<open>io_bus\<close>: reads and writes of a given width at an offset. What the polling
  drivers rely on is stated as two locales, the matrix as memory and the receive register as the
  head of a stream, and both are interpreted on the device of theory \<open>LDD_IO\<close>.
\<close>

definition SHORT_MAX_WRITE :: nat where "SHORT_MAX_WRITE = 256"
definition SHORT_NR_MINORS :: nat where "SHORT_NR_MINORS = 2"

record 's io_bus =
  io_rd :: "'s \<Rightarrow> 64 word \<Rightarrow> nat \<Rightarrow> 64 word"
  io_wr :: "'s \<Rightarrow> 64 word \<Rightarrow> nat \<Rightarrow> 64 word \<Rightarrow> 's"

definition ioread8 :: "'s io_bus \<Rightarrow> 's \<Rightarrow> 64 word \<Rightarrow> byte" where
  "ioread8 M s a = ucast (io_rd M s a 1)"

definition iowrite8 :: "'s io_bus \<Rightarrow> 's \<Rightarrow> 64 word \<Rightarrow> byte \<Rightarrow> 's" where
  "iowrite8 M s a b = io_wr M s a 1 (ucast b)"

subsection \<open>Polled bytes\<close>

text \<open>
  The host may deliver the next byte as soon as one is acknowledged, or later: \<open>feed\<close> is what it
  does after an acknowledgement.
\<close>

fun data_take :: "'s io_bus \<Rightarrow> ('s \<Rightarrow> 's) \<Rightarrow> nat \<Rightarrow> 's \<Rightarrow> byte list \<times> 's" where
  "data_take M feed 0 s = ([], s)"
| "data_take M feed (Suc n) s =
     (if has_flag (ioread8 M s LDD_IO_STATUS) LDD_IO_STATUS_RX_READY then
        let b = ioread8 M s LDD_IO_DATA;
            s1 = iowrite8 M s LDD_IO_STATUS LDD_IO_STATUS_RX_READY
        in case data_take M feed n (feed s1) of (bs, s2) \<Rightarrow> (b # bs, s2)
      else ([], s))"

text \<open>
  Each turn of the loop takes the mutex or not, tries, and waits for a slice of time, in which \<open>w\<close>
  happens to the device; a signal may be pending after it. When the list of turns is used up the
  reader is still waiting: \<open>None\<close>.
\<close>

fun data_read_loop ::
  "'s io_bus \<Rightarrow> ('s \<Rightarrow> 's) \<Rightarrow> bool \<Rightarrow> nat \<Rightarrow> (bool \<times> ('s \<Rightarrow> 's) \<times> bool) list \<Rightarrow> 's \<Rightarrow> (byte list result \<times> 's) option" where
  "data_read_loop M feed nonblock count [] s = None"
| "data_read_loop M feed nonblock count ((locked, w, signal) # ts) s =
     (if \<not> locked then Some (Inl ERESTARTSYS, s)
      else case data_take M feed count s of (bs, s1) \<Rightarrow>
        if bs \<noteq> [] then Some (Inr bs, s1)
        else if nonblock then Some (Inl EAGAIN, s1)
        else let s2 = w s1 in if signal then Some (Inl ERESTARTSYS, s2) else data_read_loop M feed nonblock count ts s2)"

definition data_read ::
  "'s io_bus \<Rightarrow> ('s \<Rightarrow> 's) \<Rightarrow> bool \<Rightarrow> (bool \<times> ('s \<Rightarrow> 's) \<times> bool) list \<Rightarrow> to_user \<Rightarrow> nat \<Rightarrow> 's \<Rightarrow> (byte list result \<times> 's) option" where
  "data_read M feed nonblock ts ctu count s =
     (if count = 0 then Some (Inr [], s)
      else map_option (\<lambda>(r, s1). case r of
             Inl e \<Rightarrow> (Inl e, s1)
           | Inr bs \<Rightarrow> if ctu bs \<noteq> 0 then (Inl EFAULT, s1) else (Inr bs, s1))
         (data_read_loop M feed nonblock (min count 64) ts s))"

text \<open>\<open>dup\<close> is the answer of \<open>memdup_user\<close>: an error or the bytes.\<close>

definition data_write :: "'s io_bus \<Rightarrow> bool \<Rightarrow> (nat \<Rightarrow> byte list result) \<Rightarrow> nat \<Rightarrow> 's \<Rightarrow> nat result \<times> 's" where
  "data_write M intr dup count0 s =
     (let count = min count0 SHORT_MAX_WRITE in
      case dup count of
        Inl e \<Rightarrow> (Inl e, s)
      | Inr kbuf \<Rightarrow> if intr then (Inl ERESTARTSYS, s)
          else (Inr count, fold (\<lambda>b s. iowrite8 M s LDD_IO_DATA b) kbuf s))"

subsection \<open>The matrix\<close>

text \<open>
  Accesses as pairs of offset and width. The mapped driver writes a whole picture with the accesses
  \<open>full\<close>, chosen by its parameter \<open>width\<close>, and reads it with one 64-bit access; a part is written and
  read byte by byte.
\<close>

definition rows_put :: "'s io_bus \<Rightarrow> (nat \<times> nat) list \<Rightarrow> byte list \<Rightarrow> 's \<Rightarrow> 's" where
  "rows_put M acc rows s =
     fold (\<lambda>(i, w) s. io_wr M s (LDD_IO_MATRIX + of_nat i) w (le_word (mem_get i w rows))) acc s"

text \<open>\<open>toio\<close> are the accesses of \<open>memcpy_toio\<close>, which are up to the architecture.\<close>

definition matrix_put_accesses :: "int \<Rightarrow> (nat \<times> nat) list \<Rightarrow> (nat \<times> nat) list" where
  "matrix_put_accesses width toio =
     (if width = 8 then [(0, 8)]
      else if width = 4 then map (\<lambda>i. (4 * i, 4)) [0..<LDD_IO_MATRIX_ROWS div 4]
      else if width = 2 then map (\<lambda>i. (2 * i, 2)) [0..<LDD_IO_MATRIX_ROWS div 2]
      else if width = 1 then map (\<lambda>i. (i, 1)) [0..<LDD_IO_MATRIX_ROWS]
      else toio)"

definition width_set :: "int result \<Rightarrow> int \<Rightarrow> errno option \<times> int" where
  "width_set kstr width =
     (case kstr of
        Inl e \<Rightarrow> (Some e, width)
      | Inr w \<Rightarrow> if w \<notin> {0, 1, 2, 4, 8} then (Some EINVAL, width) else (None, w))"

definition matrix_write ::
  "'s io_bus \<Rightarrow> (nat \<times> nat) list \<Rightarrow> bool \<Rightarrow> from_user \<Rightarrow> 's \<Rightarrow> int \<Rightarrow> nat \<Rightarrow> nat result \<times> 's \<times> int" where
  "matrix_write M full intr cfu s pos count0 =
     (if pos < 0 then (Inl EINVAL, s, pos)
      else if pos \<ge> int LDD_IO_MATRIX_ROWS then (Inl ENOSPC, s, pos)
      else let p = nat pos; count = min count0 (LDD_IO_MATRIX_ROWS - p); (left, rows) = cfu count in
        if left \<noteq> 0 then (Inl EFAULT, s, pos)
        else if intr then (Inl ERESTARTSYS, s, pos)
        else let s1 = (if p = 0 \<and> count = LDD_IO_MATRIX_ROWS then rows_put M full rows s
               else fold (\<lambda>i s. iowrite8 M s (LDD_IO_MATRIX + of_nat (p + i)) (rows ! i)) [0..<count] s)
        in (Inr count, s1, pos + int count))"

definition matrix_read ::
  "'s io_bus \<Rightarrow> bool \<Rightarrow> to_user \<Rightarrow> 's \<Rightarrow> int \<Rightarrow> nat \<Rightarrow> byte list result \<times> int" where
  "matrix_read M intr ctu s pos count0 =
     (if pos < 0 then (Inl EINVAL, pos)
      else if pos \<ge> int LDD_IO_MATRIX_ROWS then (Inr [], pos)
      else let p = nat pos; count = min count0 (LDD_IO_MATRIX_ROWS - p) in
        if intr then (Inl ERESTARTSYS, pos)
        else let rows = (if p = 0 \<and> count = LDD_IO_MATRIX_ROWS then le_bytes 8 (io_rd M s LDD_IO_MATRIX 8)
               else map (\<lambda>i. ioread8 M s (LDD_IO_MATRIX + of_nat (p + i))) [0..<count])
        in if ctu rows \<noteq> 0 then (Inl EFAULT, pos) else (Inr rows, pos + int count))"

datatype short_minor = SHORT_DATA | SHORT_MATRIX

definition short_open :: "nat \<Rightarrow> errno + short_minor" where
  "short_open minor =
     (if minor \<ge> SHORT_NR_MINORS then Inl (ErrOther 6) else if minor = 0 then Inr SHORT_DATA else Inr SHORT_MATRIX)"

subsection \<open>Modules\<close>

datatype short_res = ShRegion | ShMap | ShIrqFound | ShIrq | ShDevno | ShCdev

definition serr_release :: "short_res call list" where [life_defs]: "serr_release = [Rel ShRegion]"
definition serr_unmap :: "short_res call list" where [life_defs]: "serr_unmap = Rel ShMap # serr_release"

definition ioport_m_init :: "short_res answers \<Rightarrow> errno option \<times> short_res call list" where
  "ioport_m_init F =
     if_err (F ShRegion) (\<lambda>_. (Some EBUSY, []))
     (if_err (F ShDevno) (\<lambda>e. (Some e, [Acq ShRegion] @ serr_release))
     (if_err (F ShCdev) (\<lambda>e. (Some e, [Acq ShRegion, Acq ShDevno] @ [Rel ShDevno] @ serr_release))
        (None, [Acq ShRegion, Acq ShDevno, Acq ShCdev])))"

definition ioport_m_exit :: "short_res call list" where
  "ioport_m_exit = [Rel ShCdev, Rel ShDevno] @ serr_release"

definition mmio_m_init :: "short_res answers \<Rightarrow> errno option \<times> short_res call list" where
  "mmio_m_init F =
     if_err (F ShRegion) (\<lambda>_. (Some EBUSY, []))
     (if_err (F ShMap) (\<lambda>_. (Some ENOMEM, [Acq ShRegion] @ serr_release))
     (if_err (F ShDevno) (\<lambda>e. (Some e, [Acq ShRegion, Acq ShMap] @ serr_unmap))
     (if_err (F ShCdev) (\<lambda>e. (Some e, [Acq ShRegion, Acq ShMap, Acq ShDevno] @ [Rel ShDevno] @ serr_unmap))
        (None, [Acq ShRegion, Acq ShMap, Acq ShDevno, Acq ShCdev]))))"

definition mmio_m_exit :: "short_res call list" where
  "mmio_m_exit = [Rel ShCdev, Rel ShDevno] @ serr_unmap"

subsection \<open>What the polling drivers rely on\<close>

lemma ucast_byte [simp]: "ucast (ucast b :: 64 word) = (b :: byte)"
  by (rule bit_word_eqI) (simp add: bit_simps)

definition access_ok :: "nat \<times> nat \<Rightarrow> bool" where
  "access_ok a \<longleftrightarrow> (case a of (i, w) \<Rightarrow> w \<in> {1, 2, 4, 8} \<and> i + w \<le> 8 \<and> i mod w = 0)"

text \<open>Accesses that cover the rows from \<open>i\<close> to the end, in order and without a gap.\<close>

fun tiles :: "nat \<Rightarrow> (nat \<times> nat) list \<Rightarrow> bool" where
  "tiles i [] \<longleftrightarrow> i = 8"
| "tiles i ((j, w) # acc) \<longleftrightarrow> j = i \<and> access_ok (j, w) \<and> tiles (i + w) acc"

locale led_matrix =
  fixes M :: "'s io_bus"
    and ok :: "'s \<Rightarrow> bool"
    and matrix :: "'s \<Rightarrow> byte list"
    and rest :: "'s \<Rightarrow> 'r"
  assumes size8: "ok s \<Longrightarrow> length (matrix s) = 8"
    and write_rows: "ok s \<Longrightarrow> access_ok (i, w) \<Longrightarrow>
      ok (io_wr M s (LDD_IO_MATRIX + of_nat i) w v) \<and>
      matrix (io_wr M s (LDD_IO_MATRIX + of_nat i) w v) = mem_put i (le_bytes w v) (matrix s) \<and>
      rest (io_wr M s (LDD_IO_MATRIX + of_nat i) w v) = rest s"
    and read_rows: "ok s \<Longrightarrow> access_ok (i, w) \<Longrightarrow>
      io_rd M s (LDD_IO_MATRIX + of_nat i) w = le_word (mem_get i w (matrix s))"
begin

lemma put_tiles:
  "ok s \<Longrightarrow> length rows = 8 \<Longrightarrow> tiles i acc \<Longrightarrow> take i (matrix s) = take i rows \<Longrightarrow>
   ok (rows_put M acc rows s) \<and> matrix (rows_put M acc rows s) = rows \<and> rest (rows_put M acc rows s) = rest s"
proof (induction acc arbitrary: i s)
  case Nil
  then show ?case using size8 [OF Nil(1)] by (simp add: rows_put_def)
next
  case (Cons a acc)
  obtain j w where a: "a = (j, w)" by fastforce
  have t: "j = i" "access_ok (i, w)" "tiles (i + w) acc" using Cons.prems(3) by (auto simp: a)
  let ?v = "le_word (mem_get i w rows) :: 64 word"
  let ?s = "io_wr M s (LDD_IO_MATRIX + of_nat i) w ?v"
  have w: "i + w \<le> 8" "8 * w \<le> 64" using t(2) by (auto simp: access_ok_def)
  have len: "length (mem_get i w rows) = w" "i \<le> length rows" using Cons.prems(2) w(1) by simp_all
  have lb: "le_bytes w ?v = mem_get i w rows"
    using le_bytes_le_word [of "mem_get i w rows", where 'a = 64] w(2) len(1) by simp
  have s: "ok ?s" "matrix ?s = mem_put i (mem_get i w rows) (matrix s)" "rest ?s = rest s"
    using write_rows [OF Cons.prems(1) t(2)] lb by simp_all
  have "take (i + w) (matrix ?s) = take i rows @ mem_get i w rows"
    using Cons.prems(4) len w(1) size8 [OF Cons.prems(1)] by (simp add: s(2) mem_put_def)
  also have "\<dots> = take (i + w) rows" by (simp add: mem_get_def take_add)
  finally show ?case using Cons.IH [OF s(1) Cons.prems(2) t(3)] by (simp add: rows_put_def a t(1) s(3))
qed

lemma byte_writes:
  "ok s \<Longrightarrow> p + n \<le> 8 \<Longrightarrow> n \<le> length rows \<Longrightarrow>
   ok (fold (\<lambda>i s. iowrite8 M s (LDD_IO_MATRIX + of_nat (p + i)) (rows ! i)) [0..<n] s) \<and>
   matrix (fold (\<lambda>i s. iowrite8 M s (LDD_IO_MATRIX + of_nat (p + i)) (rows ! i)) [0..<n] s) = mem_put p (take n rows) (matrix s) \<and>
   rest (fold (\<lambda>i s. iowrite8 M s (LDD_IO_MATRIX + of_nat (p + i)) (rows ! i)) [0..<n] s) = rest s"
proof (induction n)
  case (Suc n)
  let ?f = "fold (\<lambda>i s. iowrite8 M s (LDD_IO_MATRIX + of_nat (p + i)) (rows ! i)) [0..<n] s"
  have ih: "ok ?f" "matrix ?f = mem_put p (take n rows) (matrix s)" "rest ?f = rest s" using Suc by simp_all
  have a: "access_ok (p + n, 1)" using Suc.prems(2) by (simp add: access_ok_def)
  have "le_bytes 1 (ucast (rows ! n) :: 64 word) = [rows ! n]" by (simp add: le_bytes_def)
  then have w: "ok (iowrite8 M ?f (LDD_IO_MATRIX + of_nat (p + n)) (rows ! n))"
    "matrix (iowrite8 M ?f (LDD_IO_MATRIX + of_nat (p + n)) (rows ! n)) = mem_put (p + n) [rows ! n] (mem_put p (take n rows) (matrix s))"
    "rest (iowrite8 M ?f (LDD_IO_MATRIX + of_nat (p + n)) (rows ! n)) = rest s"
    unfolding ih(2,3) [symmetric] using write_rows [OF ih(1) a, of "ucast (rows ! n)"] by (simp_all only: iowrite8_def)
  have "mem_put (p + n) [rows ! n] (mem_put p (take n rows) (matrix s)) = mem_put p (take (Suc n) rows) (matrix s)"
    using mem_put_append_adjacent [of p "take n rows" "[rows ! n]" "matrix s"] Suc.prems size8 [OF Suc.prems(1)]
    by (simp add: take_Suc_conv_app_nth)
  then show ?case using w by simp
qed simp

lemma byte_read: "ok s \<Longrightarrow> i < 8 \<Longrightarrow> ioread8 M s (LDD_IO_MATRIX + of_nat i) = matrix s ! i"
proof -
  assume s: "ok s" and i: "i < 8"
  have "mem_get i 1 (matrix s) = [matrix s ! i]" using i size8 [OF s] by (simp add: mem_get_Suc)
  then have "io_rd M s (LDD_IO_MATRIX + of_nat i) 1 = ucast (matrix s ! i)"
    using read_rows [OF s, of i 1] i by (simp add: access_ok_def)
  then show ?thesis by (simp add: ioread8_def)
qed

lemma matrix_write_spec:
  assumes "ok s" and "tiles 0 full" and "0 \<le> pos" and "pos < 8" and "n \<le> length src"
    and "n = min count0 (8 - nat pos)" and "cfu n = (0, take n src)"
  shows "\<exists>s1. matrix_write M full False cfu s pos count0 = (Inr n, s1, pos + int n) \<and> ok s1 \<and>
    matrix s1 = mem_put (nat pos) (take n src) (matrix s) \<and> rest s1 = rest s"
proof -
  have p: "nat pos < 8" "nat pos + n \<le> 8" using assms(3,4,6) by auto
  have len: "length (take n src) = n" using assms(5) by simp
  show ?thesis
  proof (cases "nat pos = 0 \<and> n = 8")
    case True
    then show ?thesis
      using put_tiles [OF assms(1) _ assms(2), of "take n src"] assms len size8 [OF assms(1)]
      by (auto simp: matrix_write_def LDD_IO_MATRIX_ROWS_def Let_def mem_put_def)
  next
    case False
    then show ?thesis
      using byte_writes [OF assms(1) p(2), of "take n src"] assms len
      by (auto simp: matrix_write_def LDD_IO_MATRIX_ROWS_def Let_def)
  qed
qed

text \<open>Which accesses write the picture does not matter to what is returned and to what is then in the device.\<close>

lemma matrix_write_same:
  assumes "ok s" and "tiles 0 f" and "tiles 0 g" and "from_user_ok cfu"
    and "matrix_write M f intr cfu s pos count = (r1, s1, p1)" and "matrix_write M g intr cfu s pos count = (r2, s2, p2)"
  shows "r1 = r2 \<and> p1 = p2 \<and> matrix s1 = matrix s2 \<and> rest s1 = rest s2 \<and> ok s1 \<and> ok s2"
proof (cases "pos < 0 \<or> 8 \<le> pos \<or> fst (cfu (min count (8 - nat pos))) \<noteq> 0 \<or> intr")
  case True
  then show ?thesis using assms(1,5,6) by (auto simp: matrix_write_def LDD_IO_MATRIX_ROWS_def Let_def split: prod.splits if_splits)
next
  case False
  define n where "n = min count (8 - nat pos)"
  define src where "src = snd (cfu n)"
  have c: "cfu n = (0, take n src)" "n \<le> length src"
    using False assms(4) by (auto simp: n_def src_def prod_eq_iff)
  have "0 \<le> pos" "pos < 8" "\<not> intr" using False by auto
  note spec = matrix_write_spec [where cfu = cfu and src = src, OF assms(1) _ this(1,2) c(2) n_def c(1)]
  show ?thesis using spec [OF assms(2)] spec [OF assms(3)] assms(5,6) \<open>\<not> intr\<close> by auto
qed

lemma byte_reads:
  assumes "ok s" and "p + n \<le> 8"
  shows "map (\<lambda>i. ioread8 M s (LDD_IO_MATRIX + of_nat (p + i))) [0..<n] = mem_get p n (matrix s)"
  using assms(2) size8 [OF assms(1)] byte_read [OF assms(1)] by (intro nth_equalityI) (simp_all add: nth_mem_get del: of_nat_add)

lemma quad_read: "ok s \<Longrightarrow> le_bytes 8 (io_rd M s LDD_IO_MATRIX 8) = mem_get 0 8 (matrix s)"
  using read_rows [of s 0 8] le_bytes_le_word [of "mem_get 0 8 (matrix s)", where 'a = 64] size8 [of s] by (simp add: access_ok_def)

lemma matrix_read_spec:
  assumes "ok s" and "0 \<le> pos" and "pos < 8" and "n = min count0 (8 - nat pos)" and "\<forall>bs. ctu bs = 0"
  shows "matrix_read M False ctu s pos count0 = (Inr (mem_get (nat pos) n (matrix s)), pos + int n)"
proof -
  have "nat pos + n \<le> 8" using assms(2,3,4) by auto
  then show ?thesis
    using byte_reads [OF assms(1), of "nat pos" n] quad_read [OF assms(1)] assms
    by (auto simp: matrix_read_def LDD_IO_MATRIX_ROWS_def Let_def simp del: map_eq_conv)
qed

end

text \<open>
  The receive register as the head of a stream of bytes: ready means that the stream has a head,
  which DATA shows and an acknowledgement drops. What happens in between, \<open>feed\<close>, keeps the
  stream.
\<close>

abbreviation status_ready :: "'s io_bus \<Rightarrow> 's \<Rightarrow> bool" where
  "status_ready M s \<equiv> has_flag (ioread8 M s LDD_IO_STATUS) LDD_IO_STATUS_RX_READY"

locale rx_stream =
  fixes M :: "'s io_bus"
    and feed :: "'s \<Rightarrow> 's"
    and ok :: "'s \<Rightarrow> bool"
    and stream :: "'s \<Rightarrow> byte list"
  assumes ready: "ok s \<Longrightarrow> status_ready M s \<Longrightarrow> stream s \<noteq> [] \<and> ioread8 M s LDD_IO_DATA = hd (stream s)"
    and ack: "ok s \<Longrightarrow> status_ready M s \<Longrightarrow>
      ok (iowrite8 M s LDD_IO_STATUS LDD_IO_STATUS_RX_READY) \<and>
      stream (iowrite8 M s LDD_IO_STATUS LDD_IO_STATUS_RX_READY) = tl (stream s)"
    and feed_keeps: "ok s \<Longrightarrow> ok (feed s) \<and> stream (feed s) = stream s"
begin

lemma take_keeps:
  "ok s \<Longrightarrow> data_take M feed n s = (bs, s') \<Longrightarrow> ok s' \<and> bs @ stream s' = stream s \<and> length bs \<le> n"
proof (induction n arbitrary: s bs s')
  case (Suc n)
  show ?case
  proof (cases "status_ready M s")
    case True
    let ?s = "feed (iowrite8 M s LDD_IO_STATUS LDD_IO_STATUS_RX_READY)"
    obtain bs2 where t: "data_take M feed n ?s = (bs2, s')" "bs = ioread8 M s LDD_IO_DATA # bs2"
      using Suc.prems(2) True by (auto simp: Let_def split: prod.splits)
    have "ok ?s" "stream ?s = tl (stream s)" using ack [OF Suc.prems(1) True] feed_keeps by simp_all
    then show ?thesis using Suc.IH [OF _ t(1)] ready [OF Suc.prems(1) True] t(2) by (cases "stream s") auto
  qed (use Suc.prems in auto)
qed simp

lemma read_loop_keeps:
  assumes "ok s" and "\<forall>(locked, w, signal) \<in> set ts. \<forall>s. ok s \<longrightarrow> ok (w s) \<and> stream (w s) = stream s"
    and "data_read_loop M feed nonblock n ts s = Some (r, s')"
  shows "ok s' \<and> (case r of Inl e \<Rightarrow> stream s' = stream s
    | Inr bs \<Rightarrow> bs \<noteq> [] \<and> bs @ stream s' = stream s \<and> length bs \<le> n)"
  using assms
proof (induction ts arbitrary: s)
  case (Cons t ts)
  obtain locked w signal where t: "t = (locked, w, signal)" by (cases t)
  obtain bs s1 where d: "data_take M feed n s = (bs, s1)" by fastforce
  have k: "ok s1" "bs @ stream s1 = stream s" "length bs \<le> n" using take_keeps [OF Cons.prems(1) d] by auto
  have w: "ok (w s1)" "stream (w s1) = stream s1" using Cons.prems(2) k(1) by (auto simp: t)
  show ?case
  proof (cases "\<not> locked \<or> bs \<noteq> [] \<or> nonblock \<or> signal")
    case True
    then show ?thesis using Cons.prems k w by (auto simp: t d Let_def split: if_splits)
  next
    case False
    then have "data_read_loop M feed nonblock n ts (w s1) = Some (r, s')" "stream (w s1) = stream s"
      using Cons.prems(3) k(2) w(2) by (simp_all add: t d)
    then show ?thesis using Cons.IH [OF w(1)] Cons.prems(2) by (cases r) simp_all
  qed
qed simp

end

text \<open>A keyboard that delivers the next byte as soon as it may.\<close>

locale rx_prompt = rx_stream +
  assumes prompt: "ok s \<Longrightarrow> stream (feed s) \<noteq> [] \<Longrightarrow> status_ready M (feed s)"
begin

lemma take_all:
  "ok s \<Longrightarrow> status_ready M s \<or> stream s = [] \<Longrightarrow> fst (data_take M feed n s) = take n (stream s)"
proof (induction n arbitrary: s)
  case (Suc n)
  show ?case
  proof (cases "status_ready M s")
    case True
    let ?s = "iowrite8 M s LDD_IO_STATUS LDD_IO_STATUS_RX_READY"
    have s: "ok ?s" "stream ?s = tl (stream s)" using ack [OF Suc.prems(1) True] by simp_all
    then have f: "ok (feed ?s)" "stream (feed ?s) = tl (stream s)" using feed_keeps by simp_all
    have "fst (data_take M feed n (feed ?s)) = take n (tl (stream s))"
      using Suc.IH [OF f(1)] prompt [OF s(1)] f(2) by auto
    then show ?thesis
      using ready [OF Suc.prems(1) True] True by (cases "stream s") (simp_all add: Let_def case_prod_unfold)
  qed (use Suc.prems in simp)
qed simp

lemma read_loop_returns:
  assumes "ok s" and "stream s \<noteq> []" and "0 < n"
  shows "\<exists>s'. data_read_loop M feed False n ((True, feed, False) # (True, w, sg) # ts) s = Some (Inr (take n (stream s)), s')"
proof (cases "status_ready M s")
  case True
  obtain bs s1 where d: "data_take M feed n s = (bs, s1)" by fastforce
  have "bs = take n (stream s)" using take_all [OF assms(1), of n] True d by simp
  then show ?thesis using assms(2,3) d by simp
next
  case False
  then have d: "data_take M feed n s = ([], s)" using assms(3) by (cases n) simp_all
  obtain bs s1 where d2: "data_take M feed n (feed s) = (bs, s1)" by fastforce
  have f: "ok (feed s)" "stream (feed s) = stream s" using feed_keeps [OF assms(1)] by simp_all
  have "bs = take n (stream s)" using take_all [OF f(1), of n] prompt [OF assms(1)] f(2) assms(2) d2 by simp
  then show ?thesis using assms(2,3) d d2 by simp
qed

end

subsection \<open>ldd-io provides both\<close>

text \<open>
  The bus to the device of theory \<open>LDD_IO\<close>. An access the device does not take would leave it
  alone and read as zero; the theorem \<open>io_dispatched_access_is_safe\<close> there excludes it.
\<close>

definition ldd_io_bus :: "'c chr_ops \<Rightarrow> 'c ldd_io io_bus" where
  "ldd_io_bus E = \<lparr>
     io_rd = (\<lambda>s a w. case ldd_io_read s a (of_nat w) of Some v \<Rightarrow> v | None \<Rightarrow> 0),
     io_wr = (\<lambda>s a w v. case ldd_io_write E s a v (of_nat w) of Some s' \<Rightarrow> s' | None \<Rightarrow> s)\<rparr>"

text \<open>The same with the bytes typed and not yet taken by the device, and the keyboard's delivery.\<close>

definition keyboard_bus :: "'c chr_ops \<Rightarrow> ('c ldd_io \<times> byte list) io_bus" where
  "keyboard_bus E = \<lparr>
     io_rd = (\<lambda>(s, q). io_rd (ldd_io_bus E) s),
     io_wr = (\<lambda>(s, q) a w v. (io_wr (ldd_io_bus E) s a w v, q))\<rparr>"

definition keyboard_feed :: "'c chr_ops \<Rightarrow> 'c ldd_io \<times> byte list \<Rightarrow> 'c ldd_io \<times> byte list" where
  "keyboard_feed E sq = (case sq of
       (s, []) \<Rightarrow> (s, [])
     | (s, b # q) \<Rightarrow> if ldd_io_keyboard_can_receive s = 1
         then case ldd_io_keyboard_receive E s [b] of Some s' \<Rightarrow> (s', q) | None \<Rightarrow> (s, b # q)
         else (s, b # q))"

definition typed :: "'c ldd_io \<times> byte list \<Rightarrow> byte list" where
  "typed sq = (if rx_ready (fst sq) then [io_data_in (fst sq)] else []) @ snd sq"

definition polled_ok :: "'c ldd_io \<times> byte list \<Rightarrow> bool" where
  "polled_ok sq \<longleftrightarrow> io_wf (fst sq) \<and> \<not> loopback (fst sq)"

lemma access_dispatched:
  assumes "access_ok (i, w)"
  shows "io_dispatched (LDD_IO_MATRIX + of_nat i) (of_nat w)" "LDD_IO_MATRIX \<le> LDD_IO_MATRIX + (of_nat i :: 64 word)"
    "unat (LDD_IO_MATRIX + (of_nat i :: 64 word) - LDD_IO_MATRIX) = i" "unat (of_nat w :: 32 word) = w"
proof -
  have "w \<in> {1, 2, 4, 8}" "i \<in> {0, 1, 2, 3, 4, 5, 6, 7}" "i mod w = 0" "i + w \<le> 8"
    using assms by (auto simp: access_ok_def)
  then show "io_dispatched (LDD_IO_MATRIX + of_nat i) (of_nat w)" "LDD_IO_MATRIX \<le> LDD_IO_MATRIX + (of_nat i :: 64 word)"
    "unat (LDD_IO_MATRIX + (of_nat i :: 64 word) - LDD_IO_MATRIX) = i" "unat (of_nat w :: 32 word) = w"
    by (auto simp: io_dispatched_def ldd_io_accepts_def io_consts)
qed

lemma io_wf_matrix: "io_wf s \<Longrightarrow> length m = 8 \<Longrightarrow> io_wf (ldd_io_draw_panel E (s\<lparr>io_matrix := m\<rparr>))"
  by (simp add: io_wf_def io_view_drawn LDD_IO_MATRIX_ROWS_def)

abbreviation io_rest :: "'c ldd_io \<Rightarrow> io_vmstate \<times> (32 word \<times> bool \<times> 64 word \<times> 32 word) \<times> nat" where
  "io_rest s \<equiv> io_view (s\<lparr>io_matrix := []\<rparr>)"

lemma io_rest_drawn: "io_rest (ldd_io_draw_panel E (s\<lparr>io_matrix := m\<rparr>)) = io_rest s"
  using io_view_drawn [of E "s\<lparr>io_matrix := m\<rparr>"] by (simp add: io_view_def vmstate_save_def pulses_sent_def)

lemma io_view_eqI: "io_matrix s = io_matrix t \<Longrightarrow> io_rest s = io_rest t \<Longrightarrow> io_view s = io_view t"
  by (simp add: io_view_def vmstate_save_def pulses_sent_def)

interpretation io_matrix: led_matrix "ldd_io_bus E" io_wf io_matrix io_rest for E
proof (unfold_locales, goal_cases)
  case (1 s)
  then show ?case by (simp add: io_wf_def LDD_IO_MATRIX_ROWS_def)
next
  case (2 s i w v)
  have "length (io_matrix s) = 8" "i + w \<le> 8" using 2 by (auto simp: io_wf_def LDD_IO_MATRIX_ROWS_def access_ok_def)
  then have "length (mem_put i (le_bytes w v) (io_matrix s)) = 8" using length_mem_put [of i "le_bytes w v" "io_matrix s"] by simp
  then show ?case
    using ldd_io_write_matrix [OF 2(1) access_dispatched(1,2) [OF 2(2)], of E v] access_dispatched(3,4) [OF 2(2)]
      io_wf_matrix [OF 2(1), of "mem_put i (le_bytes w v) (io_matrix s)" E]
    by (simp add: ldd_io_bus_def io_view_drawn io_rest_drawn)
next
  case (3 s i w)
  have "length (io_matrix s) = LDD_IO_MATRIX_ROWS" using 3 by (simp add: io_wf_def)
  then show ?case
    using ldd_io_read_matrix [OF _ access_dispatched(1,2) [OF 3(2)], of s] access_dispatched(3,4) [OF 3(2)]
    by (simp add: ldd_io_bus_def)
qed

lemma register_below_matrix: "\<not> LDD_IO_MATRIX \<le> LDD_IO_STATUS" "\<not> LDD_IO_MATRIX \<le> LDD_IO_DATA"
  "\<not> LDD_IO_MATRIX \<le> LDD_IO_CTRL" "LDD_IO_STATUS \<noteq> LDD_IO_DATA" "LDD_IO_CTRL \<noteq> LDD_IO_DATA" "LDD_IO_CTRL \<noteq> LDD_IO_STATUS"
  by (simp_all add: io_consts word_le_nat_alt)

lemma bus_registers:
  "ioread8 (keyboard_bus E) sq LDD_IO_STATUS = io_status (fst sq)"
  "ioread8 (keyboard_bus E) sq LDD_IO_DATA = io_data_in (fst sq)"
  "iowrite8 (keyboard_bus E) sq LDD_IO_STATUS b = (ldd_io_draw_panel E (io_write_status (fst sq) b), snd sq)"
  by (simp_all add: ioread8_def iowrite8_def keyboard_bus_def ldd_io_bus_def ldd_io_read_def ldd_io_write_def register_below_matrix case_prod_unfold)

lemma ack_flags: "has_flag (1 :: byte) 1" "\<not> has_flag (1 :: byte) (- 2)"
  by (simp_all add: has_flag_def)

lemma io_ack:
  fixes E :: "'c chr_ops"
  assumes "io_wf s" and "rx_ready s"
  defines "t \<equiv> ldd_io_draw_panel E (io_write_status s LDD_IO_STATUS_RX_READY)"
  shows "io_wf t" "\<not> rx_ready t" "io_ctrl t = io_ctrl s"
proof -
  have s: "io_write_status s LDD_IO_STATUS_RX_READY = io_emit AcceptInput (s\<lparr>io_status := io_status s AND - 2\<rparr>)"
    using assms(2) ack_flags by (simp add: io_write_status_def Let_def LDD_IO_STATUS_RX_READY_def)
  show "io_wf t" using io_ok_change_draw [OF io_write_status_ok [OF assms(1)]] by (simp add: t_def io_ok_change_def)
  show "\<not> rx_ready t" unfolding t_def io_view_drawn s by (simp add: LDD_IO_STATUS_RX_READY_def byte_flag_facts)
  show "io_ctrl t = io_ctrl s" unfolding t_def io_view_drawn s by simp
qed

lemma io_receive:
  fixes E :: "'c chr_ops" and b :: byte
  assumes "io_wf s" and "\<not> rx_ready s"
  defines "t \<equiv> ldd_io_draw_panel E (ldd_io_receive_byte s b)"
  shows "io_wf t" "rx_ready t" "io_data_in t = b" "io_ctrl t = io_ctrl s"
  using io_ok_change_draw [OF receive_byte_ok [OF assms(1,2)], of E b]
  by (simp_all add: t_def io_view_drawn ldd_io_receive_byte_def ldd_io_pulse_def Let_def io_change_defs byte_flag_facts)

interpretation io_rx: rx_prompt "keyboard_bus E" "keyboard_feed E" polled_ok typed for E
proof (unfold_locales, goal_cases)
  case (1 s)
  then show ?case by (simp add: bus_registers typed_def)
next
  case (2 s)
  then show ?case using io_ack [of "fst s" E] by (simp add: bus_registers typed_def polled_ok_def)
next
  case (3 s)
  then show ?case using io_receive [of "fst s" E]
    by (cases s; cases "snd s")
      (auto simp: keyboard_feed_def ldd_io_keyboard_can_receive_def ldd_io_keyboard_receive_def polled_ok_def typed_def)
next
  case (4 s)
  then show ?case using io_receive [of "fst s" E]
    by (cases s; cases "snd s")
      (auto simp: bus_registers keyboard_feed_def ldd_io_keyboard_can_receive_def ldd_io_keyboard_receive_def polled_ok_def typed_def split: if_splits)
qed

lemma put_accesses_tile:
  "tiles 0 [(0, 4), (4, 4)]"
  "width \<in> {1, 2, 4, 8} \<or> tiles 0 toio \<Longrightarrow> tiles 0 (matrix_put_accesses width toio)"
  by (auto simp: matrix_put_accesses_def access_ok_def upt_rec LDD_IO_MATRIX_ROWS_def)

lemma short_modules_clean: "clean ioport_m_init ioport_m_exit" "clean mmio_m_init mmio_m_exit"
  by (simp_all add: clean_def ioport_m_init_def ioport_m_exit_def mmio_m_init_def mmio_m_exit_def life_defs if_err_def split: option.split)

text \<open>The parameter only takes the values the matrix code knows.\<close>

lemma width_set_known:
  assumes "w \<in> {0, 1, 2, 4, 8}"
  shows "snd (width_set kstr w) \<in> {0, 1, 2, 4, 8}"
  using assms by (auto simp: width_set_def split: sum.split)

subsection \<open>Properties\<close>

text \<open>
  Driver and device together: whichever way a picture is written, by 8, 4, 2 or 1 byte
  accesses, by \<open>memcpy_toio\<close> or, as a part, byte by byte, the rows from the file position on are
  the bytes written and the others stay, the position advances by the number of rows, and reading
  them back, at once or byte by byte, gives the bytes written.
\<close>

lemma short_matrix_write_read:
  assumes "io_wf s" and "0 \<le> pos" and "pos < 8" and "width \<in> {1, 2, 4, 8} \<or> tiles 0 toio"
    and "length data = min count (8 - nat pos)" and "cfu (length data) = (0, data)" and "\<forall>bs. ctu bs = 0"
  shows "\<exists>s'. matrix_write (ldd_io_bus E) (matrix_put_accesses width toio) False cfu s pos count
        = (Inr (length data), s', pos + int (length data)) \<and>
      io_wf s' \<and> io_matrix s' = mem_put (nat pos) data (io_matrix s) \<and>
      matrix_read (ldd_io_bus E) False ctu s' pos count = (Inr data, pos + int (length data))"
proof -
  have len: "length (io_matrix s) = 8" using assms(1) by (simp add: io_wf_def LDD_IO_MATRIX_ROWS_def)
  obtain s' where w: "matrix_write (ldd_io_bus E) (matrix_put_accesses width toio) False cfu s pos count
        = (Inr (length data), s', pos + int (length data))" "io_wf s'" "io_matrix s' = mem_put (nat pos) data (io_matrix s)"
    using io_matrix.matrix_write_spec [OF assms(1) put_accesses_tile(2) [OF assms(4)] assms(2,3) _ assms(5), of data cfu E] assms(6)
    by auto
  have "mem_get (nat pos) (length data) (io_matrix s') = data"
    unfolding w(3) by (rule mem_get_mem_put) (use assms(2,3,5) len in auto)
  then show ?thesis
    using io_matrix.matrix_read_spec [OF w(2) assms(2,3,5,7), of E] w by auto
qed

definition demo_typed :: "unit ldd_io \<times> byte list" where
  "demo_typed = (ldd_io_properties (), [0x41, 0x42, 0x43])"

lemma demo_typed_ok: "polled_ok demo_typed" "typed demo_typed = [0x41, 0x42, 0x43]"
  by (simp_all add: demo_typed_def polled_ok_def typed_def ldd_io_properties_def io_wf_def io_consts has_flag_def)

lemma short_matrix_write_read_witness:
  "\<exists>s'. matrix_write (ldd_io_bus demo_chr) (matrix_put_accesses 2 []) False (\<lambda>n. (0, [1, 2, 3, 4, 5, 6, 7, 8])) demo_io 0 20 = (Inr 8, s', 8) \<and>
     matrix_read (ldd_io_bus demo_chr) False (\<lambda>_. 0) s' 0 20 = (Inr [1, 2, 3, 4, 5, 6, 7, 8], 8)"
  using short_matrix_write_read [OF demo_io_wf, of 0 2 "[]" "[1, 2, 3, 4, 5, 6, 7, 8]" 20 "\<lambda>n. (0, [1, 2, 3, 4, 5, 6, 7, 8])" "\<lambda>_. 0" demo_chr]
  by auto



text \<open>A blocking reader returns as soon as the device has had a moment to deliver.\<close>

lemma short_read_returns:
  assumes "polled_ok sq" and "typed sq \<noteq> []" and "0 < count" and "\<forall>bs. ctu bs = 0"
  shows "\<exists>sq'. data_read (keyboard_bus E) (keyboard_feed E) False ((True, keyboard_feed E, False) # (True, w, sg) # ts) ctu count sq
    = Some (Inr (take (min count 64) (typed sq)), sq')"
  using io_rx.read_loop_returns [OF assms(1,2), of "min count 64" E w sg ts] assms(3,4) by (auto simp: data_read_def)

end
