(* ===== verification/Short_Irq.thy ===== *)
theory Short_Irq
  imports Short
begin

unbundle bit_operations_syntax

section \<open>18_short_irq and 19_short_irq_probe: receiving by interrupt\<close>

text \<open>
  \<open>src/examples/18_short_irq\<close> and \<open>src/examples/19_short_irq_probe\<close>: the handler takes the byte of
  ldd-io and acknowledges it; the second driver finds the interrupt line by making the device
  interrupt. The handler is modelled register access by register access, because bytes are sent to
  the device, and typed, while it runs; the device is the one of theory \<open>LDD_IO\<close>.
\<close>

subsection \<open>The handler\<close>

record 'c short_dev =
  sd_io :: "'c ldd_io"
  sd_irqs :: "32 word"
  sd_last :: byte

definition inb :: "'c chr_ops \<Rightarrow> 'c short_dev \<Rightarrow> 64 word \<Rightarrow> byte" where
  "inb E d a = ioread8 (ldd_io_bus E) (sd_io d) a"

definition outb :: "'c chr_ops \<Rightarrow> byte \<Rightarrow> 64 word \<Rightarrow> 'c short_dev \<Rightarrow> 'c short_dev" where
  "outb E b a d = d\<lparr>sd_io := iowrite8 (ldd_io_bus E) (sd_io d) a b\<rparr>"

definition handler_data :: "'c chr_ops \<Rightarrow> 'c short_dev \<Rightarrow> 'c short_dev" where
  "handler_data E d = d\<lparr>sd_last := inb E d LDD_IO_DATA\<rparr>"

definition handler_ack :: "'c chr_ops \<Rightarrow> 'c short_dev \<Rightarrow> 'c short_dev" where
  "handler_ack E d = outb E LDD_IO_STATUS_RX_READY LDD_IO_STATUS d"

definition handler_count :: "'c short_dev \<Rightarrow> 'c short_dev" where
  "handler_count d = d\<lparr>sd_irqs := sd_irqs d + 1\<rparr>"

definition short_interrupt :: "'c chr_ops \<Rightarrow> 'c short_dev \<Rightarrow> irqreturn \<times> 'c short_dev" where
  "short_interrupt E d =
     (if \<not> has_flag (inb E d LDD_IO_STATUS) LDD_IO_STATUS_RX_READY then (IRQ_NONE, d)
      else (IRQ_HANDLED, handler_count (handler_ack E (handler_data E d))))"

subsection \<open>The file\<close>

definition short_line :: "'c short_dev \<Rightarrow> string" where
  "short_line d = take 39 (''irqs '' @ int_string (sint (sd_irqs d)) @ '', last '' @ hex2 (sd_last d) @ [CHR 0x0A])"

definition simple_read_from_buffer :: "(string \<Rightarrow> nat) \<Rightarrow> nat \<Rightarrow> int \<Rightarrow> string \<Rightarrow> string result \<times> int" where
  "simple_read_from_buffer ctu count pos line =
     (if pos < 0 then (Inl EINVAL, pos)
      else if pos \<ge> int (length line) \<or> count = 0 then (Inr [], pos)
      else let n = min count (length line - nat pos); part = take n (drop (nat pos) line); left = ctu part in
        if left = n then (Inl EFAULT, pos) else (Inr (take (n - left) part), pos + int (n - left)))"

definition short_read :: "(string \<Rightarrow> nat) \<Rightarrow> nat \<Rightarrow> int \<Rightarrow> 'c short_dev \<Rightarrow> string result \<times> int" where
  "short_read ctu count pos d = simple_read_from_buffer ctu count pos (short_line d)"

definition short_write :: "'c chr_ops \<Rightarrow> (nat \<Rightarrow> byte list result) \<Rightarrow> nat \<Rightarrow> 'c short_dev \<Rightarrow> nat result \<times> 'c short_dev" where
  "short_write E dup count0 d =
     (let count = min count0 SHORT_MAX_WRITE in
      case dup count of
        Inl e \<Rightarrow> (Inl e, d)
      | Inr kbuf \<Rightarrow> (Inr count, fold (\<lambda>b. outb E b LDD_IO_DATA) kbuf d))"

subsection \<open>Probing the line\<close>

text \<open>
  The keyboard may deliver whenever the device lets it, so the loop that drops left-over bytes runs
  once for each byte typed: \<open>fuel\<close> bounds it. In the sleep of \<open>probe_irq_on\<close> and after the device
  is quiet the keyboard may deliver too, as \<open>typing\<close> says for each try. \<open>probe_off\<close> is \<open>probe_irq_off\<close> as a function of the try and of the pulses the
  device gave while the lines were watched.
\<close>

fun drop_left :: "'c chr_ops \<Rightarrow> nat \<Rightarrow> 'c ldd_io \<times> byte list \<Rightarrow> ('c ldd_io \<times> byte list) option" where
  "drop_left E 0 sq = None"
| "drop_left E (Suc fuel) sq =
     (if status_ready (keyboard_bus E) sq
      then drop_left E fuel (keyboard_feed E (iowrite8 (keyboard_bus E) sq LDD_IO_STATUS LDD_IO_STATUS_RX_READY))
      else Some sq)"

definition probe_pulse :: "'c chr_ops \<Rightarrow> 'c ldd_io \<times> byte list \<Rightarrow> 'c ldd_io \<times> byte list" where
  "probe_pulse E sq =
     iowrite8 (keyboard_bus E) (iowrite8 (keyboard_bus E) sq LDD_IO_CTRL (LDD_IO_CTRL_IRQ_EN OR LDD_IO_CTRL_LOOPBACK)) LDD_IO_DATA 0"

definition probe_quiet :: "'c chr_ops \<Rightarrow> 'c ldd_io \<times> byte list \<Rightarrow> 'c ldd_io \<times> byte list" where
  "probe_quiet E sq =
     iowrite8 (keyboard_bus E) (iowrite8 (keyboard_bus E) sq LDD_IO_CTRL 0) LDD_IO_STATUS LDD_IO_STATUS_RX_READY"

fun probe_tries ::
  "'c chr_ops \<Rightarrow> nat \<Rightarrow> (nat \<Rightarrow> bool \<times> bool) \<Rightarrow> (nat \<Rightarrow> nat \<Rightarrow> int) \<Rightarrow> nat \<Rightarrow> nat \<Rightarrow> 'c ldd_io \<times> byte list \<Rightarrow> (int result \<times> 'c ldd_io \<times> byte list) option" where
  "probe_tries E fuel typing probe_off try 0 sq = Some (Inl ENODEV, sq)"
| "probe_tries E fuel typing probe_off try (Suc k) sq =
     Option.bind (drop_left E fuel sq) (\<lambda>sq1.
       let sq2 = (if fst (typing try) then keyboard_feed E sq1 else sq1);
           sq3 = probe_pulse E sq2;
           found = probe_off try (pulses_sent (fst sq3) - pulses_sent (fst sq2));
           sq4 = (if snd (typing try) then keyboard_feed E (probe_quiet E sq3) else probe_quiet E sq3)
       in if found > 0 then Some (Inr found, sq4) else probe_tries E fuel typing probe_off (try + 1) k sq4)"

definition short_probe_irq ::
  "'c chr_ops \<Rightarrow> nat \<Rightarrow> (nat \<Rightarrow> bool \<times> bool) \<Rightarrow> (nat \<Rightarrow> nat \<Rightarrow> int) \<Rightarrow> 'c ldd_io \<times> byte list \<Rightarrow> (int result \<times> 'c ldd_io \<times> byte list) option" where
  "short_probe_irq E fuel typing probe_off sq = probe_tries E fuel typing probe_off 0 5 sq"

subsection \<open>The modules\<close>

text \<open>\<open>SiEnabled\<close> stands for the interrupt enabled in the device, by the last write of \<open>m_init\<close>.\<close>

datatype short_irq_res = SiRegion | SiFound | SiIrq | SiDevno | SiCdev | SiEnabled

definition si_release :: "short_irq_res call list" where [life_defs]: "si_release = [Rel SiRegion]"
definition si_free_irq :: "short_irq_res call list" where [life_defs]: "si_free_irq = Rel SiIrq # si_release"
definition si_unregister :: "short_irq_res call list" where [life_defs]: "si_unregister = Rel SiDevno # si_free_irq"

definition irq_m_init :: "short_irq_res answers \<Rightarrow> errno option \<times> short_irq_res call list" where
  "irq_m_init F =
     if_err (F SiRegion) (\<lambda>_. (Some EBUSY, []))
     (if_err (F SiIrq) (\<lambda>e. (Some e, [Acq SiRegion] @ si_release))
     (if_err (F SiDevno) (\<lambda>e. (Some e, [Acq SiRegion, Acq SiIrq] @ si_free_irq))
     (if_err (F SiCdev) (\<lambda>e. (Some e, [Acq SiRegion, Acq SiIrq, Acq SiDevno] @ si_unregister))
        (None, [Acq SiRegion, Acq SiIrq, Acq SiDevno, Acq SiCdev, Acq SiEnabled]))))"

definition irq_probe_m_init :: "int result \<Rightarrow> short_irq_res answers \<Rightarrow> errno option \<times> short_irq_res call list" where
  "irq_probe_m_init probed F =
     if_err (F SiRegion) (\<lambda>_. (Some EBUSY, []))
     (case probed of
        Inl e \<Rightarrow> (Some e, [Acq SiRegion] @ si_release)
      | Inr irq \<Rightarrow>
     (if_err (F SiIrq) (\<lambda>e. (Some e, [Acq SiRegion] @ si_release))
     (if_err (F SiDevno) (\<lambda>e. (Some e, [Acq SiRegion, Acq SiIrq] @ si_free_irq))
     (if_err (F SiCdev) (\<lambda>e. (Some e, [Acq SiRegion, Acq SiIrq, Acq SiDevno] @ si_unregister))
        (None, [Acq SiRegion, Acq SiIrq, Acq SiDevno, Acq SiCdev, Acq SiEnabled])))))"

definition irq_m_exit :: "short_irq_res call list" where
  "irq_m_exit = [Rel SiEnabled, Rel SiIrq, Rel SiCdev, Rel SiDevno, Rel SiRegion]"

text \<open>Failure leaves nothing, unloading releases all, and the device may interrupt only with a handler.\<close>

definition irq_clean :: "(short_irq_res answers \<Rightarrow> errno option \<times> short_irq_res call list) \<Rightarrow> bool" where
  "irq_clean init \<longleftrightarrow> (\<forall>F.
     (fst (init F) \<noteq> None \<longrightarrow> held (snd (init F)) [] = Some []) \<and>
     (fst (init F) = None \<longrightarrow> held_any (snd (init F) @ irq_m_exit) [] = Some []) \<and>
     (\<forall>n st. held_any (take n (snd (init F) @ irq_m_exit)) [] = Some st \<longrightarrow> SiEnabled \<in> set st \<longrightarrow> SiIrq \<in> set st))"

lemma irq_modules_clean: "irq_clean irq_m_init" "irq_clean (irq_probe_m_init probed)"
  by (auto simp: irq_clean_def irq_m_init_def irq_probe_m_init_def irq_m_exit_def life_defs if_err_def take_Cons
      split: option.splits sum.splits nat.splits)

subsection \<open>Interrupts, handler and writers interleaved\<close>

text \<open>
  The interrupt controller remembers a pulse until the handler is entered. \<open>is_in\<close> are the bytes
  the device accepted since interrupts were enabled, \<open>is_out\<close> those the handler has finished,
  \<open>is_none\<close> counts the calls answered with \<open>IRQ_NONE\<close>.
\<close>

datatype handler_pc = PIdle | PStatus | PData | PAck | PCount

record 'c irq_sys =
  is_dev :: "'c short_dev"
  is_pend :: bool
  is_pc :: handler_pc
  is_in :: "byte list"
  is_out :: "byte list"
  is_none :: nat

definition latched :: "'c irq_sys \<Rightarrow> 'c short_dev \<Rightarrow> 'c irq_sys" where
  "latched s d =
     (let p = pulses_sent (sd_io (is_dev s)) < pulses_sent (sd_io d)
      in s\<lparr>is_dev := d, is_pend := is_pend s \<or> p, is_in := is_in s @ (if p then [io_data_in (sd_io d)] else [])\<rparr>)"

inductive irq_step :: "'c chr_ops \<Rightarrow> 'c irq_sys \<Rightarrow> 'c irq_sys \<Rightarrow> bool" for E where
  irq_send: "irq_step E s (latched s (outb E b LDD_IO_DATA (is_dev s)))"
| irq_type: "ldd_io_keyboard_can_receive (sd_io (is_dev s)) = 1 \<Longrightarrow>
    ldd_io_keyboard_receive E (sd_io (is_dev s)) [b] = Some io \<Longrightarrow>
    irq_step E s (latched s ((is_dev s)\<lparr>sd_io := io\<rparr>))"
| irq_panel: "irq_step E s (latched s ((is_dev s)\<lparr>sd_io := ldd_io_panel_writable E (sd_io (is_dev s))\<rparr>))"
| irq_enter: "is_pend s \<Longrightarrow> is_pc s = PIdle \<Longrightarrow> irq_step E s (s\<lparr>is_pend := False, is_pc := PStatus\<rparr>)"
| irq_status: "is_pc s = PStatus \<Longrightarrow> has_flag (inb E (is_dev s) LDD_IO_STATUS) LDD_IO_STATUS_RX_READY \<Longrightarrow>
    irq_step E s (s\<lparr>is_pc := PData\<rparr>)"
| irq_none: "is_pc s = PStatus \<Longrightarrow> \<not> has_flag (inb E (is_dev s) LDD_IO_STATUS) LDD_IO_STATUS_RX_READY \<Longrightarrow>
    irq_step E s (s\<lparr>is_pc := PIdle, is_none := is_none s + 1\<rparr>)"
| irq_data: "is_pc s = PData \<Longrightarrow> irq_step E s (s\<lparr>is_dev := handler_data E (is_dev s), is_pc := PAck\<rparr>)"
| irq_ack: "is_pc s = PAck \<Longrightarrow> irq_step E s ((latched s (handler_ack E (is_dev s)))\<lparr>is_pc := PCount\<rparr>)"
| irq_count: "is_pc s = PCount \<Longrightarrow>
    irq_step E s (s\<lparr>is_dev := handler_count (is_dev s), is_pc := PIdle, is_out := is_out s @ [sd_last (is_dev s)]\<rparr>)"

text \<open>The system as the last write of \<open>m_init\<close> leaves it; a byte may have been waiting.\<close>

definition irq_start :: "'c chr_ops \<Rightarrow> 'c ldd_io \<Rightarrow> 'c irq_sys" where
  "irq_start E io =
     (let d = \<lparr>sd_io = io, sd_irqs = 0, sd_last = 0\<rparr>
      in latched \<lparr>is_dev = d, is_pend = False, is_pc = PIdle, is_in = [], is_out = [], is_none = 0\<rparr>
           (outb E (LDD_IO_CTRL_IRQ_EN OR LDD_IO_CTRL_LOOPBACK) LDD_IO_CTRL d))"

definition in_handler :: "'c irq_sys \<Rightarrow> bool" where
  "in_handler s \<longleftrightarrow> is_pc s \<in> {PStatus, PData, PAck}"

definition irq_inv :: "'c irq_sys \<Rightarrow> bool" where
  "irq_inv s \<longleftrightarrow> (let io = sd_io (is_dev s) in
     io_wf io \<and> irq_en io \<and>
     (rx_ready io \<longleftrightarrow> is_pend s \<or> in_handler s) \<and> \<not> (is_pend s \<and> in_handler s) \<and> is_none s = 0 \<and>
     is_in s = is_out s @ (if is_pc s = PCount then [sd_last (is_dev s)] else []) @ (if rx_ready io then [io_data_in io] else []) \<and>
     (is_pc s = PAck \<longrightarrow> sd_last (is_dev s) = io_data_in io) \<and>
     (is_pc s \<noteq> PAck \<and> is_pc s \<noteq> PCount \<and> is_out s \<noteq> [] \<longrightarrow> sd_last (is_dev s) = last (is_out s)) \<and>
     sd_irqs (is_dev s) = of_nat (length (is_out s)))"

lemma short_dev_registers:
  "inb E d LDD_IO_STATUS = io_status (sd_io d)"
  "inb E d LDD_IO_DATA = io_data_in (sd_io d)"
  "outb E b LDD_IO_DATA d = d\<lparr>sd_io := ldd_io_draw_panel E (io_write_data (sd_io d) b)\<rparr>"
  "outb E b LDD_IO_STATUS d = d\<lparr>sd_io := ldd_io_draw_panel E (io_write_status (sd_io d) b)\<rparr>"
  "outb E b LDD_IO_CTRL d = d\<lparr>sd_io := ldd_io_draw_panel E (io_write_ctrl (sd_io d) b)\<rparr>"
  by (simp_all add: inb_def outb_def ioread8_def iowrite8_def ldd_io_bus_def ldd_io_read_def ldd_io_write_def register_below_matrix)

text \<open>A change of the device that keeps interrupts enabled and the byte not yet acknowledged.\<close>

lemma latched_inv:
  assumes "irq_inv s" and "io_ok_change (sd_io (is_dev s)) io" and "irq_en io"
    and "rx_ready (sd_io (is_dev s)) \<longrightarrow> rx_ready io"
  shows "irq_inv (latched s ((is_dev s)\<lparr>sd_io := io\<rparr>))"
proof -
  let ?io = "sd_io (is_dev s)"
  have en: "irq_en ?io" and wf: "io_wf io" using assms(1,2) by (auto simp: irq_inv_def Let_def io_ok_change_def)
  have p: "pulses_sent ?io < pulses_sent io \<longleftrightarrow> rx_ready io \<and> \<not> rx_ready ?io"
    using assms(2,3) en by (auto simp: io_ok_change_def io_edge_def io_irq_level_def)
  have d: "rx_ready ?io \<longrightarrow> io_data_in io = io_data_in ?io" using assms(2) by (simp add: io_ok_change_def)
  show ?thesis
  proof (cases "rx_ready io \<and> \<not> rx_ready ?io")
    case True
    then show ?thesis using assms(1,3) wf p by (simp add: latched_def irq_inv_def in_handler_def Let_def)
  next
    case False
    then have "rx_ready io = rx_ready ?io" using assms(4) by auto
    then show ?thesis using assms(1,3) wf p d False by (simp add: latched_def irq_inv_def in_handler_def Let_def)
  qed
qed

lemma write_data_keeps: "io_ctrl (io_write_data s b) = io_ctrl s" "rx_ready s \<Longrightarrow> rx_ready (io_write_data s b)"
  by (simp_all add: io_write_data_def ldd_io_receive_byte_def ldd_io_pulse_def Let_def)

lemma ack_inv:
  assumes "irq_inv s" and "is_pc s = PAck"
  shows "irq_inv ((latched s (handler_ack E (is_dev s)))\<lparr>is_pc := PCount\<rparr>)"
proof -
  let ?io = "sd_io (is_dev s)"
  let ?t = "ldd_io_draw_panel E (io_write_status ?io LDD_IO_STATUS_RX_READY)"
  have s: "io_wf ?io" "rx_ready ?io" using assms by (auto simp: irq_inv_def Let_def in_handler_def)
  have t: "io_wf ?t" "\<not> rx_ready ?t" "io_ctrl ?t = io_ctrl ?io" using io_ack [OF s, of E] by auto
  have "pulses_sent ?t = pulses_sent ?io"
    using io_ok_change_draw [OF io_write_status_ok [OF s(1)], of E LDD_IO_STATUS_RX_READY] t(2)
    by (simp add: io_ok_change_def io_edge_def io_irq_level_def)
  then show ?thesis
    using assms s t by (simp add: irq_inv_def Let_def in_handler_def latched_def handler_ack_def short_dev_registers)
qed

lemma irq_step_inv: "irq_step E s t \<Longrightarrow> irq_inv s \<Longrightarrow> irq_inv t"
proof (induction rule: irq_step.induct)
  case (irq_send s b)
  let ?io = "sd_io (is_dev s)"
  have "io_wf ?io" "irq_en ?io" using irq_send by (simp_all add: irq_inv_def Let_def)
  then show ?case
    using latched_inv [OF irq_send io_ok_change_draw [OF io_write_data_ok]] write_data_keeps [of ?io b]
    by (simp add: short_dev_registers io_view_drawn)
next
  case (irq_type s b io)
  have w: "io_wf (sd_io (is_dev s))" "irq_en (sd_io (is_dev s))" using irq_type(3) by (simp_all add: irq_inv_def Let_def)
  have n: "\<not> rx_ready (sd_io (is_dev s))" "io = ldd_io_draw_panel E (ldd_io_receive_byte (sd_io (is_dev s)) b)"
    using irq_type(1,2) by (auto simp: ldd_io_keyboard_can_receive_def ldd_io_keyboard_receive_def split: if_splits)
  then show ?case
    using latched_inv [OF irq_type(3) keyboard_receive_ok [OF w(1) irq_type(1,2)]] io_receive [OF w(1) n(1), of E b] w(2) by simp
next
  case (irq_panel s)
  let ?io = "sd_io (is_dev s)"
  have w: "io_wf ?io" "irq_en ?io" using irq_panel by (simp_all add: irq_inv_def Let_def)
  have v: "io_view (ldd_io_panel_writable E ?io) = io_view ?io" by simp
  show ?case
    using latched_inv [OF irq_panel io_ok_change_view [OF v io_ok_change_refl [OF w(1)]]] io_view_eqD(3,4) [OF v] w(2) by simp
next
  case (irq_ack s)
  then show ?case using ack_inv by blast
qed (auto simp: irq_inv_def Let_def in_handler_def handler_data_def handler_count_def short_dev_registers)

lemma irq_start_inv:
  assumes "io_wf io" and "io_ctrl io = 0"
  shows "irq_inv (irq_start E io)"
proof -
  let ?io = "ldd_io_draw_panel E (io_write_ctrl io (LDD_IO_CTRL_IRQ_EN OR LDD_IO_CTRL_LOOPBACK))"
  have c: "io_ok_change io ?io" using io_ok_change_draw [OF io_write_ctrl_ok [OF assms(1)]] .
  have d: "irq_en ?io" "rx_ready ?io = rx_ready io" "io_data_in ?io = io_data_in io" "\<not> irq_en io"
    using assms(2) by (simp_all add: io_view_drawn io_write_ctrl_def ldd_io_pulse_def Let_def io_consts has_flag_def)
  have "pulses_sent io < pulses_sent ?io \<longleftrightarrow> rx_ready io"
    using c d by (auto simp: io_ok_change_def io_edge_def io_irq_level_def)
  then show ?thesis
    using c d by (simp add: irq_start_def irq_inv_def latched_def in_handler_def short_dev_registers io_ok_change_def Let_def)
qed

lemma irq_reachable_inv:
  assumes "(irq_step E)\<^sup>*\<^sup>* (irq_start E io) s" and "io_wf io" and "io_ctrl io = 0"
  shows "irq_inv s"
  using assms(1)
proof (induction rule: rtranclp_induct)
  case base
  show ?case by (rule irq_start_inv [OF assms(2,3)])
qed (rule irq_step_inv)

text \<open>Undisturbed, the steps of the handler are the function.\<close>

lemma handler_steps:
  assumes "is_pend s" and "is_pc s = PIdle" and "rx_ready (sd_io (is_dev s))" and "irq_inv s"
  shows "\<exists>t. (irq_step E)\<^sup>*\<^sup>* s t \<and> short_interrupt E (is_dev s) = (IRQ_HANDLED, is_dev t) \<and> is_pc t = PIdle"
proof -
  let ?s1 = "s\<lparr>is_pend := False, is_pc := PStatus\<rparr>"
  let ?s2 = "?s1\<lparr>is_pc := PData\<rparr>"
  let ?s3 = "?s2\<lparr>is_dev := handler_data E (is_dev ?s2), is_pc := PAck\<rparr>"
  let ?s4 = "(latched ?s3 (handler_ack E (is_dev ?s3)))\<lparr>is_pc := PCount\<rparr>"
  let ?s5 = "?s4\<lparr>is_dev := handler_count (is_dev ?s4), is_pc := PIdle, is_out := is_out ?s4 @ [sd_last (is_dev ?s4)]\<rparr>"
  have "irq_step E s ?s1" using assms(1,2) by (rule irq_enter)
  moreover have "irq_step E ?s1 ?s2" using assms(3) by (intro irq_status) (simp_all add: short_dev_registers)
  moreover have "irq_step E ?s2 ?s3" by (rule irq_data) simp
  moreover have "irq_step E ?s3 ?s4" by (rule irq_ack) simp
  moreover have "irq_step E ?s4 ?s5" by (rule irq_count) simp
  ultimately have "(irq_step E)\<^sup>*\<^sup>* s ?s5" by (meson converse_rtranclp_into_rtranclp rtranclp.rtrancl_refl)
  moreover have "short_interrupt E (is_dev s) = (IRQ_HANDLED, is_dev ?s5)"
    using assms(3) by (simp add: short_interrupt_def short_dev_registers latched_def Let_def)
  ultimately show ?thesis by (intro exI [of _ ?s5]) simp
qed

subsection \<open>One pulse per try\<close>

definition quiet :: "'c ldd_io \<times> byte list \<Rightarrow> bool" where
  "quiet sq \<longleftrightarrow> io_wf (fst sq) \<and> io_ctrl (fst sq) = 0"

lemma quiet_polled: "quiet sq \<Longrightarrow> polled_ok sq"
  by (simp add: quiet_def polled_ok_def has_flag_def)

lemma feed_quiet: "quiet sq \<Longrightarrow> quiet (keyboard_feed E sq) \<and> pulses_sent (fst (keyboard_feed E sq)) = pulses_sent (fst sq)"
proof -
  assume q: "quiet sq"
  obtain s bs where sq: "sq = (s, bs)" by (cases sq)
  have s: "io_wf s" "io_ctrl s = 0" using q by (auto simp: quiet_def sq)
  show ?thesis
  proof (cases "bs = [] \<or> rx_ready s")
    case True
    then show ?thesis using q by (auto simp: sq keyboard_feed_def ldd_io_keyboard_can_receive_def split: list.split)
  next
    case False
    then obtain b q' where "bs = b # q'" by (cases bs) auto
    moreover have "pulses_sent (ldd_io_receive_byte s b) = pulses_sent s"
      using s(2) by (simp add: ldd_io_receive_byte_def Let_def has_flag_def)
    ultimately show ?thesis
      using False s io_receive [of s E b]
      by (auto simp: sq keyboard_feed_def ldd_io_keyboard_can_receive_def ldd_io_keyboard_receive_def quiet_def io_view_drawn has_flag_def)
  qed
qed

lemma ack_quiet:
  assumes "quiet sq" and "status_ready (keyboard_bus E) sq"
  defines "t \<equiv> iowrite8 (keyboard_bus E) sq LDD_IO_STATUS LDD_IO_STATUS_RX_READY"
  shows "quiet t \<and> pulses_sent (fst t) = pulses_sent (fst sq)"
proof -
  have s: "io_wf (fst sq)" "rx_ready (fst sq)" "io_ctrl (fst sq) = 0" using assms by (auto simp: quiet_def bus_registers)
  have "io_ok_change (fst sq) (fst t)" unfolding t_def bus_registers fst_conv using io_ok_change_draw [OF io_write_status_ok [OF s(1)]] .
  then show ?thesis
    using io_ack [OF s(1,2), of E] s(3) by (simp add: t_def bus_registers quiet_def io_ok_change_def io_edge_def io_irq_level_def)
qed

lemma drop_left_ends:
  "quiet sq \<Longrightarrow> length (typed sq) < fuel \<Longrightarrow>
   \<exists>sq'. drop_left E fuel sq = Some sq' \<and> quiet sq' \<and> length (typed sq') \<le> length (typed sq) \<and> pulses_sent (fst sq') = pulses_sent (fst sq)"
proof (induction fuel arbitrary: sq)
  case (Suc fuel)
  show ?case
  proof (cases "status_ready (keyboard_bus E) sq")
    case True
    let ?t = "iowrite8 (keyboard_bus E) sq LDD_IO_STATUS LDD_IO_STATUS_RX_READY"
    have t: "quiet ?t" "pulses_sent (fst ?t) = pulses_sent (fst sq)" using ack_quiet [OF Suc.prems(1) True] by auto
    have str: "typed ?t = tl (typed sq)" "typed sq \<noteq> []"
      using io_rx.ack [OF quiet_polled [OF Suc.prems(1)] True] io_rx.ready [OF quiet_polled [OF Suc.prems(1)] True] by auto
    have f: "quiet (keyboard_feed E ?t)" "pulses_sent (fst (keyboard_feed E ?t)) = pulses_sent (fst sq)"
      "typed (keyboard_feed E ?t) = tl (typed sq)"
      using feed_quiet [OF t(1), of E] t(2) io_rx.feed_keeps [OF quiet_polled [OF t(1)], of E] str(1) by auto
    have "length (typed (keyboard_feed E ?t)) < fuel" using Suc.prems(2) str(2) f(3) by (cases "typed sq") auto
    from Suc.IH [OF f(1) this] show ?thesis using True f by (auto simp: le_diff_conv)
  qed (use Suc.prems in auto)
qed simp

lemma keyboard_registers:
  "iowrite8 (keyboard_bus E) sq LDD_IO_CTRL b = (ldd_io_draw_panel E (io_write_ctrl (fst sq) b), snd sq)"
  "iowrite8 (keyboard_bus E) sq LDD_IO_DATA b = (ldd_io_draw_panel E (io_write_data (fst sq) b), snd sq)"
  by (simp_all add: iowrite8_def keyboard_bus_def ldd_io_bus_def ldd_io_write_def register_below_matrix case_prod_unfold)

text \<open>
  Whether a key came in the sleep or not, the two writes make one rising edge: enabling interrupts
  with a byte waiting pulses, and then the byte sent is not received; otherwise it is.
\<close>

lemma probe_pulse_once:
  fixes E :: "'c chr_ops"
  assumes "quiet sq"
  defines "t \<equiv> probe_pulse E sq"
  shows "io_wf (fst t)" "snd t = snd sq" "pulses_sent (fst t) = pulses_sent (fst sq) + 1"
proof -
  let ?s = "fst sq"
  let ?c = "ldd_io_draw_panel E (io_write_ctrl ?s (LDD_IO_CTRL_IRQ_EN OR LDD_IO_CTRL_LOOPBACK))"
  let ?d = "ldd_io_draw_panel E (io_write_data ?c 0)"
  have q: "io_wf ?s" "io_ctrl ?s = 0" using assms by (auto simp: quiet_def)
  have t: "t = (?d, snd sq)" by (simp add: t_def probe_pulse_def keyboard_registers)
  have c: "io_ok_change ?s ?c" by (rule io_ok_change_draw [OF io_write_ctrl_ok [OF q(1)]])
  then have d: "io_ok_change ?c ?d" using io_ok_change_draw [OF io_write_data_ok] by (auto simp: io_ok_change_def)
  have l: "\<not> irq_en ?s" "irq_en ?c" "loopback ?c"
    using q(2) by (simp_all add: io_view_drawn io_write_ctrl_def ldd_io_pulse_def Let_def io_consts has_flag_def)
  have "irq_en ?d" "rx_ready ?d"
    using l(2,3) by (auto simp: io_view_drawn(3,4) write_data_keeps(1) io_write_data_def [of ?c] ldd_io_receive_byte_def ldd_io_pulse_def
        Let_def LDD_IO_STATUS_RX_READY_def byte_flag_facts)
  then show "io_wf (fst t)" "snd t = snd sq" "pulses_sent (fst t) = pulses_sent (fst sq) + 1"
    using c d l by (auto simp: t io_ok_change_def io_edge_def io_irq_level_def)
qed

lemma probe_quiet_quiet:
  fixes E :: "'c chr_ops"
  assumes "io_wf (fst sq)"
  defines "t \<equiv> probe_quiet E sq"
  shows "quiet t" "typed t = snd sq" "pulses_sent (fst t) = pulses_sent (fst sq)"
proof -
  let ?c = "ldd_io_draw_panel E (io_write_ctrl (fst sq) 0)"
  let ?a = "ldd_io_draw_panel E (io_write_status ?c LDD_IO_STATUS_RX_READY)"
  have t: "t = (?a, snd sq)" by (simp add: t_def probe_quiet_def keyboard_registers bus_registers)
  have c: "io_ok_change (fst sq) ?c" by (rule io_ok_change_draw [OF io_write_ctrl_ok [OF assms(1)]])
  then have a: "io_ok_change ?c ?a" using io_ok_change_draw [OF io_write_status_ok] by (auto simp: io_ok_change_def)
  have z: "io_ctrl ?c = 0" by (simp add: io_view_drawn io_write_ctrl_def ldd_io_pulse_def Let_def has_flag_def)
  have s: "io_ctrl ?a = io_ctrl ?c" "\<not> rx_ready ?a"
  proof -
    have wf: "io_wf ?c" using c by (simp add: io_ok_change_def)
    show "io_ctrl ?a = io_ctrl ?c" by (simp add: io_view_drawn(4) io_write_status_def [of ?c] Let_def)
    show "\<not> rx_ready ?a"
    proof (cases "rx_ready ?c")
      case True
      then show ?thesis using io_ack(2) [OF wf] by blast
    next
      case False
      then show ?thesis by (simp add: io_view_drawn(3) io_write_status_def [of ?c] Let_def)
    qed
  qed
  show "quiet t" using a s(1) z by (simp add: t quiet_def io_ok_change_def)
  show "typed t = snd sq" using s(2) by (simp add: t typed_def)
  show "pulses_sent (fst t) = pulses_sent (fst sq)"
    using a c s z by (simp add: t io_ok_change_def io_edge_def io_irq_level_def has_flag_def)
qed

lemma probe_tries_result:
  "quiet sq \<Longrightarrow> length (typed sq) < fuel \<Longrightarrow>
   \<exists>sq'. probe_tries E fuel typing probe_off i k sq
     = Some (case find (\<lambda>n. probe_off n 1 > 0) [i..<i + k] of Some n \<Rightarrow> Inr (probe_off n 1) | None \<Rightarrow> Inl ENODEV, sq') \<and> quiet sq'"
proof (induction k arbitrary: i sq)
  case (Suc k)
  obtain sq1 where d: "drop_left E fuel sq = Some sq1" "quiet sq1" "length (typed sq1) \<le> length (typed sq)"
    using drop_left_ends [OF Suc.prems] by blast
  define sq2 where "sq2 = (if fst (typing i) then keyboard_feed E sq1 else sq1)"
  define sq3 where "sq3 = probe_pulse E sq2"
  define sq4 where "sq4 = (if snd (typing i) then keyboard_feed E (probe_quiet E sq3) else probe_quiet E sq3)"
  have q2: "quiet sq2" "typed sq2 = typed sq1"
    using d(2) feed_quiet [of sq1 E] io_rx.feed_keeps [OF quiet_polled [OF d(2)], of E] by (simp_all add: sq2_def)
  have q3: "io_wf (fst sq3)" "snd sq3 = snd sq2" "pulses_sent (fst sq3) - pulses_sent (fst sq2) = 1"
    using probe_pulse_once [OF q2(1), of E] by (simp_all add: sq3_def)
  have pq: "quiet (probe_quiet E sq3)" "typed (probe_quiet E sq3) = snd sq2"
    using probe_quiet_quiet [OF q3(1), of E] q3(2) by simp_all
  have q4: "quiet sq4" "typed sq4 = snd sq2"
    using pq feed_quiet [OF pq(1), of E] io_rx.feed_keeps [OF quiet_polled [OF pq(1)], of E] by (simp_all add: sq4_def)
  have "length (snd sq2) \<le> length (typed sq2)" by (simp add: typed_def)
  then have "length (typed sq4) < fuel" unfolding q4(2) using q2(2) d(3) Suc.prems(2) by simp
  then obtain sq' where ih: "probe_tries E fuel typing probe_off (i + 1) k sq4
     = Some (case find (\<lambda>n. probe_off n 1 > 0) [i + 1..<i + 1 + k] of Some n \<Rightarrow> Inr (probe_off n 1) | None \<Rightarrow> Inl ENODEV, sq')" "quiet sq'"
    using Suc.IH [OF q4(1)] by blast
  have step: "probe_tries E fuel typing probe_off i (Suc k) sq =
      (if probe_off i 1 > 0 then Some (Inr (probe_off i 1), sq4) else probe_tries E fuel typing probe_off (i + 1) k sq4)"
    by (simp only: probe_tries.simps d(1) Option.bind_eq_Some_conv Option.bind.simps Let_def sq2_def [symmetric] sq3_def [symmetric] sq4_def [symmetric] q3(3))
  have "[i..<i + Suc k] = i # [i + 1..<i + 1 + k]" by (simp add: upt_rec [of i])
  then show ?case using ih q4(1) by (cases "probe_off i 1 > 0") (simp_all only: step find.simps if_True if_False option.case ex_simps, blast+)
qed simp

subsection \<open>Properties\<close>

text \<open>
  C31: In every interleaving of the handler with writers, keyboard and panel, starting with
  interrupts just enabled: the bytes the handler finished are those the device accepted, in order,
  but for the one it is working on or about to be called for; the counter is their number; the
  handler is never called for nothing; and once it is idle and no interrupt is pending, none is
  left.
\<close>

theorem short_irq_takes_every_byte:
  assumes "(irq_step E)\<^sup>*\<^sup>* (irq_start E io) s" and "io_wf io" and "io_ctrl io = 0"
  shows "is_none s = 0 \<and> sd_irqs (is_dev s) = of_nat (length (is_out s)) \<and>
    (\<exists>rest. is_in s = is_out s @ rest \<and> length rest \<le> 2) \<and>
    (is_pc s = PIdle \<and> \<not> is_pend s \<longrightarrow> is_in s = is_out s \<and> \<not> rx_ready (sd_io (is_dev s)) \<and>
       (is_out s \<noteq> [] \<longrightarrow> sd_last (is_dev s) = last (is_out s)))"
  using irq_reachable_inv [OF assms] by (auto simp: irq_inv_def Let_def in_handler_def)

theorem short_irq_takes_every_byte_witness:
  "\<exists>s. (irq_step demo_chr)\<^sup>*\<^sup>* (irq_start demo_chr (ldd_io_properties ())) s \<and> is_none s = 0"
proof -
  have "io_wf (ldd_io_properties ())" "io_ctrl (ldd_io_properties ()) = 0"
    by (simp_all add: ldd_io_properties_def io_wf_def io_consts)
  from short_irq_takes_every_byte [OF rtranclp.rtrancl_refl this, of demo_chr] show ?thesis
    by (meson rtranclp.rtrancl_refl)
qed

text \<open>
  C32: Probing ends, and in each try the device gives exactly one pulse while the lines are watched,
  whatever is typed in the meantime: the result is that of the first try in which the kernel saw a
  line, -ENODEV if none of the five did, and the device is quiet afterwards.
\<close>

theorem short_probe_one_pulse_per_try:
  assumes "io_wf io" and "io_ctrl io = 0" and "length (typed (io, q)) < fuel"
  shows "\<exists>sq'. short_probe_irq E fuel typing probe_off (io, q)
     = Some (case find (\<lambda>n. probe_off n 1 > 0) [0..<5] of Some n \<Rightarrow> Inr (probe_off n 1) | None \<Rightarrow> Inl ENODEV, sq') \<and>
     io_wf (fst sq') \<and> io_ctrl (fst sq') = 0"
  using probe_tries_result [of "(io, q)" fuel E typing probe_off 0 5] assms by (auto simp: short_probe_irq_def quiet_def)

theorem short_probe_one_pulse_per_try_witness:
  "\<exists>sq'. short_probe_irq demo_chr 4 (\<lambda>n. (True, False)) (\<lambda>n p. if n = 1 \<and> p = 1 then 5 else 0) demo_typed = Some (Inr 5, sq')"
proof -
  have w: "io_wf (ldd_io_properties ())" "io_ctrl (ldd_io_properties ()) = 0"
    by (simp_all add: ldd_io_properties_def io_wf_def io_consts)
  have "length (typed (ldd_io_properties (), [0x41, 0x42, 0x43])) < 4" using demo_typed_ok(2) by (simp add: demo_typed_def)
  from short_probe_one_pulse_per_try [OF w this, of demo_chr "\<lambda>n. (True, False)" "\<lambda>n p. if n = 1 \<and> p = 1 then 5 else 0"]
  show ?thesis by (auto simp: demo_typed_def upt_rec)
qed

end
