(* ===== verification/Byte_Queue.thy ===== *)
theory Byte_Queue
  imports LDD_Prelude
begin

section \<open>What a program relies on: devices that queue bytes\<close>

text \<open>
  A device that gives back once, and in order, what was put in. The locale states it for one
  operation at a time, with what may be passed to the operations as predicates; the client is a
  program that mixes any number of puts and gets, each of which may move less than it was asked
  to. Theory \<open>Async_Io\<close> interprets it on its
  ring buffer.
\<close>

fun queue_run ::
  "('g \<Rightarrow> 's \<Rightarrow> byte list \<times> 's) \<Rightarrow> ('p \<Rightarrow> 's \<Rightarrow> byte list \<times> 's) \<Rightarrow> ('g + 'p) list \<Rightarrow> 's \<Rightarrow> byte list \<times> byte list \<times> 's" where
  "queue_run get put [] s = ([], [], s)"
| "queue_run get put (Inl g # ops) s =
     (case get g s of (bs, s1) \<Rightarrow> case queue_run get put ops s1 of (out, inp, s2) \<Rightarrow> (bs @ out, inp, s2))"
| "queue_run get put (Inr p # ops) s =
     (case put p s of (bs, s1) \<Rightarrow> case queue_run get put ops s1 of (out, inp, s2) \<Rightarrow> (out, bs @ inp, s2))"

locale byte_queue =
  fixes get :: "'g \<Rightarrow> 's \<Rightarrow> byte list \<times> 's"
    and put :: "'p \<Rightarrow> 's \<Rightarrow> byte list \<times> 's"
    and get_ok :: "'g \<Rightarrow> bool"
    and put_ok :: "'p \<Rightarrow> bool"
    and ok :: "'s \<Rightarrow> bool"
    and content :: "'s \<Rightarrow> byte list"
  assumes get_front: "ok s \<Longrightarrow> get_ok g \<Longrightarrow> get g s = (bs, s') \<Longrightarrow> ok s' \<and> content s = bs @ content s'"
    and put_back: "ok s \<Longrightarrow> put_ok p \<Longrightarrow> put p s = (bs, s') \<Longrightarrow> ok s' \<and> content s' = content s @ bs"
begin

lemma run_stream:
  assumes "ok s" and "\<forall>x \<in> set ops. case x of Inl g \<Rightarrow> get_ok g | Inr p \<Rightarrow> put_ok p"
    and "queue_run get put ops s = (out, inp, s')"
  shows "ok s' \<and> out @ content s' = content s @ inp"
  using assms
proof (induction ops arbitrary: s out inp s')
  case (Cons x ops)
  show ?case
  proof (cases x)
    case (Inl g)
    obtain bs s1 where g: "get g s = (bs, s1)" by fastforce
    obtain o1 i1 s2 where r: "queue_run get put ops s1 = (o1, i1, s2)" using prod_cases3 by blast
    have "ok s1" "content s = bs @ content s1" using get_front [OF Cons.prems(1) _ g] Cons.prems(2) Inl by auto
    then show ?thesis using Cons.IH [OF _ _ r] Cons.prems(2,3) Inl g r by auto
  next
    case (Inr p)
    obtain bs s1 where g: "put p s = (bs, s1)" by fastforce
    obtain o1 i1 s2 where r: "queue_run get put ops s1 = (o1, i1, s2)" using prod_cases3 by blast
    have "ok s1" "content s1 = content s @ bs" using put_back [OF Cons.prems(1) _ g] Cons.prems(2) Inr by auto
    then show ?thesis using Cons.IH [OF _ _ r] Cons.prems(2,3) Inr g r by auto
  qed
qed simp

end

end
