(* ===== verification/Async_Io.thy ===== *)
theory Async_Io
  imports Byte_Queue Lifecycle "HOL-Library.Multiset"
begin

section \<open>25_async_io: a ring buffer with asynchronous requests\<close>

text \<open>
  \<open>src/examples/25_async_io/main.c\<close>. The transfer is done when a request is submitted, only the
  completion is deferred to a work item. The buffer is the array of the code with its two cursors
  and the length; an operation takes as arguments whether taking the mutex was interrupted, how
  many bytes the iterator has left, and what the copy does: \<open>copy_to_iter\<close> says how many bytes it
  copied, \<open>copy_from_iter\<close> gives the bytes it copied, which both may be fewer than asked for.
\<close>

definition AIO_BUFF_SIZE :: nat where "AIO_BUFF_SIZE = 4096"
definition DEV_NR :: nat where "DEV_NR = 1"

record async_io_dev =
  ai_len :: nat
  ai_read_cur :: nat
  ai_write_cur :: nat
  ai_buff :: "byte list"

record read_arg =
  ra_intr :: bool
  ra_count :: nat
  ra_copy :: "byte list \<Rightarrow> nat"

record write_arg =
  wa_intr :: bool
  wa_count :: nat
  wa_copy :: "nat \<Rightarrow> byte list"

definition async_io_do_read :: "read_arg \<Rightarrow> async_io_dev \<Rightarrow> byte list result \<times> async_io_dev" where
  "async_io_do_read a dev =
     (if ra_intr a then (Inl ERESTARTSYS, dev)
      else let want = min (min (AIO_BUFF_SIZE - ai_read_cur dev) (ai_len dev)) (ra_count a);
               bs = mem_get (ai_read_cur dev) want (ai_buff dev);
               n = ra_copy a bs
           in if want \<noteq> 0 \<and> n = 0 then (Inl EFAULT, dev)
              else (Inr (take n bs), dev\<lparr>ai_read_cur := (ai_read_cur dev + n) mod AIO_BUFF_SIZE, ai_len := ai_len dev - n\<rparr>))"

definition async_io_do_write :: "write_arg \<Rightarrow> async_io_dev \<Rightarrow> byte list result \<times> async_io_dev" where
  "async_io_do_write a dev =
     (if wa_intr a then (Inl ERESTARTSYS, dev)
      else if ai_len dev = AIO_BUFF_SIZE then (Inl ENOSPC, dev)
      else let want = min (min (AIO_BUFF_SIZE - ai_write_cur dev) (AIO_BUFF_SIZE - ai_len dev)) (wa_count a);
               bs = wa_copy a want;
               n = length bs
           in if want \<noteq> 0 \<and> n = 0 then (Inl EFAULT, dev\<lparr>ai_buff := mem_put (ai_write_cur dev) bs (ai_buff dev)\<rparr>)
              else (Inr bs, dev\<lparr>ai_buff := mem_put (ai_write_cur dev) bs (ai_buff dev),
                      ai_write_cur := (ai_write_cur dev + n) mod AIO_BUFF_SIZE, ai_len := ai_len dev + n\<rparr>))"

subsection \<open>The requests\<close>

text \<open>A request is answered at once, or queued and completed later by the work item.\<close>

datatype iter_ret = Returned "nat result" | EIOCBQUEUED

record async_sys =
  as_dev :: async_io_dev
  as_work :: "(nat \<times> nat) list"
  as_completed :: "(nat \<times> nat) list"

definition async_io_defer :: "bool \<Rightarrow> nat \<Rightarrow> nat \<Rightarrow> async_sys \<Rightarrow> iter_ret \<times> async_sys" where
  "async_io_defer mem iocb res s =
     (if \<not> mem then (Returned (Inr res), s) else (EIOCBQUEUED, s\<lparr>as_work := (iocb, res) # as_work s\<rparr>))"

definition async_io_complete :: "nat \<times> nat \<Rightarrow> async_sys \<Rightarrow> async_sys" where
  "async_io_complete aw s = s\<lparr>as_work := remove1 aw (as_work s), as_completed := as_completed s @ [aw]\<rparr>"

definition async_io_read_iter :: "bool \<Rightarrow> bool \<Rightarrow> nat \<Rightarrow> read_arg \<Rightarrow> async_sys \<Rightarrow> iter_ret \<times> byte list \<times> async_sys" where
  "async_io_read_iter sync mem iocb a s =
     (case async_io_do_read a (as_dev s) of
        (Inl e, dev) \<Rightarrow> (Returned (Inl e), [], s\<lparr>as_dev := dev\<rparr>)
      | (Inr bs, dev) \<Rightarrow>
          if sync then (Returned (Inr (length bs)), bs, s\<lparr>as_dev := dev\<rparr>)
          else case async_io_defer mem iocb (length bs) (s\<lparr>as_dev := dev\<rparr>) of (r, s') \<Rightarrow> (r, bs, s'))"

definition async_io_write_iter :: "bool \<Rightarrow> bool \<Rightarrow> nat \<Rightarrow> write_arg \<Rightarrow> async_sys \<Rightarrow> iter_ret \<times> byte list \<times> async_sys" where
  "async_io_write_iter sync mem iocb a s =
     (case async_io_do_write a (as_dev s) of
        (Inl e, dev) \<Rightarrow> (Returned (Inl e), [], s\<lparr>as_dev := dev\<rparr>)
      | (Inr bs, dev) \<Rightarrow>
          if sync then (Returned (Inr (length bs)), bs, s\<lparr>as_dev := dev\<rparr>)
          else case async_io_defer mem iocb (length bs) (s\<lparr>as_dev := dev\<rparr>) of (r, s') \<Rightarrow> (r, bs, s'))"

subsection \<open>The module\<close>

datatype aio_res = AioWq | AioDevs | AioRegion | AioCdev nat

definition aerr_wq :: "aio_res call list" where [life_defs]: "aerr_wq = [Rel AioWq]"
definition aerr_free :: "aio_res call list" where [life_defs]: "aerr_free = Rel AioDevs # aerr_wq"

fun aio_del_cdevs :: "nat \<Rightarrow> aio_res call list" where
  "aio_del_cdevs 0 = []"
| "aio_del_cdevs (Suc i) = Rel (AioCdev i) # aio_del_cdevs i"

fun aio_add_cdevs :: "aio_res answers \<Rightarrow> nat \<Rightarrow> nat \<Rightarrow> errno option \<times> aio_res call list" where
  "aio_add_cdevs F i 0 = (None, [])"
| "aio_add_cdevs F i (Suc k) =
     if_err (F (AioCdev i)) (\<lambda>e. (Some e, aio_del_cdevs i @ Rel AioRegion # aerr_free))
       (case aio_add_cdevs F (i + 1) k of (r, cs) \<Rightarrow> (r, Acq (AioCdev i) # cs))"

definition aio_m_init :: "aio_res answers \<Rightarrow> errno option \<times> aio_res call list" where
  "aio_m_init F =
     if_err (F AioWq) (\<lambda>_. (Some ENOMEM, []))
     (if_err (F AioDevs) (\<lambda>_. (Some ENOMEM, [Acq AioWq] @ aerr_wq))
     (if_err (F AioRegion) (\<lambda>e. (Some e, [Acq AioWq, Acq AioDevs] @ aerr_free))
        (case aio_add_cdevs F 0 DEV_NR of (r, cs) \<Rightarrow> (r, [Acq AioWq, Acq AioDevs, Acq AioRegion] @ cs))))"

definition aio_m_exit :: "aio_res call list" where
  "aio_m_exit = map (\<lambda>i. Rel (AioCdev i)) [0..<DEV_NR] @ Rel AioRegion # aerr_free"

lemma aio_module_clean: "clean aio_m_init aio_m_exit"
  by (simp add: clean_def aio_m_init_def aio_m_exit_def DEV_NR_def life_defs if_err_def split: option.split)

text \<open>A zeroed device, as \<open>kzalloc_objs\<close> makes it.\<close>

definition aio_new :: async_io_dev where
  "aio_new = \<lparr>ai_len = 0, ai_read_cur = 0, ai_write_cur = 0, ai_buff = replicate AIO_BUFF_SIZE 0\<rparr>"

subsection \<open>The ring is a queue\<close>

definition ring :: "async_io_dev \<Rightarrow> byte list" where
  "ring dev = map (\<lambda>i. ai_buff dev ! ((ai_read_cur dev + i) mod AIO_BUFF_SIZE)) [0..<ai_len dev]"

definition ring_inv :: "async_io_dev \<Rightarrow> bool" where
  "ring_inv dev \<longleftrightarrow> length (ai_buff dev) = AIO_BUFF_SIZE \<and> ai_len dev \<le> AIO_BUFF_SIZE \<and> ai_read_cur dev < AIO_BUFF_SIZE \<and>
     ai_write_cur dev = (ai_read_cur dev + ai_len dev) mod AIO_BUFF_SIZE"

definition read_arg_ok :: "read_arg \<Rightarrow> bool" where
  "read_arg_ok a \<longleftrightarrow> (\<forall>bs. ra_copy a bs \<le> length bs)"

definition write_arg_ok :: "write_arg \<Rightarrow> bool" where
  "write_arg_ok a \<longleftrightarrow> (\<forall>n. length (wa_copy a n) \<le> n)"

lemma aio_size_pos: "0 < AIO_BUFF_SIZE"
  by (simp add: AIO_BUFF_SIZE_def)

lemma ring_advance:
  assumes "ring_inv dev" and "n \<le> ai_len dev" and "ai_read_cur dev + n \<le> AIO_BUFF_SIZE"
  defines "dev' \<equiv> dev\<lparr>ai_read_cur := (ai_read_cur dev + n) mod AIO_BUFF_SIZE, ai_len := ai_len dev - n\<rparr>"
  shows "ring_inv dev'" "ring dev = mem_get (ai_read_cur dev) n (ai_buff dev) @ ring dev'"
proof -
  let ?B = AIO_BUFF_SIZE and ?r = "ai_read_cur dev" and ?b = "ai_buff dev"
  have "(?r + n) mod ?B + (ai_len dev - n) = (?r + n) mod ?B + ai_len dev - n" using assms(2) by simp
  then have "((?r + n) mod ?B + ai_len dev - n) mod ?B = (?r + ai_len dev) mod ?B"
    using assms(2) mod_add_left_eq [of "?r + n" ?B "ai_len dev - n"] by simp
  then show "ring_inv dev'"
    using assms(1,2) aio_size_pos by (simp add: dev'_def ring_inv_def le_diff_conv trans_le_add1)
  have front: "mem_get ?r n ?b = map (\<lambda>i. ?b ! ((?r + i) mod ?B)) [0..<n]"
    using assms(1,3) by (intro nth_equalityI) (auto simp: ring_inv_def nth_mem_get)
  have "ring dev' = map (\<lambda>i. ?b ! ((?r + (n + i)) mod ?B)) [0..<ai_len dev - n]"
    by (simp add: dev'_def ring_def mod_add_left_eq add.assoc)
  also have "\<dots> = map (\<lambda>i. ?b ! ((?r + i) mod ?B)) [n..<ai_len dev]"
    using assms(2) by (intro nth_equalityI) simp_all
  finally have "mem_get ?r n ?b @ ring dev' = map (\<lambda>i. ?b ! ((?r + i) mod ?B)) ([0..<n] @ [n..<ai_len dev])"
    by (simp add: front)
  also have "[0..<n] @ [n..<ai_len dev] = [0..<ai_len dev]" using assms(2) upt_add_eq_append [of 0 n "ai_len dev - n"] by simp
  finally show "ring dev = mem_get ?r n ?b @ ring dev'" by (simp add: ring_def)
qed

text \<open>What is written goes to the cells behind the content, none of which holds any of it.\<close>

lemma ring_cell_free:
  assumes "i < len" and "j < n" and "len + n \<le> (B :: nat)"
  shows "(r + i) mod B \<noteq> (r + len + j) mod B"
proof
  assume eq: "(r + i) mod B = (r + len + j) mod B"
  have "B dvd (r + len + j) - (r + i)" using eq assms(1) mod_eq_dvd_iff_nat [of "r + i" "r + len + j" B] by simp
  then have "B dvd len + j - i" by simp
  moreover have "0 < len + j - i" "len + j - i < B" using assms by simp_all
  ultimately show False using nat_dvd_not_less by blast
qed

lemma ring_append:
  assumes "ring_inv dev" and "ai_len dev + length bs \<le> AIO_BUFF_SIZE" and "ai_write_cur dev + length bs \<le> AIO_BUFF_SIZE"
  defines "dev' \<equiv> dev\<lparr>ai_buff := mem_put (ai_write_cur dev) bs (ai_buff dev),
      ai_write_cur := (ai_write_cur dev + length bs) mod AIO_BUFF_SIZE, ai_len := ai_len dev + length bs\<rparr>"
  shows "ring_inv dev'" "ring dev' = ring dev @ bs"
proof -
  let ?B = AIO_BUFF_SIZE and ?r = "ai_read_cur dev" and ?b = "ai_buff dev" and ?w = "ai_write_cur dev"
  have len: "length ?b = ?B" and w: "?w = (?r + ai_len dev) mod ?B" using assms(1) by (simp_all add: ring_inv_def)
  show "ring_inv dev'"
    using assms(1-3) len by (simp add: dev'_def ring_inv_def length_mem_put mod_add_left_eq add.assoc)
  show "ring dev' = ring dev @ bs"
  proof (rule nth_equalityI)
    show "length (ring dev') = length (ring dev @ bs)" by (simp add: ring_def dev'_def)
    fix i
    assume "i < length (ring dev')"
    then have i: "i < ai_len dev + length bs" by (simp add: ring_def dev'_def)
    have at: "ring dev' ! i = mem_put ?w bs ?b ! ((?r + i) mod ?B)" using i by (simp add: ring_def dev'_def)
    have bd: "(?r + i) mod ?B < ?B" using aio_size_pos by simp
    show "ring dev' ! i = (ring dev @ bs) ! i"
    proof (cases "i < ai_len dev")
      case True
      have "\<not> (?w \<le> (?r + i) mod ?B \<and> (?r + i) mod ?B < ?w + length bs)"
      proof
        assume c: "?w \<le> (?r + i) mod ?B \<and> (?r + i) mod ?B < ?w + length bs"
        define j where "j = (?r + i) mod ?B - ?w"
        have j: "j < length bs" "?w + j = (?r + i) mod ?B" using c by (auto simp: j_def)
        have "(?r + ai_len dev + j) mod ?B = (?w + j) mod ?B" by (simp add: w mod_add_left_eq)
        then have "(?r + ai_len dev + j) mod ?B = (?r + i) mod ?B" by (simp add: j(2))
        then show False using ring_cell_free [OF True j(1) assms(2), of ?r] by simp
      qed
      then have "mem_put ?w bs ?b ! ((?r + i) mod ?B) = ?b ! ((?r + i) mod ?B)"
        using nth_mem_put [of ?w bs ?b "(?r + i) mod ?B"] assms(3) len bd by (simp only: if_False)
      then show ?thesis using at True by (simp add: ring_def nth_append)
    next
      case False
      define j where "j = i - ai_len dev"
      have j: "j < length bs" "i = ai_len dev + j" using i False by (simp_all add: j_def)
      have "(?r + i) mod ?B = (?w + j) mod ?B" by (simp add: w mod_add_left_eq j(2) add.assoc)
      then have "(?r + i) mod ?B = ?w + j" using assms(3) j(1) by simp
      then show ?thesis
        using at nth_mem_put [of ?w bs ?b] assms(3) len bd j by (simp add: ring_def nth_append)
    qed
  qed
qed

lemma do_read_queue:
  assumes "ring_inv dev" and "read_arg_ok a" and "async_io_do_read a dev = (r, dev')"
  shows "ring_inv dev' \<and> (case r of Inl e \<Rightarrow> dev' = dev | Inr bs \<Rightarrow> ring dev = bs @ ring dev' \<and> length bs \<le> ra_count a)"
proof -
  define want where "want = min (min (AIO_BUFF_SIZE - ai_read_cur dev) (ai_len dev)) (ra_count a)"
  define bs where "bs = mem_get (ai_read_cur dev) want (ai_buff dev)"
  have want: "want \<le> ai_len dev" "ai_read_cur dev + want \<le> AIO_BUFF_SIZE" "want \<le> ra_count a"
    using assms(1) by (auto simp: want_def ring_inv_def)
  have "length bs = want" using want(2) assms(1) by (simp add: bs_def ring_inv_def)
  then have n: "ra_copy a bs \<le> want" using assms(2) by (metis read_arg_ok_def)
  have t: "take (ra_copy a bs) bs = mem_get (ai_read_cur dev) (ra_copy a bs) (ai_buff dev)"
    using n by (simp add: bs_def mem_get_def)
  show ?thesis
    using assms(1,3) ring_advance [OF assms(1), of "ra_copy a bs"] n want t
    by (auto simp: async_io_do_read_def Let_def want_def [symmetric] bs_def [symmetric] split: if_splits)
qed

lemma do_write_queue:
  assumes "ring_inv dev" and "write_arg_ok a" and "async_io_do_write a dev = (r, dev')"
  shows "ring_inv dev' \<and> (case r of Inl e \<Rightarrow> ring dev' = ring dev | Inr bs \<Rightarrow> ring dev' = ring dev @ bs \<and> length bs \<le> wa_count a)"
proof -
  define want where "want = min (min (AIO_BUFF_SIZE - ai_write_cur dev) (AIO_BUFF_SIZE - ai_len dev)) (wa_count a)"
  have "ai_write_cur dev < AIO_BUFF_SIZE" using assms(1) aio_size_pos by (simp add: ring_inv_def)
  then have want: "ai_len dev + want \<le> AIO_BUFF_SIZE" "ai_write_cur dev + want \<le> AIO_BUFF_SIZE" "want \<le> wa_count a"
    using assms(1) unfolding want_def ring_inv_def by linarith+
  have n: "length (wa_copy a want) \<le> want" using assms(2) by (simp add: write_arg_ok_def)
  have fault: "dev\<lparr>ai_buff := mem_put (ai_write_cur dev) bs (ai_buff dev)\<rparr> = dev" if "length bs = 0" for bs
    using that by simp
  show ?thesis
    using assms(1,3) ring_append [OF assms(1), of "wa_copy a want"] n want fault
    by (auto simp: async_io_do_write_def Let_def want_def [symmetric] split: if_splits)
qed

definition moved :: "byte list result \<times> async_io_dev \<Rightarrow> byte list \<times> async_io_dev" where
  "moved x = (case x of (Inl e, dev) \<Rightarrow> ([], dev) | (Inr bs, dev) \<Rightarrow> (bs, dev))"

interpretation aio_queue: byte_queue
  "\<lambda>a dev. moved (async_io_do_read a dev)" "\<lambda>a dev. moved (async_io_do_write a dev)" read_arg_ok write_arg_ok ring_inv ring
proof (unfold_locales, goal_cases)
  case (1 s g bs s')
  then show ?case
    using do_read_queue [OF 1(1,2)] by (cases "async_io_do_read g s") (auto simp: moved_def split: sum.splits)
next
  case (2 s p bs s')
  then show ?case
    using do_write_queue [OF 2(1,2)] by (cases "async_io_do_write p s") (auto simp: moved_def split: sum.splits)
qed

subsection \<open>Requests and completions interleaved\<close>

text \<open>
  Requests come in any order, work items run in any order. \<open>queued\<close> are the requests answered with
  EIOCBQUEUED, with the number of bytes they moved; each has its own control block.
\<close>

inductive async_reach :: "async_sys \<Rightarrow> byte list \<Rightarrow> byte list \<Rightarrow> (nat \<times> nat) list \<Rightarrow> bool" where
  async_new: "async_reach \<lparr>as_dev = aio_new, as_work = [], as_completed = []\<rparr> [] [] []"
| async_read: "async_reach s inp out queued \<Longrightarrow> read_arg_ok a \<Longrightarrow> iocb \<notin> fst ` set queued \<Longrightarrow>
    async_io_read_iter sync mem iocb a s = (r, bs, s') \<Longrightarrow>
    async_reach s' inp (out @ bs) (if r = EIOCBQUEUED then (iocb, length bs) # queued else queued)"
| async_write: "async_reach s inp out queued \<Longrightarrow> write_arg_ok a \<Longrightarrow> iocb \<notin> fst ` set queued \<Longrightarrow>
    async_io_write_iter sync mem iocb a s = (r, bs, s') \<Longrightarrow>
    async_reach s' (inp @ bs) out (if r = EIOCBQUEUED then (iocb, length bs) # queued else queued)"
| async_complete: "async_reach s inp out queued \<Longrightarrow> aw \<in> set (as_work s) \<Longrightarrow>
    async_reach (async_io_complete aw s) inp out queued"

lemma defer_cases:
  assumes "async_io_defer mem iocb n s = (r, s')"
  shows "as_dev s' = as_dev s \<and> as_completed s' = as_completed s \<and>
    (r = EIOCBQUEUED \<and> as_work s' = (iocb, n) # as_work s \<or> r = Returned (Inr n) \<and> as_work s' = as_work s)"
  using assms by (auto simp: async_io_defer_def split: if_splits)

lemma read_iter_cases:
  assumes "async_io_read_iter sync mem iocb a s = (r, bs, s')"
  obtains q where "async_io_do_read a (as_dev s) = (q, as_dev s')" "bs = (case q of Inl e \<Rightarrow> [] | Inr bs \<Rightarrow> bs)"
    "as_completed s' = as_completed s" "as_work s' = (if r = EIOCBQUEUED then (iocb, length bs) # as_work s else as_work s)"
proof -
  obtain q dev where d: "async_io_do_read a (as_dev s) = (q, dev)" by fastforce
  have "dev = as_dev s' \<and> bs = (case q of Inl e \<Rightarrow> [] | Inr bs \<Rightarrow> bs) \<and> as_completed s' = as_completed s \<and>
      as_work s' = (if r = EIOCBQUEUED then (iocb, length bs) # as_work s else as_work s)"
    using assms d
    by (auto simp: async_io_read_iter_def split: sum.splits if_splits prod.splits dest!: defer_cases)
  then show thesis using that [of q] d by blast
qed

lemma write_iter_cases:
  assumes "async_io_write_iter sync mem iocb a s = (r, bs, s')"
  obtains q where "async_io_do_write a (as_dev s) = (q, as_dev s')" "bs = (case q of Inl e \<Rightarrow> [] | Inr bs \<Rightarrow> bs)"
    "as_completed s' = as_completed s" "as_work s' = (if r = EIOCBQUEUED then (iocb, length bs) # as_work s else as_work s)"
proof -
  obtain q dev where d: "async_io_do_write a (as_dev s) = (q, dev)" by fastforce
  have "dev = as_dev s' \<and> bs = (case q of Inl e \<Rightarrow> [] | Inr bs \<Rightarrow> bs) \<and> as_completed s' = as_completed s \<and>
      as_work s' = (if r = EIOCBQUEUED then (iocb, length bs) # as_work s else as_work s)"
    using assms d
    by (auto simp: async_io_write_iter_def split: sum.splits if_splits prod.splits dest!: defer_cases)
  then show thesis using that [of q] d by blast
qed

lemma async_reach_inv:
  "async_reach s inp out queued \<Longrightarrow>
   ring_inv (as_dev s) \<and> out @ ring (as_dev s) = inp \<and>
   mset queued = mset (as_work s) + mset (as_completed s) \<and> distinct (map fst queued)"
proof (induction rule: async_reach.induct)
  case async_new
  show ?case by (simp add: ring_inv_def ring_def aio_new_def aio_size_pos)
next
  case (async_read s inp out queued a iocb sync mem r bs s')
  obtain q where q: "async_io_do_read a (as_dev s) = (q, as_dev s')" "bs = (case q of Inl e \<Rightarrow> [] | Inr bs \<Rightarrow> bs)"
    "as_completed s' = as_completed s" "as_work s' = (if r = EIOCBQUEUED then (iocb, length bs) # as_work s else as_work s)"
    using read_iter_cases [OF async_read.hyps(4)] by blast
  have "ring_inv (as_dev s')" "ring (as_dev s) = bs @ ring (as_dev s')"
    using do_read_queue [OF _ async_read.hyps(2) q(1)] async_read.IH q(2) by (auto split: sum.splits)
  then show ?case using async_read.IH async_read.hyps(3) q(3,4) by auto
next
  case (async_write s inp out queued a iocb sync mem r bs s')
  obtain q where q: "async_io_do_write a (as_dev s) = (q, as_dev s')" "bs = (case q of Inl e \<Rightarrow> [] | Inr bs \<Rightarrow> bs)"
    "as_completed s' = as_completed s" "as_work s' = (if r = EIOCBQUEUED then (iocb, length bs) # as_work s else as_work s)"
    using write_iter_cases [OF async_write.hyps(4)] by blast
  have "ring_inv (as_dev s')" "ring (as_dev s') = ring (as_dev s) @ bs"
    using do_write_queue [OF _ async_write.hyps(2) q(1)] async_write.IH q(2) by (auto split: sum.splits)
  then show ?case using async_write.IH async_write.hyps(3) q(3,4) by auto
next
  case (async_complete s inp out queued aw)
  then show ?case by (simp add: async_io_complete_def)
qed

subsection \<open>Properties\<close>

text \<open>
  C33: Whatever requests are made, synchronous or not, and whenever their completions run: the bytes
  read followed by those in the buffer are the bytes written, in order; the buffer is never
  overrun; every request answered with EIOCBQUEUED is completed exactly once with the number of
  bytes it moved, or its work item is still there to do so.
\<close>

theorem async_io_stream_and_completions:
  assumes "async_reach s inp out queued"
  shows "out @ ring (as_dev s) = inp \<and> ai_len (as_dev s) \<le> AIO_BUFF_SIZE \<and>
    mset queued = mset (as_work s) + mset (as_completed s) \<and> distinct (map fst (as_work s @ as_completed s)) \<and>
    (as_work s = [] \<longrightarrow> set (as_completed s) = set queued)"
proof -
  note inv = async_reach_inv [OF assms]
  have m: "mset queued = mset (as_work s @ as_completed s)" using inv by simp
  then have "mset (map fst queued) = mset (map fst (as_work s @ as_completed s))" by (simp only: mset_map)
  then have "distinct (map fst (as_work s @ as_completed s))" using inv mset_eq_imp_distinct_iff by blast
  moreover have "as_work s = [] \<longrightarrow> set (as_completed s) = set queued" using mset_eq_setD [OF m] by simp
  ultimately show ?thesis using inv by (simp add: ring_inv_def)
qed

definition demo_write :: write_arg where
  "demo_write = \<lparr>wa_intr = False, wa_count = 3, wa_copy = (\<lambda>n. take n [1, 2, 3])\<rparr>"

theorem async_io_stream_and_completions_witness:
  "\<exists>s. async_reach s [1, 2, 3] [] [(7, 3)] \<and> as_completed s = [(7, 3)] \<and> ring (as_dev s) = [1, 2, 3]"
proof -
  let ?s0 = "\<lparr>as_dev = aio_new, as_work = [], as_completed = []\<rparr>"
  obtain s1 where w: "async_io_write_iter False True 7 demo_write ?s0 = (EIOCBQUEUED, [1, 2, 3], s1)" "as_work s1 = [(7, 3)]" "as_completed s1 = []"
    by (simp add: async_io_write_iter_def async_io_do_write_def async_io_defer_def demo_write_def aio_new_def Let_def AIO_BUFF_SIZE_def)
  have ok: "write_arg_ok demo_write" by (simp add: write_arg_ok_def demo_write_def)
  have "async_reach s1 [1, 2, 3] [] [(7, 3)]" using async_reach.async_write [OF async_new ok _ w(1)] by (simp add: numeral_3_eq_3)
  then have r: "async_reach (async_io_complete (7, 3) s1) [1, 2, 3] [] [(7, 3)]"
    using async_reach.async_complete [where aw = "(7, 3)"] w(2) by simp
  have "ring (as_dev (async_io_complete (7, 3) s1)) = [1, 2, 3]" using async_io_stream_and_completions [OF r] by simp
  then show ?thesis using r w(2,3) by (intro exI [of _ "async_io_complete (7, 3) s1"]) (simp add: async_io_complete_def)
qed

text \<open>A program that only mixes reads and writes sees a queue.\<close>

lemma async_io_queue_run:
  assumes "\<forall>x \<in> set ops. case x of Inl a \<Rightarrow> read_arg_ok a | Inr a \<Rightarrow> write_arg_ok a"
    and "queue_run (\<lambda>a dev. moved (async_io_do_read a dev)) (\<lambda>a dev. moved (async_io_do_write a dev)) ops aio_new = (out, inp, dev')"
  shows "out @ ring dev' = inp"
  using aio_queue.run_stream [OF _ assms] by (simp add: ring_inv_def ring_def aio_new_def aio_size_pos)

end
