(* ===== verification/Ioctl.thy ===== *)
theory Ioctl
  imports Byte_Store Lifecycle
begin

unbundle bit_operations_syntax

section \<open>07_ioctl: a file whose content is set by ioctl\<close>

text \<open>
  \<open>src/examples/07_ioctl\<close>. The file is a message repeated a number of times; ioctl commands set
  both. A file position is never negative when it reaches the driver, so it is a \<open>nat\<close>; it stays
  far below the limit of \<open>loff_t\<close> (lemma \<open>ioctl_position_bound\<close>). The structure an ioctl argument
  points to is a parameter: \<open>None\<close> where it cannot be copied, otherwise its two members, the
  second as the user memory it points to.
\<close>

definition IOCTL_BUFF_SIZE :: nat where "IOCTL_BUFF_SIZE = 4096"
definition DEFAULT_HOWMANY :: "32 word" where "DEFAULT_HOWMANY = 3"
definition DEFAULT_MESSAGE :: "byte list" where
  "DEFAULT_MESSAGE = map of_char ''Hello ioctl()!'' @ [10]"
definition INT_MAX :: "64 word" where "INT_MAX = 0x7FFFFFFF"

definition IOCTL_IOC_MAGIC :: "32 word" where "IOCTL_IOC_MAGIC = of_char CHR ''d''"
definition IOCTL_MAXNR :: "32 word" where "IOCTL_MAXNR = 2"

text \<open>The fields of a command number, and the numbers made with \<open>_IO\<close> and \<open>_IOW\<close>.\<close>

definition IOC_NR :: "32 word \<Rightarrow> 32 word" where "IOC_NR cmd = cmd AND 0xFF"
definition IOC_TYPE :: "32 word \<Rightarrow> 32 word" where "IOC_TYPE cmd = drop_bit 8 cmd AND 0xFF"

definition IOC :: "32 word \<Rightarrow> 32 word \<Rightarrow> 32 word \<Rightarrow> 32 word \<Rightarrow> 32 word" where
  "IOC dir ty nr sz = push_bit 30 dir OR push_bit 16 sz OR push_bit 8 ty OR nr"

definition IOCTL_RESET :: "32 word" where "IOCTL_RESET = IOC 0 IOCTL_IOC_MAGIC 0 0"
definition IOCTL_HOWMANY :: "32 word" where "IOCTL_HOWMANY = IOC 0 IOCTL_IOC_MAGIC 1 0"
definition IOCTL_MESSAGE :: "32 word" where "IOCTL_MESSAGE = IOC 1 IOCTL_IOC_MAGIC 2 16"

record ioctl_dev =
  il_howmany :: "32 word"
  il_buf_len :: nat
  il_buff :: "byte list"

definition ioctl_dev_set_default :: "ioctl_dev \<Rightarrow> ioctl_dev" where
  "ioctl_dev_set_default dev =
     dev\<lparr>il_howmany := DEFAULT_HOWMANY, il_buf_len := length DEFAULT_MESSAGE,
         il_buff := mem_put 0 DEFAULT_MESSAGE (replicate IOCTL_BUFF_SIZE 0)\<rparr>"

definition ioctl_read :: "to_user \<Rightarrow> ioctl_dev \<Rightarrow> nat \<Rightarrow> nat \<Rightarrow> byte list result \<times> nat" where
  "ioctl_read ctu dev f_pos count0 =
     (if il_buf_len dev = 0 then (Inr [], f_pos)
      else let round = f_pos div il_buf_len dev; offset = f_pos mod il_buf_len dev in
        if round \<ge> unat (il_howmany dev) then (Inr [], f_pos)
        else let count = min count0 (il_buf_len dev - offset); bs = mem_get offset count (il_buff dev) in
          if ctu bs \<noteq> 0 then (Inl EFAULT, f_pos) else (Inr bs, f_pos + count))"

definition ioctl_howmany :: "bool \<Rightarrow> ioctl_dev \<Rightarrow> 64 word \<Rightarrow> int result \<times> ioctl_dev" where
  "ioctl_howmany capable dev arg =
     (if \<not> capable then (Inl EPERM, dev)
      else if arg > INT_MAX then (Inl EINVAL, dev)
      else (Inr (uint (il_howmany dev)), dev\<lparr>il_howmany := ucast arg\<rparr>))"

definition ioctl_message :: "ioctl_dev \<Rightarrow> (32 word \<times> from_user) option \<Rightarrow> int result \<times> ioctl_dev" where
  "ioctl_message dev arg =
     (case arg of
        None \<Rightarrow> (Inl EFAULT, dev)
      | Some (len, msg) \<Rightarrow>
          if sint len < 0 \<or> sint len > int IOCTL_BUFF_SIZE then (Inl EINVAL, dev)
          else let n = nat (sint len); (left, bs) = msg n; dev1 = dev\<lparr>il_buff := mem_put 0 bs (il_buff dev)\<rparr> in
            if left \<noteq> 0 then (Inl EFAULT, dev1)
            else (Inr 0, dev1\<lparr>il_buff := mem_put n (replicate (IOCTL_BUFF_SIZE - n) 0) (il_buff dev1), il_buf_len := n\<rparr>))"

definition ioctl_ioctl :: "bool \<Rightarrow> ioctl_dev \<Rightarrow> 32 word \<Rightarrow> 64 word \<Rightarrow> (32 word \<times> from_user) option \<Rightarrow> int result \<times> ioctl_dev" where
  "ioctl_ioctl capable dev cmd arg uarg =
     (if IOC_TYPE cmd \<noteq> IOCTL_IOC_MAGIC then (Inl ENOTTY, dev)
      else if IOC_NR cmd > IOCTL_MAXNR then (Inl ENOTTY, dev)
      else if cmd = IOCTL_RESET then (Inr 0, ioctl_dev_set_default dev)
      else if cmd = IOCTL_HOWMANY then ioctl_howmany capable dev arg
      else if cmd = IOCTL_MESSAGE then ioctl_message dev uarg
      else (Inl ENOTTY, dev))"

subsection \<open>The module\<close>

datatype ioctl_res = IlDev | IlRegion | IlCdev

definition il_err_free :: "ioctl_res call list" where [life_defs]: "il_err_free = [Rel IlDev]"
definition il_err_unregister :: "ioctl_res call list" where [life_defs]: "il_err_unregister = Rel IlRegion # il_err_free"

definition ioctl_m_init :: "ioctl_res answers \<Rightarrow> errno option \<times> ioctl_res call list" where
  "ioctl_m_init F =
     if_err (F IlDev) (\<lambda>_. (Some ENOMEM, []))
     (if_err (F IlRegion) (\<lambda>e. (Some e, [Acq IlDev] @ il_err_free))
     (if_err (F IlCdev) (\<lambda>e. (Some e, [Acq IlDev, Acq IlRegion] @ il_err_unregister))
        (None, [Acq IlDev, Acq IlRegion, Acq IlCdev])))"

definition ioctl_m_exit :: "ioctl_res call list" where
  "ioctl_m_exit = [Rel IlCdev, Rel IlRegion, Rel IlDev]"

lemma ioctl_module_clean: "clean ioctl_m_init ioctl_m_exit"
  by (simp add: clean_def ioctl_m_init_def ioctl_m_exit_def life_defs if_err_def split: option.split)

subsection \<open>The content of the file\<close>

definition ioctl_inv :: "ioctl_dev \<Rightarrow> bool" where
  "ioctl_inv dev \<longleftrightarrow> length (il_buff dev) = IOCTL_BUFF_SIZE \<and> il_buf_len dev \<le> IOCTL_BUFF_SIZE \<and> unat (il_howmany dev) < 2 ^ 31"

definition ioctl_message_of :: "ioctl_dev \<Rightarrow> byte list" where
  "ioctl_message_of dev = take (il_buf_len dev) (il_buff dev)"

definition ioctl_content :: "ioctl_dev \<Rightarrow> byte list" where
  "ioctl_content dev = concat (replicate (unat (il_howmany dev)) (ioctl_message_of dev))"

lemma length_concat_replicate: "length (concat (replicate k xs)) = k * length xs"
  by (induction k) simp_all

lemma nth_concat_replicate: "i < k * length xs \<Longrightarrow> concat (replicate k xs) ! i = xs ! (i mod length xs)"
proof (induction k arbitrary: i)
  case (Suc k)
  then show ?case by (cases "i < length xs") (simp_all add: nth_append le_mod_geq)
qed simp

lemma ioctl_default_inv:
  assumes "length (il_buff dev) = IOCTL_BUFF_SIZE"
  shows "ioctl_inv (ioctl_dev_set_default dev)" "ioctl_message_of (ioctl_dev_set_default dev) = DEFAULT_MESSAGE"
  by (simp_all add: ioctl_inv_def ioctl_message_of_def ioctl_dev_set_default_def IOCTL_BUFF_SIZE_def DEFAULT_MESSAGE_def
      DEFAULT_HOWMANY_def mem_put_def)

lemma ioctl_message_sets:
  assumes "ioctl_inv dev" and "msg n = (0, bs)" and "length bs = n" and "n \<le> IOCTL_BUFF_SIZE"
  shows "\<exists>dev'. ioctl_message dev (Some (of_nat n, msg)) = (Inr 0, dev') \<and> ioctl_message_of dev' = bs \<and>
    il_howmany dev' = il_howmany dev \<and> ioctl_inv dev'"
proof -
  have "take_bit 32 n = n" using assms(4) by (simp add: IOCTL_BUFF_SIZE_def take_bit_nat_eq_self)
  then have "sint (of_nat n :: 32 word) = int n"
    using assms(4) by (simp add: IOCTL_BUFF_SIZE_def sint_uint unsigned_of_nat signed_take_bit_int_eq_self)
  then show ?thesis
    using assms by (simp add: ioctl_message_def Let_def ioctl_message_of_def ioctl_inv_def mem_put_def)
qed

lemma ioctl_howmany_sets:
  assumes "ioctl_inv dev" and "k < 2 ^ 31"
  shows "\<exists>dev'. ioctl_howmany True dev (of_nat k) = (Inr (uint (il_howmany dev)), dev') \<and> unat (il_howmany dev') = k \<and>
    ioctl_message_of dev' = ioctl_message_of dev \<and> ioctl_inv dev'"
proof -
  have "unat (of_nat k :: 64 word) = k" using assms(2) by (simp add: unsigned_of_nat take_bit_nat_eq_self)
  then have "\<not> (of_nat k :: 64 word) > INT_MAX" using assms(2) by (simp add: INT_MAX_def word_less_nat_alt)
  moreover have "unat (ucast (of_nat k :: 64 word) :: 32 word) = k"
    using assms(2) by (simp add: unsigned_ucast_eq unsigned_of_nat take_bit_nat_eq_self)
  ultimately show ?thesis using assms by (simp add: ioctl_howmany_def ioctl_inv_def ioctl_message_of_def)
qed

text \<open>No command breaks the invariant, whatever its number, arguments and outcome.\<close>

lemma ioctl_ioctl_inv:
  assumes "ioctl_inv dev" and "ioctl_ioctl capable dev cmd arg uarg = (r, dev')"
    and "\<forall>len msg. uarg = Some (len, msg) \<longrightarrow> from_user_ok msg"
  shows "ioctl_inv dev'"
proof -
  have reset: "ioctl_inv (ioctl_dev_set_default dev)" using assms(1) ioctl_default_inv(1) by (simp add: ioctl_inv_def)
  have howmany: "ioctl_inv (snd (ioctl_howmany capable dev arg))"
  proof (cases "arg > INT_MAX")
    case False
    then have le: "unat arg < 2 ^ 31" by (simp add: INT_MAX_def word_le_nat_alt not_less)
    then have "unat (ucast arg :: 32 word) = unat arg"
      by (simp add: unsigned_ucast_eq unsigned_take_bit_eq take_bit_nat_eq_self)
    then show ?thesis using assms(1) le by (simp add: ioctl_howmany_def ioctl_inv_def)
  qed (use assms(1) in \<open>simp add: ioctl_howmany_def\<close>)
  have message: "ioctl_inv (snd (ioctl_message dev uarg))"
  proof (cases uarg)
    case (Some a)
    obtain len msg where a: "a = (len, msg)" by fastforce
    have l: "length (snd (msg n)) = n" for n using assms(3) Some a by (metis from_user_ok_length)
    show ?thesis
      using assms(1) l [of "nat (sint len)"] Some a
      by (auto simp: ioctl_message_def ioctl_inv_def Let_def case_prod_unfold length_mem_put nat_le_iff)
  qed (use assms(1) in \<open>simp add: ioctl_message_def\<close>)
  show ?thesis
    using assms(1,2) reset howmany message by (auto simp: ioctl_ioctl_def split: if_splits)
qed

lemma ioctl_position_bound:
  assumes "ioctl_inv dev" and "ioctl_read ctu dev pos count = (r, pos')" and "pos' \<noteq> pos"
  shows "pos' \<le> 2 ^ 31 * 4096"
proof -
  let ?l = "il_buf_len dev"
  have p: "pos div ?l < unat (il_howmany dev)" "0 < ?l" "pos' = pos + min count (?l - pos mod ?l)"
    using assms(2,3) by (auto simp: ioctl_read_def Let_def split: if_splits)
  have "pos' \<le> pos div ?l * ?l + ?l"
    using p(2) div_mult_mod_eq [of pos ?l] mod_less_divisor [OF p(2), of pos] unfolding p(3) by linarith
  also have "\<dots> = (pos div ?l + 1) * ?l" by simp
  also have "\<dots> \<le> 2 ^ 31 * 4096"
    using p(1) assms(1) by (intro mult_mono) (simp_all add: ioctl_inv_def IOCTL_BUFF_SIZE_def)
  finally show ?thesis .
qed

text \<open>A read that the user's memory can take, as a program's loop sees it.\<close>

definition ioctl_rd :: "ioctl_dev \<Rightarrow> nat \<Rightarrow> nat \<Rightarrow> byte list result \<times> ioctl_dev" where
  "ioctl_rd dev pos count = (fst (ioctl_read (\<lambda>_. 0) dev pos count), dev)"

definition ioctl_view :: "ioctl_dev \<Rightarrow> nat \<Rightarrow> byte option" where
  "ioctl_view dev pos = (if pos < length (ioctl_content dev) then Some (ioctl_content dev ! pos) else None)"

lemma ioctl_rd_eq:
  assumes "ioctl_inv dev"
  shows "ioctl_rd dev pos count =
    (Inr (if pos < length (ioctl_content dev) then mem_get (pos mod il_buf_len dev) (min count (il_buf_len dev - pos mod il_buf_len dev)) (il_buff dev)
          else []), dev)"
proof -
  let ?l = "il_buf_len dev"
  have len: "length (ioctl_content dev) = unat (il_howmany dev) * ?l"
    using assms by (simp add: ioctl_content_def ioctl_message_of_def length_concat_replicate ioctl_inv_def)
  have "pos < length (ioctl_content dev) \<longleftrightarrow> ?l \<noteq> 0 \<and> pos div ?l < unat (il_howmany dev)"
    unfolding len by (cases "?l = 0") (simp_all add: div_less_iff_less_mult)
  then show ?thesis by (auto simp: ioctl_rd_def ioctl_read_def Let_def)
qed

interpretation ioctl_source: byte_source ioctl_inv ioctl_view ioctl_rd lim for lim
proof
  fix dev :: ioctl_dev and count pos :: nat and b
  assume i: "ioctl_inv dev" and c: "0 < count" and v: "ioctl_view dev pos = Some b"
  then have p: "pos < length (ioctl_content dev)" by (simp add: ioctl_view_def split: if_splits)
  then have "0 < il_buf_len dev" by (cases "il_buf_len dev") (simp_all add: ioctl_content_def ioctl_message_of_def)
  then show "\<exists>bs s'. ioctl_rd dev pos count = (Inr bs, s') \<and> bs \<noteq> []"
    using i c p by (simp add: ioctl_rd_eq mem_get_def ioctl_inv_def) (meson less_le_trans mod_less_divisor not_le)
next
  fix dev s' :: ioctl_dev and count pos :: nat and bs
  assume i: "ioctl_inv dev" and r: "ioctl_rd dev pos count = (Inr bs, s')"
  let ?l = "il_buf_len dev" and ?k = "unat (il_howmany dev)"
  have l: "length (ioctl_message_of dev) = ?l" using i by (simp add: ioctl_message_of_def ioctl_inv_def)
  have s': "s' = dev" using r by (simp add: ioctl_rd_def)
  have at: "ioctl_view dev (pos + j) = Some (bs ! j)" if j: "j < length bs" for j
  proof -
    have p: "pos < length (ioctl_content dev)" and bs: "bs = mem_get (pos mod ?l) (min count (?l - pos mod ?l)) (il_buff dev)"
      using r j i by (auto simp: ioctl_rd_eq split: if_splits)
    have jl: "pos mod ?l + j < ?l" using j bs by (simp add: less_diff_conv add.commute)
    have lc: "length (ioctl_content dev) = ?k * ?l" by (simp add: ioctl_content_def length_concat_replicate l)
    have "pos div ?l < ?k" using p lc jl by (simp add: div_less_iff_less_mult)
    then have "(pos div ?l + 1) * ?l \<le> ?k * ?l" by (intro mult_right_mono) simp_all
    then have in_c: "pos + j < ?k * ?l" using jl div_mult_mod_eq [of pos ?l] unfolding distrib_right by linarith
    have "(pos + j) mod ?l = pos mod ?l + j" using jl mod_add_left_eq [of pos ?l j] by simp
    then have "ioctl_content dev ! (pos + j) = ioctl_message_of dev ! (pos mod ?l + j)"
      using nth_concat_replicate [of "pos + j" ?k "ioctl_message_of dev"] in_c by (simp add: ioctl_content_def l)
    also have "\<dots> = bs ! j" using jl j i by (simp add: bs ioctl_message_of_def nth_mem_get ioctl_inv_def)
    finally show ?thesis using in_c lc by (simp add: ioctl_view_def)
  qed
  have "length bs \<le> count" using r i by (auto simp: ioctl_rd_eq split: if_splits)
  then show "ioctl_inv s' \<and> ioctl_view s' = ioctl_view dev \<and> length bs \<le> count \<and> view_at (ioctl_view dev) pos bs"
    using i at by (simp add: s' view_at_def)
qed

subsection \<open>Properties\<close>

lemma ioctl_commands:
  "IOC_TYPE IOCTL_HOWMANY = IOCTL_IOC_MAGIC" "\<not> IOC_NR IOCTL_HOWMANY > IOCTL_MAXNR" "IOCTL_HOWMANY \<noteq> IOCTL_RESET"
  "IOC_TYPE IOCTL_MESSAGE = IOCTL_IOC_MAGIC" "\<not> IOC_NR IOCTL_MESSAGE > IOCTL_MAXNR" "IOCTL_MESSAGE \<noteq> IOCTL_RESET"
  "IOCTL_MESSAGE \<noteq> IOCTL_HOWMANY"
  by (simp_all add: IOC_TYPE_def IOC_NR_def IOCTL_HOWMANY_def IOCTL_MESSAGE_def IOCTL_RESET_def IOC_def IOCTL_IOC_MAGIC_def IOCTL_MAXNR_def)

text \<open>
  What is set is what is read: after a message and, by a privileged caller, a count have been
  set, a program that reads the file in a loop, in pieces of whatever size the driver gives, gets
  the message repeated that many times and then the end of the file.
\<close>

lemma ioctl_set_then_read:
  assumes "ioctl_inv dev" and "length bs \<le> IOCTL_BUFF_SIZE" and "msg (length bs) = (0, bs)" and "k < 2 ^ 31"
  shows "\<exists>dev1 dev2 old. ioctl_ioctl cap dev IOCTL_MESSAGE arg (Some (of_nat (length bs), msg)) = (Inr 0, dev1) \<and>
    ioctl_ioctl True dev1 IOCTL_HOWMANY (of_nat k) uarg = (Inr old, dev2) \<and>
    read_all ioctl_rd (k * length bs) dev2 0 (k * length bs) = Some (concat (replicate k bs)) \<and>
    ioctl_read ctu dev2 (k * length bs) count = (Inr [], k * length bs)"
proof -
  obtain dev1 where m: "ioctl_message dev (Some (of_nat (length bs), msg)) = (Inr 0, dev1)" "ioctl_message_of dev1 = bs" "ioctl_inv dev1"
    using ioctl_message_sets [of dev msg "length bs" bs] assms(1-3) by blast
  obtain dev2 old where h: "ioctl_howmany True dev1 (of_nat k) = (Inr old, dev2)" "unat (il_howmany dev2) = k"
      "ioctl_message_of dev2 = bs" "ioctl_inv dev2"
    using ioctl_howmany_sets [OF m(3) assms(4)] m(2) by auto
  have c: "ioctl_content dev2 = concat (replicate k bs)" by (simp add: ioctl_content_def h(2,3))
  then have len: "length (ioctl_content dev2) = k * length bs" by (simp add: length_concat_replicate)
  have "view_at (ioctl_view dev2) 0 (ioctl_content dev2)" by (simp add: view_at_def ioctl_view_def)
  then have r: "read_all ioctl_rd (k * length bs) dev2 0 (k * length bs) = Some (concat (replicate k bs))"
    using ioctl_source.read_all_fetches [OF h(4), of 0 "ioctl_content dev2" "k * length bs" "k * length bs"] len c by simp
  have "il_buf_len dev2 = length bs" using h(3,4) by (auto simp: ioctl_message_of_def ioctl_inv_def)
  then have "ioctl_read ctu dev2 (k * length bs) count = (Inr [], k * length bs)"
    using h(2) by (simp add: ioctl_read_def Let_def)
  then show ?thesis using m(1) h(1) r by (simp add: ioctl_ioctl_def ioctl_commands)
qed

definition demo_ioctl :: ioctl_dev where
  "demo_ioctl = ioctl_dev_set_default \<lparr>il_howmany = 0, il_buf_len = 0, il_buff = replicate IOCTL_BUFF_SIZE 0\<rparr>"

lemma ioctl_set_then_read_witness:
  "\<exists>dev1 dev2 old. ioctl_ioctl False demo_ioctl IOCTL_MESSAGE 0 (Some (2, \<lambda>n. (0, [0x68, 0x69]))) = (Inr 0, dev1) \<and>
    ioctl_ioctl True dev1 IOCTL_HOWMANY 2 None = (Inr old, dev2) \<and>
    read_all ioctl_rd 4 dev2 0 4 = Some [0x68, 0x69, 0x68, 0x69] \<and> ioctl_read (\<lambda>_. 0) dev2 4 7 = (Inr [], 4)"
proof -
  have inv: "ioctl_inv demo_ioctl" by (simp add: demo_ioctl_def ioctl_default_inv)
  have len: "length [0x68, 0x69 :: byte] = 2" by simp
  have four: "2 * 2 = (4 :: nat)" by simp
  have rep: "concat (replicate 2 [0x68, 0x69]) = [0x68, 0x69, 0x68, 0x69 :: byte]" by (simp add: numeral_2_eq_2)
  from ioctl_set_then_read [OF inv, of "[0x68, 0x69]" "\<lambda>n. (0, [0x68, 0x69])" 2 False 0 None "\<lambda>_. 0" 7] show ?thesis
    unfolding len four rep by (simp add: IOCTL_BUFF_SIZE_def)
qed

text \<open>Without the privilege the count is refused and nothing changes; so is an unknown command.\<close>

lemma ioctl_refused:
  "ioctl_ioctl False dev IOCTL_HOWMANY arg uarg = (Inl EPERM, dev)"
  "IOC_TYPE cmd \<noteq> IOCTL_IOC_MAGIC \<Longrightarrow> ioctl_ioctl cap dev cmd arg uarg = (Inl ENOTTY, dev)"
  by (simp_all add: ioctl_ioctl_def ioctl_commands ioctl_howmany_def)

end
