(* ===== verification/Seeking.thy ===== *)
theory Seeking
  imports Byte_Store Lifecycle
begin

unbundle bit_operations_syntax

section \<open>12_seeking: a table without an end\<close>

text \<open>
  \<open>src/examples/12_seeking\<close>. The file is a table of sixteen characters over and over; positions
  wrap around. Positions and offsets are \<open>loff_t\<close>, 64-bit signed; the sums of \<open>llseek\<close> wrap (the
  kernel is built so that they do), which \<open>wrap64\<close> writes out.
\<close>

definition HEX_DICT :: "byte list" where
  "HEX_DICT = map of_char ''0123456789ABCDEF''"

definition HEX_DICT_LEN :: nat where "HEX_DICT_LEN = 16"

record seeking_dev =
  se_buff :: "byte list"

definition wrap64 :: "int \<Rightarrow> int" where
  "wrap64 x = signed_take_bit 63 x"

definition seeking_read :: "bool \<Rightarrow> to_user \<Rightarrow> seeking_dev \<Rightarrow> int \<Rightarrow> nat \<Rightarrow> byte list result \<times> int" where
  "seeking_read intr ctu dev f_pos count0 =
     (if f_pos < 0 then (Inl EINVAL, f_pos)
      else let pos = nat (f_pos mod int HEX_DICT_LEN) in
        if intr then (Inl ERESTARTSYS, f_pos)
        else let count = min count0 (HEX_DICT_LEN - pos); bs = mem_get pos count (se_buff dev) in
          if ctu bs \<noteq> 0 then (Inl EFAULT, f_pos) else (Inr bs, int ((pos + count) mod HEX_DICT_LEN)))"

datatype whence = SEEK_SET | SEEK_CUR | SEEK_END | SEEK_OTHER nat

definition seeking_llseek :: "int \<Rightarrow> int \<Rightarrow> whence \<Rightarrow> int result \<times> int" where
  "seeking_llseek f_pos off whence =
     (case (case whence of SEEK_SET \<Rightarrow> Some off | SEEK_CUR \<Rightarrow> Some (wrap64 (f_pos + off))
              | SEEK_END \<Rightarrow> Some (wrap64 (int HEX_DICT_LEN + off)) | SEEK_OTHER _ \<Rightarrow> None) of
        None \<Rightarrow> (Inl EINVAL, f_pos)
      | Some newpos \<Rightarrow>
          if newpos < 0 then (Inl EINVAL, f_pos)
          else let newpos = newpos mod int HEX_DICT_LEN in (Inr newpos, newpos))"

definition seeking_new :: seeking_dev where
  "seeking_new = \<lparr>se_buff = mem_put 0 HEX_DICT (replicate HEX_DICT_LEN 0)\<rparr>"

subsection \<open>The module\<close>

datatype seeking_res = SkDev | SkRegion | SkCdev

definition sk_err_free :: "seeking_res call list" where [life_defs]: "sk_err_free = [Rel SkDev]"
definition sk_err_unregister :: "seeking_res call list" where [life_defs]: "sk_err_unregister = Rel SkRegion # sk_err_free"

definition seeking_m_init :: "seeking_res answers \<Rightarrow> errno option \<times> seeking_res call list" where
  "seeking_m_init F =
     if_err (F SkDev) (\<lambda>_. (Some ENOMEM, []))
     (if_err (F SkRegion) (\<lambda>e. (Some e, [Acq SkDev] @ sk_err_free))
     (if_err (F SkCdev) (\<lambda>e. (Some e, [Acq SkDev, Acq SkRegion] @ sk_err_unregister))
        (None, [Acq SkDev, Acq SkRegion, Acq SkCdev])))"

definition seeking_m_exit :: "seeking_res call list" where
  "seeking_m_exit = [Rel SkCdev, Rel SkRegion, Rel SkDev]"

lemma seeking_module_clean: "clean seeking_m_init seeking_m_exit"
  by (simp add: clean_def seeking_m_init_def seeking_m_exit_def life_defs if_err_def split: option.split)

subsection \<open>What is read\<close>

lemma seeking_buff: "se_buff seeking_new = HEX_DICT" "length HEX_DICT = HEX_DICT_LEN" "0 < HEX_DICT_LEN"
  by (simp_all add: seeking_new_def HEX_DICT_def HEX_DICT_LEN_def mem_put_def)

definition seeking_rd :: "seeking_dev \<Rightarrow> nat \<Rightarrow> nat \<Rightarrow> byte list result \<times> seeking_dev" where
  "seeking_rd dev pos count = (fst (seeking_read False (\<lambda>_. 0) dev (int pos) count), dev)"

definition seeking_view :: "seeking_dev \<Rightarrow> nat \<Rightarrow> byte option" where
  "seeking_view dev pos = Some (HEX_DICT ! (pos mod HEX_DICT_LEN))"

lemma seeking_rd_eq:
  "seeking_rd seeking_new pos count =
    (Inr (mem_get (pos mod HEX_DICT_LEN) (min count (HEX_DICT_LEN - pos mod HEX_DICT_LEN)) HEX_DICT), seeking_new)"
  by (simp add: seeking_rd_def seeking_read_def seeking_buff Let_def nat_mod_distrib)

interpretation seeking_source: byte_source "\<lambda>dev. dev = seeking_new" seeking_view seeking_rd lim for lim
proof
  fix dev :: seeking_dev and count pos :: nat and b
  assume "dev = seeking_new" "0 < count"
  then show "\<exists>bs s'. seeking_rd dev pos count = (Inr bs, s') \<and> bs \<noteq> []"
    by (simp add: seeking_rd_eq mem_get_def seeking_buff not_le)
next
  fix dev s' :: seeking_dev and count pos :: nat and bs
  assume d: "dev = seeking_new" and r: "seeking_rd dev pos count = (Inr bs, s')"
  have at: "seeking_view dev (pos + j) = Some (bs ! j)" if "j < length bs" for j
  proof -
    have bs: "bs = mem_get (pos mod HEX_DICT_LEN) (min count (HEX_DICT_LEN - pos mod HEX_DICT_LEN)) HEX_DICT"
      using r by (simp add: d seeking_rd_eq)
    have j: "pos mod HEX_DICT_LEN + j < HEX_DICT_LEN" using that by (simp add: bs less_diff_conv add.commute)
    then have "(pos + j) mod HEX_DICT_LEN = pos mod HEX_DICT_LEN + j" using mod_add_left_eq [of pos HEX_DICT_LEN j] by simp
    then show ?thesis using j that by (simp add: seeking_view_def bs nth_mem_get seeking_buff)
  qed
  then show "s' = seeking_new \<and> seeking_view s' = seeking_view dev \<and> length bs \<le> count \<and> view_at (seeking_view dev) pos bs"
    using r by (auto simp: d seeking_rd_eq view_at_def)
qed

text \<open>
  From any position a program can read as much as it likes and gets the table over and over; a
  seek that succeeds leaves a position inside the table, and one that would leave it negative, or
  overflow, fails and moves nothing.
\<close>

lemma seeking_reads_table:
  "read_all seeking_rd n seeking_new pos n = Some (map (\<lambda>i. HEX_DICT ! ((pos + i) mod HEX_DICT_LEN)) [0..<n])"
  using seeking_source.read_all_fetches [of seeking_new pos "map (\<lambda>i. HEX_DICT ! ((pos + i) mod HEX_DICT_LEN)) [0..<n]" "pos + n" n]
  by (simp add: view_at_def seeking_view_def)

lemma seeking_llseek_spec:
  assumes "seeking_llseek f_pos off whence = (r, f_pos')"
  shows "case r of Inl e \<Rightarrow> e = EINVAL \<and> f_pos' = f_pos | Inr p \<Rightarrow> p = f_pos' \<and> 0 \<le> p \<and> p < int HEX_DICT_LEN"
  using assms seeking_buff(3)
  by (auto simp: seeking_llseek_def Let_def split: whence.splits option.splits if_splits)

lemma seeking_cur_moves:
  assumes "0 \<le> f_pos" and "f_pos < int HEX_DICT_LEN" and "\<bar>off\<bar> < 2 ^ 62" and "0 \<le> f_pos + off"
  shows "seeking_llseek f_pos off SEEK_CUR = (Inr ((f_pos + off) mod int HEX_DICT_LEN), (f_pos + off) mod int HEX_DICT_LEN)"
proof -
  have "wrap64 (f_pos + off) = f_pos + off"
    using assms by (simp add: wrap64_def signed_take_bit_int_eq_self HEX_DICT_LEN_def)
  then show ?thesis using assms(4) by (simp add: seeking_llseek_def Let_def)
qed

end
