(* ===== verification/Poll.thy ===== *)
theory Poll
  imports Lifecycle
begin

section \<open>10_poll: readiness flags, sleeping readers and a timer\<close>

text \<open>
  \<open>src/examples/10_poll\<close>. A timer makes the device readable at every interval and writable at every
  second one; a read or write takes the flag with an atomic exchange or sleeps until it is set.
  \<open>take_flag\<close> is modelled step by step, for any number of processes on both wait queues, with the
  steps of \<open>wait_event_interruptible\<close>: the process puts itself on the queue, looks at the flag
  again, and only then sleeps. The timer function is several steps too: it sets a flag and then
  wakes the queue.
\<close>

definition POLL_BUFF_SIZE :: nat where "POLL_BUFF_SIZE = 4096"
definition DFT_MSG :: "byte list" where "DFT_MSG = map of_char ''Hello World!''"

record poll_dev =
  pl_buf_len :: nat
  pl_buff :: "byte list"

definition init_dev :: "poll_dev \<Rightarrow> poll_dev" where
  "init_dev dev = dev\<lparr>pl_buf_len := length DFT_MSG, pl_buff := mem_put 0 DFT_MSG (pl_buff dev)\<rparr>"

text \<open>The two operations, given what \<open>take_flag\<close> returned.\<close>

definition poll_read :: "errno option \<Rightarrow> bool \<Rightarrow> to_user \<Rightarrow> nat \<Rightarrow> poll_dev \<Rightarrow> byte list result" where
  "poll_read taken intr ctu count dev =
     if_err taken Inl
       (if intr then Inl ERESTARTSYS
        else let bs = mem_get 0 (min count (pl_buf_len dev)) (pl_buff dev)
             in if ctu bs \<noteq> 0 then Inl EFAULT else Inr bs)"

definition poll_write :: "errno option \<Rightarrow> bool \<Rightarrow> from_user \<Rightarrow> nat \<Rightarrow> poll_dev \<Rightarrow> nat result \<times> poll_dev" where
  "poll_write taken intr cfu count0 dev =
     if_err taken (\<lambda>e. (Inl e, dev))
       (if intr then (Inl ERESTARTSYS, dev)
        else let count = min count0 POLL_BUFF_SIZE; (left, bs) = cfu count; dev1 = dev\<lparr>pl_buff := mem_put 0 bs (pl_buff dev)\<rparr>
             in if left \<noteq> 0 then (Inl EFAULT, dev1) else (Inr count, dev1\<lparr>pl_buf_len := count\<rparr>))"

datatype poll_bit = EPOLLIN | EPOLLRDNORM | EPOLLOUT | EPOLLWRNORM

datatype poll_dir = Rd | Wr

definition poll_poll :: "(poll_dir \<Rightarrow> bool) \<Rightarrow> poll_bit set" where
  "poll_poll flag = (if flag Rd then {EPOLLIN, EPOLLRDNORM} else {}) \<union> (if flag Wr then {EPOLLOUT, EPOLLWRNORM} else {})"

subsection \<open>Taking the flag\<close>

datatype take_pc = TTry | TPrepare | TCheck | TAsleep | TTaken | TReturned errno

record poll_proc =
  pp_dir :: poll_dir
  pp_nonblock :: bool
  pp_pc :: take_pc
  pp_queued :: bool

text \<open>
  \<open>pp_queued\<close> says that a process is on its wait queue in state \<open>TASK_INTERRUPTIBLE\<close>; \<open>ps_odd\<close> that
  the timer function has still to look at the counter. \<open>ps_ticks\<close> counts its runs, \<open>ps_takes\<close> how
  often each flag was taken.
\<close>

datatype timer_pc = TimerIdle | TimerWake poll_dir

record poll_sys =
  ps_flag :: "poll_dir \<Rightarrow> bool"
  ps_counter :: "64 word"
  ps_timer :: timer_pc
  ps_odd :: bool
  ps_proc :: "nat \<Rightarrow> poll_proc"
  ps_ticks :: nat
  ps_takes :: "poll_dir \<Rightarrow> nat"

definition set_pc :: "nat \<Rightarrow> take_pc \<Rightarrow> bool \<Rightarrow> poll_sys \<Rightarrow> poll_sys" where
  "set_pc p pc queued s = s\<lparr>ps_proc := (ps_proc s)(p := (ps_proc s p)\<lparr>pp_pc := pc, pp_queued := queued\<rparr>)\<rparr>"

definition woken :: "poll_proc \<Rightarrow> poll_proc" where
  "woken q = q\<lparr>pp_queued := False, pp_pc := (if pp_pc q = TAsleep then TPrepare else pp_pc q)\<rparr>"

definition wake_queue :: "poll_dir \<Rightarrow> poll_sys \<Rightarrow> poll_sys" where
  "wake_queue d s = s\<lparr>ps_proc := (\<lambda>p. if pp_dir (ps_proc s p) = d \<and> pp_queued (ps_proc s p) then woken (ps_proc s p) else ps_proc s p)\<rparr>"

text \<open>The whole timer function, undisturbed; below its steps.\<close>

definition timer_set :: "poll_dir \<Rightarrow> poll_sys \<Rightarrow> poll_sys" where
  "timer_set d s = s\<lparr>ps_flag := (ps_flag s)(d := True)\<rparr>"

definition timer_fn :: "poll_sys \<Rightarrow> poll_sys" where
  "timer_fn s =
     (let s1 = s\<lparr>ps_counter := ps_counter s + 1, ps_ticks := ps_ticks s + 1\<rparr>;
          s2 = wake_queue Rd (timer_set Rd s1)
      in if bit (ps_counter s2) 0 then wake_queue Wr (timer_set Wr s2) else s2)"

inductive poll_step :: "poll_sys \<Rightarrow> poll_sys \<Rightarrow> bool" where
  take_ok: "pp_pc (ps_proc s p) = TTry \<Longrightarrow> d = pp_dir (ps_proc s p) \<Longrightarrow> ps_flag s d \<Longrightarrow>
    poll_step s (set_pc p TTaken False (s\<lparr>ps_flag := (ps_flag s)(d := False), ps_takes := (ps_takes s)(d := ps_takes s d + 1)\<rparr>))"
| take_again: "pp_pc (ps_proc s p) = TTry \<Longrightarrow> \<not> ps_flag s (pp_dir (ps_proc s p)) \<Longrightarrow> pp_nonblock (ps_proc s p) \<Longrightarrow>
    poll_step s (set_pc p (TReturned EAGAIN) False s)"
| take_wait: "pp_pc (ps_proc s p) = TTry \<Longrightarrow> \<not> ps_flag s (pp_dir (ps_proc s p)) \<Longrightarrow> \<not> pp_nonblock (ps_proc s p) \<Longrightarrow>
    poll_step s (set_pc p TPrepare False s)"
| take_prepare: "pp_pc (ps_proc s p) = TPrepare \<Longrightarrow> poll_step s (set_pc p TCheck True s)"
| take_signal: "pp_pc (ps_proc s p) = TPrepare \<Longrightarrow> poll_step s (set_pc p (TReturned ERESTARTSYS) False s)"
| take_see: "pp_pc (ps_proc s p) = TCheck \<Longrightarrow> ps_flag s (pp_dir (ps_proc s p)) \<Longrightarrow> poll_step s (set_pc p TTry False s)"
| take_sleep: "pp_pc (ps_proc s p) = TCheck \<Longrightarrow> \<not> ps_flag s (pp_dir (ps_proc s p)) \<Longrightarrow>
    poll_step s (if pp_queued (ps_proc s p) then set_pc p TAsleep True s else set_pc p TPrepare False s)"
| take_interrupted: "pp_pc (ps_proc s p) = TAsleep \<Longrightarrow> poll_step s (set_pc p TPrepare False s)"
| take_new: "pp_pc (ps_proc s p) = TTaken \<or> pp_pc (ps_proc s p) = TReturned e \<Longrightarrow> pp_dir q = pp_dir (ps_proc s p) \<Longrightarrow>
    pp_pc q = TTry \<Longrightarrow> \<not> pp_queued q \<Longrightarrow> poll_step s (s\<lparr>ps_proc := (ps_proc s)(p := q)\<rparr>)"
| timer_readable: "ps_timer s = TimerIdle \<Longrightarrow> \<not> ps_odd s \<Longrightarrow>
    poll_step s (timer_set Rd (s\<lparr>ps_counter := ps_counter s + 1, ps_ticks := ps_ticks s + 1, ps_timer := TimerWake Rd\<rparr>))"
| timer_wake: "ps_timer s = TimerWake d \<Longrightarrow>
    poll_step s ((wake_queue d s)\<lparr>ps_timer := TimerIdle, ps_odd := (d = Rd)\<rparr>)"
| timer_writable: "ps_timer s = TimerIdle \<Longrightarrow> ps_odd s \<Longrightarrow> bit (ps_counter s) 0 \<Longrightarrow>
    poll_step s (timer_set Wr (s\<lparr>ps_timer := TimerWake Wr, ps_odd := False\<rparr>))"
| timer_even: "ps_timer s = TimerIdle \<Longrightarrow> ps_odd s \<Longrightarrow> \<not> bit (ps_counter s) 0 \<Longrightarrow> poll_step s (s\<lparr>ps_odd := False\<rparr>)"

inductive_cases poll_stepE: "poll_step s t"

subsection \<open>The module\<close>

text \<open>\<open>PlTimer\<close> is the timer armed, by the last call of \<open>m_init\<close>, which cannot fail.\<close>

datatype poll_res = PlDev | PlRegion | PlCdev | PlTimer

definition poll_m_init :: "poll_res answers \<Rightarrow> errno option \<times> poll_res call list" where
  "poll_m_init F =
     if_err (F PlDev) (\<lambda>_. (Some ENOMEM, []))
     (if_err (F PlRegion) (\<lambda>e. (Some e, [Acq PlDev, Rel PlDev]))
     (if_err (F PlCdev) (\<lambda>e. (Some e, [Acq PlDev, Acq PlRegion, Rel PlRegion, Rel PlDev]))
        (None, [Acq PlDev, Acq PlRegion, Acq PlCdev, Acq PlTimer])))"

definition poll_m_exit :: "poll_res call list" where
  "poll_m_exit = [Rel PlCdev, Rel PlTimer, Rel PlRegion, Rel PlDev]"

lemma poll_module_clean: "clean_any poll_m_init poll_m_exit"
  by (simp add: clean_any_def poll_m_init_def poll_m_exit_def if_err_def split: option.split)

subsection \<open>No tick is lost, none is taken twice\<close>

definition poll_start :: "(nat \<Rightarrow> poll_proc) \<Rightarrow> poll_sys" where
  "poll_start procs = \<lparr>ps_flag = (\<lambda>_. False), ps_counter = 0, ps_timer = TimerIdle, ps_odd = False, ps_proc = procs,
     ps_ticks = 0, ps_takes = (\<lambda>_. 0)\<rparr>"

definition procs_fresh :: "(nat \<Rightarrow> poll_proc) \<Rightarrow> bool" where
  "procs_fresh procs \<longleftrightarrow> (\<forall>p. pp_pc (procs p) = TTry \<and> \<not> pp_queued (procs p))"

text \<open>How often the writable flag has been set: at every odd tick, the last one perhaps not yet.\<close>

definition wr_sets :: "poll_sys \<Rightarrow> nat" where
  "wr_sets s = (if ps_timer s = TimerWake Rd \<or> ps_odd s then ps_ticks s div 2 else (ps_ticks s + 1) div 2)"

definition poll_inv :: "poll_sys \<Rightarrow> bool" where
  "poll_inv s \<longleftrightarrow>
     (\<forall>p. pp_pc (ps_proc s p) = TAsleep \<longrightarrow> pp_queued (ps_proc s p) \<and>
        (ps_flag s (pp_dir (ps_proc s p)) \<longrightarrow> ps_timer s = TimerWake (pp_dir (ps_proc s p)))) \<and>
     (ps_timer s \<noteq> TimerIdle \<longrightarrow> \<not> ps_odd s) \<and>
     ps_counter s = of_nat (ps_ticks s) \<and>
     (ps_timer s = TimerWake Wr \<longrightarrow> odd (ps_ticks s)) \<and>
     ps_takes s Rd + of_bool (ps_flag s Rd) \<le> ps_ticks s \<and>
     ps_takes s Wr + of_bool (ps_flag s Wr) \<le> wr_sets s"

lemma bit_0_of_nat64: "bit (of_nat n :: 64 word) 0 \<longleftrightarrow> odd n"
  by (simp add: bit_0)

lemmas poll_defs = poll_inv_def set_pc_def wr_sets_def wake_queue_def woken_def timer_set_def

lemma poll_step_inv: "poll_step s t \<Longrightarrow> poll_inv s \<Longrightarrow> poll_inv t"
proof (induction rule: poll_step.induct)
  case (take_ok s p d)
  then show ?case by (cases d) (auto simp: poll_defs)
next
  case (timer_wake s d)
  then show ?case by (cases d) (auto simp: poll_defs)
next
  case (timer_writable s)
  then have "odd (ps_ticks s)" by (simp add: poll_inv_def bit_0_of_nat64)
  then show ?case using timer_writable by (auto simp: poll_defs elim!: oddE)
next
  case (timer_even s)
  then have "even (ps_ticks s)" by (simp add: poll_inv_def bit_0_of_nat64)
  then show ?case using timer_even by (auto simp: poll_defs elim!: evenE)
qed (auto simp: poll_defs split: if_splits)

lemma poll_reach_inv:
  assumes "poll_step\<^sup>*\<^sup>* (poll_start procs) s" and "procs_fresh procs"
  shows "poll_inv s"
  using assms(1)
proof (induction rule: rtranclp_induct)
  case base
  show ?case using assms(2) by (simp add: poll_defs poll_start_def procs_fresh_def)
qed (rule poll_step_inv)

text \<open>Undisturbed, the steps of the timer are the function.\<close>

lemma timer_steps:
  assumes "ps_timer s = TimerIdle" and "\<not> ps_odd s"
  shows "poll_step\<^sup>*\<^sup>* s (timer_fn s)"
proof -
  let ?s1 = "timer_set Rd (s\<lparr>ps_counter := ps_counter s + 1, ps_ticks := ps_ticks s + 1, ps_timer := TimerWake Rd\<rparr>)"
  let ?s2 = "(wake_queue Rd ?s1)\<lparr>ps_timer := TimerIdle, ps_odd := True\<rparr>"
  have one: "poll_step s ?s1" using assms by (rule timer_readable)
  have two: "poll_step ?s1 ?s2" using timer_wake [of ?s1 Rd] by (simp add: timer_set_def)
  have rest: "poll_step\<^sup>*\<^sup>* ?s2 (timer_fn s)"
  proof (cases "bit (ps_counter s + 1) 0")
    case True
    let ?s3 = "timer_set Wr (?s2\<lparr>ps_timer := TimerWake Wr, ps_odd := False\<rparr>)"
    have "poll_step ?s2 ?s3" using True by (intro timer_writable) (simp_all add: wake_queue_def timer_set_def)
    moreover have "poll_step ?s3 ((wake_queue Wr ?s3)\<lparr>ps_timer := TimerIdle, ps_odd := False\<rparr>)"
      using timer_wake [of ?s3 Wr] by (simp add: timer_set_def)
    moreover have "(wake_queue Wr ?s3)\<lparr>ps_timer := TimerIdle, ps_odd := False\<rparr> = timer_fn s"
      using True assms by (intro poll_sys.equality) (auto simp: timer_fn_def Let_def wake_queue_def timer_set_def fun_eq_iff)
    ultimately show ?thesis by (metis (no_types, lifting) converse_rtranclp_into_rtranclp rtranclp.rtrancl_refl)
  next
    case False
    have "poll_step ?s2 (?s2\<lparr>ps_odd := False\<rparr>)" using False by (intro timer_even) (simp_all add: wake_queue_def timer_set_def)
    moreover have "?s2\<lparr>ps_odd := False\<rparr> = timer_fn s"
      using False assms by (intro poll_sys.equality) (auto simp: timer_fn_def Let_def wake_queue_def timer_set_def fun_eq_iff)
    ultimately show ?thesis by (metis r_into_rtranclp)
  qed
  show ?thesis using one two rest by (meson converse_rtranclp_into_rtranclp)
qed

subsection \<open>Properties\<close>

text \<open>
  C34: In every interleaving of readers, writers and the timer: a process sleeping on a flag that is
  set is about to be woken by the timer function, so no tick is slept through; and no flag is
  taken more often than it was set: reads start at most once per tick, writes at most once per
  second tick.
\<close>

theorem poll_no_lost_tick:
  assumes "poll_step\<^sup>*\<^sup>* (poll_start procs) s" and "procs_fresh procs"
  shows "(pp_pc (ps_proc s p) = TAsleep \<and> ps_flag s (pp_dir (ps_proc s p)) \<longrightarrow> ps_timer s = TimerWake (pp_dir (ps_proc s p))) \<and>
    ps_takes s Rd \<le> ps_ticks s \<and> ps_takes s Wr \<le> (ps_ticks s + 1) div 2"
  using poll_reach_inv [OF assms] by (auto simp: poll_inv_def wr_sets_def split: if_splits)

definition demo_procs :: "nat \<Rightarrow> poll_proc" where
  "demo_procs p = \<lparr>pp_dir = (if p = 0 then Rd else Wr), pp_nonblock = False, pp_pc = TTry, pp_queued = False\<rparr>"

theorem poll_no_lost_tick_witness:
  "\<exists>s. poll_step\<^sup>*\<^sup>* (poll_start demo_procs) s \<and> ps_ticks s = 1 \<and> ps_takes s Rd \<le> 1 \<and> ps_flag s Wr"
proof -
  have "poll_step\<^sup>*\<^sup>* (poll_start demo_procs) (timer_fn (poll_start demo_procs))"
    by (rule timer_steps) (simp_all add: poll_start_def)
  from poll_no_lost_tick [OF this, of 0] have "ps_takes (timer_fn (poll_start demo_procs)) Rd \<le> ps_ticks (timer_fn (poll_start demo_procs))"
    by (simp add: procs_fresh_def demo_procs_def)
  then show ?thesis
    using \<open>poll_step\<^sup>*\<^sup>* (poll_start demo_procs) (timer_fn (poll_start demo_procs))\<close>
    by (intro exI [of _ "timer_fn (poll_start demo_procs)"])
      (simp add: timer_fn_def Let_def poll_start_def wake_queue_def timer_set_def)
qed

text \<open>Reporting the state to \<open>poll\<close> takes no flag, and reports exactly the flags.\<close>

lemma poll_reports_flags:
  "EPOLLIN \<in> poll_poll flag \<longleftrightarrow> flag Rd" "EPOLLOUT \<in> poll_poll flag \<longleftrightarrow> flag Wr"
  by (simp_all add: poll_poll_def)

text \<open>A write replaces the message; a later read gets it, up to the size it asks for.\<close>

lemma poll_write_read:
  assumes "length (pl_buff dev) = POLL_BUFF_SIZE" and "cfu (min n POLL_BUFF_SIZE) = (0, bs)" and "length bs = min n POLL_BUFF_SIZE"
    and "\<forall>bs. ctu bs = 0"
  shows "\<exists>dev'. poll_write None False cfu n dev = (Inr (length bs), dev') \<and> poll_read None False ctu count dev' = Inr (take count bs) \<and>
    length (pl_buff dev') = POLL_BUFF_SIZE"
  using assms by (auto simp: poll_write_def poll_read_def Let_def mem_put_def mem_get_def min_def)

end
