(* ===== verification/Notify.thy ===== *)
theory Notify
  imports Lifecycle
begin

section \<open>06_completion and 11_asynchronous_notification\<close>

text \<open>
  Two small drivers in which a write tells other processes something. In
  \<open>src/examples/06_completion\<close> every write lets one reader go, through a kernel completion, whose
  counter and wait queue are modelled with the steps of \<open>wait_for_completion_interruptible\<close>. In
  \<open>src/examples/11_asynchronous_notification\<close> every write sends SIGIO to the files that asked for it.
\<close>

subsection \<open>Completion\<close>

text \<open>
  \<open>co_queue\<close> are the readers asleep, first come first; \<open>co_woken\<close> those woken that have not run
  yet; \<open>co_returned\<close> counts the reads that returned 0, \<open>co_writes\<close> the writes. The counter
  saturates: with \<open>UINT_MAX\<close> writes nobody has taken it would stay up for good, so the steps stop
  short of that.
\<close>

definition UINT_MAX :: nat where "UINT_MAX = 2 ^ 32 - 1"

record completion_sys =
  co_done :: nat
  co_queue :: "nat list"
  co_woken :: "nat set"
  co_returned :: nat
  co_writes :: nat

definition init_completion :: completion_sys where
  "init_completion = \<lparr>co_done = 0, co_queue = [], co_woken = {}, co_returned = 0, co_writes = 0\<rparr>"

definition complete :: "completion_sys \<Rightarrow> completion_sys" where
  "complete s =
     (let s1 = (if co_done s \<noteq> UINT_MAX then s\<lparr>co_done := co_done s + 1\<rparr> else s)
      in case co_queue s1 of [] \<Rightarrow> s1 | p # q \<Rightarrow> s1\<lparr>co_queue := q, co_woken := insert p (co_woken s1)\<rparr>)"

definition completion_write :: "nat \<Rightarrow> completion_sys \<Rightarrow> nat \<times> completion_sys" where
  "completion_write count s = (count, (complete s)\<lparr>co_writes := co_writes s + 1\<rparr>)"

text \<open>One look at the counter: a reader that finds it positive takes one and returns.\<close>

definition completion_try :: "nat \<Rightarrow> completion_sys \<Rightarrow> completion_sys" where
  "completion_try p s =
     (if co_done s = 0 then s\<lparr>co_queue := co_queue s @ [p]\<rparr>
      else s\<lparr>co_done := (if co_done s \<noteq> UINT_MAX then co_done s - 1 else co_done s), co_returned := co_returned s + 1\<rparr>)"

inductive completion_step :: "completion_sys \<Rightarrow> completion_sys \<Rightarrow> bool" where
  co_read: "p \<notin> set (co_queue s) \<Longrightarrow> p \<notin> co_woken s \<Longrightarrow> completion_step s (completion_try p s)"
| co_run: "p \<in> co_woken s \<Longrightarrow> completion_step s (completion_try p (s\<lparr>co_woken := co_woken s - {p}\<rparr>))"
| co_signal: "p \<in> set (co_queue s) \<Longrightarrow> completion_step s (s\<lparr>co_queue := remove1 p (co_queue s)\<rparr>)"
| co_write: "co_done s + 1 < UINT_MAX \<Longrightarrow> completion_step s (snd (completion_write count s))"

definition completion_inv :: "completion_sys \<Rightarrow> bool" where
  "completion_inv s \<longleftrightarrow> co_returned s + co_done s = co_writes s \<and> finite (co_woken s) \<and> distinct (co_queue s) \<and>
     set (co_queue s) \<inter> co_woken s = {} \<and> (co_queue s \<noteq> [] \<longrightarrow> co_done s \<le> card (co_woken s)) \<and> co_done s < UINT_MAX"

text \<open>
  Exactly as many reads return as there were writes, less those still to be taken; and a reader
  sleeps only if everything that is to be taken is spoken for by readers already woken.
\<close>

lemma completion_step_inv: "completion_step s t \<Longrightarrow> completion_inv s \<Longrightarrow> completion_inv t"
proof (induction rule: completion_step.induct)
  case (co_run p s)
  then show ?case by (auto simp: completion_inv_def completion_try_def card_Diff_singleton split: if_splits)
next
  case (co_signal p s)
  have "set (remove1 p (co_queue s)) \<subseteq> set (co_queue s)" by (rule set_remove1_subset)
  then show ?case using co_signal by (auto simp: completion_inv_def)
next
  case (co_write s count)
  then show ?case
    by (cases "co_queue s") (auto simp: completion_inv_def completion_write_def complete_def Let_def card_insert_if)
qed (auto simp: completion_inv_def completion_try_def)

lemma completion_counts:
  assumes "completion_step\<^sup>*\<^sup>* init_completion s"
  shows "co_returned s + co_done s = co_writes s" and "co_queue s \<noteq> [] \<Longrightarrow> co_done s \<le> card (co_woken s)"
proof -
  have "completion_inv s"
    using assms
  proof (induction rule: rtranclp_induct)
    case base
    show ?case by (simp add: completion_inv_def init_completion_def UINT_MAX_def)
  qed (rule completion_step_inv)
  then show "co_returned s + co_done s = co_writes s" "co_queue s \<noteq> [] \<Longrightarrow> co_done s \<le> card (co_woken s)"
    by (simp_all add: completion_inv_def)
qed

datatype completion_res = CoRegion | CoCdev

definition completion_m_init :: "completion_res answers \<Rightarrow> errno option \<times> completion_res call list" where
  "completion_m_init F =
     if_err (F CoRegion) (\<lambda>e. (Some e, []))
     (if_err (F CoCdev) (\<lambda>e. (Some e, [Acq CoRegion, Rel CoRegion]))
        (None, [Acq CoRegion, Acq CoCdev]))"

definition completion_m_exit :: "completion_res call list" where
  "completion_m_exit = [Rel CoCdev, Rel CoRegion]"

lemma completion_module_clean: "clean completion_m_init completion_m_exit"
  by (simp add: clean_def completion_m_init_def completion_m_exit_def if_err_def split: option.split)

subsection \<open>Asynchronous notification\<close>

text \<open>\<open>an_queue\<close> are the files with O_ASYNC, \<open>an_sent\<close> the files whose owners were sent SIGIO, in order.\<close>

definition AN_BUFF_SIZE :: nat where "AN_BUFF_SIZE = 4096"

record async_notify_dev =
  an_buf_len :: nat
  an_buff :: "byte list"
  an_queue :: "nat list"
  an_sent :: "nat list"

definition kill_fasync :: "async_notify_dev \<Rightarrow> async_notify_dev" where
  "kill_fasync dev = dev\<lparr>an_sent := an_sent dev @ an_queue dev\<rparr>"

definition async_notify_read :: "bool \<Rightarrow> to_user \<Rightarrow> nat \<Rightarrow> async_notify_dev \<Rightarrow> byte list result" where
  "async_notify_read intr ctu count dev =
     (if intr then Inl ERESTARTSYS
      else let bs = mem_get 0 (min count (an_buf_len dev)) (an_buff dev)
           in if ctu bs \<noteq> 0 then Inl EFAULT else Inr bs)"

definition async_notify_write :: "bool \<Rightarrow> from_user \<Rightarrow> nat \<Rightarrow> async_notify_dev \<Rightarrow> nat result \<times> async_notify_dev" where
  "async_notify_write intr cfu count0 dev =
     (if intr then (Inl ERESTARTSYS, dev)
      else let count = min count0 AN_BUFF_SIZE; (left, bs) = cfu count; dev1 = dev\<lparr>an_buff := mem_put 0 bs (an_buff dev)\<rparr>
           in if left \<noteq> 0 then (Inl EFAULT, dev1) else (Inr count, kill_fasync (dev1\<lparr>an_buf_len := count\<rparr>)))"

text \<open>\<open>fasync_helper\<close>: switching on may lack memory for the entry, a file has at most one entry.\<close>

definition fasync_helper :: "bool \<Rightarrow> nat \<Rightarrow> bool \<Rightarrow> async_notify_dev \<Rightarrow> int result \<times> async_notify_dev" where
  "fasync_helper mem f on dev =
     (if \<not> on then (if f \<in> set (an_queue dev) then (Inr 1, dev\<lparr>an_queue := remove1 f (an_queue dev)\<rparr>) else (Inr 0, dev))
      else if \<not> mem then (Inl ENOMEM, dev)
      else if f \<in> set (an_queue dev) then (Inr 0, dev)
      else (Inr 1, dev\<lparr>an_queue := f # an_queue dev\<rparr>))"

definition async_notify_fasync :: "bool \<Rightarrow> nat \<Rightarrow> bool \<Rightarrow> async_notify_dev \<Rightarrow> int result \<times> async_notify_dev" where
  "async_notify_fasync mem f on dev = fasync_helper mem f on dev"

definition async_notify_release :: "nat \<Rightarrow> async_notify_dev \<Rightarrow> async_notify_dev" where
  "async_notify_release f dev = snd (fasync_helper True f False dev)"

lemma an_queue_distinct:
  "distinct (an_queue dev) \<Longrightarrow> distinct (an_queue (snd (async_notify_fasync mem f on dev)))"
  "distinct (an_queue dev) \<Longrightarrow> f \<notin> set (an_queue (async_notify_release f dev))"
  by (simp_all add: async_notify_fasync_def async_notify_release_def fasync_helper_def)

lemma count_list_distinct: "distinct xs \<Longrightarrow> count_list xs x = of_bool (x \<in> set xs)"
  by (induction xs) auto

text \<open>Each write that succeeds sends one signal to every file with O_ASYNC and none to others; one that fails sends none.\<close>

lemma async_notify_signals:
  assumes "distinct (an_queue dev)" and "async_notify_write intr cfu n dev = (r, dev')"
  shows "count_list (an_sent dev') f = count_list (an_sent dev) f + of_bool (f \<in> set (an_queue dev) \<and> (\<exists>k. r = Inr k))"
    and "an_queue dev' = an_queue dev"
proof -
  note c = count_list_distinct [OF assms(1), of f]
  show "count_list (an_sent dev') f = count_list (an_sent dev) f + of_bool (f \<in> set (an_queue dev) \<and> (\<exists>k. r = Inr k))"
    "an_queue dev' = an_queue dev"
    using assms(2) c by (auto simp: async_notify_write_def kill_fasync_def Let_def split: if_splits prod.splits)
qed

lemma async_notify_write_read:
  assumes "length (an_buff dev) = AN_BUFF_SIZE" and "cfu (min n AN_BUFF_SIZE) = (0, bs)" and "length bs = min n AN_BUFF_SIZE"
    and "\<forall>bs. ctu bs = 0"
  shows "\<exists>dev'. async_notify_write False cfu n dev = (Inr (length bs), dev') \<and> async_notify_read False ctu count dev' = Inr (take count bs)"
  using assms by (auto simp: async_notify_write_def async_notify_read_def kill_fasync_def Let_def mem_put_def mem_get_def min_def)

datatype notify_res = AnDev | AnRegion | AnCdev

definition async_notify_m_init :: "notify_res answers \<Rightarrow> errno option \<times> notify_res call list" where
  "async_notify_m_init F =
     if_err (F AnDev) (\<lambda>_. (Some ENOMEM, []))
     (if_err (F AnRegion) (\<lambda>e. (Some e, [Acq AnDev, Rel AnDev]))
     (if_err (F AnCdev) (\<lambda>e. (Some e, [Acq AnDev, Acq AnRegion, Rel AnRegion, Rel AnDev]))
        (None, [Acq AnDev, Acq AnRegion, Acq AnCdev])))"

definition async_notify_m_exit :: "notify_res call list" where
  "async_notify_m_exit = [Rel AnCdev, Rel AnRegion, Rel AnDev]"

lemma async_notify_module_clean: "clean async_notify_m_init async_notify_m_exit"
  by (simp add: clean_def async_notify_m_init_def async_notify_m_exit_def if_err_def split: option.split)

end
