(* ===== verification/Jiq.thy ===== *)
theory Jiq
  imports Lifecycle
begin

section \<open>14_jiq: deferred work\<close>

text \<open>
  \<open>src/examples/14_jiq\<close>: work items and timers append lines to a buffer until it is full, or a
  number of times, and wake the reader. The context a line reports on is a parameter. A buffer is
  modelled by the text it holds, so its length is \<open>len\<close>.
\<close>

definition BUF_LEN :: nat where "BUF_LEN = 4096"
definition LINE_MAX_LEN :: nat where "LINE_MAX_LEN = 80"

record jiq_ctx =
  cx_jiffies :: "64 word"
  cx_preempt :: int
  cx_pid :: int
  cx_cpu :: int
  cx_comm :: string

record jiq_dev =
  jq_done :: bool
  jq_buf :: string
  jq_jiffies :: "64 word"

text \<open>What \<open>scnprintf\<close> puts into \<open>room\<close> bytes: the text, cut to leave a byte for the terminator.\<close>

definition scnprintf :: "nat \<Rightarrow> string \<Rightarrow> string" where
  "scnprintf room t = take (room - 1) t"

definition jiq_header :: string where
  "jiq_header = ''    time  delta preempt   pid cpu command'' @ [CHR 0x0A]"

definition jiq_line :: "64 word \<Rightarrow> jiq_ctx \<Rightarrow> string" where
  "jiq_line prev c =
     pad 9 (dec_string (unat (cx_jiffies c))) @ ''  '' @ pad 4 (dec_string (unat (cx_jiffies c - prev))) @ ''     '' @
     pad 3 (int_string (cx_preempt c)) @ '' '' @ pad 5 (int_string (cx_pid c)) @ '' '' @ pad 3 (int_string (cx_cpu c)) @ '' '' @
     cx_comm c @ [CHR 0x0A]"

definition jiq_done :: "jiq_dev \<Rightarrow> jiq_dev" where
  "jiq_done dev = dev\<lparr>jq_done := True\<rparr>"

definition jiq_print :: "jiq_ctx \<Rightarrow> jiq_dev \<Rightarrow> bool \<times> jiq_dev" where
  "jiq_print c dev =
     (let buf1 = (if length (jq_buf dev) = 0 then scnprintf BUF_LEN jiq_header else jq_buf dev);
          buf2 = buf1 @ scnprintf (BUF_LEN - length buf1) (jiq_line (jq_jiffies dev) c);
          dev2 = dev\<lparr>jq_buf := buf2, jq_jiffies := cx_jiffies c\<rparr>
      in if BUF_LEN - length buf2 < LINE_MAX_LEN then (False, jiq_done dev2) else (True, dev2))"

definition jiq_reset :: "64 word \<Rightarrow> jiq_dev \<Rightarrow> jiq_dev" where
  "jiq_reset now dev = dev\<lparr>jq_buf := [], jq_jiffies := now, jq_done := False\<rparr>"

subsection \<open>The four files\<close>

text \<open>
  Each file has a work item or a timer of its own; only the reader that holds the mutex has one
  pending. The functions give the device and whether they queued themselves again.
\<close>

datatype jiq_file = JiqWq | JiqWqDelay | JiqTimer | JiqTasklet

definition jiq_print_wq :: "jiq_ctx \<Rightarrow> jiq_dev \<Rightarrow> bool \<times> jiq_dev" where
  "jiq_print_wq c dev = (let (room, dev1) = jiq_print c dev in if room then (True, dev1) else (False, dev1))"

definition jiq_print_wq_delayed :: "jiq_ctx \<Rightarrow> jiq_dev \<Rightarrow> bool \<times> jiq_dev" where
  "jiq_print_wq_delayed c dev = (let (room, dev1) = jiq_print c dev in if room then (True, dev1) else (False, dev1))"

definition jiq_timedout :: "jiq_ctx \<Rightarrow> jiq_dev \<Rightarrow> bool \<times> jiq_dev" where
  "jiq_timedout c dev = (let (room, dev1) = jiq_print c dev in (False, jiq_done dev1))"

definition jiq_print_bh :: "jiq_ctx \<Rightarrow> jiq_dev \<Rightarrow> bool \<times> jiq_dev" where
  "jiq_print_bh c dev = (let (room, dev1) = jiq_print c dev in if room then (True, dev1) else (False, dev1))"

definition jiq_work :: "jiq_file \<Rightarrow> jiq_ctx \<Rightarrow> jiq_dev \<Rightarrow> bool \<times> jiq_dev" where
  "jiq_work f = (case f of JiqWq \<Rightarrow> jiq_print_wq | JiqWqDelay \<Rightarrow> jiq_print_wq_delayed
     | JiqTimer \<Rightarrow> jiq_timedout | JiqTasklet \<Rightarrow> jiq_print_bh)"

text \<open>What a read does before it waits; then the work is pending.\<close>

definition jiq_start :: "jiq_file \<Rightarrow> 64 word \<Rightarrow> jiq_ctx \<Rightarrow> jiq_dev \<Rightarrow> jiq_dev" where
  "jiq_start f now c dev =
     (let dev1 = jiq_reset now dev in if f = JiqTimer then snd (jiq_print c dev1) else dev1)"

datatype jiq_pc = JWait | JLeave "errno option"

record jiq_sys =
  jy_dev :: jiq_dev
  jy_pend :: bool
  jy_reader :: "(nat \<times> jiq_file \<times> jiq_pc) option"
  jy_out :: "(nat \<times> jiq_file \<times> string) list"

text \<open>
  The code takes it that a line is shorter than \<open>LINE_MAX_LEN\<close>; a line with every number at the end
  of its range would be longer. Lemma \<open>line_fits_typical\<close> gives ranges in which it holds.
\<close>

definition line_fits :: "64 word \<Rightarrow> jiq_ctx \<Rightarrow> bool" where
  "line_fits prev c \<longleftrightarrow> length (jiq_line prev c) < LINE_MAX_LEN"

inductive jiq_step :: "jiq_sys \<Rightarrow> jiq_sys \<Rightarrow> bool" where
  jiq_lock: "jy_reader s = None \<Longrightarrow> line_fits now c \<Longrightarrow>
    jiq_step s (s\<lparr>jy_dev := jiq_start f now c (jy_dev s), jy_pend := True, jy_reader := Some (p, f, JWait)\<rparr>)"
| jiq_run: "jy_pend s \<Longrightarrow> jy_reader s = Some (p, f, pc) \<Longrightarrow> line_fits (jq_jiffies (jy_dev s)) c \<Longrightarrow>
    jiq_work f c (jy_dev s) = (again, dev) \<Longrightarrow> jiq_step s (s\<lparr>jy_dev := dev, jy_pend := again\<rparr>)"
| jiq_woken: "jy_reader s = Some (p, f, JWait) \<Longrightarrow> jq_done (jy_dev s) \<Longrightarrow>
    jiq_step s (s\<lparr>jy_reader := Some (p, f, JLeave None)\<rparr>)"
| jiq_signal: "jy_reader s = Some (p, f, JWait) \<Longrightarrow> \<not> jq_done (jy_dev s) \<Longrightarrow>
    jiq_step s (s\<lparr>jy_reader := Some (p, f, JLeave (Some ERESTARTSYS))\<rparr>)"
| jiq_leave: "jy_reader s = Some (p, f, JLeave r) \<Longrightarrow>
    jiq_step s (s\<lparr>jy_pend := False, jy_reader := None,
        jy_out := (if r = None then jy_out s @ [(p, f, jq_buf (jy_dev s))] else jy_out s)\<rparr>)"

definition jiq_new :: jiq_sys where
  "jiq_new = \<lparr>jy_dev = \<lparr>jq_done = False, jq_buf = [], jq_jiffies = 0\<rparr>, jy_pend = False, jy_reader = None, jy_out = []\<rparr>"

subsection \<open>The module\<close>

datatype jiq_res = JqDev | JqFile nat

fun jiq_remove_files :: "nat \<Rightarrow> jiq_res call list" where
  "jiq_remove_files 0 = []"
| "jiq_remove_files (Suc count) = Rel (JqFile count) # jiq_remove_files count"

fun jiq_create_files :: "jiq_res answers \<Rightarrow> nat \<Rightarrow> nat \<Rightarrow> errno option \<times> jiq_res call list" where
  "jiq_create_files F i 0 = (None, [])"
| "jiq_create_files F i (Suc k) =
     if_err (F (JqFile i)) (\<lambda>_. (Some ENOMEM, jiq_remove_files i @ [Rel JqDev]))
       (case jiq_create_files F (i + 1) k of (r, cs) \<Rightarrow> (r, Acq (JqFile i) # cs))"

definition jiq_m_init :: "jiq_res answers \<Rightarrow> errno option \<times> jiq_res call list" where
  "jiq_m_init F =
     if_err (F JqDev) (\<lambda>_. (Some ENOMEM, []))
       (case jiq_create_files F 0 4 of (r, cs) \<Rightarrow> (r, Acq JqDev # cs))"

definition jiq_m_exit :: "jiq_res call list" where
  "jiq_m_exit = jiq_remove_files 4 @ [Rel JqDev]"

lemma jiq_module_clean: "clean jiq_m_init jiq_m_exit"
  by (simp add: clean_def jiq_m_init_def jiq_m_exit_def if_err_def numeral_eq_Suc split: option.split)

subsection \<open>What a reader is shown\<close>

text \<open>A text made of the header and whole lines.\<close>

definition whole_lines :: "nat \<Rightarrow> string \<Rightarrow> bool" where
  "whole_lines n t \<longleftrightarrow> (\<exists>ls. length ls = n \<and> t = jiq_header @ concat ls \<and> (\<forall>l \<in> set ls. \<exists>prev c. l = jiq_line prev c))"

definition jiq_shown :: "jiq_file \<Rightarrow> string \<Rightarrow> bool" where
  "jiq_shown f t \<longleftrightarrow> length t < BUF_LEN \<and> (if f = JiqTimer then whole_lines 2 t else (\<exists>n. whole_lines n t) \<and> BUF_LEN - length t < LINE_MAX_LEN)"

definition jiq_progress :: "jiq_file \<Rightarrow> bool \<Rightarrow> jiq_dev \<Rightarrow> bool" where
  "jiq_progress f pend dev \<longleftrightarrow>
     (if jq_done dev then \<not> pend \<and> jiq_shown f (jq_buf dev)
      else BUF_LEN - length (jq_buf dev) \<ge> LINE_MAX_LEN \<and>
        (if f = JiqTimer then whole_lines 1 (jq_buf dev) \<and> length (jq_buf dev) < 200 else jq_buf dev = [] \<or> (\<exists>n. whole_lines n (jq_buf dev))))"

lemma jiq_header_length: "length jiq_header = 42"
  by (simp add: jiq_header_def)

lemma line_fits_typical:
  assumes "unat (cx_jiffies c) < 10 ^ 12" and "unat (cx_jiffies c - prev) < 10 ^ 12" and "0 \<le> cx_preempt c" and "cx_preempt c < 10 ^ 10"
    and "0 \<le> cx_pid c" and "cx_pid c < 10 ^ 8" and "0 \<le> cx_cpu c" and "cx_cpu c < 10 ^ 5" and "length (cx_comm c) \<le> 15"
  shows "line_fits prev c"
  using length_dec_string [OF assms(1)] length_dec_string [OF assms(2)] length_int_string [OF assms(3,4)]
    length_int_string [OF assms(5,6)] length_int_string [OF assms(7,8)] assms(9)
  by (simp add: line_fits_def jiq_line_def LINE_MAX_LEN_def)

lemma whole_lines_snoc: "whole_lines n t \<Longrightarrow> whole_lines (Suc n) (t @ jiq_line prev c)"
  unfolding whole_lines_def
proof (elim exE conjE)
  fix ls
  assume "length ls = n" "t = jiq_header @ concat ls" "\<forall>l \<in> set ls. \<exists>prev c. l = jiq_line prev c"
  then show "\<exists>ls. length ls = Suc n \<and> t @ jiq_line prev c = jiq_header @ concat ls \<and> (\<forall>l \<in> set ls. \<exists>prev c. l = jiq_line prev c)"
    by (intro exI [of _ "ls @ [jiq_line prev c]"]) auto
qed

text \<open>One more line always fits whole, since printing stops when it might not.\<close>

lemma jiq_print_line:
  assumes "line_fits (jq_jiffies dev) c" and "BUF_LEN - length (jq_buf dev) \<ge> LINE_MAX_LEN"
  defines "t \<equiv> (if jq_buf dev = [] then jiq_header else jq_buf dev) @ jiq_line (jq_jiffies dev) c"
  shows "jiq_print c dev = (BUF_LEN - length t \<ge> LINE_MAX_LEN,
      dev\<lparr>jq_buf := t, jq_jiffies := cx_jiffies c, jq_done := (jq_done dev \<or> BUF_LEN - length t < LINE_MAX_LEN)\<rparr>)"
    and "length t < BUF_LEN"
proof -
  define b where "b = (if jq_buf dev = [] then jiq_header else jq_buf dev)"
  have b: "BUF_LEN - length b \<ge> LINE_MAX_LEN" using assms(2) by (simp add: b_def jiq_header_length BUF_LEN_def LINE_MAX_LEN_def)
  have l: "length (jiq_line (jq_jiffies dev) c) < LINE_MAX_LEN" using assms(1) by (simp add: line_fits_def)
  have cut: "scnprintf (BUF_LEN - length b) (jiq_line (jq_jiffies dev) c) = jiq_line (jq_jiffies dev) c"
    using b l by (simp add: scnprintf_def)
  have h: "scnprintf BUF_LEN jiq_header = jiq_header" by (simp add: scnprintf_def jiq_header_length BUF_LEN_def)
  have t: "t = b @ jiq_line (jq_jiffies dev) c" by (simp add: t_def b_def)
  show "jiq_print c dev = (BUF_LEN - length t \<ge> LINE_MAX_LEN,
      dev\<lparr>jq_buf := t, jq_jiffies := cx_jiffies c, jq_done := (jq_done dev \<or> BUF_LEN - length t < LINE_MAX_LEN)\<rparr>)"
  proof -
    have "jiq_print c dev =
        (let buf2 = b @ scnprintf (BUF_LEN - length b) (jiq_line (jq_jiffies dev) c);
             dev2 = dev\<lparr>jq_buf := buf2, jq_jiffies := cx_jiffies c\<rparr>
         in if BUF_LEN - length buf2 < LINE_MAX_LEN then (False, jiq_done dev2) else (True, dev2))"
      by (simp add: jiq_print_def Let_def h b_def)
    then show ?thesis unfolding cut t [symmetric] by (cases dev) (simp add: jiq_done_def not_less Let_def)
  qed
  show "length t < BUF_LEN" using b l by (simp add: t LINE_MAX_LEN_def)
qed

lemma jiq_header_whole: "whole_lines 0 jiq_header"
  by (simp add: whole_lines_def)

lemma jiq_start_progress:
  assumes "line_fits now c"
  shows "jiq_progress f True (jiq_start f now c dev)"
proof (cases "f = JiqTimer")
  case True
  let ?t = "jiq_header @ jiq_line now c"
  have len: "length ?t < 122" using assms by (simp add: line_fits_def jiq_header_length LINE_MAX_LEN_def)
  have "snd (jiq_print c (jiq_reset now dev)) = (jiq_reset now dev)\<lparr>jq_buf := ?t, jq_jiffies := cx_jiffies c, jq_done := False\<rparr>"
    using jiq_print_line(1) [of "jiq_reset now dev" c] assms len by (simp add: jiq_reset_def BUF_LEN_def LINE_MAX_LEN_def)
  then show ?thesis
    using True len whole_lines_snoc [OF jiq_header_whole, of now c]
    by (simp add: jiq_start_def jiq_progress_def BUF_LEN_def LINE_MAX_LEN_def)
next
  case False
  then show ?thesis by (simp add: jiq_start_def jiq_reset_def jiq_progress_def BUF_LEN_def LINE_MAX_LEN_def)
qed

lemma jiq_work_progress:
  assumes "jiq_progress f True dev" and "line_fits (jq_jiffies dev) c" and "jiq_work f c dev = (again, dev')"
  shows "jiq_progress f again dev'"
proof -
  let ?b = "if jq_buf dev = [] then jiq_header else jq_buf dev"
  let ?t = "?b @ jiq_line (jq_jiffies dev) c"
  have nd: "\<not> jq_done dev" and room: "BUF_LEN - length (jq_buf dev) \<ge> LINE_MAX_LEN"
    using assms(1) by (auto simp: jiq_progress_def split: if_splits)
  note print = jiq_print_line [OF assms(2) room]
  show ?thesis
  proof (cases "f = JiqTimer")
    case True
    have w: "whole_lines 1 (jq_buf dev)" "length (jq_buf dev) < 200" using assms(1) nd True by (auto simp: jiq_progress_def)
    then have "jq_buf dev \<noteq> []" by (auto simp: whole_lines_def jiq_header_def)
    moreover have "whole_lines 2 (jq_buf dev @ jiq_line (jq_jiffies dev) c)" using whole_lines_snoc [OF w(1)] by (simp add: numeral_2_eq_2)
    ultimately show ?thesis
      using assms(3) print True by (auto simp: jiq_work_def jiq_timedout_def jiq_done_def jiq_progress_def jiq_shown_def)
  next
    case False
    have "\<exists>n. whole_lines n ?b" using assms(1) nd False jiq_header_whole by (auto simp: jiq_progress_def)
    then have "\<exists>n. whole_lines n ?t" using whole_lines_snoc by blast
    moreover have "jiq_work f c dev = jiq_print c dev"
      using False by (cases f) (auto simp: jiq_work_def jiq_print_wq_def jiq_print_wq_delayed_def jiq_print_bh_def Let_def split: prod.splits)
    ultimately show ?thesis
      using assms(3) print False nd by (auto simp: jiq_progress_def jiq_shown_def)
  qed
qed

definition jiq_inv :: "jiq_sys \<Rightarrow> bool" where
  "jiq_inv s \<longleftrightarrow>
     (case jy_reader s of None \<Rightarrow> \<not> jy_pend s
      | Some (p, f, pc) \<Rightarrow> jiq_progress f (jy_pend s) (jy_dev s) \<and> (pc = JLeave None \<longrightarrow> jq_done (jy_dev s)) \<and>
          (\<not> jy_pend s \<longrightarrow> jq_done (jy_dev s))) \<and>
     (\<forall>(p, f, t) \<in> set (jy_out s). jiq_shown f t)"

lemma jiq_work_again: "jiq_work f c dev = (again, dev') \<Longrightarrow> \<not> again \<Longrightarrow> jq_done dev'"
  by (cases f) (auto simp: jiq_work_def jiq_print_wq_def jiq_print_wq_delayed_def jiq_print_bh_def jiq_timedout_def jiq_print_def jiq_done_def
      Let_def split: prod.splits if_splits)

lemma jiq_work_keeps_done: "jiq_work f c dev = (again, dev') \<Longrightarrow> jq_done dev \<Longrightarrow> jq_done dev'"
  by (cases f) (auto simp: jiq_work_def jiq_print_wq_def jiq_print_wq_delayed_def jiq_print_bh_def jiq_timedout_def jiq_print_def jiq_done_def
      Let_def split: prod.splits if_splits)

lemma jiq_step_inv: "jiq_step s t \<Longrightarrow> jiq_inv s \<Longrightarrow> jiq_inv t"
proof (induction rule: jiq_step.induct)
  case (jiq_lock s now c f p)
  then show ?case using jiq_start_progress by (simp add: jiq_inv_def)
next
  case (jiq_run s p f pc c again dev)
  have "jiq_progress f True (jy_dev s)" using jiq_run by (simp add: jiq_inv_def)
  then have "jiq_progress f again dev" using jiq_work_progress jiq_run.hyps(3,4) by blast
  then show ?case
    using jiq_run jiq_work_again [OF jiq_run.hyps(4)] jiq_work_keeps_done [OF jiq_run.hyps(4)] by (simp add: jiq_inv_def)
next
  case (jiq_leave s p f r)
  then show ?case by (auto simp: jiq_inv_def jiq_progress_def split: if_splits)
qed (auto simp: jiq_inv_def)

lemma jiq_reach_inv: "jiq_step\<^sup>*\<^sup>* jiq_new s \<Longrightarrow> jiq_inv s"
proof (induction rule: rtranclp_induct)
  case base
  show ?case by (simp add: jiq_inv_def jiq_new_def)
qed (rule jiq_step_inv)

text \<open>
  A waiting reader is never left alone: until the buffer is complete, work is pending, and each
  run of it makes the buffer longer, so that it is complete after at most as many runs as the
  buffer has bytes.
\<close>

fun jiq_runs :: "jiq_file \<Rightarrow> jiq_ctx list \<Rightarrow> jiq_dev \<Rightarrow> jiq_dev" where
  "jiq_runs f [] dev = dev"
| "jiq_runs f (c # cs) dev = (case jiq_work f c dev of (again, dev') \<Rightarrow> if again then jiq_runs f cs dev' else dev')"

lemma jiq_runs_done:
  assumes "jiq_progress f True dev" and "BUF_LEN - length (jq_buf dev) \<le> length cs" and "\<forall>c \<in> set cs. \<forall>prev. line_fits prev c"
  shows "jq_done (jiq_runs f cs dev)"
  using assms
proof (induction cs arbitrary: dev)
  case Nil
  then show ?case by (auto simp: jiq_progress_def LINE_MAX_LEN_def split: if_splits)
next
  case (Cons c cs)
  obtain again dev' where w: "jiq_work f c dev = (again, dev')" by fastforce
  have fits: "line_fits (jq_jiffies dev) c" using Cons.prems(3) by simp
  have room: "BUF_LEN - length (jq_buf dev) \<ge> LINE_MAX_LEN"
    using Cons.prems(1) by (auto simp: jiq_progress_def split: if_splits)
  show ?case
  proof (cases again)
    case True
    then have p: "jiq_work f c dev = jiq_print c dev"
      using w by (cases f) (auto simp: jiq_work_def jiq_print_wq_def jiq_print_wq_delayed_def jiq_print_bh_def jiq_timedout_def Let_def split: prod.splits if_splits)
    have "length (jiq_line (jq_jiffies dev) c) > 0" by (simp add: jiq_line_def)
    moreover have "jq_buf dev' = (if jq_buf dev = [] then jiq_header else jq_buf dev) @ jiq_line (jq_jiffies dev) c"
      using w p jiq_print_line(1) [OF fits room] by auto
    ultimately have "length (jq_buf dev') > length (jq_buf dev)" by (simp split: if_splits)
    then have "BUF_LEN - length (jq_buf dev') \<le> length cs" using Cons.prems(2) room by (simp add: LINE_MAX_LEN_def)
    moreover have "jiq_progress f True dev'" using jiq_work_progress [OF Cons.prems(1) fits w] True by simp
    ultimately show ?thesis using Cons.IH Cons.prems(3) w True by simp
  next
    case False
    then show ?thesis using w jiq_work_again by simp
  qed
qed

subsection \<open>Properties\<close>

text \<open>
  In every run of the four files by any number of readers: what a reader is shown is the header
  and whole lines, within the buffer, two lines for the timer and otherwise as many as fit; work
  is pending only while a reader waits for it or is about to cancel it, so that nothing writes to
  the buffer of the next one; and a reader waits only while work is pending that will complete the
  buffer.
\<close>

lemma jiq_shows_whole_lines:
  assumes "jiq_step\<^sup>*\<^sup>* jiq_new s"
  shows "(\<forall>(p, f, t) \<in> set (jy_out s). length t < BUF_LEN \<and> (\<exists>n. whole_lines n t) \<and>
      (if f = JiqTimer then whole_lines 2 t else BUF_LEN - length t < LINE_MAX_LEN)) \<and>
    (jy_reader s = None \<longrightarrow> \<not> jy_pend s) \<and>
    (\<forall>p f. jy_reader s = Some (p, f, JWait) \<longrightarrow> jy_pend s \<or> jq_done (jy_dev s))"
proof -
  note inv = jiq_reach_inv [OF assms]
  have "\<forall>(p, f, t) \<in> set (jy_out s). jiq_shown f t" using inv by (simp add: jiq_inv_def)
  moreover have "jiq_shown f t \<Longrightarrow> length t < BUF_LEN \<and> (\<exists>n. whole_lines n t) \<and>
      (if f = JiqTimer then whole_lines 2 t else BUF_LEN - length t < LINE_MAX_LEN)" for f t
    by (auto simp: jiq_shown_def split: if_splits)
  ultimately show ?thesis using inv by (auto simp: jiq_inv_def split: option.splits)
qed

definition demo_ctx :: jiq_ctx where
  "demo_ctx = \<lparr>cx_jiffies = 7, cx_preempt = 0, cx_pid = 1, cx_cpu = 0, cx_comm = ''sh''\<rparr>"

lemma demo_ctx_fits: "line_fits 7 demo_ctx"
  by (simp add: line_fits_def jiq_line_def demo_ctx_def pad_def int_string_def dec_string.simps LINE_MAX_LEN_def)

lemma jiq_shows_whole_lines_witness:
  "\<exists>s t. jiq_step\<^sup>*\<^sup>* jiq_new s \<and> jy_out s = [(1, JiqTimer, t)] \<and> whole_lines 2 t"
proof -
  let ?s1 = "jiq_new\<lparr>jy_dev := jiq_start JiqTimer 7 demo_ctx (jy_dev jiq_new), jy_pend := True, jy_reader := Some (1, JiqTimer, JWait)\<rparr>"
  let ?d2 = "snd (jiq_timedout demo_ctx (jy_dev ?s1))"
  let ?s2 = "?s1\<lparr>jy_dev := ?d2, jy_pend := False\<rparr>"
  let ?s3 = "?s2\<lparr>jy_reader := Some (1, JiqTimer, JLeave None)\<rparr>"
  let ?s4 = "?s3\<lparr>jy_pend := False, jy_reader := None, jy_out := [(1, JiqTimer, jq_buf ?d2)]\<rparr>"
  have j: "jq_jiffies (jy_dev ?s1) = 7"
    by (simp add: jiq_start_def jiq_print_def Let_def jiq_done_def demo_ctx_def)
  have "jiq_step jiq_new ?s1" by (rule jiq_lock) (simp_all add: jiq_new_def demo_ctx_fits)
  moreover have "jiq_step ?s1 ?s2"
    by (rule jiq_run [where c = demo_ctx and f = JiqTimer and p = 1 and pc = JWait and again = False and dev = ?d2]) (simp_all add: j [simplified] demo_ctx_fits jiq_work_def jiq_timedout_def split_beta Let_def)
  moreover have "jiq_step ?s2 ?s3" by (rule jiq_woken) (simp_all add: jiq_timedout_def jiq_done_def case_prod_unfold Let_def)
  moreover have "jiq_step ?s3 ?s4" using jiq_leave [of ?s3 1 JiqTimer None] by (simp add: jiq_new_def)
  ultimately have r: "jiq_step\<^sup>*\<^sup>* jiq_new ?s4" by (meson converse_rtranclp_into_rtranclp rtranclp.rtrancl_refl)
  from jiq_shows_whole_lines [OF r] have "whole_lines 2 (jq_buf ?d2)" by simp
  then show ?thesis using r by (intro exI [of _ ?s4] exI [of _ "jq_buf ?d2"]) simp
qed

end
