(* ===== verification/User_Pages.thy ===== *)
theory User_Pages
  imports Lifecycle "HOL-Library.Multiset"
begin

unbundle bit_operations_syntax

section \<open>24_zero_copy and 23_simple: pages shared with user space\<close>

text \<open>
  \<open>src/examples/24_zero_copy\<close> pins pages of the caller and writes and reads them directly;
  \<open>src/examples/23_simple\<close> maps pages of its own into the caller. Pages are numbers, the memory is a
  function from them to their bytes. What \<open>pin_user_pages_fast\<close> finds behind an address is a
  parameter: an error, or the pages it could pin, in order, which may be fewer than asked for.
\<close>

definition UP_PAGE_SHIFT :: nat where "UP_PAGE_SHIFT = 12"
definition UP_PAGE_SIZE :: nat where "UP_PAGE_SIZE = 4096"
definition ZC_MAX_PAGES :: nat where "ZC_MAX_PAGES = 16"

definition PAGE_ALIGNED :: "64 word \<Rightarrow> bool" where
  "PAGE_ALIGNED a \<longleftrightarrow> a AND 0xFFF = 0"

text \<open>
  \<open>zs_pins\<close> are the pins held on pages, by all files together; \<open>zs_pages\<close> the pages of each open
  file, none where \<open>ctx->pages\<close> is NULL.
\<close>

record zc_sys =
  zs_mem :: "nat \<Rightarrow> byte list"
  zs_pins :: "nat multiset"
  zs_open :: "nat set"
  zs_pages :: "nat \<Rightarrow> nat list"

record zc_buf =
  zb_addr :: "64 word"
  zb_len :: "64 word"

definition zc_unpin :: "nat \<Rightarrow> zc_sys \<Rightarrow> zc_sys" where
  "zc_unpin f s =
     (if zs_pages s f = [] then s
      else s\<lparr>zs_pins := zs_pins s - mset (zs_pages s f), zs_pages := (zs_pages s)(f := [])\<rparr>)"

definition zc_pin :: "(64 word \<Rightarrow> nat \<Rightarrow> nat list result) \<Rightarrow> bool \<Rightarrow> nat \<Rightarrow> zc_buf option \<Rightarrow> zc_sys \<Rightarrow> int result \<times> zc_sys" where
  "zc_pin pin_user_pages mem f arg s =
     (case arg of
        None \<Rightarrow> (Inl EFAULT, s)
      | Some buf \<Rightarrow>
          if \<not> PAGE_ALIGNED (zb_addr buf) \<or> \<not> PAGE_ALIGNED (zb_len buf) \<or> zb_len buf = 0 \<or> unat (zb_len buf) > ZC_MAX_PAGES * UP_PAGE_SIZE
          then (Inl EINVAL, s)
          else if zs_pages s f \<noteq> [] then (Inl EBUSY, s)
          else let npages = unat (drop_bit UP_PAGE_SHIFT (zb_len buf)) in
            if \<not> mem then (Inl ENOMEM, s)
            else case pin_user_pages (zb_addr buf) npages of
                Inl e \<Rightarrow> (Inl e, s)
              | Inr pinned \<Rightarrow>
                  let s1 = s\<lparr>zs_pins := zs_pins s + mset pinned\<rparr> in
                  if length pinned \<noteq> npages then (Inl EFAULT, s1\<lparr>zs_pins := zs_pins s1 - mset pinned\<rparr>)
                  else (Inr 0, s1\<lparr>zs_pages := (zs_pages s1)(f := pinned)\<rparr>))"

definition memset32 :: "32 word \<Rightarrow> byte list" where
  "memset32 v = concat (replicate (UP_PAGE_SIZE div 4) (le_bytes 4 v))"

definition zc_fill :: "nat \<Rightarrow> 32 word option \<Rightarrow> zc_sys \<Rightarrow> int result \<times> zc_sys" where
  "zc_fill f arg s =
     (case arg of
        None \<Rightarrow> (Inl EFAULT, s)
      | Some v \<Rightarrow> if zs_pages s f = [] then (Inl EINVAL, s)
          else (Inr 0, s\<lparr>zs_mem := fold (\<lambda>p m. m(p := memset32 v)) (zs_pages s f) (zs_mem s)\<rparr>))"

definition first_word :: "byte list \<Rightarrow> 32 word" where
  "first_word page = le_word (take 4 page)"

text \<open>The sum, and whether \<open>put_user\<close> could store it.\<close>

definition zc_sum :: "nat \<Rightarrow> bool \<Rightarrow> zc_sys \<Rightarrow> 32 word result" where
  "zc_sum f stored s =
     (if zs_pages s f = [] then Inl EINVAL
      else let sum = fold (\<lambda>p sum. sum + first_word (zs_mem s p)) (zs_pages s f) 0
           in if stored then Inr sum else Inl EFAULT)"

datatype zc_cmd = ZC_PIN "zc_buf option" | ZC_FILL "32 word option" | ZC_SUM bool | ZC_UNPIN | ZC_OTHER

definition zc_ioctl :: "(64 word \<Rightarrow> nat \<Rightarrow> nat list result) \<Rightarrow> bool \<Rightarrow> nat \<Rightarrow> zc_cmd \<Rightarrow> zc_sys \<Rightarrow> int result \<times> zc_sys" where
  "zc_ioctl pin mem f cmd s =
     (case cmd of
        ZC_PIN arg \<Rightarrow> zc_pin pin mem f arg s
      | ZC_FILL arg \<Rightarrow> zc_fill f arg s
      | ZC_SUM stored \<Rightarrow> (case zc_sum f stored s of Inl e \<Rightarrow> (Inl e, s) | Inr v \<Rightarrow> (Inr 0, s))
      | ZC_UNPIN \<Rightarrow> (Inr 0, zc_unpin f s)
      | ZC_OTHER \<Rightarrow> (Inl ENOTTY, s))"

definition zc_open :: "bool \<Rightarrow> nat \<Rightarrow> zc_sys \<Rightarrow> errno option \<times> zc_sys" where
  "zc_open mem f s =
     (if \<not> mem then (Some ENOMEM, s) else (None, s\<lparr>zs_open := insert f (zs_open s), zs_pages := (zs_pages s)(f := [])\<rparr>))"

definition zc_release :: "nat \<Rightarrow> zc_sys \<Rightarrow> zc_sys" where
  "zc_release f s = (let s1 = zc_unpin f s in s1\<lparr>zs_open := zs_open s1 - {f}\<rparr>)"

inductive zc_step :: "zc_sys \<Rightarrow> zc_sys \<Rightarrow> bool" where
  zc_opened: "f \<notin> zs_open s \<Longrightarrow> zc_open mem f s = (r, s') \<Longrightarrow> zc_step s s'"
| zc_called: "f \<in> zs_open s \<Longrightarrow> zc_ioctl pin mem f cmd s = (r, s') \<Longrightarrow> zc_step s s'"
| zc_closed: "f \<in> zs_open s \<Longrightarrow> zc_step s (zc_release f s)"
| zc_user: "zc_step s (s\<lparr>zs_mem := (zs_mem s)(p := bs)\<rparr>)"

datatype zc_res = ZcRegion | ZcCdev

definition zc_m_init :: "zc_res answers \<Rightarrow> errno option \<times> zc_res call list" where
  "zc_m_init F =
     if_err (F ZcRegion) (\<lambda>e. (Some e, []))
     (if_err (F ZcCdev) (\<lambda>e. (Some e, [Acq ZcRegion, Rel ZcRegion]))
        (None, [Acq ZcRegion, Acq ZcCdev]))"

definition zc_m_exit :: "zc_res call list" where
  "zc_m_exit = [Rel ZcCdev, Rel ZcRegion]"

lemma zc_module_clean: "clean zc_m_init zc_m_exit"
  by (simp add: clean_def zc_m_init_def zc_m_exit_def if_err_def split: option.split)

subsection \<open>Pins are balanced\<close>

definition zc_new :: "(nat \<Rightarrow> byte list) \<Rightarrow> zc_sys" where
  "zc_new m = \<lparr>zs_mem = m, zs_pins = {#}, zs_open = {}, zs_pages = (\<lambda>_. [])\<rparr>"

definition zc_inv :: "zc_sys \<Rightarrow> bool" where
  "zc_inv s \<longleftrightarrow> finite (zs_open s) \<and> zs_pins s = (\<Sum>f \<in> zs_open s. mset (zs_pages s f)) \<and>
     (\<forall>f. f \<notin> zs_open s \<longrightarrow> zs_pages s f = []) \<and> (\<forall>f. length (zs_pages s f) \<le> ZC_MAX_PAGES)"

lemma sum_pages_upd:
  assumes "finite A" and "f \<in> A"
  shows "(\<Sum>g \<in> A. mset (if g = f then xs else (h :: nat \<Rightarrow> nat list) g)) = (\<Sum>g \<in> A. mset (h g)) - mset (h f) + mset xs"
proof -
  have "(\<Sum>g \<in> A - {f}. mset (if g = f then xs else h g)) = (\<Sum>g \<in> A - {f}. mset (h g))" by (rule sum.cong) auto
  then have "(\<Sum>g \<in> A. mset (if g = f then xs else h g)) = mset xs + (\<Sum>g \<in> A - {f}. mset (h g))"
    using sum.remove [OF assms, of "\<lambda>g. mset (if g = f then xs else h g)"] by simp
  moreover have "(\<Sum>g \<in> A. mset (h g)) = mset (h f) + (\<Sum>g \<in> A - {f}. mset (h g))" using assms by (rule sum.remove)
  ultimately show ?thesis by simp
qed

lemma zc_unpin_inv:
  assumes "zc_inv s" and "f \<in> zs_open s"
  shows "zc_inv (zc_unpin f s)" "zs_pages (zc_unpin f s) f = []" "zs_open (zc_unpin f s) = zs_open s"
  using assms by (auto simp: zc_inv_def zc_unpin_def sum_pages_upd)

lemma npages_bound:
  assumes "unat (len :: 64 word) \<le> ZC_MAX_PAGES * UP_PAGE_SIZE"
  shows "unat (drop_bit UP_PAGE_SHIFT len) \<le> ZC_MAX_PAGES"
proof -
  have "unat (drop_bit UP_PAGE_SHIFT len) = unat len div UP_PAGE_SIZE"
    by (simp only: unat_drop_bit_eq UP_PAGE_SHIFT_def UP_PAGE_SIZE_def) (simp add: drop_bit_eq_div)
  then show ?thesis using assms by (simp add: UP_PAGE_SIZE_def ZC_MAX_PAGES_def div_le_mono [of _ "16 * 4096" 4096, simplified])
qed

lemma zc_pin_inv:
  assumes "zc_inv s" and "f \<in> zs_open s" and "zc_pin pin mem f arg s = (r, s')"
  shows "zc_inv s'"
proof -
  have same: "s\<lparr>zs_pins := zs_pins s\<rparr> = s" by simp
  have "length pinned \<le> ZC_MAX_PAGES \<Longrightarrow> zs_pages s f = [] \<Longrightarrow>
      zc_inv (s\<lparr>zs_pins := zs_pins s + mset pinned, zs_pages := (zs_pages s)(f := pinned)\<rparr>)" for pinned
    using assms(1,2) by (auto simp: zc_inv_def sum_pages_upd)
  then show ?thesis
    using assms npages_bound same by (auto simp: zc_pin_def Let_def not_less split: option.splits if_splits sum.splits)
qed

lemma zc_step_inv: "zc_step s t \<Longrightarrow> zc_inv s \<Longrightarrow> zc_inv t"
proof (induction rule: zc_step.induct)
  case (zc_opened f s mem r s')
  then have "(zs_pages s)(f := []) = zs_pages s" by (simp add: zc_inv_def fun_upd_idem)
  then show ?case using zc_opened by (auto simp: zc_open_def zc_inv_def split: if_splits)
next
  case (zc_called f s pin mem cmd r s')
  show ?case
  proof (cases cmd)
    case (ZC_PIN arg)
    then show ?thesis using zc_called zc_pin_inv by (simp add: zc_ioctl_def)
  next
    case ZC_UNPIN
    then show ?thesis using zc_called zc_unpin_inv by (auto simp: zc_ioctl_def)
  qed (use zc_called in \<open>auto simp: zc_ioctl_def zc_fill_def zc_inv_def split: option.splits if_splits sum.splits\<close>)
next
  case (zc_closed f s)
  have u: "zc_inv (zc_unpin f s)" "zs_pages (zc_unpin f s) f = []" "zs_open (zc_unpin f s) = zs_open s"
    using zc_unpin_inv [OF zc_closed(2,1)] by blast+
  have "(\<Sum>g \<in> zs_open s. mset (zs_pages (zc_unpin f s) g)) = (\<Sum>g \<in> zs_open s - {f}. mset (zs_pages (zc_unpin f s) g))"
    using zc_closed u by (simp add: zc_inv_def sum.remove)
  then show ?case using u zc_closed(1) by (auto simp: zc_release_def Let_def zc_inv_def)
next
  case (zc_user s p bs)
  then show ?case by (simp add: zc_inv_def)
qed

lemma zc_reach_inv: "zc_step\<^sup>*\<^sup>* (zc_new m) s \<Longrightarrow> zc_inv s"
proof (induction rule: rtranclp_induct)
  case base
  show ?case by (simp add: zc_inv_def zc_new_def)
qed (rule zc_step_inv)

subsection \<open>The kernel and the user see the same bytes\<close>

lemma fold_fill: "fold (\<lambda>p m. m(p := v)) ps m = (\<lambda>q. if q \<in> set ps then v else m q)"
  by (induction ps arbitrary: m) (auto simp: fun_eq_iff)

lemma first_word_memset32: "first_word (memset32 v) = v"
proof -
  have n: "UP_PAGE_SIZE div 4 = Suc (UP_PAGE_SIZE div 4 - 1)" by (simp add: UP_PAGE_SIZE_def)
  have "memset32 v = le_bytes 4 v @ concat (replicate (UP_PAGE_SIZE div 4 - 1) (le_bytes 4 v))"
    unfolding memset32_def using n by (metis concat.simps(2) replicate_Suc)
  then have "take 4 (memset32 v) = le_bytes 4 v" by simp
  then show ?thesis by (simp add: first_word_def le_word_le_bytes take_bit_word_eq_self)
qed

lemma fold_sum: "fold (\<lambda>p sum. sum + h p) ps a = a + sum_list (map h ps)" for a :: "32 word"
  by (induction ps arbitrary: a) (simp_all add: add.assoc)

text \<open>
  After a fill every pinned page holds the value in all its words and no other page changed; the
  sum, taken at any time, is that of what the user has in the pages then.
\<close>

lemma zc_fill_sum:
  assumes "zs_pages s f \<noteq> []"
  shows "\<exists>s'. zc_fill f (Some v) s = (Inr 0, s') \<and> (\<forall>p. zs_mem s' p = (if p \<in> set (zs_pages s f) then memset32 v else zs_mem s p)) \<and>
      zc_sum f True s' = Inr (of_nat (length (zs_pages s f)) * v)"
    and "zc_sum f True s = Inr (sum_list (map (\<lambda>p. first_word (zs_mem s p)) (zs_pages s f)))"
proof -
  have "sum_list (map (\<lambda>p. first_word (if p \<in> set xs then memset32 v else h p)) xs) = of_nat (length xs) * v" for xs h
  proof -
    have "map (\<lambda>p. first_word (if p \<in> set xs then memset32 v else h p)) xs = map (\<lambda>_. v) xs"
      by (simp add: first_word_memset32)
    then show ?thesis by (simp only: sum_list_triv)
  qed
  then show "\<exists>s'. zc_fill f (Some v) s = (Inr 0, s') \<and> (\<forall>p. zs_mem s' p = (if p \<in> set (zs_pages s f) then memset32 v else zs_mem s p)) \<and>
      zc_sum f True s' = Inr (of_nat (length (zs_pages s f)) * v)"
    using assms by (simp add: zc_fill_def zc_sum_def fold_fill fold_sum)
  show "zc_sum f True s = Inr (sum_list (map (\<lambda>p. first_word (zs_mem s p)) (zs_pages s f)))"
    using assms by (simp add: zc_sum_def fold_sum)
qed

subsection \<open>23_simple: mapping pages into the caller\<close>

text \<open>
  A mapping is its page offset and its number of pages. \<open>simple_remap_mmap\<close> fills in the page
  table at once, \<open>simple_vma_fault\<close> one page at a time; both give the page of the buffer behind
  each page of the mapping.
\<close>

definition SIMPLE_PAGES :: "64 word" where "SIMPLE_PAGES = 8"
definition SIMPLE_PATTERN :: "32 word" where "SIMPLE_PATTERN = 0xdead0000"

record vm_area =
  vm_pgoff :: "64 word"
  vma_pages :: "64 word"

definition simple_range_ok :: "vm_area \<Rightarrow> bool" where
  "simple_range_ok vma \<longleftrightarrow> vm_pgoff vma < SIMPLE_PAGES \<and> vma_pages vma \<le> SIMPLE_PAGES - vm_pgoff vma"

definition simple_remap_mmap :: "errno option \<Rightarrow> nat \<Rightarrow> vm_area \<Rightarrow> (nat \<rightharpoonup> nat) result" where
  "simple_remap_mmap remap base vma =
     (if \<not> simple_range_ok vma then Inl EINVAL
      else if_err remap Inl
        (Inr (\<lambda>i. if i < unat (vma_pages vma) then Some (base + unat (vm_pgoff vma) + i) else None)))"

datatype vm_fault = VM_FAULT_SIGBUS | VmPage nat

definition simple_vma_fault :: "(nat \<Rightarrow> nat) \<Rightarrow> 64 word \<Rightarrow> vm_fault" where
  "simple_vma_fault vmalloc_page pgoff = (if pgoff \<ge> SIMPLE_PAGES then VM_FAULT_SIGBUS else VmPage (vmalloc_page (unat pgoff)))"

definition simple_fault_mmap :: "vm_area \<Rightarrow> errno option" where
  "simple_fault_mmap vma = (if \<not> simple_range_ok vma then Some EINVAL else None)"

definition simple_fill :: "(nat \<Rightarrow> nat) \<Rightarrow> (nat \<Rightarrow> byte list) \<Rightarrow> nat \<Rightarrow> byte list" where
  "simple_fill page m = fold (\<lambda>i m. m(page i := memset32 (SIMPLE_PATTERN + of_nat i))) [0..<unat SIMPLE_PAGES] m"

datatype simple_res = SmPages | SmVmalloc | SmRegion | SmCdev0 | SmCdev1

definition sm_err_pages :: "simple_res call list" where [life_defs]: "sm_err_pages = [Rel SmPages]"
definition sm_err_vfree :: "simple_res call list" where [life_defs]: "sm_err_vfree = Rel SmVmalloc # sm_err_pages"
definition sm_err_region :: "simple_res call list" where [life_defs]: "sm_err_region = Rel SmRegion # sm_err_vfree"
definition sm_err_cdev0 :: "simple_res call list" where [life_defs]: "sm_err_cdev0 = Rel SmCdev0 # sm_err_region"

definition simple_m_init :: "simple_res answers \<Rightarrow> errno option \<times> simple_res call list" where
  "simple_m_init F =
     if_err (F SmPages) (\<lambda>_. (Some ENOMEM, []))
     (if_err (F SmVmalloc) (\<lambda>_. (Some ENOMEM, [Acq SmPages] @ sm_err_pages))
     (if_err (F SmRegion) (\<lambda>e. (Some e, [Acq SmPages, Acq SmVmalloc] @ sm_err_vfree))
     (if_err (F SmCdev0) (\<lambda>e. (Some e, [Acq SmPages, Acq SmVmalloc, Acq SmRegion] @ sm_err_region))
     (if_err (F SmCdev1) (\<lambda>e. (Some e, [Acq SmPages, Acq SmVmalloc, Acq SmRegion, Acq SmCdev0] @ sm_err_cdev0))
        (None, [Acq SmPages, Acq SmVmalloc, Acq SmRegion, Acq SmCdev0, Acq SmCdev1])))))"

definition simple_m_exit :: "simple_res call list" where
  "simple_m_exit = [Rel SmCdev1, Rel SmCdev0, Rel SmRegion, Rel SmVmalloc, Rel SmPages]"

lemma simple_module_clean: "clean simple_m_init simple_m_exit"
  by (simp add: clean_def simple_m_init_def simple_m_exit_def life_defs if_err_def split: option.split)

text \<open>
  The range check has no overflow: a mapping it accepts lies inside the buffer, page by page, and
  every mapping inside the buffer is accepted.
\<close>

lemma simple_range_exact:
  "simple_range_ok vma \<longleftrightarrow> unat (vm_pgoff vma) < 8 \<and> unat (vm_pgoff vma) + unat (vma_pages vma) \<le> 8"
proof (cases "unat (vm_pgoff vma) < 8")
  case True
  then have le: "vm_pgoff vma \<le> SIMPLE_PAGES" by (simp add: SIMPLE_PAGES_def word_le_nat_alt)
  have "unat (SIMPLE_PAGES - vm_pgoff vma) = 8 - unat (vm_pgoff vma)"
    using unat_sub [OF le] by (simp add: SIMPLE_PAGES_def)
  then show ?thesis using True by (auto simp: simple_range_ok_def word_le_nat_alt word_less_nat_alt SIMPLE_PAGES_def)
next
  case False
  then show ?thesis by (simp add: simple_range_ok_def word_less_nat_alt SIMPLE_PAGES_def)
qed

lemma simple_mappings_agree:
  assumes "simple_range_ok vma" and "i < unat (vma_pages vma)"
  shows "\<exists>pt. simple_remap_mmap None base vma = Inr pt \<and> pt i = Some (base + (unat (vm_pgoff vma) + i))"
    and "simple_vma_fault page (vm_pgoff vma + of_nat i) = VmPage (page (unat (vm_pgoff vma) + i))"
proof -
  have r: "unat (vm_pgoff vma) + i < 8" using assms simple_range_exact [of vma] by simp
  then have i: "unat (of_nat i :: 64 word) = i" by (simp add: unsigned_of_nat take_bit_nat_eq_self)
  then have u: "unat (vm_pgoff vma + of_nat i) = unat (vm_pgoff vma) + i"
    using r by (subst unat_add_lem [THEN iffD1]) simp_all
  show "\<exists>pt. simple_remap_mmap None base vma = Inr pt \<and> pt i = Some (base + (unat (vm_pgoff vma) + i))"
    using assms by (simp add: simple_remap_mmap_def)
  show "simple_vma_fault page (vm_pgoff vma + of_nat i) = VmPage (page (unat (vm_pgoff vma) + i))"
    using r u by (simp add: simple_vma_fault_def word_le_nat_alt SIMPLE_PAGES_def)
qed

subsection \<open>Properties\<close>

text \<open>
  C36: In every run, with any number of files, failing calls and pages that can only partly be
  pinned: the pins held are exactly those on the pages the open files have, at most
  \<open>ZC_MAX_PAGES\<close> each, so that none is leaked or dropped twice, and when all files are closed
  there are none.
\<close>

theorem zc_pins_balanced:
  assumes "zc_step\<^sup>*\<^sup>* (zc_new m) s"
  shows "zs_pins s = (\<Sum>f \<in> zs_open s. mset (zs_pages s f)) \<and> (\<forall>f. length (zs_pages s f) \<le> ZC_MAX_PAGES) \<and>
    (zs_open s = {} \<longrightarrow> zs_pins s = {#})"
  using zc_reach_inv [OF assms] by (simp add: zc_inv_def)

theorem zc_pins_balanced_witness:
  "\<exists>s. zc_step\<^sup>*\<^sup>* (zc_new (\<lambda>_. [])) s \<and> zs_pages s 1 = [40, 41] \<and> zs_pins s = {#40, 41#}"
proof -
  let ?pin = "\<lambda>a n. Inr [40, 41] :: nat list result"
  let ?s1 = "(zc_new (\<lambda>_. []))\<lparr>zs_open := {1}, zs_pages := (\<lambda>_. [])(1 := [])\<rparr>"
  obtain s2 where p: "zc_ioctl ?pin True 1 (ZC_PIN (Some \<lparr>zb_addr = 0x5000, zb_len = 0x2000\<rparr>)) ?s1 = (Inr 0, s2)" "zs_pages s2 1 = [40, 41]" "zs_open s2 = {1}"
    by (simp add: zc_ioctl_def zc_pin_def PAGE_ALIGNED_def zc_new_def ZC_MAX_PAGES_def UP_PAGE_SIZE_def UP_PAGE_SHIFT_def Let_def)
  have "zc_step (zc_new (\<lambda>_. [])) ?s1" by (rule zc_opened [of 1 _ True _ _]) (auto simp: zc_new_def zc_open_def)
  moreover have "zc_step ?s1 s2" by (rule zc_called [OF _ p(1)]) simp
  ultimately have r: "zc_step\<^sup>*\<^sup>* (zc_new (\<lambda>_. [])) s2" by (meson converse_rtranclp_into_rtranclp rtranclp.rtrancl_refl)
  show ?thesis using zc_pins_balanced [OF r] r p(2,3) by (intro exI [of _ s2]) simp
qed

end
