(* ===== verification/Lddbus.thy ===== *)
theory Lddbus
  imports Lifecycle "HOL-Library.Sublist"
begin

section \<open>22_lddbus and sculld: a bus and its devices\<close>

text \<open>
  \<open>src/examples/22_lddbus/main.c\<close> is a bus of the driver model, \<open>sculld/main.c\<close> puts two devices and
  a driver on it. Registration is modelled by what it acquires; a device's name is acquired by
  \<open>dev_set_name\<close> and released with the last reference, by \<open>device_unregister\<close> or \<open>put_device\<close>.
\<close>

subsection \<open>The bus\<close>

text \<open>\<open>strncmp\<close> on strings as they are in C, with the terminator; the result is zero, or not.\<close>

fun strncmp_equal :: "string \<Rightarrow> string \<Rightarrow> nat \<Rightarrow> bool" where
  "strncmp_equal a b 0 = True"
| "strncmp_equal [] [] (Suc n) = True"
| "strncmp_equal [] (y # b) (Suc n) = False"
| "strncmp_equal (x # a) [] (Suc n) = False"
| "strncmp_equal (x # a) (y # b) (Suc n) = (x = y \<and> strncmp_equal a b n)"

definition ldd_match :: "string \<Rightarrow> string \<Rightarrow> bool" where
  "ldd_match dev_name driver_name = strncmp_equal dev_name driver_name (length driver_name)"

definition bus_version :: string where "bus_version = ''1.9''"

definition bus_version_show :: string where
  "bus_version_show = bus_version @ [CHR 0x0A]"

definition dev_info_show :: "string \<Rightarrow> string" where
  "dev_info_show name = name @ [CHR 0x0A]"

definition version_show :: "string \<Rightarrow> string" where
  "version_show version = version @ [CHR 0x0A]"

definition ldd_uevent :: "string list \<Rightarrow> string list" where
  "ldd_uevent env = env @ [''LDDBUS_VERSION='' @ bus_version]"

datatype bus_res = LbBus | LbClass | LbRootName | LbRoot

definition lb_err_bus :: "bus_res call list" where [life_defs]: "lb_err_bus = [Rel LbBus]"
definition lb_err_class :: "bus_res call list" where [life_defs]: "lb_err_class = Rel LbClass # lb_err_bus"

definition lddbus_m_init :: "bus_res answers \<Rightarrow> errno option \<times> bus_res call list" where
  "lddbus_m_init F =
     if_err (F LbBus) (\<lambda>e. (Some e, []))
     (if_err (F LbClass) (\<lambda>e. (Some e, [Acq LbBus] @ lb_err_bus))
     (if_err (F LbRootName) (\<lambda>e. (Some e, [Acq LbBus, Acq LbClass] @ lb_err_class))
     (if_err (F LbRoot) (\<lambda>e. (Some e, [Acq LbBus, Acq LbClass, Acq LbRootName, Rel LbRootName] @ lb_err_class))
        (None, [Acq LbBus, Acq LbClass, Acq LbRootName, Acq LbRoot]))))"

definition lddbus_m_exit :: "bus_res call list" where
  "lddbus_m_exit = [Rel LbRoot, Rel LbRootName, Rel LbClass, Rel LbBus]"

lemma lddbus_module_clean: "clean lddbus_m_init lddbus_m_exit"
  by (simp add: clean_def lddbus_m_init_def lddbus_m_exit_def life_defs if_err_def split: option.split)

subsection \<open>The devices\<close>

definition SCULLD_DEV_NR :: nat where "SCULLD_DEV_NR = 2"
definition DEVNAME_LEN :: nat where "DEVNAME_LEN = 20"

definition sculld_driver_name :: string where "sculld_driver_name = ''sculld''"

definition sculld_devname :: "nat \<Rightarrow> string" where
  "sculld_devname i = take (DEVNAME_LEN - 1) (''sculld'' @ dec_string i)"

definition devno_show :: "nat \<Rightarrow> nat \<Rightarrow> string" where
  "devno_show major minor = dec_string major @ '':'' @ dec_string minor @ [CHR 0x0A]"

datatype sculld_res = SdRegion | SdDriver | SdDevices | SdName nat | SdLdev nat | SdCdev nat | SdNode nat

definition register_ldd_device :: "sculld_res answers \<Rightarrow> nat \<Rightarrow> errno option \<times> sculld_res call list" where
  "register_ldd_device F i =
     if_err (F (SdName i)) (\<lambda>e. (Some e, []))
     (if_err (F (SdLdev i)) (\<lambda>e. (Some e, [Acq (SdName i), Rel (SdName i)]))
        (None, [Acq (SdName i), Acq (SdLdev i)]))"

definition unregister_ldd_device :: "nat \<Rightarrow> sculld_res call list" where
  "unregister_ldd_device i = [Rel (SdLdev i), Rel (SdName i)]"

definition register_ldd_driver :: "sculld_res answers \<Rightarrow> errno option \<times> sculld_res call list" where
  "register_ldd_driver F = if_err (F SdDriver) (\<lambda>e. (Some e, [])) (None, [Acq SdDriver])"

definition unregister_ldd_driver :: "sculld_res call list" where
  "unregister_ldd_driver = [Rel SdDriver]"

definition sculld_setup :: "sculld_res answers \<Rightarrow> nat \<Rightarrow> errno option \<times> sculld_res call list" where
  "sculld_setup F i =
     (case register_ldd_device F i of
        (Some e, cs) \<Rightarrow> (Some e, cs)
      | (None, cs) \<Rightarrow>
          if_err (F (SdCdev i)) (\<lambda>e. (Some e, cs @ unregister_ldd_device i))
          (if_err (F (SdNode i)) (\<lambda>e. (Some e, cs @ [Acq (SdCdev i), Rel (SdCdev i)] @ unregister_ldd_device i))
             (None, cs @ [Acq (SdCdev i), Acq (SdNode i)])))"

definition sculld_cleanup :: "nat \<Rightarrow> sculld_res call list" where
  "sculld_cleanup i = [Rel (SdNode i), Rel (SdCdev i)] @ unregister_ldd_device i"

fun sculld_cleanup_down :: "nat \<Rightarrow> sculld_res call list" where
  "sculld_cleanup_down 0 = []"
| "sculld_cleanup_down (Suc i) = sculld_cleanup i @ sculld_cleanup_down i"

definition sd_err_region :: "sculld_res call list" where [life_defs]: "sd_err_region = [Rel SdRegion]"
definition sd_err_driver :: "sculld_res call list" where [life_defs]: "sd_err_driver = unregister_ldd_driver @ sd_err_region"

fun sculld_setup_all :: "sculld_res answers \<Rightarrow> nat \<Rightarrow> nat \<Rightarrow> errno option \<times> sculld_res call list" where
  "sculld_setup_all F i 0 = (None, [])"
| "sculld_setup_all F i (Suc k) =
     (case sculld_setup F i of
        (Some e, cs) \<Rightarrow> (Some e, cs @ sculld_cleanup_down i @ [Rel SdDevices] @ sd_err_driver)
      | (None, cs) \<Rightarrow> (case sculld_setup_all F (i + 1) k of (r, ds) \<Rightarrow> (r, cs @ ds)))"

definition sculld_m_init :: "sculld_res answers \<Rightarrow> errno option \<times> sculld_res call list" where
  "sculld_m_init F =
     if_err (F SdRegion) (\<lambda>e. (Some e, []))
     (case register_ldd_driver F of
        (Some e, cs) \<Rightarrow> (Some e, [Acq SdRegion] @ cs @ sd_err_region)
      | (None, cs) \<Rightarrow>
          if_err (F SdDevices) (\<lambda>_. (Some ENOMEM, [Acq SdRegion] @ cs @ sd_err_driver))
          (case sculld_setup_all F 0 SCULLD_DEV_NR of (r, ds) \<Rightarrow> (r, [Acq SdRegion] @ cs @ [Acq SdDevices] @ ds)))"

definition sculld_m_exit :: "sculld_res call list" where
  "sculld_m_exit = concat (map sculld_cleanup [0..<SCULLD_DEV_NR]) @ [Rel SdDevices] @ sd_err_driver"

lemmas sculld_defs = sculld_m_init_def sculld_m_exit_def sculld_setup_def sculld_cleanup_def register_ldd_device_def unregister_ldd_device_def
  register_ldd_driver_def unregister_ldd_driver_def

lemma sculld_module_clean: "clean_any sculld_m_init sculld_m_exit"
  by (simp add: clean_any_def sculld_defs life_defs if_err_def SCULLD_DEV_NR_def numeral_2_eq_2 upt_rec split: option.split prod.split)

subsection \<open>Which driver a device gets\<close>

lemma strncmp_prefix: "strncmp_equal a b (length b) \<longleftrightarrow> prefix b a"
  by (induction a b "length b" rule: strncmp_equal.induct) auto

lemma ldd_match_prefix: "ldd_match dev drv \<longleftrightarrow> prefix drv dev"
  by (simp add: ldd_match_def strncmp_prefix)

text \<open>Every sculld device is matched with the sculld driver, whatever its number.\<close>

lemma sculld_matches: "ldd_match (sculld_devname i) sculld_driver_name"
  by (simp add: ldd_match_prefix sculld_devname_def sculld_driver_name_def DEVNAME_LEN_def take_Cons')

end
