(* ===== verification/Pci_Skel.thy ===== *)
theory Pci_Skel
  imports Dma_Device Lifecycle
begin

unbundle bit_operations_syntax

section \<open>20_pci_skel: the skeleton of a PCI driver\<close>

text \<open>
  \<open>src/examples/20_pci_skel/main.c\<close>: claims and maps the ldd-pcie device, prints what it finds and
  tries the registers and the on-board memory. The registers of BAR 0 are those of the record
  \<open>hw\<close>; BAR 2 is given by its own two accessors. What is printed is returned as a record.
\<close>

definition LDD_MEM_BAR :: nat where "LDD_MEM_BAR = 2"

record 's bar2 =
  mem_iowrite32 :: "'s \<Rightarrow> nat \<Rightarrow> 32 word \<Rightarrow> 's"
  mem_ioread32 :: "'s \<Rightarrow> nat \<Rightarrow> 32 word"

record skel_report =
  sr_id :: "32 word"
  sr_major :: "32 word"
  sr_minor :: "32 word"
  sr_dma64 :: bool
  sr_scratch_ok :: bool
  sr_mem_ok :: bool

definition skel_show_ldd_pcie :: "'s hw \<Rightarrow> 's bar2 \<Rightarrow> 's \<Rightarrow> skel_report \<times> 's" where
  "skel_show_ldd_pcie H M s =
     (let ident = ioread32 H s LDD_REG_ID;
          ver = ioread32 H s LDD_REG_VERSION;
          caps = ioread32 H s LDD_REG_CAPS;
          s1 = iowrite32 H s LDD_REG_SCRATCH 0x12345678;
          val = ioread32 H s1 LDD_REG_SCRATCH;
          s2 = mem_iowrite32 M s1 0x100 0xcafef00d;
          val2 = mem_ioread32 M s2 0x100
      in (\<lparr>sr_id = ident, sr_major = drop_bit 16 ver, sr_minor = ver AND 0xffff,
           sr_dma64 = has_flag caps (ucast LDD_CAPS_DMA64), sr_scratch_ok = (val = 0x12345678), sr_mem_ok = (val2 = 0xcafef00d)\<rparr>, s2))"

text \<open>What the configuration space says: pin and line, and the BARs that have a length.\<close>

definition skel_pin :: "8 word \<Rightarrow> char" where
  "skel_pin pin = (if pin \<noteq> 0 then char_of (65 + unat pin - 1) else CHR ''-'')"

definition skel_bars :: "(nat \<Rightarrow> nat) \<Rightarrow> nat list" where
  "skel_bars resource_len = filter (\<lambda>bar. resource_len bar \<noteq> 0) [0..<6]"

datatype skel_pci_call = SpStruct | SpEnable | SpRegions | SpRegs | SpMem

definition sp_err_free :: "skel_pci_call call list" where [life_defs]: "sp_err_free = [Rel SpStruct]"
definition sp_err_disable :: "skel_pci_call call list" where [life_defs]: "sp_err_disable = Rel SpEnable # sp_err_free"
definition sp_err_release :: "skel_pci_call call list" where [life_defs]: "sp_err_release = Rel SpRegions # sp_err_disable"
definition sp_err_unmap_regs :: "skel_pci_call call list" where [life_defs]: "sp_err_unmap_regs = Rel SpRegs # sp_err_release"

definition pci_skel_probe :: "'s hw \<Rightarrow> 's bar2 \<Rightarrow> skel_pci_call answers \<Rightarrow> 's \<Rightarrow> skel_report result \<times> 's \<times> skel_pci_call call list" where
  "pci_skel_probe H M F s =
     if_err (F SpStruct) (\<lambda>_. (Inl ENOMEM, s, []))
     (if_err (F SpEnable) (\<lambda>e. (Inl e, s, [Acq SpStruct] @ sp_err_free))
     (if_err (F SpRegions) (\<lambda>e. (Inl e, s, [Acq SpStruct, Acq SpEnable] @ sp_err_disable))
     (if_err (F SpRegs) (\<lambda>_. (Inl ENOMEM, s, [Acq SpStruct, Acq SpEnable, Acq SpRegions] @ sp_err_release))
     (if ioread32 H s LDD_REG_ID \<noteq> ucast LDD_ID
      then (Inl ENODEV, s, [Acq SpStruct, Acq SpEnable, Acq SpRegions, Acq SpRegs] @ sp_err_unmap_regs)
      else if_err (F SpMem) (\<lambda>_. (Inl ENOMEM, s, [Acq SpStruct, Acq SpEnable, Acq SpRegions, Acq SpRegs] @ sp_err_unmap_regs))
        (case skel_show_ldd_pcie H M s of
           (rep, s') \<Rightarrow> (Inr rep, s', [Acq SpStruct, Acq SpEnable, Acq SpRegions, Acq SpRegs, Acq SpMem]))))))"

definition pci_skel_remove :: "skel_pci_call call list" where
  "pci_skel_remove = [Rel SpMem, Rel SpRegs, Rel SpRegions, Rel SpEnable, Rel SpStruct]"

lemma pci_skel_probe_all_or_nothing:
  "case pci_skel_probe H M F s of
     (Inl e, s', cs) \<Rightarrow> held cs [] = Some []
   | (Inr rep, s', cs) \<Rightarrow> held (cs @ pci_skel_remove) [] = Some []"
  by (simp add: pci_skel_probe_def pci_skel_remove_def life_defs if_err_def split: option.split prod.split)

subsection \<open>With the device\<close>

definition pcie_bar2 :: "'g ldd_pcie bar2" where
  "pcie_bar2 = \<lparr>mem_iowrite32 = (\<lambda>s off v. s\<lparr>ps_bar2 := mem_put off (le_bytes 4 v) (ps_bar2 s)\<rparr>),
     mem_ioread32 = (\<lambda>s off. le_word (mem_get off 4 (ps_bar2 s)))\<rparr>"

text \<open>
  Bound to the emulated device, the probe finds it, reports version 1.0 and the width of its DMA,
  and both of its tests read back what they wrote; it changes nothing but the scratch register and
  four bytes of the on-board memory.
\<close>

lemma pci_skel_on_ldd_pcie:
  assumes "length (ps_bar2 s) = LDD_MEM_SIZE"
  shows "\<exists>rep s' cs. pci_skel_probe (pcie_hw B now) pcie_bar2 (\<lambda>_. None) s = (Inr rep, s', cs) \<and>
    sr_id rep = 0x4c444450 \<and> sr_major rep = 1 \<and> sr_minor rep = 0 \<and> sr_dma64 rep = ps_dma64 s \<and> sr_scratch_ok rep \<and> sr_mem_ok rep \<and>
    s' = (upd_regs (\<lambda>r. r\<lparr>r_scratch := 0x12345678\<rparr>) s)\<lparr>ps_bar2 := mem_put 0x100 (le_bytes 4 (0xcafef00d :: 32 word)) (ps_bar2 s)\<rparr>"
proof -
  have mem: "mem_get 0x100 4 (mem_put 0x100 (le_bytes 4 (0xcafef00d :: 32 word)) (ps_bar2 s)) = le_bytes 4 (0xcafef00d :: 32 word)"
    using mem_get_mem_put [of "0x100" "le_bytes 4 (0xcafef00d :: 32 word)" "ps_bar2 s"] assms by (simp add: LDD_MEM_SIZE_def)
  have word: "le_word (le_bytes 4 (0xcafef00d :: 32 word)) = (0xcafef00d :: 32 word)"
    by (simp add: le_word_le_bytes take_bit_word_eq_self)
  show ?thesis
    by (simp add: pci_skel_probe_def skel_show_ldd_pcie_def pcie_hw_def pcie_bar2_def ldd_pcie_bar0_read_def ldd_pcie_bar0_write_def
        ldd_reg_consts ldd_bit_consts Let_def mem word has_flag_def)
qed

end
