(* ===== verification/Short_Port.thy ===== *)
theory Short_Port
  imports Short Seeking
begin

section \<open>15_short_ioport and 16_short_port_remap: the same device behind ports\<close>

text \<open>
  \<open>src/examples/15_short_ioport/main.c\<close> uses port instructions on \<open>base\<close> plus an offset;
  \<open>src/examples/16_short_port_remap/main.c\<close> uses the accessors of mapped memory on the cookie that
  \<open>ioport_map\<close> returns for the ports. Each is translated on its own. The two never use an access of more
  than four bytes, where the mapped driver 17 of theory \<open>Short\<close> reads a whole picture with one of eight and
  writes it as its parameter says. The port space is an \<open>io_bus\<close> on port numbers; that the sixteen
  ports from \<open>base\<close> on are the registers of the device is the hypothesis \<open>ports_at\<close>: \<open>ldd_io_realize\<close> gives
  the same operations to the port and to the memory region, and the dispatch to them is the machine's.
\<close>

subsection \<open>Port instructions\<close>

definition inb :: "'s io_bus \<Rightarrow> 's \<Rightarrow> 64 word \<Rightarrow> byte" where
  "inb P s port = ucast (io_rd P s port 1)"

definition outb :: "'s io_bus \<Rightarrow> byte \<Rightarrow> 64 word \<Rightarrow> 's \<Rightarrow> 's" where
  "outb P b port s = io_wr P s port 1 (ucast b)"

definition outl :: "'s io_bus \<Rightarrow> 32 word \<Rightarrow> 64 word \<Rightarrow> 's \<Rightarrow> 's" where
  "outl P v port s = io_wr P s port 4 (ucast v)"

definition outsb :: "'s io_bus \<Rightarrow> 64 word \<Rightarrow> byte list \<Rightarrow> 's \<Rightarrow> 's" where
  "outsb P port bs s = fold (\<lambda>b. outb P b port) bs s"

definition get_unaligned_le32 :: "byte list \<Rightarrow> nat \<Rightarrow> 32 word" where
  "get_unaligned_le32 rows i = le_word (mem_get i 4 rows)"

subsection \<open>15: the driver on ports\<close>

fun ioport_data_take :: "'s io_bus \<Rightarrow> 64 word \<Rightarrow> ('s \<Rightarrow> 's) \<Rightarrow> nat \<Rightarrow> 's \<Rightarrow> byte list \<times> 's" where
  "ioport_data_take P base feed 0 s = ([], s)"
| "ioport_data_take P base feed (Suc n) s =
     (if has_flag (inb P s (base + LDD_IO_STATUS)) LDD_IO_STATUS_RX_READY then
        let b = inb P s (base + LDD_IO_DATA);
            s1 = outb P LDD_IO_STATUS_RX_READY (base + LDD_IO_STATUS) s
        in case ioport_data_take P base feed n (feed s1) of (bs, s2) \<Rightarrow> (b # bs, s2)
      else ([], s))"

fun ioport_data_read_loop ::
  "'s io_bus \<Rightarrow> 64 word \<Rightarrow> ('s \<Rightarrow> 's) \<Rightarrow> bool \<Rightarrow> nat \<Rightarrow> (bool \<times> ('s \<Rightarrow> 's) \<times> bool) list \<Rightarrow> 's \<Rightarrow> (byte list result \<times> 's) option" where
  "ioport_data_read_loop P base feed nonblock count [] s = None"
| "ioport_data_read_loop P base feed nonblock count ((locked, w, signal) # ts) s =
     (if \<not> locked then Some (Inl ERESTARTSYS, s)
      else case ioport_data_take P base feed count s of (bs, s1) \<Rightarrow>
        if bs \<noteq> [] then Some (Inr bs, s1)
        else if nonblock then Some (Inl EAGAIN, s1)
        else let s2 = w s1 in
          if signal then Some (Inl ERESTARTSYS, s2) else ioport_data_read_loop P base feed nonblock count ts s2)"

definition ioport_data_read ::
  "'s io_bus \<Rightarrow> 64 word \<Rightarrow> ('s \<Rightarrow> 's) \<Rightarrow> bool \<Rightarrow> (bool \<times> ('s \<Rightarrow> 's) \<times> bool) list \<Rightarrow> to_user \<Rightarrow> nat \<Rightarrow> 's \<Rightarrow> (byte list result \<times> 's) option" where
  "ioport_data_read P base feed nonblock ts ctu count s =
     (if count = 0 then Some (Inr [], s)
      else case ioport_data_read_loop P base feed nonblock (min count 64) ts s of
        None \<Rightarrow> None
      | Some (Inl e, s1) \<Rightarrow> Some (Inl e, s1)
      | Some (Inr bs, s1) \<Rightarrow> Some (if ctu bs \<noteq> 0 then Inl EFAULT else Inr bs, s1))"

definition ioport_data_write :: "'s io_bus \<Rightarrow> 64 word \<Rightarrow> bool \<Rightarrow> (nat \<Rightarrow> byte list result) \<Rightarrow> nat \<Rightarrow> 's \<Rightarrow> nat result \<times> 's" where
  "ioport_data_write P base intr dup count0 s =
     (let count = min count0 SHORT_MAX_WRITE in
      case dup count of
        Inl e \<Rightarrow> (Inl e, s)
      | Inr kbuf \<Rightarrow> if intr then (Inl ERESTARTSYS, s) else (Inr count, outsb P (base + LDD_IO_DATA) kbuf s))"

definition ioport_matrix_read ::
  "'s io_bus \<Rightarrow> 64 word \<Rightarrow> bool \<Rightarrow> to_user \<Rightarrow> 's \<Rightarrow> int \<Rightarrow> nat \<Rightarrow> byte list result \<times> int" where
  "ioport_matrix_read P base intr ctu s pos count0 =
     (if pos < 0 then (Inl EINVAL, pos)
      else if pos \<ge> int LDD_IO_MATRIX_ROWS then (Inr [], pos)
      else let count = min count0 (LDD_IO_MATRIX_ROWS - nat pos) in
        if intr then (Inl ERESTARTSYS, pos)
        else let rows = map (\<lambda>i. inb P s (base + LDD_IO_MATRIX + of_nat (nat pos) + of_nat i)) [0..<count] in
          if ctu rows \<noteq> 0 then (Inl EFAULT, pos) else (Inr rows, pos + int count))"

definition ioport_matrix_write ::
  "'s io_bus \<Rightarrow> 64 word \<Rightarrow> bool \<Rightarrow> from_user \<Rightarrow> 's \<Rightarrow> int \<Rightarrow> nat \<Rightarrow> nat result \<times> 's \<times> int" where
  "ioport_matrix_write P base intr cfu s pos count0 =
     (if pos < 0 then (Inl EINVAL, s, pos)
      else if pos \<ge> int LDD_IO_MATRIX_ROWS then (Inl ENOSPC, s, pos)
      else let count = min count0 (LDD_IO_MATRIX_ROWS - nat pos); (left, rows) = cfu count in
        if left \<noteq> 0 then (Inl EFAULT, s, pos)
        else if intr then (Inl ERESTARTSYS, s, pos)
        else let s1 =
            (if pos = 0 \<and> count = LDD_IO_MATRIX_ROWS then
               outl P (get_unaligned_le32 rows 4) (base + LDD_IO_MATRIX + 4)
                 (outl P (get_unaligned_le32 rows 0) (base + LDD_IO_MATRIX) s)
             else fold (\<lambda>i. outb P (rows ! i) (base + LDD_IO_MATRIX + of_nat (nat pos) + of_nat i)) [0..<count] s)
          in (Inr count, s1, pos + int count))"

text \<open>\<open>fixed_size_llseek\<close>: the three known origins, and no position outside the eight rows.\<close>

definition fixed_size_llseek :: "int \<Rightarrow> int \<Rightarrow> whence \<Rightarrow> nat \<Rightarrow> int result \<times> int" where
  "fixed_size_llseek f_pos off origin sz =
     (case (case origin of SEEK_SET \<Rightarrow> Some off | SEEK_CUR \<Rightarrow> Some (f_pos + off) | SEEK_END \<Rightarrow> Some (int sz + off) | SEEK_OTHER n \<Rightarrow> None) of
        None \<Rightarrow> (Inl EINVAL, f_pos)
      | Some p \<Rightarrow> if p < 0 \<or> p > int sz then (Inl EINVAL, f_pos) else (Inr p, p))"

definition matrix_llseek :: "int \<Rightarrow> int \<Rightarrow> whence \<Rightarrow> int result \<times> int" where
  "matrix_llseek f_pos off origin = fixed_size_llseek f_pos off origin LDD_IO_MATRIX_ROWS"

definition ioport_open :: "nat \<Rightarrow> errno + short_minor" where
  "ioport_open minor =
     (if minor \<ge> SHORT_NR_MINORS then Inl (ErrOther 6) else Inr ([SHORT_DATA, SHORT_MATRIX] ! minor))"

subsection \<open>16: the driver on a port cookie\<close>

text \<open>The accessors recognise the cookie and issue port instructions.\<close>

definition cookie_bus :: "'s io_bus \<Rightarrow> 64 word \<Rightarrow> 's io_bus" where
  "cookie_bus P io = \<lparr>io_rd = (\<lambda>s a w. io_rd P s (io + a) w), io_wr = (\<lambda>s a w v. io_wr P s (io + a) w v)\<rparr>"

definition remap_matrix_llseek :: "int \<Rightarrow> int \<Rightarrow> whence \<Rightarrow> int result \<times> int" where
  "remap_matrix_llseek f_pos off origin = fixed_size_llseek f_pos off origin LDD_IO_MATRIX_ROWS"

definition mmio_matrix_llseek :: "int \<Rightarrow> int \<Rightarrow> whence \<Rightarrow> int result \<times> int" where
  "mmio_matrix_llseek f_pos off origin = fixed_size_llseek f_pos off origin LDD_IO_MATRIX_ROWS"

definition remap_minor_fops :: "short_minor list" where
  "remap_minor_fops = [SHORT_DATA, SHORT_MATRIX]"

definition remap_open :: "nat \<Rightarrow> errno + short_minor" where
  "remap_open minor = (if minor \<ge> SHORT_NR_MINORS then Inl (ErrOther 6) else Inr (remap_minor_fops ! minor))"

fun remap_data_take :: "'s io_bus \<Rightarrow> 64 word \<Rightarrow> ('s \<Rightarrow> 's) \<Rightarrow> nat \<Rightarrow> 's \<Rightarrow> byte list \<times> 's" where
  "remap_data_take P io feed 0 s = ([], s)"
| "remap_data_take P io feed (Suc n) s =
     (if has_flag (ioread8 (cookie_bus P io) s LDD_IO_STATUS) LDD_IO_STATUS_RX_READY then
        let b = ioread8 (cookie_bus P io) s LDD_IO_DATA;
            s1 = iowrite8 (cookie_bus P io) s LDD_IO_STATUS LDD_IO_STATUS_RX_READY
        in case remap_data_take P io feed n (feed s1) of (bs, s2) \<Rightarrow> (b # bs, s2)
      else ([], s))"

fun remap_data_read_loop ::
  "'s io_bus \<Rightarrow> 64 word \<Rightarrow> ('s \<Rightarrow> 's) \<Rightarrow> bool \<Rightarrow> nat \<Rightarrow> (bool \<times> ('s \<Rightarrow> 's) \<times> bool) list \<Rightarrow> 's \<Rightarrow> (byte list result \<times> 's) option" where
  "remap_data_read_loop P io feed nonblock count [] s = None"
| "remap_data_read_loop P io feed nonblock count ((locked, w, signal) # ts) s =
     (if \<not> locked then Some (Inl ERESTARTSYS, s)
      else case remap_data_take P io feed count s of (bs, s1) \<Rightarrow>
        if bs \<noteq> [] then Some (Inr bs, s1)
        else if nonblock then Some (Inl EAGAIN, s1)
        else let s2 = w s1 in
          if signal then Some (Inl ERESTARTSYS, s2) else remap_data_read_loop P io feed nonblock count ts s2)"

definition remap_data_read ::
  "'s io_bus \<Rightarrow> 64 word \<Rightarrow> ('s \<Rightarrow> 's) \<Rightarrow> bool \<Rightarrow> (bool \<times> ('s \<Rightarrow> 's) \<times> bool) list \<Rightarrow> to_user \<Rightarrow> nat \<Rightarrow> 's \<Rightarrow> (byte list result \<times> 's) option" where
  "remap_data_read P io feed nonblock ts ctu count s =
     (if count = 0 then Some (Inr [], s)
      else case remap_data_read_loop P io feed nonblock (min count 64) ts s of
        None \<Rightarrow> None
      | Some (Inl e, s1) \<Rightarrow> Some (Inl e, s1)
      | Some (Inr bs, s1) \<Rightarrow> Some (if ctu bs \<noteq> 0 then Inl EFAULT else Inr bs, s1))"

definition iowrite8_rep :: "'s io_bus \<Rightarrow> 64 word \<Rightarrow> byte list \<Rightarrow> 's \<Rightarrow> 's" where
  "iowrite8_rep M a bs s = fold (\<lambda>b s. iowrite8 M s a b) bs s"

definition iowrite32 :: "'s io_bus \<Rightarrow> 's \<Rightarrow> 64 word \<Rightarrow> 32 word \<Rightarrow> 's" where
  "iowrite32 M s a v = io_wr M s a 4 (ucast v)"

definition remap_data_write :: "'s io_bus \<Rightarrow> 64 word \<Rightarrow> bool \<Rightarrow> (nat \<Rightarrow> byte list result) \<Rightarrow> nat \<Rightarrow> 's \<Rightarrow> nat result \<times> 's" where
  "remap_data_write P io intr dup count0 s =
     (let count = min count0 SHORT_MAX_WRITE in
      case dup count of
        Inl e \<Rightarrow> (Inl e, s)
      | Inr kbuf \<Rightarrow> if intr then (Inl ERESTARTSYS, s) else (Inr count, iowrite8_rep (cookie_bus P io) LDD_IO_DATA kbuf s))"

definition remap_matrix_read :: "'s io_bus \<Rightarrow> 64 word \<Rightarrow> bool \<Rightarrow> to_user \<Rightarrow> 's \<Rightarrow> int \<Rightarrow> nat \<Rightarrow> byte list result \<times> int" where
  "remap_matrix_read P io intr ctu s pos count0 =
     (if pos < 0 then (Inl EINVAL, pos)
      else if pos \<ge> int LDD_IO_MATRIX_ROWS then (Inr [], pos)
      else let p = nat pos; count = min count0 (LDD_IO_MATRIX_ROWS - p) in
        if intr then (Inl ERESTARTSYS, pos)
        else let rows = map (\<lambda>i. ioread8 (cookie_bus P io) s (LDD_IO_MATRIX + of_nat (p + i))) [0..<count] in
          if ctu rows \<noteq> 0 then (Inl EFAULT, pos) else (Inr rows, pos + int count))"

definition remap_matrix_write :: "'s io_bus \<Rightarrow> 64 word \<Rightarrow> bool \<Rightarrow> from_user \<Rightarrow> 's \<Rightarrow> int \<Rightarrow> nat \<Rightarrow> nat result \<times> 's \<times> int" where
  "remap_matrix_write P io intr cfu s pos count0 =
     (if pos < 0 then (Inl EINVAL, s, pos)
      else if pos \<ge> int LDD_IO_MATRIX_ROWS then (Inl ENOSPC, s, pos)
      else let p = nat pos; count = min count0 (LDD_IO_MATRIX_ROWS - p); (left, rows) = cfu count in
        if left \<noteq> 0 then (Inl EFAULT, s, pos)
        else if intr then (Inl ERESTARTSYS, s, pos)
        else let s1 =
            (if p = 0 \<and> count = LDD_IO_MATRIX_ROWS then
               iowrite32 (cookie_bus P io)
                 (iowrite32 (cookie_bus P io) s LDD_IO_MATRIX (get_unaligned_le32 rows 0))
                 (LDD_IO_MATRIX + 4) (get_unaligned_le32 rows 4)
             else fold (\<lambda>i s. iowrite8 (cookie_bus P io) s (LDD_IO_MATRIX + of_nat (p + i)) (rows ! i)) [0..<count] s)
          in (Inr count, s1, pos + int count))"

definition remap_m_init :: "short_res answers \<Rightarrow> errno option \<times> short_res call list" where
  "remap_m_init F =
     if_err (F ShRegion) (\<lambda>_. (Some EBUSY, []))
     (if_err (F ShMap) (\<lambda>_. (Some ENOMEM, [Acq ShRegion] @ serr_release))
     (if_err (F ShDevno) (\<lambda>e. (Some e, [Acq ShRegion, Acq ShMap] @ serr_unmap))
     (if_err (F ShCdev) (\<lambda>e. (Some e, [Acq ShRegion, Acq ShMap, Acq ShDevno] @ [Rel ShDevno] @ serr_unmap))
        (None, [Acq ShRegion, Acq ShMap, Acq ShDevno, Acq ShCdev]))))"

definition remap_m_exit :: "short_res call list" where
  "remap_m_exit = [Rel ShCdev, Rel ShDevno] @ serr_unmap"

subsection \<open>The ports are the registers\<close>

definition ports_at :: "64 word \<Rightarrow> 's io_bus \<Rightarrow> 's io_bus \<Rightarrow> bool" where
  "ports_at base P M \<longleftrightarrow>
     (\<forall>s i w v. i + w \<le> LDD_IO_SIZE \<longrightarrow>
        io_rd P s (base + of_nat i) w = io_rd M s (of_nat i) w \<and> io_wr P s (base + of_nat i) w v = io_wr M s (of_nat i) w v)"

lemma ports_atD:
  assumes "ports_at base P M" and "i + w \<le> 16"
  shows "io_rd P s (base + of_nat i) w = io_rd M s (of_nat i) w" and "io_wr P s (base + of_nat i) w v = io_wr M s (of_nat i) w v"
  using assms by (auto simp: ports_at_def LDD_IO_SIZE_def)

text \<open>The drivers 15 and 16 issue the same accesses, whatever is behind the ports.\<close>

lemma cookie_bytes:
  "ioread8 (cookie_bus P io) s a = inb P s (io + a)" "iowrite8 (cookie_bus P io) s a b = outb P b (io + a) s"
  by (simp_all add: ioread8_def iowrite8_def inb_def outb_def cookie_bus_def)

lemma remap_take_eq: "remap_data_take P io feed n s = data_take (cookie_bus P io) feed n s"
  by (induction P io feed n s rule: remap_data_take.induct) simp_all

lemma ioport_take_is_remap: "ioport_data_take P base feed n s = remap_data_take P base feed n s"
  by (induction P base feed n s rule: ioport_data_take.induct) (simp_all add: cookie_bytes)

lemma remap_loop_eq: "remap_data_read_loop P io feed nonblock count ts s = data_read_loop (cookie_bus P io) feed nonblock count ts s"
  by (induction P io feed nonblock count ts s rule: remap_data_read_loop.induct) (auto simp: remap_take_eq Let_def split: prod.split)

lemma ioport_loop_is_remap:
  "ioport_data_read_loop P base feed nonblock count ts s = remap_data_read_loop P base feed nonblock count ts s"
  by (induction P base feed nonblock count ts s rule: ioport_data_read_loop.induct)
    (auto simp: ioport_take_is_remap Let_def split: prod.split)

lemma ioport_read_is_remap: "ioport_data_read P base feed nonblock ts ctu count s = remap_data_read P base feed nonblock ts ctu count s"
  by (simp add: ioport_data_read_def remap_data_read_def ioport_loop_is_remap)

lemma remap_read_eq: "remap_data_read P io feed nonblock ts ctu count s = data_read (cookie_bus P io) feed nonblock ts ctu count s"
  by (auto simp: remap_data_read_def data_read_def remap_loop_eq split: option.split sum.split)

lemma ioport_write_is_remap: "ioport_data_write P base intr dup count s = remap_data_write P base intr dup count s"
  by (simp add: ioport_data_write_def remap_data_write_def outsb_def iowrite8_rep_def cookie_bytes Let_def split: sum.split)

lemma remap_write_eq: "remap_data_write P io intr dup count s = data_write (cookie_bus P io) intr dup count s"
  by (simp add: remap_data_write_def data_write_def iowrite8_rep_def Let_def split: sum.split)

lemma ioport_matrix_read_is_remap: "ioport_matrix_read P base intr ctu s pos count = remap_matrix_read P base intr ctu s pos count"
  by (simp add: ioport_matrix_read_def remap_matrix_read_def cookie_bytes ac_simps Let_def)

lemma outl_is_iowrite32: "outl P v (io + a) s = iowrite32 (cookie_bus P io) s a v"
  by (simp add: outl_def iowrite32_def cookie_bus_def)

lemma ioport_matrix_write_is_remap: "ioport_matrix_write P base intr cfu s pos count = remap_matrix_write P base intr cfu s pos count"
proof (cases "0 \<le> pos")
  case True
  then obtain p where "pos = int p" by (metis nonneg_int_cases)
  then show ?thesis
    by (simp add: ioport_matrix_write_def remap_matrix_write_def outl_is_iowrite32 cookie_bytes Let_def add.assoc split del: if_split cong: if_cong)
qed (simp add: ioport_matrix_write_def remap_matrix_write_def)

text \<open>The 32-bit writes of a picture are one way of covering the rows.\<close>

lemma le_word_ucast: "length bs \<le> 4 \<Longrightarrow> ucast (le_word bs :: 32 word) = (le_word bs :: 64 word)"
  by (rule bit_word_eqI) (auto simp: bit_simps bit_le_word)

lemma remap_matrix_write_eq:
  "remap_matrix_write P io intr cfu s pos count = matrix_write (cookie_bus P io) [(0, 4), (4, 4)] intr cfu s pos count"
proof -
  have full: "iowrite32 N (iowrite32 N s LDD_IO_MATRIX (get_unaligned_le32 rows 0)) (LDD_IO_MATRIX + 4) (get_unaligned_le32 rows 4) =
      rows_put N [(0, 4), (4, 4)] rows s" for N :: "'a io_bus" and s rows
    by (simp add: rows_put_def iowrite32_def get_unaligned_le32_def le_word_ucast mem_get_def)
  show ?thesis unfolding remap_matrix_write_def matrix_write_def full ..
qed

text \<open>A bus that agrees with another on the sixteen registers is as good for the drivers.\<close>

lemma cookie_ports_at: "ports_at base P M \<Longrightarrow> ports_at 0 (cookie_bus P base) M"
  by (simp add: ports_at_def cookie_bus_def)

lemma agree_bytes:
  assumes "ports_at 0 N M"
  shows "ioread8 N s LDD_IO_STATUS = ioread8 M s LDD_IO_STATUS" and "ioread8 N s LDD_IO_DATA = ioread8 M s LDD_IO_DATA"
    and "iowrite8 N s LDD_IO_STATUS b = iowrite8 M s LDD_IO_STATUS b" and "iowrite8 N s LDD_IO_DATA b = iowrite8 M s LDD_IO_DATA b"
  using ports_atD [OF assms, of 1 1] ports_atD [OF assms, of 0 1]
  by (simp_all add: ioread8_def iowrite8_def LDD_IO_STATUS_def LDD_IO_DATA_def)

lemma agree_rows:
  assumes "ports_at 0 N M" and "k + w \<le> 8"
  shows "io_rd N s (LDD_IO_MATRIX + of_nat k) w = io_rd M s (LDD_IO_MATRIX + of_nat k) w"
    and "io_wr N s (LDD_IO_MATRIX + of_nat k) w v = io_wr M s (LDD_IO_MATRIX + of_nat k) w v"
  using ports_atD [OF assms(1), of "8 + k" w] assms(2) by (simp_all add: LDD_IO_MATRIX_def)

lemma agree_take: "ports_at 0 N M \<Longrightarrow> data_take N feed n s = data_take M feed n s"
  by (induction n arbitrary: s) (simp_all add: agree_bytes)

lemma agree_loop: "ports_at 0 N M \<Longrightarrow> data_read_loop N feed nonblock count ts s = data_read_loop M feed nonblock count ts s"
  by (induction M feed nonblock count ts s rule: data_read_loop.induct) (auto simp: agree_take Let_def split: prod.split)

lemma agree_read: "ports_at 0 N M \<Longrightarrow> data_read N feed nonblock ts ctu count s = data_read M feed nonblock ts ctu count s"
  by (simp add: data_read_def agree_loop)

lemma agree_write: "ports_at 0 N M \<Longrightarrow> data_write N intr dup count s = data_write M intr dup count s"
  by (simp add: data_write_def agree_bytes Let_def split: sum.split)

lemma agree_row:
  assumes "ports_at 0 N M" and "k < 8"
  shows "ioread8 N s (LDD_IO_MATRIX + of_nat k) = ioread8 M s (LDD_IO_MATRIX + of_nat k)"
    and "iowrite8 N s (LDD_IO_MATRIX + of_nat k) b = iowrite8 M s (LDD_IO_MATRIX + of_nat k) b"
  unfolding ioread8_def iowrite8_def using agree_rows [OF assms(1), of k 1] assms(2) by simp_all

text \<open>On the device itself, eight byte reads see what one 64-bit read sees.\<close>

lemma remap_matrix_read_eq:
  assumes "ports_at io P (ldd_io_bus E)" and "io_wf s"
  shows "remap_matrix_read P io intr ctu s pos count = matrix_read (ldd_io_bus E) intr ctu s pos count"
proof -
  define p where "p = nat pos"
  note row = agree_row(1) [OF cookie_ports_at [OF assms(1)]]
  have same: "map (\<lambda>i. ioread8 (cookie_bus P io) s (LDD_IO_MATRIX + of_nat (p + i))) [0..<min count (8 - p)] =
      map (\<lambda>i. ioread8 (ldd_io_bus E) s (LDD_IO_MATRIX + of_nat (p + i))) [0..<min count (8 - p)]"
    by (rule map_cong [OF refl], rule row) auto
  have bytes: "map (\<lambda>i. ioread8 (ldd_io_bus E) s (LDD_IO_MATRIX + of_nat (p + i))) [0..<min count (8 - p)] = mem_get p (min count (8 - p)) (io_matrix s)"
    if "p \<le> 8" using io_matrix.byte_reads [OF assms(2), of p "min count (8 - p)" E] that by simp
  have "p \<le> 8" if "pos < 8" using that by (simp add: p_def)
  then show ?thesis
    using same bytes io_matrix.quad_read [OF assms(2), of E]
    by (auto simp: remap_matrix_read_def matrix_read_def Let_def LDD_IO_MATRIX_ROWS_def p_def [symmetric] simp del: of_nat_add map_eq_conv)
qed

lemma agree_matrix_write:
  assumes "ports_at 0 N M" and "\<forall>(i, w) \<in> set full. i + w \<le> 8"
  shows "matrix_write N full intr cfu s pos count = matrix_write M full intr cfu s pos count"
proof -
  define p where "p = nat pos"
  have full: "rows_put N full rows s = rows_put M full rows s" for rows s
    unfolding rows_put_def by (rule fold_cong) (use assms(2) agree_rows(2) [OF assms(1)] in \<open>auto intro!: ext\<close>)
  have "(\<lambda>s. iowrite8 N s (LDD_IO_MATRIX + of_nat (p + i)) b) = (\<lambda>s. iowrite8 M s (LDD_IO_MATRIX + of_nat (p + i)) b)" if "p + i < 8" for i b
    by (rule ext, rule agree_row(2) [OF assms(1) that])
  then have part: "fold (\<lambda>i s. iowrite8 N s (LDD_IO_MATRIX + of_nat (p + i)) (rows ! i)) [0..<min count (8 - p)] s =
      fold (\<lambda>i s. iowrite8 M s (LDD_IO_MATRIX + of_nat (p + i)) (rows ! i)) [0..<min count (8 - p)] s" for rows s
    by (intro fold_cong refl) auto
  show ?thesis by (simp only: matrix_write_def Let_def LDD_IO_MATRIX_ROWS_def p_def [symmetric] full part)
qed

subsection \<open>Three drivers, one device\<close>

lemma remap_module_clean: "clean remap_m_init remap_m_exit"
  by (auto simp: clean_def remap_m_init_def remap_m_exit_def life_defs if_err_def split: option.split)

lemma matrix_llseek_in_rows:
  "matrix_llseek f_pos off origin = (r, p) \<Longrightarrow> 0 \<le> f_pos \<Longrightarrow> f_pos \<le> 8 \<Longrightarrow>
     0 \<le> p \<and> p \<le> 8 \<and> (case r of Inl e \<Rightarrow> e = EINVAL \<and> p = f_pos | Inr q \<Rightarrow> q = p)"
  by (auto simp: matrix_llseek_def fixed_size_llseek_def LDD_IO_MATRIX_ROWS_def split: whence.splits if_splits)

lemma short_opens_agree: "ioport_open minor = short_open minor" "remap_open minor = short_open minor"
  by (auto simp: ioport_open_def remap_open_def remap_minor_fops_def short_open_def SHORT_NR_MINORS_def less_Suc_eq numeral_2_eq_2)

text \<open>
  C29: The drivers on ports, on a port cookie and on mapped memory do the same to the device. When the
  ports from \<open>base\<close> on are the registers of ldd-io, every call of the first two, polling loops included,
  returns what the mapped driver returns and sets the same file position, on every branch, errors and
  partial transfers included, whatever the timing. The two port drivers leave the device and its panel in
  the same state, reads and writes of the data device leave it in that of the mapped driver too, and after a write of
  the matrix all its registers are the same, whatever the parameter \<open>width\<close> of the mapped driver and
  whatever accesses, covering the rows in order, \<open>memcpy_toio\<close> makes of it (only the panel is redrawn
  once per access). Reading back eight rows gives the same by eight byte reads as by one 64-bit read.
\<close>

theorem short_drivers_agree:
  assumes "ports_at base P (ldd_io_bus E)" and "io_wf s" and "from_user_ok cfu" and "tiles 0 toio"
  shows "ioport_data_read P base feed nonblock ts ctu count s = data_read (ldd_io_bus E) feed nonblock ts ctu count s \<and>
    remap_data_read P base feed nonblock ts ctu count s = data_read (ldd_io_bus E) feed nonblock ts ctu count s \<and>
    ioport_data_write P base intr dup count s = data_write (ldd_io_bus E) intr dup count s \<and>
    remap_data_write P base intr dup count s = data_write (ldd_io_bus E) intr dup count s \<and>
    ioport_matrix_read P base intr ctu s pos count = matrix_read (ldd_io_bus E) intr ctu s pos count \<and>
    remap_matrix_read P base intr ctu s pos count = matrix_read (ldd_io_bus E) intr ctu s pos count \<and>
    ioport_matrix_write P base intr cfu s pos count = remap_matrix_write P base intr cfu s pos count \<and>
    (case remap_matrix_write P base intr cfu s pos count of (r, s1, p) \<Rightarrow>
       case matrix_write (ldd_io_bus E) (matrix_put_accesses width toio) intr cfu s pos count of (r', s1', p') \<Rightarrow>
         r = r' \<and> p = p' \<and> io_view s1 = io_view s1')"
proof -
  note c = cookie_ports_at [OF assms(1)]
  have "remap_matrix_write P base intr cfu s pos count = matrix_write (ldd_io_bus E) [(0, 4), (4, 4)] intr cfu s pos count"
    unfolding remap_matrix_write_eq by (rule agree_matrix_write [OF c]) simp
  moreover have "tiles 0 (matrix_put_accesses width toio)" using assms(4) put_accesses_tile(2) by blast
  ultimately have w: "case remap_matrix_write P base intr cfu s pos count of (r, s1, p) \<Rightarrow>
      case matrix_write (ldd_io_bus E) (matrix_put_accesses width toio) intr cfu s pos count of (r', s1', p') \<Rightarrow>
        r = r' \<and> p = p' \<and> io_view s1 = io_view s1'"
    using io_matrix.matrix_write_same [OF assms(2) put_accesses_tile(1) _ assms(3)] by (auto intro: io_view_eqI split: prod.split)
  show ?thesis
    using w agree_read [OF c] agree_write [OF c] remap_matrix_read_eq [OF assms(1,2)]
    by (simp add: ioport_read_is_remap ioport_write_is_remap ioport_matrix_read_is_remap ioport_matrix_write_is_remap
        remap_read_eq remap_write_eq)
qed

definition shifted :: "64 word \<Rightarrow> 's io_bus \<Rightarrow> 's io_bus" where
  "shifted base M = \<lparr>io_rd = (\<lambda>s a w. io_rd M s (a - base) w), io_wr = (\<lambda>s a w v. io_wr M s (a - base) w v)\<rparr>"

lemma shifted_ports_at: "ports_at base (shifted base M) M"
  by (simp add: ports_at_def shifted_def)

theorem short_drivers_agree_witness:
  "ports_at 0x200 (shifted 0x200 (ldd_io_bus demo_chr)) (ldd_io_bus demo_chr) \<and> io_wf demo_io \<and>
   from_user_ok (user_buffer [1, 2, 3, 4, 5, 6, 7, 8]) \<and> tiles 0 [(0, 8)] \<and>
   (case remap_matrix_write (shifted 0x200 (ldd_io_bus demo_chr)) 0x200 False (user_buffer [1, 2, 3, 4, 5, 6, 7, 8]) demo_io 0 8 of (r, s1, p) \<Rightarrow>
      case matrix_write (ldd_io_bus demo_chr) (matrix_put_accesses 8 [(0, 8)]) False (user_buffer [1, 2, 3, 4, 5, 6, 7, 8]) demo_io 0 8 of
        (r', s1', p') \<Rightarrow> r = r' \<and> p = p' \<and> io_view s1 = io_view s1')"
proof -
  have t: "tiles 0 [(0, 8)]" by (simp add: access_ok_def)
  note all = short_drivers_agree [OF shifted_ports_at [of "0x200" "ldd_io_bus demo_chr"] demo_io_wf
      from_user_ok_user_buffer [of "[1, 2, 3, 4, 5, 6, 7, 8]"] t, where width = 8 and intr = False and pos = 0 and count = 8]
  show ?thesis
    by (intro conjI shifted_ports_at demo_io_wf from_user_ok_user_buffer t) (rule all [THEN conjunct2, THEN conjunct2, THEN conjunct2, THEN conjunct2, THEN conjunct2, THEN conjunct2, THEN conjunct2])
qed

text \<open>With the device itself behind the ports, a picture written through them is read back.\<close>

lemma ioport_matrix_write_read:
  assumes "ports_at base P (ldd_io_bus E)" and "io_wf s" and "0 \<le> pos" and "pos < 8"
    and "length data = min count (8 - nat pos)" and "cfu (length data) = (0, data)" and "\<forall>bs. ctu bs = 0"
  shows "\<exists>s'. ioport_matrix_write P base False cfu s pos count = (Inr (length data), s', pos + int (length data)) \<and>
      io_wf s' \<and> io_matrix s' = mem_put (nat pos) data (io_matrix s) \<and>
      ioport_matrix_read P base False ctu s' pos count = (Inr data, pos + int (length data))"
proof -
  have acc: "\<forall>(i, w) \<in> set [(0, 4), (4, 4)]. i + w \<le> (8 :: nat)" "matrix_put_accesses 4 [] = [(0, 4), (4, 4)]"
    by (simp_all add: matrix_put_accesses_def LDD_IO_MATRIX_ROWS_def upt_rec)
  have width: "(4 :: int) \<in> {1, 2, 4, 8} \<or> tiles 0 []" by simp
  obtain s' where "matrix_write (ldd_io_bus E) [(0, 4), (4, 4)] False cfu s pos count = (Inr (length data), s', pos + int (length data))"
    "io_wf s'" "io_matrix s' = mem_put (nat pos) data (io_matrix s)"
    "matrix_read (ldd_io_bus E) False ctu s' pos count = (Inr data, pos + int (length data))"
    using short_matrix_write_read [where cfu = cfu and ctu = ctu and data = data and E = E, OF assms(2-4) width assms(5-7), unfolded acc(2)] by blast
  then show ?thesis
    using agree_matrix_write [OF cookie_ports_at [OF assms(1)] acc(1)]
    by (auto simp: ioport_matrix_read_is_remap ioport_matrix_write_is_remap remap_matrix_write_eq remap_matrix_read_eq [OF assms(1)])
qed

end
