(* ===== verification/Headers.thy ===== *)
theory Headers
  imports LDD_IO LDD_PCIE LDD_USB
begin

unbundle bit_operations_syntax

section \<open>What drivers and devices say of each other\<close>

text \<open>
  Devices and drivers share no header: each driver of an ldd device writes down in its own
  \<open>main.h\<close> the registers and bits it uses, and a table of the devices it is for. The models of
  the drivers use the constants of the devices. This theory has the headers and tables as they are
  written, name by name, and shows that they say the same.
\<close>

type_synonym header = "(string \<times> nat) list"

definition BIT :: "nat \<Rightarrow> nat" where "BIT n = 2 ^ n"
definition GENMASK :: "nat \<Rightarrow> nat \<Rightarrow> nat" where "GENMASK h l = 2 ^ (h + 1) - 2 ^ l"

subsection \<open>The headers of the drivers\<close>

definition ioport_header :: header where
  "ioport_header =
     [(''LDD_IO_DATA'', 0), (''LDD_IO_STATUS'', 1), (''LDD_IO_CTRL'', 2), (''LDD_IO_MATRIX'', 8),
      (''LDD_IO_MATRIX_ROWS'', 8), (''LDD_IO_SIZE'', 16), (''LDD_IO_STATUS_RX_READY'', BIT 0)]"

definition remap_header :: header where
  "remap_header =
     [(''LDD_IO_DATA'', 0), (''LDD_IO_STATUS'', 1), (''LDD_IO_CTRL'', 2), (''LDD_IO_MATRIX'', 8),
      (''LDD_IO_MATRIX_ROWS'', 8), (''LDD_IO_SIZE'', 16), (''LDD_IO_STATUS_RX_READY'', BIT 0)]"

definition mmio_header :: header where
  "mmio_header =
     [(''LDD_IO_DATA'', 0), (''LDD_IO_STATUS'', 1), (''LDD_IO_CTRL'', 2), (''LDD_IO_MATRIX'', 8),
      (''LDD_IO_MATRIX_ROWS'', 8), (''LDD_IO_SIZE'', 16), (''LDD_IO_STATUS_RX_READY'', BIT 0)]"

definition irq_header :: header where
  "irq_header =
     [(''LDD_IO_DATA'', 0), (''LDD_IO_STATUS'', 1), (''LDD_IO_CTRL'', 2), (''LDD_IO_SIZE'', 16),
      (''LDD_IO_STATUS_RX_READY'', BIT 0), (''LDD_IO_CTRL_IRQ_EN'', BIT 0), (''LDD_IO_CTRL_LOOPBACK'', BIT 1)]"

definition irq_probe_header :: header where
  "irq_probe_header =
     [(''LDD_IO_DATA'', 0), (''LDD_IO_STATUS'', 1), (''LDD_IO_CTRL'', 2), (''LDD_IO_SIZE'', 16),
      (''LDD_IO_STATUS_RX_READY'', BIT 0), (''LDD_IO_CTRL_IRQ_EN'', BIT 0), (''LDD_IO_CTRL_LOOPBACK'', BIT 1)]"

definition pci_skel_header :: header where
  "pci_skel_header =
     [(''LDD_REG_ID'', 0x00), (''LDD_REG_VERSION'', 0x04), (''LDD_REG_CAPS'', 0x08), (''LDD_REG_SCRATCH'', 0x0c),
      (''LDD_ID'', 0x4c444450), (''LDD_CAPS_DMA64'', BIT 0)]"

definition msi_header :: header where
  "msi_header =
     [(''LDD_REG_ID'', 0x00), (''LDD_REG_INT_STATUS'', 0x18), (''LDD_REG_INT_MASK'', 0x1c), (''LDD_REG_INT_RAISE'', 0x20),
      (''LDD_ID'', 0x4c444450), (''LDD_INT_DMA_DONE'', BIT 0), (''LDD_INT_DMA_ERROR'', BIT 1), (''LDD_INT_SOFT'', BIT 2),
      (''LDD_INT_ALL'', GENMASK 2 0), (''LDD_NR_EVENTS'', 3)]"

definition dma_header :: header where
  "dma_header =
     [(''LDD_REG_ID'', 0x00), (''LDD_REG_CAPS'', 0x08), (''LDD_REG_CTRL'', 0x10), (''LDD_REG_STATUS'', 0x14),
      (''LDD_REG_INT_STATUS'', 0x18), (''LDD_REG_INT_MASK'', 0x1c), (''LDD_REG_MAX_SEG'', 0x24),
      (''LDD_REG_DESC_ADDR_LO'', 0x40), (''LDD_REG_DESC_ADDR_HI'', 0x44), (''LDD_REG_DESC_COUNT'', 0x48),
      (''LDD_REG_DEV_OFFSET'', 0x4c), (''LDD_REG_DMA_CTRL'', 0x50), (''LDD_REG_XOR'', 0x5c),
      (''LDD_ID'', 0x4c444450), (''LDD_CAPS_DMA64'', BIT 0), (''LDD_CTRL_RESET'', BIT 0),
      (''LDD_STATUS_ERR_CODE'', GENMASK 15 8), (''LDD_INT_DMA_DONE'', BIT 0), (''LDD_INT_DMA_ERROR'', BIT 1),
      (''LDD_DMA_CTRL_TO_RAM'', BIT 0), (''LDD_DMA_CTRL_START'', BIT 1), (''LDD_MEM_SIZE'', 1048576)]"

definition dma_sg_header :: header where
  "dma_sg_header =
     [(''LDD_REG_ID'', 0x00), (''LDD_REG_CAPS'', 0x08), (''LDD_REG_CTRL'', 0x10), (''LDD_REG_STATUS'', 0x14),
      (''LDD_REG_INT_STATUS'', 0x18), (''LDD_REG_INT_MASK'', 0x1c), (''LDD_REG_MAX_SEG'', 0x24), (''LDD_REG_MAX_DESC'', 0x28),
      (''LDD_REG_DESC_ADDR_LO'', 0x40), (''LDD_REG_DESC_ADDR_HI'', 0x44), (''LDD_REG_DESC_COUNT'', 0x48),
      (''LDD_REG_DEV_OFFSET'', 0x4c), (''LDD_REG_DMA_CTRL'', 0x50), (''LDD_REG_ERR_DESC'', 0x58), (''LDD_REG_XOR'', 0x5c),
      (''LDD_ID'', 0x4c444450), (''LDD_CAPS_DMA64'', BIT 0), (''LDD_CTRL_RESET'', BIT 0),
      (''LDD_STATUS_ERR_CODE'', GENMASK 15 8), (''LDD_INT_DMA_DONE'', BIT 0), (''LDD_INT_DMA_ERROR'', BIT 1),
      (''LDD_DMA_CTRL_TO_RAM'', BIT 0), (''LDD_DMA_CTRL_START'', BIT 1), (''LDD_MEM_SIZE'', 1048576)]"

subsection \<open>The names of the devices\<close>

definition io_names :: header where
  "io_names =
     [(''LDD_IO_DATA'', unat LDD_IO_DATA), (''LDD_IO_STATUS'', unat LDD_IO_STATUS), (''LDD_IO_CTRL'', unat LDD_IO_CTRL),
      (''LDD_IO_MATRIX'', unat LDD_IO_MATRIX), (''LDD_IO_MATRIX_ROWS'', LDD_IO_MATRIX_ROWS), (''LDD_IO_SIZE'', LDD_IO_SIZE),
      (''LDD_IO_STATUS_RX_READY'', unat LDD_IO_STATUS_RX_READY), (''LDD_IO_CTRL_IRQ_EN'', unat LDD_IO_CTRL_IRQ_EN),
      (''LDD_IO_CTRL_LOOPBACK'', unat LDD_IO_CTRL_LOOPBACK)]"

text \<open>
  Three names of the drivers are not in the device: the direction bit, which it calls
  \<open>LDD_DMA_CTRL_DIR\<close>, the field of the error code, which it shifts, and the number of events, its
  vectors.
\<close>

definition pcie_names :: header where
  "pcie_names =
     [(''LDD_REG_ID'', unat LDD_REG_ID), (''LDD_REG_VERSION'', unat LDD_REG_VERSION), (''LDD_REG_CAPS'', unat LDD_REG_CAPS),
      (''LDD_REG_SCRATCH'', unat LDD_REG_SCRATCH), (''LDD_REG_CTRL'', unat LDD_REG_CTRL), (''LDD_REG_STATUS'', unat LDD_REG_STATUS),
      (''LDD_REG_INT_STATUS'', unat LDD_REG_INT_STATUS), (''LDD_REG_INT_MASK'', unat LDD_REG_INT_MASK),
      (''LDD_REG_INT_RAISE'', unat LDD_REG_INT_RAISE), (''LDD_REG_MAX_SEG'', unat LDD_REG_MAX_SEG),
      (''LDD_REG_MAX_DESC'', unat LDD_REG_MAX_DESC), (''LDD_REG_DESC_ADDR_LO'', unat LDD_REG_DESC_ADDR_LO),
      (''LDD_REG_DESC_ADDR_HI'', unat LDD_REG_DESC_ADDR_HI), (''LDD_REG_DESC_COUNT'', unat LDD_REG_DESC_COUNT),
      (''LDD_REG_DEV_OFFSET'', unat LDD_REG_DEV_OFFSET), (''LDD_REG_DMA_CTRL'', unat LDD_REG_DMA_CTRL),
      (''LDD_REG_XFER_BYTES'', unat LDD_REG_XFER_BYTES), (''LDD_REG_ERR_DESC'', unat LDD_REG_ERR_DESC),
      (''LDD_REG_XOR'', unat LDD_REG_XOR), (''LDD_ID'', unat LDD_ID), (''LDD_CAPS_DMA64'', unat LDD_CAPS_DMA64),
      (''LDD_CTRL_RESET'', unat LDD_CTRL_RESET), (''LDD_INT_DMA_DONE'', unat LDD_INT_DMA_DONE),
      (''LDD_INT_DMA_ERROR'', unat LDD_INT_DMA_ERROR), (''LDD_INT_SOFT'', unat LDD_INT_SOFT), (''LDD_INT_ALL'', unat LDD_INT_ALL),
      (''LDD_DMA_CTRL_START'', unat LDD_DMA_CTRL_START), (''LDD_MEM_SIZE'', LDD_MEM_SIZE),
      (''LDD_DMA_CTRL_TO_RAM'', unat LDD_DMA_CTRL_DIR), (''LDD_NR_EVENTS'', LDD_MSIX_VECTORS),
      (''LDD_STATUS_ERR_CODE'', unat (push_bit LDD_STATUS_ERR_CODE_SHIFT 0xff :: 32 word))]"

definition header_agrees :: "header \<Rightarrow> header \<Rightarrow> bool" where
  "header_agrees names h \<longleftrightarrow> list_all (\<lambda>(n, v). map_of names n = Some v) h"

lemmas header_defs = ioport_header_def remap_header_def mmio_header_def irq_header_def irq_probe_header_def
  pci_skel_header_def msi_header_def dma_header_def dma_sg_header_def io_names_def pcie_names_def BIT_def GENMASK_def

lemma io_headers_agree: "list_all (header_agrees io_names) [ioport_header, remap_header, mmio_header, irq_header, irq_probe_header]"
  by (simp add: header_agrees_def header_defs io_consts)

lemma pcie_headers_agree: "list_all (header_agrees pcie_names) [pci_skel_header, msi_header, dma_header, dma_sg_header]"
  by (simp add: header_agrees_def header_defs ldd_reg_consts ldd_bit_consts LDD_ID_def LDD_MEM_SIZE_def LDD_MSIX_VECTORS_def push_bit_eq_mult)

subsection \<open>Tables of devices\<close>

text \<open>
  A table ends with an empty entry. Of the fields of an entry the drivers set vendor and device, the
  others match anything; the bus takes the first entry that matches.
\<close>

record device_id =
  id_vendor :: "16 word"
  id_device :: "16 word"

definition id_end :: device_id where "id_end = \<lparr>id_vendor = 0, id_device = 0\<rparr>"

fun match_id :: "device_id list \<Rightarrow> 16 word \<Rightarrow> 16 word \<Rightarrow> device_id option" where
  "match_id [] v d = None"
| "match_id (i # is) v d =
     (if id_vendor i = 0 then None else if id_vendor i = v \<and> id_device i = d then Some i else match_id is v d)"

definition skel_ids :: "device_id list" where "skel_ids = [\<lparr>id_vendor = 0x1234, id_device = 0xcafe\<rparr>, id_end]"
definition msi_ids :: "device_id list" where "msi_ids = [\<lparr>id_vendor = 0x1234, id_device = 0xcafe\<rparr>, id_end]"
definition dma_ids :: "device_id list" where "dma_ids = [\<lparr>id_vendor = 0x1234, id_device = 0xcafe\<rparr>, id_end]"
definition dma_sg_ids :: "device_id list" where "dma_sg_ids = [\<lparr>id_vendor = 0x1234, id_device = 0xcafe\<rparr>, id_end]"
definition skel_table :: "device_id list" where "skel_table = [\<lparr>id_vendor = 0x1234, id_device = 0x7863\<rparr>, id_end]"

text \<open>
  What the devices announce. \<open>PCI_VENDOR_ID_QEMU\<close> is a constant of QEMU: a parameter. The strings of
  ldd-usb are numbered from 1.
\<close>

record pcie_class =
  pc_vendor_id :: "16 word"
  pc_device_id :: "16 word"
  pc_revision :: byte

definition ldd_pcie_class_init :: "16 word \<Rightarrow> pcie_class" where
  "ldd_pcie_class_init PCI_VENDOR_ID_QEMU = \<lparr>pc_vendor_id = PCI_VENDOR_ID_QEMU, pc_device_id = 0xcafe, pc_revision = 1\<rparr>"

definition STR_MANUFACTURER :: nat where "STR_MANUFACTURER = 1"
definition STR_PRODUCT :: nat where "STR_PRODUCT = 2"
definition STR_SERIALNUMBER :: nat where "STR_SERIALNUMBER = 3"

definition desc_strings :: "nat \<Rightarrow> string option" where
  "desc_strings = [STR_MANUFACTURER \<mapsto> ''QEMU'', STR_PRODUCT \<mapsto> ''LDD USB ticker'', STR_SERIALNUMBER \<mapsto> ''1'']"

record usb_config =
  uc_bNumInterfaces :: nat
  uc_bConfigurationValue :: nat
  uc_bMaxPower :: nat
  uc_ifs :: "usb_ep_desc list list"

record usb_desc_device =
  ud_bcdUSB :: "16 word"
  ud_bMaxPacketSize0 :: nat
  ud_bNumConfigurations :: nat
  ud_confs :: "usb_config list"

definition desc_device :: usb_desc_device where
  "desc_device = \<lparr>ud_bcdUSB = 0x0110, ud_bMaxPacketSize0 = 8, ud_bNumConfigurations = 1,
     ud_confs = [\<lparr>uc_bNumInterfaces = 1, uc_bConfigurationValue = 1, uc_bMaxPower = 50, uc_ifs = [desc_iface]\<rparr>]\<rparr>"

record usb_desc =
  us_idVendor :: "16 word"
  us_idProduct :: "16 word"
  us_bcdDevice :: "16 word"
  us_iManufacturer :: nat
  us_iProduct :: nat
  us_iSerialNumber :: nat
  us_full :: usb_desc_device
  us_str :: "nat \<Rightarrow> string option"

definition desc_ldd_usb :: usb_desc where
  "desc_ldd_usb = \<lparr>us_idVendor = LDD_USB_VENDOR_ID, us_idProduct = LDD_USB_PRODUCT_ID, us_bcdDevice = 0x0100,
     us_iManufacturer = STR_MANUFACTURER, us_iProduct = STR_PRODUCT, us_iSerialNumber = STR_SERIALNUMBER,
     us_full = desc_device, us_str = desc_strings\<rparr>"

text \<open>The counts in the descriptors are the numbers of what they count, and every string there is.\<close>

definition usb_desc_ok :: "usb_desc \<Rightarrow> bool" where
  "usb_desc_ok d \<longleftrightarrow>
     ud_bNumConfigurations (us_full d) = length (ud_confs (us_full d)) \<and>
     list_all (\<lambda>c. uc_bNumInterfaces c = length (uc_ifs c) \<and>
       list_all (\<lambda>eps. distinct (map (\<lambda>e. (ep_in e, ep_nr e)) eps) \<and> list_all (\<lambda>e. 0 < ep_maxp e \<and> ep_maxp e \<le> 64) eps) (uc_ifs c))
       (ud_confs (us_full d)) \<and>
     list_all (\<lambda>i. us_str d i \<noteq> None) [us_iManufacturer d, us_iProduct d, us_iSerialNumber d]"

lemmas id_tables = skel_ids_def msi_ids_def dma_ids_def dma_sg_ids_def skel_table_def id_end_def

lemma usb_desc_well_formed: "usb_desc_ok desc_ldd_usb"
  by (simp add: usb_desc_ok_def desc_ldd_usb_def desc_device_def desc_iface_def usb_consts desc_strings_def
      STR_MANUFACTURER_def STR_PRODUCT_def STR_SERIALNUMBER_def)

lemma pci_tables_match:
  "match_id ids v d \<noteq> None \<longleftrightarrow> v = 0x1234 \<and> d = 0xcafe" if "ids \<in> {skel_ids, msi_ids, dma_ids, dma_sg_ids}"
  using that by (auto simp: id_tables)

lemma usb_table_matches: "match_id skel_table v d \<noteq> None \<longleftrightarrow> v = 0x1234 \<and> d = 0x7863"
  by (simp add: skel_table_def id_end_def)

text \<open>
  Drivers and devices agree on their interface although they share no header: every register
  offset, bit and size that a driver of ldd-io or ldd-pcie writes down is the one of the device; the
  tables of the four PCI drivers match exactly the device that ldd-pcie announces, provided the
  vendor number of QEMU is the one they expect, and that of the USB driver exactly ldd-usb; and the
  descriptors of ldd-usb are consistent.
\<close>

lemma drivers_fit_devices:
  "list_all (header_agrees io_names) [ioport_header, remap_header, mmio_header, irq_header, irq_probe_header] \<and>
   list_all (header_agrees pcie_names) [pci_skel_header, msi_header, dma_header, dma_sg_header] \<and>
   list_all (\<lambda>ids. match_id ids (pc_vendor_id (ldd_pcie_class_init V)) (pc_device_id (ldd_pcie_class_init V)) \<noteq> None \<longleftrightarrow> V = 0x1234)
     [skel_ids, msi_ids, dma_ids, dma_sg_ids] \<and>
   match_id skel_table (us_idVendor desc_ldd_usb) (us_idProduct desc_ldd_usb) \<noteq> None \<and>
   match_id skel_table 0x1234 0xcafe = None \<and> usb_desc_ok desc_ldd_usb"
  using io_headers_agree pcie_headers_agree usb_desc_well_formed pci_tables_match usb_table_matches
  by (simp add: ldd_pcie_class_init_def desc_ldd_usb_def LDD_USB_VENDOR_ID_def LDD_USB_PRODUCT_ID_def id_tables)

end
