(* ===== verification/Short_Irq_Port.thy ===== *)
theory Short_Irq_Port
  imports Short_Irq Short_Port
begin

unbundle bit_operations_syntax

section \<open>18_short_irq: the interrupt driver on its ports\<close>

text \<open>
  \<open>src/examples/18_short_irq/main.c\<close> as it is written, with port instructions on \<open>base\<close> plus an offset,
  on any port space; loading and unloading with the writes that let the device interrupt and stop it.
  When the ports are the registers of ldd-io, each function is the one of theory \<open>Short_Irq\<close>, whose
  results on interleaving with the device then hold of it.
\<close>

record 's irq_driver =
  id_ports :: 's
  id_irqs :: "32 word"
  id_last :: byte

definition irq_interrupt :: "'s io_bus \<Rightarrow> 64 word \<Rightarrow> 's irq_driver \<Rightarrow> irqreturn \<times> 's irq_driver" where
  "irq_interrupt P base d =
     (let status = Short_Port.inb P (id_ports d) (base + LDD_IO_STATUS) in
      if \<not> has_flag status LDD_IO_STATUS_RX_READY then (IRQ_NONE, d)
      else let d1 = d\<lparr>id_last := Short_Port.inb P (id_ports d) (base + LDD_IO_DATA)\<rparr>;
               d2 = d1\<lparr>id_ports := Short_Port.outb P LDD_IO_STATUS_RX_READY (base + LDD_IO_STATUS) (id_ports d1)\<rparr>;
               d3 = d2\<lparr>id_irqs := id_irqs d2 + 1\<rparr>
           in (IRQ_HANDLED, d3))"

definition irq_read :: "(string \<Rightarrow> nat) \<Rightarrow> nat \<Rightarrow> int \<Rightarrow> 's irq_driver \<Rightarrow> string result \<times> int" where
  "irq_read ctu count pos d =
     (let line = take (40 - 1) (''irqs '' @ int_string (sint (id_irqs d)) @ '', last '' @ hex2 (id_last d) @ [CHR 0x0A])
      in simple_read_from_buffer ctu count pos line)"

definition irq_write :: "'s io_bus \<Rightarrow> 64 word \<Rightarrow> (nat \<Rightarrow> byte list result) \<Rightarrow> nat \<Rightarrow> 's irq_driver \<Rightarrow> nat result \<times> 's irq_driver" where
  "irq_write P base dup count0 d =
     (let count = min count0 SHORT_MAX_WRITE in
      case dup count of
        Inl e \<Rightarrow> (Inl e, d)
      | Inr kbuf \<Rightarrow> (Inr count, d\<lparr>id_ports := fold (\<lambda>b. Short_Port.outb P b (base + LDD_IO_DATA)) kbuf (id_ports d)\<rparr>))"

text \<open>Loading and unloading, with what they do to the device.\<close>

definition irq_load :: "'s io_bus \<Rightarrow> 64 word \<Rightarrow> short_irq_res answers \<Rightarrow> 's \<Rightarrow> (errno option \<times> short_irq_res call list) \<times> 's" where
  "irq_load P base F s =
     (case irq_m_init F of (err, calls) \<Rightarrow>
        ((err, calls), if err = None then Short_Port.outb P (LDD_IO_CTRL_IRQ_EN OR LDD_IO_CTRL_LOOPBACK) (base + LDD_IO_CTRL) s else s))"

definition irq_unload :: "'s io_bus \<Rightarrow> 64 word \<Rightarrow> 's \<Rightarrow> short_irq_res call list \<times> 's" where
  "irq_unload P base s = (irq_m_exit, Short_Port.outb P 0 (base + LDD_IO_CTRL) s)"

subsection \<open>On the ports of ldd-io\<close>

definition irq_abs :: "'c ldd_io irq_driver \<Rightarrow> 'c short_dev" where
  "irq_abs d = \<lparr>sd_io = id_ports d, sd_irqs = id_irqs d, sd_last = id_last d\<rparr>"

lemma irq_abs_sel [simp]: "sd_io (irq_abs d) = id_ports d" "sd_irqs (irq_abs d) = id_irqs d" "sd_last (irq_abs d) = id_last d"
  by (simp_all add: irq_abs_def)

lemma port_registers:
  assumes "ports_at base P M"
  shows "Short_Port.inb P s (base + LDD_IO_STATUS) = ioread8 M s LDD_IO_STATUS"
    and "Short_Port.inb P s (base + LDD_IO_DATA) = ioread8 M s LDD_IO_DATA"
    and "Short_Port.outb P b (base + LDD_IO_STATUS) s = iowrite8 M s LDD_IO_STATUS b"
    and "Short_Port.outb P b (base + LDD_IO_DATA) s = iowrite8 M s LDD_IO_DATA b"
    and "Short_Port.outb P b (base + LDD_IO_CTRL) s = iowrite8 M s LDD_IO_CTRL b"
  using ports_atD [OF assms, of 0 1] ports_atD [OF assms, of 1 1] ports_atD [OF assms, of 2 1]
  by (simp_all add: Short_Port.inb_def Short_Port.outb_def ioread8_def iowrite8_def io_consts)

lemma irq_interrupt_refines:
  assumes "ports_at base P (ldd_io_bus E)" and "irq_interrupt P base d = (r, d')"
  shows "short_interrupt E (irq_abs d) = (r, irq_abs d')"
  using assms(2) by (auto simp: irq_interrupt_def short_interrupt_def port_registers [OF assms(1)] Short_Irq.inb_def Short_Irq.outb_def
      handler_data_def handler_ack_def handler_count_def irq_abs_def Let_def split: if_splits)

lemma irq_read_refines: "irq_read ctu count pos d = short_read ctu count pos (irq_abs d)"
  by (simp add: irq_read_def short_read_def short_line_def)

lemma fold_ports:
  assumes "ports_at base P (ldd_io_bus E)"
  shows "fold (\<lambda>b. Short_Irq.outb E b LDD_IO_DATA) bs (irq_abs d) =
    irq_abs (d\<lparr>id_ports := fold (\<lambda>b. Short_Port.outb P b (base + LDD_IO_DATA)) bs (id_ports d)\<rparr>)"
proof (induction bs arbitrary: d)
  case (Cons b bs)
  have "Short_Irq.outb E b LDD_IO_DATA (irq_abs d) = irq_abs (d\<lparr>id_ports := Short_Port.outb P b (base + LDD_IO_DATA) (id_ports d)\<rparr>)"
    by (simp add: Short_Irq.outb_def irq_abs_def port_registers [OF assms])
  then show ?case using Cons.IH by simp
qed simp

lemma irq_write_refines:
  assumes "ports_at base P (ldd_io_bus E)" and "irq_write P base dup count d = (r, d')"
  shows "short_write E dup count (irq_abs d) = (r, irq_abs d')"
  using assms(2) by (auto simp: irq_write_def short_write_def fold_ports [OF assms(1)] Let_def split: sum.splits)

text \<open>
  Loading leaves the device able to interrupt exactly when it succeeds, with every resource held;
  unloading takes that away before anything is released.
\<close>

lemma irq_load_enables:
  assumes "ports_at base P (ldd_io_bus E)" and "irq_load P base F s = ((err, calls), s')"
  shows "err \<noteq> None \<Longrightarrow> s' = s \<and> held calls [] = Some []"
    and "err = None \<Longrightarrow> s' = iowrite8 (ldd_io_bus E) s LDD_IO_CTRL (LDD_IO_CTRL_IRQ_EN OR LDD_IO_CTRL_LOOPBACK) \<and>
      held_any (calls @ fst (irq_unload P base s')) [] = Some []"
proof -
  have "irq_m_init F = (err, calls)" and s': "s' = (if err = None then Short_Port.outb P (LDD_IO_CTRL_IRQ_EN OR LDD_IO_CTRL_LOOPBACK) (base + LDD_IO_CTRL) s else s)"
    using assms(2) by (auto simp: irq_load_def split: prod.splits)
  moreover note irq_modules_clean(1)
  ultimately show "err \<noteq> None \<Longrightarrow> s' = s \<and> held calls [] = Some []"
    and "err = None \<Longrightarrow> s' = iowrite8 (ldd_io_bus E) s LDD_IO_CTRL (LDD_IO_CTRL_IRQ_EN OR LDD_IO_CTRL_LOOPBACK) \<and>
      held_any (calls @ fst (irq_unload P base s')) [] = Some []"
    unfolding irq_clean_def by (metis fst_conv snd_conv, metis fst_conv snd_conv irq_unload_def port_registers(5) [OF assms(1)])
qed

end
