(* ===== verification/Jiq_Read.thy ===== *)
theory Jiq_Read
  imports Jiq
begin

section \<open>14_jiq: the reads in detail\<close>

text \<open>
  Theory \<open>Jiq\<close> has a read as one step that starts the work, a wait, and one step that ends it, and
  a run of the work as one step. Here both are taken apart, as \<open>src/examples/14_jiq/main.c\<close> has them: the
  mutex, which a signal can end the wait for; sleeping by hand as \<open>jiq_read_wq\<close> does and as
  \<open>wait_event_interruptible\<close> does for the other files, with \<open>prepare_to_wait\<close>, the test, \<open>schedule\<close>
  and \<open>finish_wait\<close>; cancelling, which waits for work that runs, before the text is shown in \<open>jiq_read_wq\<close>
  and after it in the other three; appending a line, setting \<open>done\<close> and waking as three steps of the work.
  The detailed system is shown to simulate the one of theory \<open>Jiq\<close>.
\<close>

subsection \<open>Appending without telling\<close>

definition jiq_append :: "jiq_ctx \<Rightarrow> jiq_dev \<Rightarrow> jiq_dev" where
  "jiq_append c dev =
     (let buf1 = (if length (jq_buf dev) = 0 then scnprintf BUF_LEN jiq_header else jq_buf dev);
          buf2 = buf1 @ scnprintf (BUF_LEN - length buf1) (jiq_line (jq_jiffies dev) c)
      in dev\<lparr>jq_buf := buf2, jq_jiffies := cx_jiffies c\<rparr>)"

definition jiq_full :: "jiq_dev \<Rightarrow> bool" where
  "jiq_full dev \<longleftrightarrow> BUF_LEN - length (jq_buf dev) < LINE_MAX_LEN"

lemma jiq_print_split:
  "jiq_print c dev = (let d = jiq_append c dev in if jiq_full d then (False, jiq_done d) else (True, d))"
  by (simp add: jiq_print_def jiq_append_def jiq_full_def Let_def)

lemma jiq_work_split:
  "jiq_work f c dev = (let d = jiq_append c dev in if jiq_full d \<or> f = JiqTimer then (False, jiq_done d) else (True, d))"
  by (cases f) (auto simp: jiq_work_def jiq_print_wq_def jiq_print_wq_delayed_def jiq_print_bh_def jiq_timedout_def
      jiq_print_split jiq_done_def Let_def split: prod.splits)

subsection \<open>Readers and work, step by step\<close>

datatype rd_pc = RIdle | RLock jiq_file | RPrepare jiq_file | RTest jiq_file | RSched jiq_file
  | RFinish jiq_file "errno option" | RCancel jiq_file "errno option" "string option"
  | RShow jiq_file "errno option" | RUnlock jiq_file "errno option" "string option"

text \<open>
  \<open>WDone\<close> and \<open>WWake\<close> are inside \<open>jiq_done\<close>, before and after the store; a timer whose line fills the
  buffer calls it twice. \<open>WDone\<close> remembers the device as it was before the line.
\<close>

datatype wk_pc = WIdle | WRun jiq_file | WDone jiq_file jiq_dev nat | WWake jiq_file nat

record jr_sys =
  jr_dev :: jiq_dev
  jr_pend :: "jiq_file option"
  jr_work :: wk_pc
  jr_lock :: "nat option"
  jr_pc :: "nat \<Rightarrow> rd_pc"
  jr_queue :: "nat set"
  jr_sleep :: "nat \<Rightarrow> bool"
  jr_out :: "(nat \<times> jiq_file \<times> string) list"

definition jr_goto :: "nat \<Rightarrow> rd_pc \<Rightarrow> jr_sys \<Rightarrow> jr_sys" where
  "jr_goto p pc s = s\<lparr>jr_pc := (jr_pc s)(p := pc)\<rparr>"

text \<open>\<open>jiq_read_wq\<close> cancels before it shows, the other reads after.\<close>

definition after_finish :: "jiq_file \<Rightarrow> errno option \<Rightarrow> rd_pc" where
  "after_finish f r = (if f = JiqWq then RCancel f r None else RShow f r)"

definition after_cancel :: "jiq_file \<Rightarrow> errno option \<Rightarrow> string option \<Rightarrow> rd_pc" where
  "after_cancel f r t = (if f = JiqWq then RShow f r else RUnlock f r t)"

definition after_show :: "jiq_file \<Rightarrow> errno option \<Rightarrow> string option \<Rightarrow> rd_pc" where
  "after_show f r t = (if f = JiqWq then RUnlock f r t else RCancel f r t)"

text \<open>\<open>wait_event_interruptible\<close> tests once before it queues the reader (\<open>jr_fast\<close>), \<open>jiq_read_wq\<close> does not.\<close>

inductive jr_step :: "jr_sys \<Rightarrow> jr_sys \<Rightarrow> bool" where
  jr_call: "jr_pc s p = RIdle \<Longrightarrow> jr_step s (jr_goto p (RLock f) s)"
| jr_lock_signal: "jr_pc s p = RLock f \<Longrightarrow> jr_step s (jr_goto p RIdle s)"
| jr_take: "jr_pc s p = RLock f \<Longrightarrow> jr_lock s = None \<Longrightarrow> line_fits now c \<Longrightarrow>
    jr_step s (jr_goto p (RPrepare f) (s\<lparr>jr_dev := jiq_start f now c (jr_dev s), jr_pend := Some f, jr_lock := Some p\<rparr>))"
| jr_prepare: "jr_pc s p = RPrepare f \<Longrightarrow>
    jr_step s (jr_goto p (RTest f) (s\<lparr>jr_queue := insert p (jr_queue s), jr_sleep := (jr_sleep s)(p := True)\<rparr>))"
| jr_fast: "jr_pc s p = RPrepare f \<Longrightarrow> f \<noteq> JiqWq \<Longrightarrow> jq_done (jr_dev s) \<Longrightarrow> jr_step s (jr_goto p (RFinish f None) s)"
| jr_test_done: "jr_pc s p = RTest f \<Longrightarrow> jq_done (jr_dev s) \<Longrightarrow> jr_step s (jr_goto p (RFinish f None) s)"
| jr_test_signal: "jr_pc s p = RTest f \<Longrightarrow> \<not> jq_done (jr_dev s) \<Longrightarrow> jr_step s (jr_goto p (RFinish f (Some ERESTARTSYS)) s)"
| jr_test_sleep: "jr_pc s p = RTest f \<Longrightarrow> \<not> jq_done (jr_dev s) \<Longrightarrow> jr_step s (jr_goto p (RSched f) s)"
| jr_woken: "jr_pc s p = RSched f \<Longrightarrow> \<not> jr_sleep s p \<Longrightarrow> jr_step s (jr_goto p (RPrepare f) s)"
| jr_spurious: "jr_pc s p = RSched f \<Longrightarrow> jr_step s (s\<lparr>jr_sleep := (jr_sleep s)(p := False)\<rparr>)"
| jr_finish: "jr_pc s p = RFinish f r \<Longrightarrow>
    jr_step s (jr_goto p (after_finish f r) (s\<lparr>jr_queue := jr_queue s - {p}, jr_sleep := (jr_sleep s)(p := False)\<rparr>))"
| jr_cancel: "jr_pc s p = RCancel f r t \<Longrightarrow> jr_work s = WIdle \<Longrightarrow>
    jr_step s (jr_goto p (after_cancel f r t) (s\<lparr>jr_pend := None\<rparr>))"
| jr_show: "jr_pc s p = RShow f r \<Longrightarrow>
    jr_step s (jr_goto p (after_show f r (if r = None then Some (jq_buf (jr_dev s)) else None)) s)"
| jr_unlock: "jr_pc s p = RUnlock f r t \<Longrightarrow>
    jr_step s (jr_goto p RIdle (s\<lparr>jr_lock := None, jr_out := jr_out s @ (case t of None \<Rightarrow> [] | Some x \<Rightarrow> [(p, f, x)])\<rparr>))"
| jw_start: "jr_pend s = Some f \<Longrightarrow> jr_work s = WIdle \<Longrightarrow> jr_step s (s\<lparr>jr_pend := None, jr_work := WRun f\<rparr>)"
| jw_requeue: "jr_work s = WRun f \<Longrightarrow> line_fits (jq_jiffies (jr_dev s)) c \<Longrightarrow> d = jiq_append c (jr_dev s) \<Longrightarrow>
    \<not> jiq_full d \<Longrightarrow> f \<noteq> JiqTimer \<Longrightarrow> jr_step s (s\<lparr>jr_dev := d, jr_pend := Some f, jr_work := WIdle\<rparr>)"
| jw_complete: "jr_work s = WRun f \<Longrightarrow> line_fits (jq_jiffies (jr_dev s)) c \<Longrightarrow> d = jiq_append c (jr_dev s) \<Longrightarrow>
    jiq_full d \<or> f = JiqTimer \<Longrightarrow> n = of_bool (jiq_full d) + of_bool (f = JiqTimer) \<Longrightarrow>
    jr_step s (s\<lparr>jr_dev := d, jr_work := WDone f (jr_dev s) n\<rparr>)"
| jw_done: "jr_work s = WDone f old n \<Longrightarrow> jr_step s (s\<lparr>jr_dev := (jr_dev s)\<lparr>jq_done := True\<rparr>, jr_work := WWake f n\<rparr>)"
| jw_wake: "jr_work s = WWake f n \<Longrightarrow>
    jr_step s (s\<lparr>jr_sleep := (\<lambda>p. jr_sleep s p \<and> p \<notin> jr_queue s), jr_work := (if n > 1 then WDone f (jr_dev s) (n - 1) else WIdle)\<rparr>)"

definition jr_new :: jr_sys where
  "jr_new = \<lparr>jr_dev = \<lparr>jq_done = False, jq_buf = [], jq_jiffies = 0\<rparr>, jr_pend = None, jr_work = WIdle, jr_lock = None,
     jr_pc = (\<lambda>p. RIdle), jr_queue = {}, jr_sleep = (\<lambda>p. False), jr_out = []\<rparr>"

subsection \<open>What the system of theory Jiq sees of it\<close>

text \<open>The reader that holds the mutex, waiting or leaving.\<close>

fun rd_abs :: "rd_pc \<Rightarrow> (jiq_file \<times> jiq_pc) option" where
  "rd_abs RIdle = None"
| "rd_abs (RLock f) = None"
| "rd_abs (RPrepare f) = Some (f, JWait)"
| "rd_abs (RTest f) = Some (f, JWait)"
| "rd_abs (RSched f) = Some (f, JWait)"
| "rd_abs (RFinish f r) = Some (f, JLeave r)"
| "rd_abs (RCancel f r t) = Some (f, JLeave r)"
| "rd_abs (RShow f r) = Some (f, JLeave r)"
| "rd_abs (RUnlock f r t) = Some (f, JLeave r)"

text \<open>The work has not run, as far as anybody can tell, until \<open>done\<close> is set.\<close>

definition dev_abs :: "jr_sys \<Rightarrow> jiq_dev" where
  "dev_abs s = (case jr_work s of WDone f old n \<Rightarrow> if jq_done (jr_dev s) then jr_dev s else old | _ \<Rightarrow> jr_dev s)"

definition reader_abs :: "jr_sys \<Rightarrow> (nat \<times> jiq_file \<times> jiq_pc) option" where
  "reader_abs s = (case jr_lock s of None \<Rightarrow> None | Some p \<Rightarrow> map_option (\<lambda>(f, pc). (p, f, pc)) (rd_abs (jr_pc s p)))"

definition work_file :: "jr_sys \<Rightarrow> jiq_file option" where
  "work_file s = (case jr_work s of WIdle \<Rightarrow> jr_pend s | WRun f \<Rightarrow> Some f
     | WDone f old n \<Rightarrow> if jq_done (jr_dev s) then None else Some f | WWake f n \<Rightarrow> None)"

text \<open>After the cancelling nothing of the work is left, and the text to be shown is the buffer.\<close>

fun cancelled :: "rd_pc \<Rightarrow> bool" where
  "cancelled (RUnlock f r t) \<longleftrightarrow> True"
| "cancelled (RShow f r) \<longleftrightarrow> f = JiqWq"
| "cancelled _ \<longleftrightarrow> False"

fun text_ok :: "jiq_dev \<Rightarrow> rd_pc \<Rightarrow> bool" where
  "text_ok dev (RUnlock f r t) \<longleftrightarrow> t = (if r = None then Some (jq_buf dev) else None)"
| "text_ok dev (RCancel f r t) \<longleftrightarrow> t = (if f = JiqWq \<or> r \<noteq> None then None else Some (jq_buf dev))"
| "text_ok dev _ \<longleftrightarrow> True"

definition jr_locks :: "jr_sys \<Rightarrow> bool" where
  "jr_locks s \<longleftrightarrow> (\<forall>p. rd_abs (jr_pc s p) \<noteq> None \<longleftrightarrow> jr_lock s = Some p)"

definition jr_rel :: "jr_sys \<Rightarrow> jiq_sys \<Rightarrow> bool" where
  "jr_rel s t \<longleftrightarrow>
     jr_locks s \<and> jy_dev t = dev_abs s \<and> jy_reader t = reader_abs s \<and> jy_out t = jr_out s \<and>
     (\<forall>f. work_file s = Some f \<longrightarrow> jy_pend t \<and> (\<exists>p pc. jy_reader t = Some (p, f, pc))) \<and>
     (jr_work s \<noteq> WIdle \<longrightarrow> jr_pend s = None \<and> jr_lock s \<noteq> None) \<and>
     (\<forall>p. cancelled (jr_pc s p) \<longrightarrow> jr_work s = WIdle \<and> jr_pend s = None) \<and>
     (\<forall>p. text_ok (jr_dev s) (jr_pc s p)) \<and>
     (\<forall>f n. jr_work s = WWake f n \<longrightarrow> jq_done (jr_dev s)) \<and>
     (\<forall>f old n. jr_work s = WDone f old n \<longrightarrow> \<not> jq_done (jr_dev s) \<longrightarrow>
        (\<exists>c. line_fits (jq_jiffies old) c \<and> jr_dev s = jiq_append c old \<and> (jiq_full (jr_dev s) \<or> f = JiqTimer)))"

text \<open>
  While a reader waits, the buffer is complete or work for it is queued or runs. A reader that sleeps
  although \<open>done\<close> is set is on the queue, and the waking is still to come.
\<close>

definition jr_wakes :: "jr_sys \<Rightarrow> bool" where
  "jr_wakes s \<longleftrightarrow>
     (\<forall>p f. rd_abs (jr_pc s p) = Some (f, JWait) \<longrightarrow> jq_done (jr_dev s) \<or> work_file s \<noteq> None) \<and>
     (\<forall>p f. jr_pc s p = RTest f \<longrightarrow> p \<in> jr_queue s) \<and>
     (\<forall>p f. jr_pc s p = RSched f \<longrightarrow> p \<in> jr_queue s \<and> (jq_done (jr_dev s) \<longrightarrow> jr_sleep s p \<longrightarrow> (\<exists>g n. jr_work s = WWake g n)))"

subsection \<open>Simulation\<close>

lemma jr_goto_sel [simp]:
  "jr_dev (jr_goto p pc s) = jr_dev s" "jr_pend (jr_goto p pc s) = jr_pend s" "jr_work (jr_goto p pc s) = jr_work s"
  "jr_lock (jr_goto p pc s) = jr_lock s" "jr_pc (jr_goto p pc s) = (jr_pc s)(p := pc)" "jr_queue (jr_goto p pc s) = jr_queue s"
  "jr_sleep (jr_goto p pc s) = jr_sleep s" "jr_out (jr_goto p pc s) = jr_out s"
  by (simp_all add: jr_goto_def)

lemma dev_abs_upd [simp]:
  "dev_abs (jr_goto p pc s) = dev_abs s" "dev_abs (s\<lparr>jr_queue := q\<rparr>) = dev_abs s" "dev_abs (s\<lparr>jr_sleep := z\<rparr>) = dev_abs s"
  by (simp_all add: dev_abs_def split: wk_pc.split)

lemma work_file_upd [simp]:
  "work_file (jr_goto p pc s) = work_file s" "work_file (s\<lparr>jr_queue := q\<rparr>) = work_file s" "work_file (s\<lparr>jr_sleep := z\<rparr>) = work_file s"
  "work_file (s\<lparr>jr_lock := l\<rparr>) = work_file s" "work_file (s\<lparr>jr_out := x\<rparr>) = work_file s"
  by (simp_all add: work_file_def split: wk_pc.split)

lemma reader_abs_upd [simp]:
  "reader_abs (s\<lparr>jr_queue := q\<rparr>) = reader_abs s" "reader_abs (s\<lparr>jr_sleep := z\<rparr>) = reader_abs s"
  "reader_abs (s\<lparr>jr_dev := d\<rparr>) = reader_abs s" "reader_abs (s\<lparr>jr_pend := b\<rparr>) = reader_abs s" "reader_abs (s\<lparr>jr_work := w\<rparr>) = reader_abs s"
  by (simp_all add: reader_abs_def split: option.split)

lemma jr_rel_sleep [simp]: "jr_rel (s\<lparr>jr_queue := q\<rparr>) t = jr_rel s t" "jr_rel (s\<lparr>jr_sleep := z\<rparr>) t = jr_rel s t"
  by (simp_all add: jr_rel_def jr_locks_def)

lemma jr_rel_queue: "jr_rel (jr_goto p pc (s\<lparr>jr_queue := q, jr_sleep := z\<rparr>)) t = jr_rel (jr_goto p pc s) t"
proof -
  have "jr_goto p pc (s\<lparr>jr_queue := q, jr_sleep := z\<rparr>) = (jr_goto p pc s)\<lparr>jr_queue := q, jr_sleep := z\<rparr>"
    by (cases s) (simp add: jr_goto_def)
  then show ?thesis by (simp only: jr_rel_sleep)
qed

lemma jr_holder:
  assumes "jr_rel s t" and "rd_abs (jr_pc s p) = Some (f, pc)"
  shows "jr_lock s = Some p" and "jy_reader t = Some (p, f, pc)"
proof -
  show l: "jr_lock s = Some p" using assms by (auto simp: jr_rel_def jr_locks_def)
  then show "jy_reader t = Some (p, f, pc)" using assms by (simp add: jr_rel_def reader_abs_def)
qed

lemma jr_other: "jr_rel s t \<Longrightarrow> jr_lock s \<noteq> Some q \<Longrightarrow> rd_abs (jr_pc s q) = None"
  unfolding jr_rel_def jr_locks_def by metis

lemma jr_work_reader:
  assumes "jr_rel s t" and "work_file s = Some f"
  shows "jy_pend t" and "\<exists>p pc. reader_abs s = Some (p, f, pc)"
proof -
  have "jy_pend t \<and> (\<exists>p pc. jy_reader t = Some (p, f, pc))" "jy_reader t = reader_abs s"
    using assms unfolding jr_rel_def by blast+
  then show "jy_pend t" and "\<exists>p pc. reader_abs s = Some (p, f, pc)" by auto
qed

text \<open>The reader with the mutex moves on; nothing else changes.\<close>

lemma jr_rel_move:
  assumes rel: "jr_rel s t" and old: "rd_abs (jr_pc s p) = Some (f, pc)" and new: "rd_abs pc' = Some (f, apc)"
    and c: "cancelled pc' \<Longrightarrow> jr_work s = WIdle \<and> jr_pend s = None" and x: "text_ok (jr_dev s) pc'"
  shows "jr_rel (jr_goto p pc' s) (t\<lparr>jy_reader := Some (p, f, apc)\<rparr>)"
proof -
  have l: "jr_lock s = Some p" and rd: "jy_reader t = Some (p, f, pc)" using jr_holder [OF rel old] by simp_all
  have "jr_locks (jr_goto p pc' s)" using rel old new by (auto simp: jr_rel_def jr_locks_def)
  moreover have "reader_abs (jr_goto p pc' s) = Some (p, f, apc)" by (simp add: reader_abs_def l new)
  moreover have "\<And>g. work_file s = Some g \<Longrightarrow> jy_pend t \<and> g = f" using rel rd by (auto simp: jr_rel_def)
  ultimately show ?thesis using rel c x by (auto simp: jr_rel_def)
qed

lemma jr_rel_stay:
  assumes "jr_rel s t" and "rd_abs (jr_pc s p) = Some (f, pc)" and "rd_abs pc' = Some (f, pc)"
    and "cancelled pc' \<Longrightarrow> jr_work s = WIdle \<and> jr_pend s = None" and "text_ok (jr_dev s) pc'"
  shows "jr_rel (jr_goto p pc' s) t"
proof -
  have "t\<lparr>jy_reader := Some (p, f, pc)\<rparr> = t" using jr_holder(2) [OF assms(1,2)] by (cases t) simp
  then show ?thesis using jr_rel_move [OF assms] by simp
qed

text \<open>A reader without the mutex.\<close>

lemma jr_rel_outside:
  assumes "jr_rel s t" and "rd_abs (jr_pc s p) = None" and "rd_abs pc' = None" and "pc' \<in> {RIdle} \<union> range RLock"
  shows "jr_rel (jr_goto p pc' s) t"
proof -
  have "jr_locks s" using assms(1) by (simp add: jr_rel_def)
  then have l: "jr_lock s \<noteq> Some p" using assms(2) unfolding jr_locks_def by metis
  then have "reader_abs (jr_goto p pc' s) = reader_abs s" by (auto simp: reader_abs_def split: option.split)
  moreover have "jr_locks (jr_goto p pc' s)" using \<open>jr_locks s\<close> l assms(3) unfolding jr_locks_def by simp
  ultimately show ?thesis using assms(1,4) by (auto simp: jr_rel_def)
qed

text \<open>While a reader leaves with the text, the buffer is complete and no work touches it.\<close>

lemma jr_leaving_done:
  assumes "jr_rel s t" and "jiq_inv t" and "rd_abs (jr_pc s p) = Some (f, JLeave None)"
  shows "jq_done (dev_abs s)" and "work_file s = None"
proof -
  have "jy_reader t = Some (p, f, JLeave None)" using jr_holder [OF assms(1,3)] by simp
  then have d: "jiq_progress f (jy_pend t) (jy_dev t)" "jq_done (jy_dev t)" using assms(2) by (simp_all add: jiq_inv_def)
  then have "\<not> jy_pend t" by (simp add: jiq_progress_def)
  then show "work_file s = None" using jr_work_reader(1) [OF assms(1)] by (cases "work_file s") auto
  show "jq_done (dev_abs s)" using d(2) assms(1) by (simp add: jr_rel_def)
qed

lemma jr_working:
  assumes "jr_rel s t" and "jiq_inv t" and "work_file s = Some f"
  obtains p pc where "jy_reader t = Some (p, f, pc)" "jy_pend t" "\<not> jq_done (dev_abs s)" "pc \<noteq> JLeave None"
proof -
  have "jy_reader t = reader_abs s" using assms(1) by (simp add: jr_rel_def)
  then obtain p pc where r: "jy_reader t = Some (p, f, pc)" "jy_pend t" using jr_work_reader [OF assms(1,3)] by auto
  then have p: "jiq_progress f (jy_pend t) (jy_dev t)" "pc = JLeave None \<longrightarrow> jq_done (jy_dev t)"
    using assms(2) by (simp_all add: jiq_inv_def)
  have "\<not> jq_done (jy_dev t)" using p(1) r(2) by (cases "jq_done (jy_dev t)") (simp_all add: jiq_progress_def)
  moreover have "jy_dev t = dev_abs s" using assms(1) by (simp add: jr_rel_def)
  ultimately show thesis using that r p(2) by auto
qed

text \<open>The steps of a reader, each under the relation.\<close>

lemma jr_take_sim:
  assumes rel: "jr_rel s t" and pc: "jr_pc s p = RLock f" and free: "jr_lock s = None" and fits: "line_fits now c"
  defines "s' \<equiv> jr_goto p (RPrepare f) (s\<lparr>jr_dev := jiq_start f now c (jr_dev s), jr_pend := Some f, jr_lock := Some p\<rparr>)"
  shows "\<exists>t'. jiq_step t t' \<and> jr_rel s' t'"
proof -
  have none: "rd_abs (jr_pc s q) = None" for q using jr_other [OF rel] free by simp
  have rd: "jy_reader t = None" using rel free by (simp add: jr_rel_def reader_abs_def)
  have idle: "jr_work s = WIdle" using rel free by (auto simp: jr_rel_def)
  have quiet: "\<not> cancelled (jr_pc s q)" "text_ok d (jr_pc s q)" for q d using none [of q] by (cases "jr_pc s q"; simp)+
  have dev: "jy_dev t = jr_dev s" using rel idle by (simp add: jr_rel_def dev_abs_def)
  let ?t = "t\<lparr>jy_dev := jiq_start f now c (jy_dev t), jy_pend := True, jy_reader := Some (p, f, JWait)\<rparr>"
  have "jiq_step t ?t" using jiq_lock [OF rd fits] .
  moreover have "jr_rel s' ?t"
    using rel idle quiet none unfolding jr_rel_def s'_def
    by (simp add: jr_locks_def dev_abs_def reader_abs_def work_file_def dev)
  ultimately show ?thesis by blast
qed

lemma jr_unlock_sim:
  assumes rel: "jr_rel s t" and pc: "jr_pc s p = RUnlock f r x"
  defines "s' \<equiv> jr_goto p RIdle (s\<lparr>jr_lock := None, jr_out := jr_out s @ (case x of None \<Rightarrow> [] | Some y \<Rightarrow> [(p, f, y)])\<rparr>)"
  shows "\<exists>t'. jiq_step t t' \<and> jr_rel s' t'"
proof -
  have l: "jr_lock s = Some p" and rd: "jy_reader t = Some (p, f, JLeave r)" using jr_holder [OF rel] pc by simp_all
  have c: "cancelled (jr_pc s p)" "text_ok (jr_dev s) (jr_pc s p) \<Longrightarrow> x = (if r = None then Some (jq_buf (jr_dev s)) else None)"
    using pc by simp_all
  then have idle: "jr_work s = WIdle" "jr_pend s = None" and x: "x = (if r = None then Some (jq_buf (jr_dev s)) else None)"
    using rel unfolding jr_rel_def by blast+
  have none: "q \<noteq> p \<Longrightarrow> rd_abs (jr_pc s q) = None" for q using jr_other [OF rel] l by simp
  have dev: "jy_dev t = jr_dev s" "jy_out t = jr_out s" using rel idle by (simp_all add: jr_rel_def dev_abs_def)
  let ?t = "t\<lparr>jy_pend := False, jy_reader := None, jy_out := (if r = None then jy_out t @ [(p, f, jq_buf (jy_dev t))] else jy_out t)\<rparr>"
  have "jiq_step t ?t" using jiq_leave [OF rd] .
  moreover have "jr_rel s' ?t"
    using rel idle none unfolding jr_rel_def s'_def
    by (simp add: jr_locks_def dev_abs_def reader_abs_def work_file_def dev x)
  ultimately show ?thesis by blast
qed

lemma jr_rel_cancel:
  assumes "jr_rel s t" and "jr_work s = WIdle"
  shows "jr_rel (s\<lparr>jr_pend := None\<rparr>) t"
  using assms by (simp add: jr_rel_def jr_locks_def dev_abs_def work_file_def)

text \<open>The steps of the work.\<close>

lemma jr_no_text:
  assumes "jr_rel s t" and "jiq_inv t" and "work_file s \<noteq> None" and "jr_work s \<noteq> WIdle"
  shows "\<not> cancelled (jr_pc s p)" and "text_ok d (jr_pc s p)"
proof -
  show nc: "\<not> cancelled (jr_pc s p)" using assms(1,4) unfolding jr_rel_def by blast
  have x: "text_ok (jr_dev s) (jr_pc s p)" using assms(1) unfolding jr_rel_def by blast
  show "text_ok d (jr_pc s p)"
  proof (cases "jr_pc s p")
    case (RCancel f r y)
    then have "r \<noteq> None" using jr_leaving_done(2) [OF assms(1,2), of p f] assms(3) by auto
    then show ?thesis using RCancel x by simp
  qed (use nc in simp_all)
qed

lemma jw_start_sim:
  assumes rel: "jr_rel s t" and p: "jr_pend s = Some f" and w: "jr_work s = WIdle"
  shows "jr_rel (s\<lparr>jr_pend := None, jr_work := WRun f\<rparr>) t"
proof -
  have r: "jy_pend t" "\<exists>p pc. reader_abs s = Some (p, f, pc)" using jr_work_reader [OF rel] p w by (simp_all add: work_file_def)
  then have "jr_lock s \<noteq> None" by (auto simp: reader_abs_def split: option.splits)
  then show ?thesis using rel p w r unfolding jr_rel_def by (simp add: jr_locks_def dev_abs_def work_file_def)
qed

text \<open>
  A run of the work that appends a line and goes on, or sets \<open>done\<close>, is one run of the work in theory
  \<open>Jiq\<close>; appending the last line and waking are nothing.
\<close>

lemma jw_run_sim:
  assumes rel: "jr_rel s t" and inv: "jiq_inv t" and wf: "work_file s = Some f" and c: "line_fits (jq_jiffies (dev_abs s)) c"
    and d: "d = jiq_append c (dev_abs s)" and again: "again \<longleftrightarrow> \<not> (jiq_full d \<or> f = JiqTimer)"
  shows "jiq_step t (t\<lparr>jy_dev := (if again then d else jiq_done d), jy_pend := again\<rparr>)"
proof -
  obtain p pc where r: "jy_reader t = Some (p, f, pc)" "jy_pend t" using jr_working [OF rel inv wf] by metis
  have dev: "jy_dev t = dev_abs s" using rel by (simp add: jr_rel_def)
  have "jiq_work f c (jy_dev t) = (again, if again then d else jiq_done d)"
    using again by (auto simp: jiq_work_split dev d Let_def)
  then show ?thesis using jiq_run [OF r(2,1)] c dev by simp
qed

lemma jw_requeue_sim:
  assumes rel: "jr_rel s t" and inv: "jiq_inv t" and w: "jr_work s = WRun f" and c: "line_fits (jq_jiffies (jr_dev s)) c"
    and d: "d = jiq_append c (jr_dev s)" and again: "\<not> jiq_full d" "f \<noteq> JiqTimer"
  shows "\<exists>t'. jiq_step t t' \<and> jr_rel (s\<lparr>jr_dev := d, jr_pend := Some f, jr_work := WIdle\<rparr>) t'"
proof -
  have wf: "work_file s = Some f" and dev: "dev_abs s = jr_dev s" using w by (simp_all add: work_file_def dev_abs_def)
  have "jiq_step t (t\<lparr>jy_dev := d, jy_pend := True\<rparr>)"
    using jw_run_sim [OF rel inv wf, of c d True] c d again by (simp add: dev)
  moreover have "jr_rel (s\<lparr>jr_dev := d, jr_pend := Some f, jr_work := WIdle\<rparr>) (t\<lparr>jy_dev := d, jy_pend := True\<rparr>)"
    using rel w wf jr_no_text [OF rel inv] jr_work_reader [OF rel wf] unfolding jr_rel_def by (simp add: jr_locks_def dev_abs_def work_file_def)
  ultimately show ?thesis by blast
qed

lemma jw_complete_sim:
  assumes rel: "jr_rel s t" and inv: "jiq_inv t" and w: "jr_work s = WRun f" and c: "line_fits (jq_jiffies (jr_dev s)) c"
    and d: "d = jiq_append c (jr_dev s)" and stop: "jiq_full d \<or> f = JiqTimer"
  shows "jr_rel (s\<lparr>jr_dev := d, jr_work := WDone f (jr_dev s) n\<rparr>) t"
proof -
  have wf: "work_file s = Some f" and dev: "dev_abs s = jr_dev s" using w by (simp_all add: work_file_def dev_abs_def)
  have "\<not> jq_done (jr_dev s)" using jr_working [OF rel inv wf] dev by metis
  then have nd: "\<not> jq_done d" by (simp add: d jiq_append_def Let_def)
  have x: "\<not> cancelled (jr_pc s p)" "text_ok d (jr_pc s p)" for p using jr_no_text [OF rel inv] w wf by simp_all
  have "jr_pend s = None" "jr_lock s \<noteq> None" using rel w unfolding jr_rel_def by auto
  then show ?thesis
    using rel jr_work_reader [OF rel wf] nd x c d stop dev unfolding jr_rel_def by (auto simp: jr_locks_def dev_abs_def [of "s\<lparr>jr_dev := d', jr_work := w'\<rparr>" for d' w'] work_file_def)
qed

lemma jw_done_sim:
  assumes rel: "jr_rel s t" and inv: "jiq_inv t" and w: "jr_work s = WDone f old n"
  defines "s' \<equiv> s\<lparr>jr_dev := (jr_dev s)\<lparr>jq_done := True\<rparr>, jr_work := WWake f n\<rparr>"
  shows "\<exists>t'. jiq_step\<^sup>*\<^sup>* t t' \<and> jr_rel s' t'"
proof (cases "jq_done (jr_dev s)")
  case True
  then have "(jr_dev s)\<lparr>jq_done := True\<rparr> = jr_dev s" by (cases "jr_dev s") simp
  then have "s' = s\<lparr>jr_dev := jr_dev s, jr_work := WWake f n\<rparr>" by (simp only: s'_def)
  then have "jr_rel s' t" using rel w True unfolding jr_rel_def by (simp add: jr_locks_def dev_abs_def work_file_def)
  then show ?thesis by blast
next
  case False
  have wf: "work_file s = Some f" and dev: "dev_abs s = old" using w False by (simp_all add: work_file_def dev_abs_def)
  obtain c where c: "line_fits (jq_jiffies old) c" "jr_dev s = jiq_append c old" "jiq_full (jr_dev s) \<or> f = JiqTimer"
    using rel w False unfolding jr_rel_def by blast
  let ?t = "t\<lparr>jy_dev := jiq_done (jr_dev s), jy_pend := False\<rparr>"
  have "jiq_step t ?t" using jw_run_sim [OF rel inv wf, of c "jr_dev s" False] c by (simp add: dev)
  moreover have "text_ok ((jr_dev s)\<lparr>jq_done := True\<rparr>) (jr_pc s p)" "\<not> cancelled (jr_pc s p)" for p
    using jr_no_text [OF rel inv] w wf by simp_all
  then have "jr_rel s' ?t"
    using rel w unfolding jr_rel_def s'_def by (simp add: jr_locks_def dev_abs_def work_file_def jiq_done_def)
  ultimately show ?thesis by blast
qed

lemma jw_wake_sim:
  assumes rel: "jr_rel s t" and w: "jr_work s = WWake f n"
  shows "jr_rel (s\<lparr>jr_work := (if n > 1 then WDone f (jr_dev s) (n - 1) else WIdle)\<rparr>) t"
proof -
  have "jq_done (jr_dev s)" "jr_pend s = None" using rel w unfolding jr_rel_def by auto
  then show ?thesis using rel w unfolding jr_rel_def by (simp add: jr_locks_def dev_abs_def work_file_def)
qed

text \<open>A reader that tests \<open>done\<close> sees what theory \<open>Jiq\<close> has.\<close>

lemma jr_done_abs:
  assumes "jr_rel s t" and "jiq_inv t"
  shows "jq_done (jy_dev t) \<longleftrightarrow> jq_done (jr_dev s)"
proof (cases "jr_work s")
  case (WDone f old n)
  show ?thesis
  proof (cases "jq_done (jr_dev s)")
    case False
    then have "work_file s = Some f" using WDone by (simp add: work_file_def)
    then have "\<not> jq_done (dev_abs s)" using jr_working [OF assms] by metis
    then show ?thesis using assms(1) False by (simp add: jr_rel_def)
  qed (use assms(1) WDone in \<open>simp add: jr_rel_def dev_abs_def\<close>)
qed (use assms(1) in \<open>simp_all add: jr_rel_def dev_abs_def\<close>)

text \<open>Every step of the detailed system is at most one step of theory \<open>Jiq\<close>.\<close>

lemma jr_step_sim:
  assumes "jr_step s s'" and "jr_rel s t" and "jiq_inv t"
  shows "\<exists>t'. jiq_step\<^sup>*\<^sup>* t t' \<and> jr_rel s' t'"
  using assms
proof (induction rule: jr_step.induct)
  case (jr_call s p f)
  then show ?case using jr_rel_outside [of s t p "RLock f"] by auto
next
  case (jr_lock_signal s p f)
  then show ?case using jr_rel_outside [of s t p RIdle] by auto
next
  case (jr_take s p f now c)
  then show ?case using jr_take_sim by blast
next
  case (jr_prepare s p f)
  then have "jr_rel (jr_goto p (RTest f) s) t" using jr_rel_stay [of s t p f JWait "RTest f"] by simp
  then show ?case by (auto simp: jr_rel_queue)
next
  case (jr_fast s p f)
  have dev: "jq_done (jy_dev t)" using jr_fast jr_done_abs by blast
  have "jiq_step t (t\<lparr>jy_reader := Some (p, f, JLeave None)\<rparr>)" using jiq_woken jr_holder(2) [of s t p f JWait] dev jr_fast by simp
  then show ?case using jr_rel_move [of s t p f JWait "RFinish f None"] jr_fast by auto
next
  case (jr_test_done s p f)
  have dev: "jq_done (jy_dev t)" using jr_test_done jr_done_abs by blast
  have "jiq_step t (t\<lparr>jy_reader := Some (p, f, JLeave None)\<rparr>)" using jiq_woken jr_holder(2) [of s t p f JWait] dev jr_test_done by simp
  then show ?case using jr_rel_move [of s t p f JWait "RFinish f None"] jr_test_done by auto
next
  case (jr_test_signal s p f)
  have dev: "\<not> jq_done (jy_dev t)" using jr_test_signal jr_done_abs by blast
  have "jiq_step t (t\<lparr>jy_reader := Some (p, f, JLeave (Some ERESTARTSYS))\<rparr>)"
    using jiq_signal jr_holder(2) [of s t p f JWait] dev jr_test_signal by simp
  then show ?case using jr_rel_move [of s t p f JWait "RFinish f (Some ERESTARTSYS)"] jr_test_signal by auto
next
  case (jr_test_sleep s p f)
  then show ?case using jr_rel_stay [of s t p f JWait "RSched f"] by auto
next
  case (jr_woken s p f)
  then show ?case using jr_rel_stay [of s t p f JWait "RPrepare f"] by auto
next
  case (jr_spurious s p f)
  then show ?case by auto
next
  case (jr_finish s p f r)
  then have "jr_rel (jr_goto p (after_finish f r) s) t" using jr_rel_stay [of s t p f "JLeave r" "after_finish f r"] by (cases "f = JiqWq") (simp_all add: after_finish_def)
  then show ?case by (auto simp: jr_rel_queue)
next
  case (jr_cancel s p f r x)
  have "text_ok (jr_dev s) (jr_pc s p)" using jr_cancel unfolding jr_rel_def by blast
  then have "jr_rel (jr_goto p (after_cancel f r x) (s\<lparr>jr_pend := None\<rparr>)) t"
    using jr_rel_stay [OF jr_rel_cancel, of s t p f "JLeave r" "after_cancel f r x"] jr_cancel
    by (cases r) (auto simp: after_cancel_def)
  then show ?case by blast
next
  case (jr_show s p f r)
  have "f = JiqWq \<Longrightarrow> jr_work s = WIdle \<and> jr_pend s = None" using jr_show unfolding jr_rel_def by (metis cancelled.simps(2))
  then show ?case
    using jr_rel_stay [of s t p f "JLeave r" "after_show f r (if r = None then Some (jq_buf (jr_dev s)) else None)"] jr_show
    by (auto simp: after_show_def)
next
  case (jr_unlock s p f r x)
  then show ?case using jr_unlock_sim by blast
next
  case (jw_start s f)
  then show ?case using jw_start_sim by blast
next
  case (jw_requeue s f c d)
  then show ?case using jw_requeue_sim by blast
next
  case (jw_complete s f c d n)
  then show ?case using jw_complete_sim by blast
next
  case (jw_done s f old n)
  then show ?case using jw_done_sim by blast
next
  case (jw_wake s f n)
  then show ?case using jw_wake_sim [of "s\<lparr>jr_sleep := \<lambda>p. jr_sleep s p \<and> p \<notin> jr_queue s\<rparr>" t f n] by auto
qed

subsection \<open>No wakeup is lost\<close>

lemma jr_wakes_work: "jr_wakes s \<Longrightarrow> rd_abs (jr_pc s p) = Some (f, JWait) \<Longrightarrow> jq_done (jr_dev s) \<or> work_file s \<noteq> None"
  unfolding jr_wakes_def by blast

lemma jr_wakes_goto:
  assumes "jr_wakes s" and "\<And>f. rd_abs pc = Some (f, JWait) \<Longrightarrow> jq_done (jr_dev s) \<or> work_file s \<noteq> None"
    and "\<And>f. pc = RTest f \<Longrightarrow> p \<in> jr_queue s" and "\<And>f. pc = RSched f \<Longrightarrow> p \<in> jr_queue s \<and> \<not> jq_done (jr_dev s)"
  shows "jr_wakes (jr_goto p pc s)"
  using assms unfolding jr_wakes_def by auto

text \<open>Only the holder of the mutex waits.\<close>

lemma jr_one_waits:
  assumes "jr_rel s t" and "rd_abs (jr_pc s p) = Some x" and "q \<noteq> p"
  shows "rd_abs (jr_pc s q) = None"
proof -
  have "jr_lock s = Some p" using jr_holder(1) [OF assms(1)] assms(2) by (cases x) simp
  then show ?thesis using jr_other [OF assms(1)] assms(3) by simp
qed

lemma jr_wakes_step:
  assumes "jr_step s s'" and "jr_rel s t" and "jiq_inv t" and "jr_wakes s"
  shows "jr_wakes s'"
  using assms
proof (induction rule: jr_step.induct)
  case (jr_take s p f now c)
  have "rd_abs (jr_pc s q) = None" for q using jr_other jr_take by simp
  moreover have "jr_pc s q \<noteq> RTest g" "jr_pc s q \<noteq> RSched g" for q g using calculation [of q] by auto
  moreover have "jr_work s = WIdle" using jr_take by (auto simp: jr_rel_def)
  ultimately show ?case by (simp add: jr_wakes_def work_file_def)
next
  case (jr_prepare s p f)
  have "rd_abs (jr_pc s q) = None" if "q \<noteq> p" for q using jr_one_waits [of s t p] jr_prepare that by simp
  then have "jr_pc s q \<noteq> RTest g" "jr_pc s q \<noteq> RSched g" if "q \<noteq> p" for q g using that by fastforce+
  moreover have "jq_done (jr_dev s) \<or> work_file s \<noteq> None" using jr_wakes_work [of s p f] jr_prepare by simp
  ultimately show ?case using jr_prepare by (auto simp: jr_wakes_def)
next
  case (jr_finish s p f r)
  have "rd_abs (jr_pc s q) = None" if "q \<noteq> p" for q using jr_one_waits [of s t p] jr_finish that by simp
  then have "jr_pc s q \<noteq> RTest g" "jr_pc s q \<noteq> RSched g" if "q \<noteq> p" for q g using that by fastforce+
  then show ?case using jr_finish by (auto simp: jr_wakes_def after_finish_def)
next
  case (jr_cancel s p f r x)
  have none: "rd_abs (jr_pc s q) = None" if "q \<noteq> p" for q using jr_one_waits [of s t p] jr_cancel that by simp
  then have "jr_pc s q \<noteq> RTest g" "jr_pc s q \<noteq> RSched g" if "q \<noteq> p" for q g using that by fastforce+
  then show ?case using jr_cancel none by (auto simp: jr_wakes_def after_cancel_def)
next
  case (jr_unlock s p f r x)
  then show ?case by (auto simp: jr_wakes_def)
next
  case (jw_start s f)
  then show ?case by (auto simp: jr_wakes_def work_file_def)
next
  case (jw_requeue s f c d)
  then show ?case by (auto simp: jr_wakes_def work_file_def jiq_append_def Let_def)
next
  case (jw_complete s f c d n)
  then show ?case by (auto simp: jr_wakes_def work_file_def jiq_append_def Let_def)
next
  case (jw_done s f old n)
  then show ?case by (auto simp: jr_wakes_def)
next
  case (jw_wake s f n)
  then show ?case by (auto simp: jr_wakes_def jr_rel_def)
next
  case (jr_spurious s p f)
  then show ?case by (auto simp: jr_wakes_def)
next
  case (jr_test_sleep s p f)
  then show ?case using jr_wakes_work [of s p f] by (auto intro!: jr_wakes_goto simp: jr_wakes_def)
next
  case (jr_woken s p f)
  then show ?case using jr_wakes_work [of s p f] by (auto intro!: jr_wakes_goto)
qed (auto intro!: jr_wakes_goto simp: jr_wakes_def after_show_def split: if_splits)

lemma jr_reach:
  assumes "jr_step\<^sup>*\<^sup>* jr_new s"
  shows "\<exists>t. jiq_step\<^sup>*\<^sup>* jiq_new t \<and> jr_rel s t \<and> jr_wakes s"
  using assms
proof (induction rule: rtranclp_induct)
  case base
  have "jr_rel jr_new jiq_new \<and> jr_wakes jr_new"
    by (simp add: jr_rel_def jr_wakes_def jr_locks_def jr_new_def jiq_new_def dev_abs_def reader_abs_def work_file_def)
  then show ?case by blast
next
  case (step s s')
  then obtain t where t: "jiq_step\<^sup>*\<^sup>* jiq_new t" "jr_rel s t" "jr_wakes s" by blast
  have inv: "jiq_inv t" by (rule jiq_reach_inv) (rule t(1))
  obtain t' where "jiq_step\<^sup>*\<^sup>* t t'" "jr_rel s' t'" using jr_step_sim [OF step.hyps(2) t(2) inv] by blast
  moreover have "jr_wakes s'" using jr_wakes_step [OF step.hyps(2) t(2) inv t(3)] .
  ultimately show ?case using t(1) rtranclp_trans [of jiq_step] by blast
qed

lemma jr_sleeper_awaited:
  assumes "jr_wakes s" and "jr_pc s p = RSched f" and "jr_sleep s p"
  shows "jr_pend s \<noteq> None \<or> jr_work s \<noteq> WIdle"
proof (rule ccontr)
  assume none: "\<not> ?thesis"
  then have "work_file s = None" by (simp add: work_file_def)
  then have "jq_done (jr_dev s)" using jr_wakes_work [OF assms(1), of p f] assms(2) by simp
  then have "\<exists>g n. jr_work s = WWake g n" using assms unfolding jr_wakes_def by blast
  then show False using none by auto
qed

subsection \<open>Properties\<close>

text \<open>
  C35: The reads and the work of the four files, taken apart into taking the mutex, queueing oneself,
  testing \<open>done\<close>, sleeping, cancelling, showing and unlocking, and into appending, setting \<open>done\<close>
  and waking, with readers and work interleaved in any way, do what the reads and runs as single
  steps do, and show the same texts: the header and whole lines, within the buffer, two lines for
  the timer and otherwise as many as fit. When nobody holds the mutex no work is queued or runs. No
  wakeup is lost: while a reader sleeps, work that is to wake it is queued or runs.
\<close>

theorem jiq_reads_refine:
  assumes "jr_step\<^sup>*\<^sup>* jr_new s"
  shows "(\<exists>t. jiq_step\<^sup>*\<^sup>* jiq_new t \<and> jy_out t = jr_out s \<and> jy_reader t = reader_abs s) \<and>
    (\<forall>(p, f, x) \<in> set (jr_out s). length x < BUF_LEN \<and> (\<exists>n. whole_lines n x) \<and>
      (if f = JiqTimer then whole_lines 2 x else BUF_LEN - length x < LINE_MAX_LEN)) \<and>
    (jr_lock s = None \<longrightarrow> jr_pend s = None \<and> jr_work s = WIdle) \<and>
    (\<forall>p f. jr_pc s p = RSched f \<and> jr_sleep s p \<longrightarrow> jr_pend s \<noteq> None \<or> jr_work s \<noteq> WIdle)"
proof -
  obtain t where t: "jiq_step\<^sup>*\<^sup>* jiq_new t" and rel: "jr_rel s t" and w: "jr_wakes s" using jr_reach [OF assms] by blast
  have out: "jy_out t = jr_out s" and rd: "jy_reader t = reader_abs s" using rel by (simp_all add: jr_rel_def)
  note shown = jiq_shows_whole_lines [OF t, unfolded out]
  have "jr_pend s = None \<and> jr_work s = WIdle" if free: "jr_lock s = None"
  proof -
    have "jr_work s = WIdle" using rel free by (auto simp: jr_rel_def)
    moreover have "reader_abs s = None" using free by (simp add: reader_abs_def)
    then have "work_file s = None" using jr_work_reader(2) [OF rel] by (cases "work_file s") auto
    ultimately show ?thesis by (simp add: work_file_def)
  qed
  then show ?thesis using t out rd conjunct1 [OF shown] jr_sleeper_awaited [OF w] by blast
qed

theorem jiq_reads_refine_witness:
  "\<exists>s. jr_step\<^sup>*\<^sup>* jr_new s \<and> jr_pc s 1 = RSched JiqTimer \<and> jr_sleep s 1 \<and> (jr_pend s \<noteq> None \<or> jr_work s \<noteq> WIdle)"
proof -
  let ?d = "jiq_start JiqTimer 7 demo_ctx (jr_dev jr_new)"
  let ?s1 = "jr_goto 1 (RLock JiqTimer) jr_new"
  let ?s2 = "jr_goto 1 (RPrepare JiqTimer) (?s1\<lparr>jr_dev := ?d, jr_pend := Some JiqTimer, jr_lock := Some 1\<rparr>)"
  let ?s3 = "jr_goto 1 (RTest JiqTimer) (?s2\<lparr>jr_queue := insert 1 (jr_queue ?s2), jr_sleep := (jr_sleep ?s2)(1 := True)\<rparr>)"
  let ?s4 = "jr_goto 1 (RSched JiqTimer) ?s3"
  have nd: "\<not> jq_done ?d"
    using jiq_start_progress [OF demo_ctx_fits, of JiqTimer "jr_dev jr_new"] by (auto simp: jiq_progress_def split: if_splits)
  have "jr_step jr_new ?s1" by (rule jr_call) (simp add: jr_new_def)
  moreover have "jr_step ?s1 ?s2" using jr_take [of ?s1 1 JiqTimer 7 demo_ctx] by (simp add: jr_new_def demo_ctx_fits)
  moreover have "jr_step ?s2 ?s3" by (rule jr_prepare) simp
  moreover have "jr_step ?s3 ?s4" by (rule jr_test_sleep) (simp_all add: nd)
  ultimately have r: "jr_step\<^sup>*\<^sup>* jr_new ?s4" by (meson converse_rtranclp_into_rtranclp rtranclp.rtrancl_refl)
  have a: "jr_pc ?s4 1 = RSched JiqTimer \<and> jr_sleep ?s4 1" by simp
  then have "jr_pend ?s4 \<noteq> None \<or> jr_work ?s4 \<noteq> WIdle" using jiq_reads_refine [OF r] by blast
  then show ?thesis using r a by blast
qed

end
