(* ===== verification/Alloc.thy ===== *)
theory Alloc
  imports Lifecycle "HOL-Library.Multiset"
begin

section \<open>Objects allocated and freed\<close>

text \<open>
  The examples under \<open>src/examples/ds\<close> allocate objects, hang them into a structure of the kernel and
  free them. An object is a resource of theory \<open>Lifecycle\<close>, named by the number of its allocation;
  \<open>live cs M\<close> says that the calls \<open>cs\<close> freed nothing twice and nothing that was not allocated, and
  that the objects in \<open>M\<close> are the ones allocated and not freed.
\<close>

definition live :: "'r call list \<Rightarrow> 'r multiset \<Rightarrow> bool" where
  "live cs M \<longleftrightarrow> (\<exists>st. held_any cs [] = Some st \<and> mset st = M)"

text \<open>What the items of several examples carry: key 1 is the letter A, key 2 the letter B, and so on.\<close>

definition letter :: "int \<Rightarrow> byte" where
  "letter key = of_char CHR ''A'' + of_int key - 1"

lemma live_empty [simp]: "live [] {#}"
  by (simp add: live_def)

lemma live_none: "live cs {#} \<Longrightarrow> held_any cs [] = Some []"
  by (auto simp: live_def)

lemma live_acq: "live cs M \<Longrightarrow> x \<notin># M \<Longrightarrow> live (cs @ [Acq x]) (add_mset x M)"
  by (auto simp: live_def held_any_append)

lemma live_rel: "live cs (add_mset x M) \<Longrightarrow> live (cs @ [Rel x]) M"
proof -
  assume "live cs (add_mset x M)"
  then obtain st where st: "held_any cs [] = Some st" "mset st = add_mset x M" by (auto simp: live_def)
  then have "x \<in> set st" by (metis set_mset_mset union_single_eq_member)
  then show "live (cs @ [Rel x]) M" using st by (auto simp: live_def held_any_append)
qed

lemma live_rel_all: "live cs (mset xs + M) \<Longrightarrow> live (cs @ map Rel xs) M"
proof (induction xs arbitrary: cs)
  case (Cons x xs)
  then have "live (cs @ [Rel x]) (mset xs + M)" by (intro live_rel) simp
  from Cons.IH [OF this] show ?case by simp
qed simp

lemma live_free_all: "live cs M \<Longrightarrow> mset xs = M \<Longrightarrow> held_any (cs @ map Rel xs) [] = Some []"
  using live_rel_all [of cs xs "{#}"] live_none by auto

end
