(* ===== verification/Ds_List.thy ===== *)
theory Ds_List
  imports Alloc
begin

section \<open>ds/list: items on two lists\<close>

text \<open>
  \<open>src/examples/ds/list/main.c\<close>. The doubly linked rings are the kernel's; a ring is the list of the
  items on it, from the first one on. An item may be on one of the lists \<open>stack\<close> and \<open>queue\<close> through
  its node \<open>all\<close>, and on the list \<open>odds\<close> through its node \<open>odd\<close>; a node that was initialised and not added
  is a ring of its own, so deleting it changes nothing. \<open>list_sort\<close> is a parameter, with \<open>sort_ok\<close> for
  what is documented of it.
\<close>

record litem =
  li_addr :: nat
  li_key :: nat
  li_val :: byte

record list_state =
  lt_stack :: "litem list"
  lt_queue :: "litem list"
  lt_odds :: "litem list"
  lt_next :: nat
  lt_calls :: "nat call list"

definition new_item :: "nat answers \<Rightarrow> nat \<Rightarrow> list_state \<Rightarrow> litem option \<times> list_state" where
  "new_item F key s =
     if_err (F (lt_next s)) (\<lambda>_. (None, s\<lparr>lt_next := lt_next s + 1\<rparr>))
       (Some \<lparr>li_addr = lt_next s, li_key = key, li_val = letter (int key)\<rparr>,
        s\<lparr>lt_next := lt_next s + 1, lt_calls := lt_calls s @ [Acq (lt_next s)]\<rparr>)"

definition item_cmp :: "litem \<Rightarrow> litem \<Rightarrow> int" where
  "item_cmp a b = of_bool (li_key a > li_key b) - of_bool (li_key a < li_key b)"

type_synonym list_sort = "(litem \<Rightarrow> litem \<Rightarrow> int) \<Rightarrow> litem list \<Rightarrow> litem list"

text \<open>
  A stable sort: the items stay, in an order in which none is greater than a later one, and those that
  compare equal stay in their order. The comparison has to be that of a key.
\<close>

definition sort_ok :: "list_sort \<Rightarrow> bool" where
  "sort_ok S \<longleftrightarrow> (\<forall>cmp (key :: litem \<Rightarrow> nat) xs. (\<forall>a b. (cmp a b > 0 \<longleftrightarrow> key a > key b) \<and> (cmp a b < 0 \<longleftrightarrow> key a < key b)) \<longrightarrow>
     mset (S cmp xs) = mset xs \<and> sorted (map key (S cmp xs)) \<and>
     (\<forall>k \<in> set (S cmp xs). filter (\<lambda>x. key k = key x) (S cmp xs) = filter (\<lambda>x. key k = key x) xs))"

fun list_add_all :: "nat answers \<Rightarrow> nat list \<Rightarrow> list_state \<Rightarrow> errno option \<times> list_state" where
  "list_add_all F [] s = (None, s)"
| "list_add_all F (key # keys) s =
     (case new_item F key s of
        (None, s1) \<Rightarrow> (Some ENOMEM, s1)
      | (Some it, s1) \<Rightarrow> list_add_all F keys (s1\<lparr>lt_stack := it # lt_stack s1\<rparr>))"

fun list_add_tail_all :: "nat answers \<Rightarrow> nat list \<Rightarrow> list_state \<Rightarrow> errno option \<times> list_state" where
  "list_add_tail_all F [] s = (None, s)"
| "list_add_tail_all F (key # keys) s =
     (case new_item F key s of
        (None, s1) \<Rightarrow> (Some ENOMEM, s1)
      | (Some it, s1) \<Rightarrow> list_add_tail_all F keys (s1\<lparr>lt_queue := lt_queue s1 @ [it]\<rparr>))"

text \<open>An item leaves the lists it is on, and is freed.\<close>

definition drop_item :: "litem \<Rightarrow> list_state \<Rightarrow> list_state" where
  "drop_item it s = s\<lparr>lt_stack := remove1 it (lt_stack s), lt_queue := remove1 it (lt_queue s), lt_odds := remove1 it (lt_odds s),
     lt_calls := lt_calls s @ [Rel (li_addr it)]\<rparr>"

text \<open>The safe walk: the next item is read before this one is freed, so it is over the items at the start.\<close>

definition drop_threes :: "list_state \<Rightarrow> list_state" where
  "drop_threes s = foldl (\<lambda>s it. if li_key it mod 3 \<noteq> 0 then s else drop_item it s) s (lt_queue s)"

definition free_stack :: "list_state \<Rightarrow> list_state" where
  "free_stack s = foldl (\<lambda>s it. drop_item it s) s (lt_stack s)"

definition free_queue :: "list_state \<Rightarrow> list_state" where
  "free_queue s = foldl (\<lambda>s it. drop_item it s) s (lt_queue s)"

definition splice_sort_odds :: "list_sort \<Rightarrow> list_state \<Rightarrow> list_state" where
  "splice_sort_odds S s =
     (let q = S item_cmp (lt_queue s @ lt_stack s)
      in s\<lparr>lt_queue := q, lt_stack := [], lt_odds := lt_odds s @ filter (\<lambda>it. li_key it mod 2 \<noteq> 0) q\<rparr>)"

definition list_rotate_left :: "list_state \<Rightarrow> list_state" where
  "list_rotate_left s = s\<lparr>lt_queue := rotate1 (lt_queue s)\<rparr>"

definition list_check :: "list_state \<Rightarrow> bool" where
  "list_check s \<longleftrightarrow>
     length (lt_queue s) = 6 \<and> length (lt_odds s) = 3 \<and> li_key (hd (lt_queue s)) = 2 \<and> li_key (last (lt_queue s)) = 1"

definition list_new :: list_state where
  "list_new = \<lparr>lt_stack = [], lt_queue = [], lt_odds = [], lt_next = 0, lt_calls = []\<rparr>"

definition list_run :: "list_sort \<Rightarrow> nat answers \<Rightarrow> errno option \<times> list_state" where
  "list_run S F =
     (case list_add_all F [1, 2, 3, 4] list_new of
        (Some e, s) \<Rightarrow> (Some e, s)
      | (None, s) \<Rightarrow>
          (case list_add_tail_all F [5, 6, 7, 8] s of
             (Some e, s1) \<Rightarrow> (Some e, s1)
           | (None, s1) \<Rightarrow>
               (let s2 = list_rotate_left (drop_threes (splice_sort_odds S s1)) in (if list_check s2 then None else Some EINVAL, s2))))"

definition list_demo :: "list_sort \<Rightarrow> nat answers \<Rightarrow> errno option \<times> list_state" where
  "list_demo S F = (case list_run S F of (err, s) \<Rightarrow> (err, free_queue (free_stack s)))"

subsection \<open>No item is freed while it is on a list\<close>

text \<open>The items on \<open>stack\<close> and \<open>queue\<close> are the ones allocated; those on \<open>odds\<close> are among them.\<close>

definition lists_inv :: "list_state \<Rightarrow> bool" where
  "lists_inv s \<longleftrightarrow>
     distinct (lt_stack s @ lt_queue s) \<and> distinct (lt_odds s) \<and> set (lt_odds s) \<subseteq> set (lt_stack s) \<union> set (lt_queue s) \<and>
     live (lt_calls s) (image_mset li_addr (mset (lt_stack s) + mset (lt_queue s))) \<and>
     (\<forall>it \<in> set (lt_stack s) \<union> set (lt_queue s). li_addr it < lt_next s)"

lemma new_item_cases:
  "new_item F key s =
     (if F (lt_next s) = None
      then (Some \<lparr>li_addr = lt_next s, li_key = key, li_val = letter (int key)\<rparr>,
        s\<lparr>lt_next := lt_next s + 1, lt_calls := lt_calls s @ [Acq (lt_next s)]\<rparr>)
      else (None, s\<lparr>lt_next := lt_next s + 1\<rparr>))"
  by (simp add: new_item_def if_err_def split: option.split)

lemma new_item_inv:
  assumes "lists_inv s" and "new_item F key s = (r, s')"
  shows "r = None \<Longrightarrow> lists_inv s'"
    and "r = Some it \<Longrightarrow> lists_inv (s'\<lparr>lt_stack := it # lt_stack s'\<rparr>)"
    and "r = Some it \<Longrightarrow> lists_inv (s'\<lparr>lt_queue := lt_queue s' @ [it]\<rparr>)"
proof -
  have "live (lt_calls s @ [Acq (lt_next s)]) (add_mset (lt_next s) (image_mset li_addr (mset (lt_stack s) + mset (lt_queue s))))"
    using assms(1) by (intro live_acq) (auto simp: lists_inv_def)
  moreover have "\<lparr>li_addr = lt_next s, li_key = key, li_val = letter (int key)\<rparr> \<notin> set (lt_stack s) \<union> set (lt_queue s)"
    using assms(1) by (force simp: lists_inv_def)
  ultimately show "r = None \<Longrightarrow> lists_inv s'" "r = Some it \<Longrightarrow> lists_inv (s'\<lparr>lt_stack := it # lt_stack s'\<rparr>)"
    "r = Some it \<Longrightarrow> lists_inv (s'\<lparr>lt_queue := lt_queue s' @ [it]\<rparr>)"
    using assms by (auto simp: lists_inv_def new_item_cases less_Suc_eq split: if_splits)
qed

lemma list_add_all_inv: "lists_inv s \<Longrightarrow> lists_inv (snd (list_add_all F keys s))"
  by (induction keys arbitrary: s) (auto dest: new_item_inv split: prod.split option.split)

lemma list_add_tail_all_inv: "lists_inv s \<Longrightarrow> lists_inv (snd (list_add_tail_all F keys s))"
  by (induction keys arbitrary: s) (auto dest: new_item_inv split: prod.split option.split)

lemma drop_item_inv:
  assumes "lists_inv s" and "it \<in> set (lt_stack s) \<union> set (lt_queue s)"
  shows "lists_inv (drop_item it s)" and "set (lt_queue (drop_item it s)) = set (lt_queue s) - {it}"
    and "set (lt_stack (drop_item it s)) = set (lt_stack s) - {it}" and "it \<notin> set (lt_odds (drop_item it s))"
proof -
  have d: "distinct (lt_stack s)" "distinct (lt_queue s)" "distinct (lt_odds s)" "set (lt_stack s) \<inter> set (lt_queue s) = {}"
    using assms(1) by (auto simp: lists_inv_def)
  have m: "mset (lt_stack s) + mset (lt_queue s) = add_mset it (mset (remove1 it (lt_stack s)) + mset (remove1 it (lt_queue s)))"
  proof (cases "it \<in> set (lt_stack s)")
    case True
    then have "it \<notin> set (lt_queue s)" using d(4) by auto
    then show ?thesis using True by (simp add: remove1_idem insert_DiffM)
  next
    case False
    then have "it \<in> set (lt_queue s)" using assms(2) by auto
    then show ?thesis using False by (simp add: remove1_idem insert_DiffM)
  qed
  have "live (lt_calls s) (add_mset (li_addr it) (image_mset li_addr (mset (remove1 it (lt_stack s)) + mset (remove1 it (lt_queue s)))))"
    using assms(1) m by (simp add: lists_inv_def del: mset_remove1)
  note l = live_rel [OF this]
  show "lists_inv (drop_item it s)"
    using assms(1) l d by (auto simp: lists_inv_def drop_item_def)
  show "set (lt_queue (drop_item it s)) = set (lt_queue s) - {it}" "set (lt_stack (drop_item it s)) = set (lt_stack s) - {it}"
    "it \<notin> set (lt_odds (drop_item it s))"
    using d by (simp_all add: drop_item_def)
qed

lemma drop_items_inv:
  assumes "lists_inv s" and "distinct its" and "set its \<subseteq> set (lt_stack s) \<union> set (lt_queue s)"
  shows "lists_inv (foldl (\<lambda>s it. if P it then s else drop_item it s) s its)
    \<and> set (lt_queue (foldl (\<lambda>s it. if P it then s else drop_item it s) s its)) = set (lt_queue s) - {it \<in> set its. \<not> P it}
    \<and> set (lt_stack (foldl (\<lambda>s it. if P it then s else drop_item it s) s its)) = set (lt_stack s) - {it \<in> set its. \<not> P it}"
  using assms
proof (induction its arbitrary: s)
  case (Cons it its)
  show ?case
  proof (cases "P it")
    case True
    then show ?thesis using Cons by auto
  next
    case False
    have "it \<in> set (lt_stack s) \<union> set (lt_queue s)" using Cons.prems(3) by auto
    note d = drop_item_inv [OF Cons.prems(1) this]
    have sub: "set its \<subseteq> set (lt_stack (drop_item it s)) \<union> set (lt_queue (drop_item it s))"
      using Cons.prems(2,3) by (auto simp: d(2,3))
    note IH = Cons.IH [OF d(1) _ sub]
    show ?thesis using IH Cons.prems(2) False by (auto simp: d(2,3))
  qed
qed simp

text \<open>There is one such sort by the key.\<close>

lemma sorted_by_key: "sort_ok S \<Longrightarrow> S item_cmp xs = sort_key li_key xs"
proof -
  assume S: "sort_ok S"
  have "\<forall>a b. (item_cmp a b > 0 \<longleftrightarrow> li_key a > li_key b) \<and> (item_cmp a b < 0 \<longleftrightarrow> li_key a < li_key b)" by (auto simp: item_cmp_def)
  from S [unfolded sort_ok_def, THEN spec, THEN spec, THEN spec, THEN mp, OF this, of xs]
  have l: "mset (S item_cmp xs) = mset xs" "sorted (map li_key (S item_cmp xs))"
    "\<And>k. k \<in> set (S item_cmp xs) \<Longrightarrow> filter (\<lambda>x. li_key k = li_key x) (S item_cmp xs) = filter (\<lambda>x. li_key k = li_key x) xs" by auto
  show ?thesis using properties_for_sort_key [OF l(1) l(3) l(2)] by simp
qed

lemma splice_sort_odds_inv:
  assumes "sort_ok S" and "lists_inv s" and "lt_odds s = []"
  shows "lists_inv (splice_sort_odds S s)"
proof -
  let ?q = "S item_cmp (lt_queue s @ lt_stack s)"
  have m: "mset ?q = mset (lt_stack s) + mset (lt_queue s)" by (simp add: sorted_by_key [OF assms(1)])
  have "distinct ?q" using assms(2) m by (metis lists_inv_def mset_append mset_eq_imp_distinct_iff)
  moreover have "set ?q = set (lt_stack s) \<union> set (lt_queue s)" using arg_cong [OF m, of set_mset] by simp
  ultimately show ?thesis using assms m by (auto simp: lists_inv_def splice_sort_odds_def Let_def)
qed

lemma list_add_odds: "lt_odds (snd (list_add_all F keys s)) = lt_odds s" "lt_odds (snd (list_add_tail_all F keys' s')) = lt_odds s'"
proof -
  show "lt_odds (snd (list_add_all F keys s)) = lt_odds s"
    by (induction keys arbitrary: s) (auto simp: new_item_cases split: prod.split option.split if_splits)
  show "lt_odds (snd (list_add_tail_all F keys' s')) = lt_odds s'"
    by (induction keys' arbitrary: s') (auto simp: new_item_cases split: prod.split option.split if_splits)
qed

lemma list_run_inv: "sort_ok S \<Longrightarrow> lists_inv (snd (list_run S F))"
proof -
  assume S: "sort_ok S"
  have new: "lists_inv list_new" by (simp add: lists_inv_def list_new_def)
  obtain r1 s1 where 1: "list_add_all F [1, 2, 3, 4] list_new = (r1, s1)" by fastforce
  obtain r2 s2 where 2: "list_add_tail_all F [5, 6, 7, 8] s1 = (r2, s2)" by fastforce
  have i1: "lists_inv s1" using list_add_all_inv [OF new, of F "[1, 2, 3, 4]"] unfolding 1 by simp
  have i2: "lists_inv s2" using list_add_tail_all_inv [OF i1, of F "[5, 6, 7, 8]"] unfolding 2 by simp
  have "lt_odds s1 = []" using list_add_odds(1) [of F "[1, 2, 3, 4]" list_new] unfolding 1 by (simp add: list_new_def)
  moreover have "lt_odds s2 = lt_odds s1" using list_add_odds(2) [of F "[5, 6, 7, 8]" s1] unfolding 2 by simp
  ultimately have i3: "lists_inv (splice_sort_odds S s2)" using splice_sort_odds_inv [OF S i2] by simp
  then have "distinct (lt_queue (splice_sort_odds S s2))" by (simp add: lists_inv_def)
  then have i4: "lists_inv (drop_threes (splice_sort_odds S s2))"
    unfolding drop_threes_def using drop_items_inv [OF i3, of "lt_queue (splice_sort_odds S s2)" "\<lambda>it. li_key it mod 3 \<noteq> 0"] by simp
  have "lists_inv (list_rotate_left s)" if "lists_inv s" for s
  proof -
    have "mset (rotate1 xs) = mset xs" for xs :: "litem list" by (cases xs) auto
    then show ?thesis using that by (auto simp: lists_inv_def list_rotate_left_def)
  qed
  then show ?thesis using 1 2 i1 i2 i4 by (auto simp: list_run_def Let_def simp del: list_add_all.simps list_add_tail_all.simps split: option.split)
qed

lemma free_all_inv:
  assumes "lists_inv s"
  shows "held_any (lt_calls (free_queue (free_stack s))) [] = Some [] \<and> lt_odds (free_queue (free_stack s)) = []"
proof -
  have d: "distinct (lt_stack s)" using assms by (simp add: lists_inv_def)
  note 1 = drop_items_inv [OF assms d, of "\<lambda>it. False", simplified, folded free_stack_def]
  then have inv1: "lists_inv (free_stack s)" and st1: "set (lt_stack (free_stack s)) = {}" by auto
  then have d2: "distinct (lt_queue (free_stack s))" by (simp add: lists_inv_def)
  note 2 = drop_items_inv [OF inv1 d2, of "\<lambda>it. False", simplified, folded free_queue_def]
  then have "lists_inv (free_queue (free_stack s))" "set (lt_stack (free_queue (free_stack s))) = {}" "set (lt_queue (free_queue (free_stack s))) = {}"
    using st1 by auto
  then show ?thesis by (auto simp: lists_inv_def live_none)
qed

subsection \<open>The demonstration\<close>

text \<open>With memory for every item both loops do the same as if memory were never short; otherwise they fail.\<close>

lemma list_add_all_result:
  "if \<forall>i \<in> {lt_next s..<lt_next s + length keys}. F i = None
   then list_add_all F keys s = list_add_all (\<lambda>i. None) keys s \<and> fst (list_add_all (\<lambda>i. None) keys s) = None \<and>
     lt_next (snd (list_add_all (\<lambda>i. None) keys s)) = lt_next s + length keys
   else fst (list_add_all F keys s) = Some ENOMEM"
proof (induction keys arbitrary: s)
  case (Cons key keys)
  have "{lt_next s..<lt_next s + length (key # keys)} = insert (lt_next s) {Suc (lt_next s)..<Suc (lt_next s) + length keys}" by auto
  then show ?case
    using Cons.IH [of "s\<lparr>lt_next := Suc (lt_next s), lt_calls := lt_calls s @ [Acq (lt_next s)],
        lt_stack := \<lparr>li_addr = lt_next s, li_key = key, li_val = letter (int key)\<rparr> # lt_stack s\<rparr>"]
    by (cases "F (lt_next s)") (auto simp: new_item_cases split: if_splits)
qed simp

lemma list_add_tail_all_result:
  "if \<forall>i \<in> {lt_next s..<lt_next s + length keys}. F i = None
   then list_add_tail_all F keys s = list_add_tail_all (\<lambda>i. None) keys s \<and> fst (list_add_tail_all (\<lambda>i. None) keys s) = None
   else fst (list_add_tail_all F keys s) = Some ENOMEM"
proof (induction keys arbitrary: s)
  case (Cons key keys)
  have "{lt_next s..<lt_next s + length (key # keys)} = insert (lt_next s) {Suc (lt_next s)..<Suc (lt_next s) + length keys}" by auto
  then show ?case
    using Cons.IH [of "s\<lparr>lt_next := Suc (lt_next s), lt_calls := lt_calls s @ [Acq (lt_next s)],
        lt_queue := lt_queue s @ [\<lparr>li_addr = lt_next s, li_key = key, li_val = letter (int key)\<rparr>]\<rparr>"]
    by (cases "F (lt_next s)") (auto simp: new_item_cases split: if_splits)
qed simp

lemma list_run_result: "sort_ok S \<Longrightarrow> fst (list_run S F) = (if \<forall>i < 8. F i = None then None else Some ENOMEM)"
proof -
  assume S: "sort_ok S"
  have n: "lt_next list_new = 0" by (simp add: list_new_def)
  have len: "length [1, 2, 3, 4 :: nat] = 4" "length [5, 6, 7, 8 :: nat] = 4" "4 + 4 = (8 :: nat)" by simp_all
  obtain s0 where s0: "snd (list_add_all (\<lambda>i. None) [1, 2, 3, 4] list_new) = s0" by blast
  note a = list_add_all_result [of list_new "[1, 2, 3, 4]" F, unfolded n len add_0 s0]
  note b = list_add_tail_all_result [of s0 "[5, 6, 7, 8]" F]
  have "{i :: nat. i < 8} = {0..<4} \<union> {4..<8}" by auto
  then have split: "(\<forall>i < 8. F i = None) \<longleftrightarrow> (\<forall>i \<in> {0..<4}. F i = None) \<and> (\<forall>i \<in> {4..<8}. F i = None)" by blast
  have best: "fst (list_run S (\<lambda>i. None)) = None"
    by (simp add: list_run_def list_new_def new_item_cases splice_sort_odds_def sorted_by_key [OF S] drop_threes_def drop_item_def
        list_rotate_left_def list_check_def Let_def)
  show ?thesis
  proof (cases "\<forall>i \<in> {0..<4}. F i = None")
    case False
    obtain e s where r: "list_add_all F [1, 2, 3, 4] list_new = (e, s)" by fastforce
    then have "e = Some ENOMEM" using a unfolding if_not_P [OF False] by simp
    then have "fst (list_run S F) = Some ENOMEM" unfolding list_run_def r by simp
    then show ?thesis using False split by auto
  next
    case True
    note a1 = a [unfolded if_P [OF True]]
    have a2: "list_add_all F [1, 2, 3, 4] list_new = (None, s0)" "list_add_all (\<lambda>i. None) [1, 2, 3, 4] list_new = (None, s0)"
      using a1 s0 unfolding prod_eq_iff by (simp_all only: fst_conv snd_conv simp_thms)
    have "lt_next s0 = 4" using a1 by (simp only: simp_thms)
    note b1 = b [unfolded this len]
    show ?thesis
    proof (cases "\<forall>i \<in> {4..<8}. F i = None")
      case False
      obtain e s where r: "list_add_tail_all F [5, 6, 7, 8] s0 = (e, s)" by fastforce
      then have "e = Some ENOMEM" using b1 unfolding if_not_P [OF False] by simp
      then have "fst (list_run S F) = Some ENOMEM" unfolding list_run_def a2(1) prod.case option.case r by simp
      then show ?thesis using False split by auto
    next
      case True8: True
      have "list_add_tail_all F [5, 6, 7, 8] s0 = list_add_tail_all (\<lambda>i. None) [5, 6, 7, 8] s0"
        using b1 unfolding if_P [OF True8] by (rule conjunct1)
      then have "list_run S F = list_run S (\<lambda>i. None)" unfolding list_run_def a2 prod.case option.case by (rule arg_cong)
      then show ?thesis using best split True True8 by simp
    qed
  qed
qed

text \<open>The demonstration passes, or fails for lack of memory, and every item is freed once, off all lists.\<close>

lemma list_demo_passes:
  "sort_ok S \<Longrightarrow> fst (list_demo S F) = (if \<forall>i < 8. F i = None then None else Some ENOMEM) \<and>
   held_any (lt_calls (snd (list_demo S F))) [] = Some [] \<and> lt_odds (snd (list_demo S F)) = []"
  using list_run_result [of S F] free_all_inv [OF list_run_inv, of S F] by (simp add: list_demo_def case_prod_unfold)

text \<open>The contract can be kept: by insertion.\<close>

fun list_insort :: "(litem \<Rightarrow> litem \<Rightarrow> int) \<Rightarrow> litem \<Rightarrow> litem list \<Rightarrow> litem list" where
  "list_insort cmp x [] = [x]"
| "list_insort cmp x (y # ys) = (if cmp x y > 0 then y # list_insort cmp x ys else x # y # ys)"

lemma insertion_sort_ok: "sort_ok (\<lambda>cmp xs. foldr (list_insort cmp) xs [])"
  unfolding sort_ok_def
proof (intro allI impI)
  fix cmp :: "litem \<Rightarrow> litem \<Rightarrow> int" and key :: "litem \<Rightarrow> nat" and xs
  assume k: "\<forall>a b. (cmp a b > 0 \<longleftrightarrow> key a > key b) \<and> (cmp a b < 0 \<longleftrightarrow> key a < key b)"
  have "list_insort cmp x ys = insort_key key x ys" for x ys using k by (induction ys) auto
  then have "list_insort cmp = insort_key key" by (intro ext)
  then have s: "foldr (list_insort cmp) xs [] = sort_key key xs" by (simp add: sort_key_def)
  have "filter (\<lambda>x. key y = key x) (sort_key key xs) = filter (\<lambda>x. key y = key x) xs" for y
    using sort_key_stable [of key "key y" xs] by (simp add: eq_commute)
  then show "mset (foldr (list_insort cmp) xs []) = mset xs \<and> sorted (map key (foldr (list_insort cmp) xs [])) \<and>
      (\<forall>k \<in> set (foldr (list_insort cmp) xs []). filter (\<lambda>x. key k = key x) (foldr (list_insort cmp) xs []) = filter (\<lambda>x. key k = key x) xs)"
    unfolding s by simp
qed

end
