(* ===== verification/Ds_Hash.thy ===== *)
theory Ds_Hash
  imports Alloc
begin

section \<open>ds/hlist: a hash table\<close>

text \<open>
  \<open>src/examples/ds/hlist/main.c\<close>: items in the eight buckets of a kernel hash table. The table and its
  operations are the kernel's, a parameter: the record \<open>ht_ops\<close> over tables of any type, with \<open>ht_ok\<close> for
  what is documented of them. Which bucket a key hashes to is left open. The \<open>n\<close>th allocation has the
  number \<open>n\<close> as its address.
\<close>

definition HASH_SIZE :: nat where "HASH_SIZE = 8"

record hitem =
  hi_addr :: nat
  hi_key :: int
  hi_val :: byte

text \<open>
  \<open>ht_bucket\<close> is the list hanging off a bucket, \<open>ht_possible\<close> the items a walk with
  \<open>hash_for_each_possible\<close> visits for a key.
\<close>

record 't ht_ops =
  ht_init :: 't
  hash_add :: "hitem \<Rightarrow> int \<Rightarrow> 't \<Rightarrow> 't"
  hash_del :: "hitem \<Rightarrow> 't \<Rightarrow> 't"
  ht_bucket :: "'t \<Rightarrow> nat \<Rightarrow> hitem list"
  ht_possible :: "int \<Rightarrow> 't \<Rightarrow> hitem list"

record 't hstate =
  hs_table :: 't
  hs_next :: nat
  hs_calls :: "nat call list"

definition hl_insert :: "'t ht_ops \<Rightarrow> nat answers \<Rightarrow> int \<Rightarrow> 't hstate \<Rightarrow> errno option \<times> 't hstate" where
  "hl_insert H F key s =
     if_err (F (hs_next s)) (\<lambda>_. (Some ENOMEM, s))
       (let it = \<lparr>hi_addr = hs_next s, hi_key = key, hi_val = letter key\<rparr>
        in (None, s\<lparr>hs_table := hash_add H it key (hs_table s), hs_next := hs_next s + 1, hs_calls := hs_calls s @ [Acq (hs_next s)]\<rparr>))"

definition hl_search :: "'t ht_ops \<Rightarrow> int \<Rightarrow> 't hstate \<Rightarrow> hitem option" where
  "hl_search H key s = find (\<lambda>it. hi_key it = key) (ht_possible H key (hs_table s))"

definition hl_remove :: "'t ht_ops \<Rightarrow> hitem \<Rightarrow> 't hstate \<Rightarrow> 't hstate" where
  "hl_remove H it s = s\<lparr>hs_table := hash_del H it (hs_table s), hs_calls := hs_calls s @ [Rel (hi_addr it)]\<rparr>"

text \<open>The safe walk over all buckets: the items are those the table has when the walk comes to their bucket.\<close>

definition table_items :: "'t ht_ops \<Rightarrow> 't hstate \<Rightarrow> hitem list" where
  "table_items H s = concat (map (ht_bucket H (hs_table s)) [0..<HASH_SIZE])"

definition destroy_table :: "'t ht_ops \<Rightarrow> 't hstate \<Rightarrow> 't hstate" where
  "destroy_table H s = foldl (\<lambda>t it. hl_remove H it t) s (table_items H s)"

definition count_table :: "'t ht_ops \<Rightarrow> 't hstate \<Rightarrow> nat" where
  "count_table H s = foldl (\<lambda>n it. n + 1) 0 (table_items H s)"

fun hl_insert_all :: "'t ht_ops \<Rightarrow> nat answers \<Rightarrow> int list \<Rightarrow> 't hstate \<Rightarrow> errno option \<times> 't hstate" where
  "hl_insert_all H F [] s = (None, s)"
| "hl_insert_all H F (key # keys) s =
     (case hl_insert H F key s of (Some e, s1) \<Rightarrow> (Some e, s1) | (None, s1) \<Rightarrow> hl_insert_all H F keys s1)"

definition hl_empty :: "'t ht_ops \<Rightarrow> 't hstate" where
  "hl_empty H = \<lparr>hs_table = ht_init H, hs_next = 0, hs_calls = []\<rparr>"

definition hlist_check :: "'t ht_ops \<Rightarrow> 't hstate \<Rightarrow> bool" where
  "hlist_check H s \<longleftrightarrow>
     count_table H s = 15 \<and> hl_search H 5 s = None \<and>
     (case hl_search H 6 s of None \<Rightarrow> False | Some it \<Rightarrow> hi_val it = of_char CHR ''F'')"

definition hlist_demo :: "'t ht_ops \<Rightarrow> nat answers \<Rightarrow> errno option \<times> 't hstate" where
  "hlist_demo H F =
     (case hl_insert_all H F (map int [1..<17]) (hl_empty H) of
        (Some e, s) \<Rightarrow> (Some e, destroy_table H s)
      | (None, s) \<Rightarrow>
          (let s1 = (case hl_search H 5 s of None \<Rightarrow> s | Some it \<Rightarrow> hl_remove H it s)
           in (if hlist_check H s1 then None else Some EINVAL, destroy_table H s1)))"

subsection \<open>What the kernel promises\<close>

text \<open>
  \<open>made\<close> are the tables made by adding items under their keys and deleting them. Adding prepends to one
  bucket, deleting unlinks the node from wherever it is, and a walk for a key visits the bucket that has
  all items with this key.
\<close>

definition ht_ok :: "'t ht_ops \<Rightarrow> ('t \<Rightarrow> bool) \<Rightarrow> bool" where
  "ht_ok H made \<longleftrightarrow>
     (made (ht_init H) \<and> (\<forall>b. ht_bucket H (ht_init H) b = [])) \<and>
     (\<forall>t it. made t \<longrightarrow> made (hash_add H it (hi_key it) t) \<and>
        (\<exists>b < HASH_SIZE. ht_bucket H (hash_add H it (hi_key it) t) = (ht_bucket H t)(b := it # ht_bucket H t b))) \<and>
     (\<forall>t it. made t \<longrightarrow> made (hash_del H it t) \<and>
        (\<forall>b. ht_bucket H (hash_del H it t) b = filter (\<lambda>x. hi_addr x \<noteq> hi_addr it) (ht_bucket H t b))) \<and>
     (\<forall>t k. made t \<longrightarrow> (\<exists>b < HASH_SIZE. ht_possible H k t = ht_bucket H t b \<and>
        (\<forall>c < HASH_SIZE. \<forall>it \<in> set (ht_bucket H t c). hi_key it = k \<longrightarrow> c = b)))"

lemma ht_okD:
  assumes "ht_ok H made"
  shows "made (ht_init H)" and "ht_bucket H (ht_init H) b = []"
    and "made t \<Longrightarrow> made (hash_add H it (hi_key it) t)"
    and "made t \<Longrightarrow> \<exists>b < HASH_SIZE. ht_bucket H (hash_add H it (hi_key it) t) = (ht_bucket H t)(b := it # ht_bucket H t b)"
    and "made t \<Longrightarrow> made (hash_del H it t)"
    and "made t \<Longrightarrow> ht_bucket H (hash_del H it t) b = filter (\<lambda>x. hi_addr x \<noteq> hi_addr it) (ht_bucket H t b)"
    and "made t \<Longrightarrow> \<exists>b < HASH_SIZE. ht_possible H k t = ht_bucket H t b \<and>
      (\<forall>c < HASH_SIZE. \<forall>it \<in> set (ht_bucket H t c). hi_key it = k \<longrightarrow> c = b)"
  using assms unfolding ht_ok_def by blast+

subsection \<open>The table as a set of items\<close>

definition hl_inv :: "'t ht_ops \<Rightarrow> ('t \<Rightarrow> bool) \<Rightarrow> 't hstate \<Rightarrow> bool" where
  "hl_inv H made s \<longleftrightarrow>
     ht_ok H made \<and> made (hs_table s) \<and> (\<forall>it \<in> set (table_items H s). hi_addr it < hs_next s) \<and>
     distinct (map hi_addr (table_items H s)) \<and> live (hs_calls s) (mset (map hi_addr (table_items H s)))"

text \<open>A walk for a key sees the items with this key, and only items of the table.\<close>

lemma possible_items:
  assumes "hl_inv H made s"
  shows "set (ht_possible H k (hs_table s)) \<subseteq> set (table_items H s)"
    and "{it \<in> set (table_items H s). hi_key it = k} \<subseteq> set (ht_possible H k (hs_table s))"
proof -
  obtain b where b: "b < HASH_SIZE" "ht_possible H k (hs_table s) = ht_bucket H (hs_table s) b"
    "\<forall>c < HASH_SIZE. \<forall>it \<in> set (ht_bucket H (hs_table s) c). hi_key it = k \<longrightarrow> c = b"
  proof -
    have "ht_ok H made" "made (hs_table s)" using assms by (simp_all add: hl_inv_def)
    from ht_okD(7) [OF this, of k] that show thesis by blast
  qed
  have items: "set (table_items H s) = (\<Union>c < HASH_SIZE. set (ht_bucket H (hs_table s) c))"
    by (simp add: table_items_def atLeast0LessThan)
  show "set (ht_possible H k (hs_table s)) \<subseteq> set (table_items H s)" unfolding items b(2) using b(1) by blast
  show "{it \<in> set (table_items H s). hi_key it = k} \<subseteq> set (ht_possible H k (hs_table s))" unfolding items b(2) using b(3) by blast
qed

lemma mset_upd_bucket:
  "b < n \<Longrightarrow> mset (concat (map (f(b := x # f b)) [0..<n])) = add_mset x (mset (concat (map f [0..<n])))" for n :: nat
proof (induction n)
  case (Suc n)
  show ?case
  proof (cases "b = n")
    case True
    have "concat (map (\<lambda>a. if a = n then x # f n else f a) [0..<n]) = concat (map f [0..<n])"
      by (intro arg_cong [of _ _ concat] map_cong) auto
    then show ?thesis using True by simp
  next
    case False
    then show ?thesis using Suc by simp
  qed
qed simp

lemma hl_insert_inv:
  assumes "hl_inv H made s" and "hl_insert H F key s = (None, s')"
  shows "hl_inv H made s'" and "hs_next s' = hs_next s + 1"
    and "mset (table_items H s') = add_mset \<lparr>hi_addr = hs_next s, hi_key = key, hi_val = letter key\<rparr> (mset (table_items H s))"
proof -
  let ?it = "\<lparr>hi_addr = hs_next s, hi_key = key, hi_val = letter key\<rparr>"
  have s': "s' = s\<lparr>hs_table := hash_add H ?it key (hs_table s), hs_next := hs_next s + 1, hs_calls := hs_calls s @ [Acq (hs_next s)]\<rparr>"
    using assms(2) by (simp add: hl_insert_def if_err_def Let_def split: option.splits)
  have h: "ht_ok H made" "made (hs_table s)" using assms(1) by (simp_all add: hl_inv_def)
  obtain b where b: "b < HASH_SIZE" "ht_bucket H (hs_table s') = (ht_bucket H (hs_table s))(b := ?it # ht_bucket H (hs_table s) b)"
    using ht_okD(4) [OF h, of ?it] by (auto simp: s')
  show m: "mset (table_items H s') = add_mset ?it (mset (table_items H s))"
    unfolding table_items_def b(2) by (rule mset_upd_bucket [OF b(1)])
  have new: "hs_next s \<notin> hi_addr ` set (table_items H s)" using assms(1) by (auto simp: hl_inv_def)
  have a: "mset (map hi_addr (table_items H s')) = add_mset (hs_next s) (mset (map hi_addr (table_items H s)))"
    using m by (simp add: image_mset_add_mset)
  have "distinct (map hi_addr (table_items H s'))"
    using assms(1) new a by (metis distinct.simps(2) hl_inv_def image_set mset.simps(2) mset_eq_imp_distinct_iff)
  moreover have "live (hs_calls s') (mset (map hi_addr (table_items H s')))"
    using assms(1) new unfolding a by (auto simp: s' hl_inv_def intro!: live_acq)
  moreover have "set (table_items H s') = insert ?it (set (table_items H s))" using arg_cong [OF m, of set_mset] by simp
  then have "\<forall>it \<in> set (table_items H s'). hi_addr it < hs_next s'" using assms(1) by (auto simp: s' hl_inv_def less_Suc_eq)
  moreover have "made (hs_table s')" using ht_okD(3) [OF h, of ?it] by (simp add: s')
  ultimately show "hl_inv H made s'" using h by (simp add: hl_inv_def)
  show "hs_next s' = hs_next s + 1" by (simp add: s')
qed

lemma hl_remove_inv:
  assumes "hl_inv H made s" and "it \<in> set (table_items H s)"
  shows "hl_inv H made (hl_remove H it s)"
    and "table_items H (hl_remove H it s) = filter (\<lambda>x. hi_addr x \<noteq> hi_addr it) (table_items H s)"
    and "mset (table_items H s) = add_mset it (mset (table_items H (hl_remove H it s)))"
proof -
  have h: "ht_ok H made" "made (hs_table s)" using assms(1) by (simp_all add: hl_inv_def)
  show t: "table_items H (hl_remove H it s) = filter (\<lambda>x. hi_addr x \<noteq> hi_addr it) (table_items H s)"
  proof -
    have "ht_bucket H (hs_table (hl_remove H it s)) = (\<lambda>b. filter (\<lambda>x. hi_addr x \<noteq> hi_addr it) (ht_bucket H (hs_table s) b))"
      using ht_okD(6) [OF h] by (auto simp: hl_remove_def)
    then show ?thesis by (simp add: table_items_def filter_concat o_def)
  qed
  have d: "distinct (map hi_addr (table_items H s))" using assms(1) by (simp add: hl_inv_def)
  obtain xs ys where x: "table_items H s = xs @ it # ys" using assms(2) by (meson split_list)
  have "filter (\<lambda>x. hi_addr x \<noteq> hi_addr it) xs = xs" "filter (\<lambda>x. hi_addr x \<noteq> hi_addr it) ys = ys"
    using d by (auto simp: x filter_id_conv image_iff)
  then have f: "table_items H (hl_remove H it s) = xs @ ys" by (simp add: t x)
  show "mset (table_items H s) = add_mset it (mset (table_items H (hl_remove H it s)))" by (simp add: f x)
  have "live (hs_calls s) (add_mset (hi_addr it) (mset (map hi_addr (xs @ ys))))" using assms(1) by (simp add: hl_inv_def x)
  then have "live (hs_calls (hl_remove H it s)) (mset (map hi_addr (table_items H (hl_remove H it s))))"
    unfolding f by (auto simp: hl_remove_def dest: live_rel)
  moreover have "distinct (map hi_addr (table_items H (hl_remove H it s)))" using d by (simp add: f x)
  moreover have "\<forall>y \<in> set (table_items H (hl_remove H it s)). hi_addr y < hs_next (hl_remove H it s)"
    using assms(1) unfolding f by (auto simp: hl_inv_def hl_remove_def x)
  ultimately show "hl_inv H made (hl_remove H it s)" using h ht_okD(5) [OF h] by (simp add: hl_inv_def hl_remove_def)
qed

text \<open>A search finds an item with the key if there is one, and only then.\<close>

lemma hl_search_some:
  assumes "hl_inv H made s" and "hl_search H key s = Some it"
  shows "it \<in> set (table_items H s)" and "hi_key it = key"
proof -
  have "it \<in> set (ht_possible H key (hs_table s)) \<and> hi_key it = key" using assms(2) by (auto simp: hl_search_def find_Some_iff)
  then show "it \<in> set (table_items H s)" "hi_key it = key" using possible_items(1) [OF assms(1)] by auto
qed

lemma hl_search_none:
  assumes "hl_inv H made s"
  shows "hl_search H key s = None \<longleftrightarrow> (\<forall>it \<in> set (table_items H s). hi_key it \<noteq> key)"
  using possible_items [OF assms, of key] by (auto simp: hl_search_def find_None_iff)

text \<open>The walk that frees while it goes leaves an empty table and nothing allocated.\<close>

lemma destroy_items:
  assumes "hl_inv H made s" and "mset xs = mset (table_items H s)"
  shows "hl_inv H made (foldl (\<lambda>t it. hl_remove H it t) s xs) \<and> table_items H (foldl (\<lambda>t it. hl_remove H it t) s xs) = []"
  using assms
proof (induction xs arbitrary: s)
  case (Cons x xs)
  have "x \<in> set (table_items H s)" using Cons.prems(2) by (metis list.set_intros(1) set_mset_mset)
  note r = hl_remove_inv [OF Cons.prems(1) this]
  have "mset xs = mset (table_items H (hl_remove H x s))" using Cons.prems(2) r(3) by simp
  then show ?case using Cons.IH [OF r(1)] by simp
qed simp

lemma destroy_table_ok:
  assumes "hl_inv H made s"
  shows "held_any (hs_calls (destroy_table H s)) [] = Some []" and "table_items H (destroy_table H s) = []"
proof -
  have d: "hl_inv H made (destroy_table H s)" "table_items H (destroy_table H s) = []"
    using destroy_items [OF assms refl] by (simp_all add: destroy_table_def)
  show "held_any (hs_calls (destroy_table H s)) [] = Some []" using d by (simp add: hl_inv_def live_none)
  show "table_items H (destroy_table H s) = []" by (rule d(2))
qed

lemma count_table_length: "count_table H s = length (table_items H s)"
proof -
  have "foldl (\<lambda>n it. n + 1) k xs = k + length xs" for k and xs :: "hitem list" by (induction xs arbitrary: k) auto
  from this [of 0 "table_items H s"] show ?thesis by (simp add: count_table_def)
qed

subsection \<open>The demonstration\<close>

lemma table_items_empty: "ht_ok H made \<Longrightarrow> table_items H (hl_empty H) = []"
  by (simp add: table_items_def hl_empty_def ht_okD(2))

lemma hl_empty_inv: "ht_ok H made \<Longrightarrow> hl_inv H made (hl_empty H)"
  by (simp add: hl_inv_def table_items_empty) (simp add: hl_empty_def ht_okD(1))

text \<open>The keys of all items, and that an item has the letter of its key.\<close>

definition hl_holds :: "'t ht_ops \<Rightarrow> int list \<Rightarrow> 't hstate \<Rightarrow> bool" where
  "hl_holds H keys s \<longleftrightarrow> mset (map hi_key (table_items H s)) = mset keys \<and> (\<forall>it \<in> set (table_items H s). hi_val it = letter (hi_key it))"

lemma hl_insert_all_holds:
  assumes "hl_inv H made s" and "hl_holds H done_keys s" and "hl_insert_all H F keys s = (r, s')"
  shows "hl_inv H made s' \<and> r \<in> {None, Some ENOMEM} \<and> (r = None \<longrightarrow> hl_holds H (keys @ done_keys) s') \<and>
    (r = None \<longleftrightarrow> (\<forall>i \<in> {hs_next s..<hs_next s + length keys}. F i = None))"
  using assms
proof (induction keys arbitrary: s done_keys)
  case (Cons key keys)
  show ?case
  proof (cases "F (hs_next s)")
    case None
    obtain s1 where s1: "hl_insert H F key s = (None, s1)" using None by (simp add: hl_insert_def if_err_def Let_def)
    note i = hl_insert_inv [OF Cons.prems(1) s1]
    have "hl_holds H (key # done_keys) s1"
    proof -
      have "set (table_items H s1) = insert \<lparr>hi_addr = hs_next s, hi_key = key, hi_val = letter key\<rparr> (set (table_items H s))"
        using arg_cong [OF i(3), of set_mset] by simp
      then show ?thesis using Cons.prems(2) i(3) by (simp add: hl_holds_def)
    qed
    moreover have "hl_insert_all H F keys s1 = (r, s')" using Cons.prems(3) s1 by simp
    ultimately have IH: "hl_inv H made s' \<and> r \<in> {None, Some ENOMEM} \<and> (r = None \<longrightarrow> hl_holds H (keys @ key # done_keys) s') \<and>
      (r = None \<longleftrightarrow> (\<forall>i \<in> {hs_next s1..<hs_next s1 + length keys}. F i = None))"
      using Cons.IH [OF i(1)] by blast
    have "{hs_next s..<hs_next s + length (key # keys)} = insert (hs_next s) {hs_next s1..<hs_next s1 + length keys}" using i(2) by auto
    then show ?thesis using IH None by (auto simp: hl_holds_def)
  next
    case (Some e)
    then have "r = Some ENOMEM" "s' = s" using Cons.prems(3) by (simp_all add: hl_insert_def if_err_def)
    then show ?thesis using Cons.prems(1) Some by (auto intro!: bexI [of _ "hs_next s"])
  qed
qed simp

lemma hlist_check_ok:
  assumes "hl_inv H made s" and "hl_holds H (map int [1..<17]) s"
  shows "\<exists>it. hl_search H 5 s = Some it \<and> hl_inv H made (hl_remove H it s) \<and> hlist_check H (hl_remove H it s)"
proof -
  have keys: "hi_key ` set (table_items H s) = set (map int [1..<17])"
    using assms(2) by (metis hl_holds_def image_set mset_eq_setD)
  have int_mem: "int n \<in> set (map int [a..<b]) \<longleftrightarrow> a \<le> n \<and> n < b" for n a b by auto
  have "5 \<in> hi_key ` set (table_items H s)" unfolding keys using int_mem [of 5 1 17] by simp
  then have "\<exists>it \<in> set (table_items H s). hi_key it = 5" by auto
  then obtain it where it: "hl_search H 5 s = Some it" using hl_search_none [OF assms(1), of 5] by fastforce
  note i = hl_search_some [OF assms(1) it]
  note r = hl_remove_inv [OF assms(1) i(1)]
  let ?s = "hl_remove H it s"
  have ks: "mset (map hi_key (table_items H ?s)) = mset (map int [1..<5] @ map int [6..<17])"
  proof -
    have "[1..<17] = [1..<5] @ 5 # [6..<17 :: nat]"
      using upt_add_eq_append [of 1 5 12] upt_conv_Cons [of 5 17] by simp
    then have "map int [1..<17] = map int [1..<5] @ 5 # map int [6..<17]" by simp
    then have "add_mset 5 (mset (map hi_key (table_items H ?s))) = mset (map int [1..<5] @ 5 # map int [6..<17])"
      using assms(2) i(2) arg_cong [OF r(3), of "image_mset hi_key"] by (simp add: hl_holds_def)
    then show ?thesis by simp
  qed
  have "length (table_items H ?s) = 15" using arg_cong [OF ks, of size] by simp
  moreover have keys2: "hi_key ` set (table_items H ?s) = set (map int [1..<5] @ map int [6..<17])"
    using ks by (metis image_set mset_eq_setD)
  have "5 \<notin> hi_key ` set (table_items H ?s)" unfolding keys2 using int_mem [of 5 1 5] int_mem [of 5 6 17] by simp
  then have "\<forall>x \<in> set (table_items H ?s). hi_key x \<noteq> 5" by force
  then have "hl_search H 5 ?s = None" using hl_search_none [OF r(1), of 5] by blast
  moreover obtain x where x: "hl_search H 6 ?s = Some x"
  proof -
    have "6 \<in> hi_key ` set (table_items H ?s)" unfolding keys2 using int_mem [of 6 6 17] by simp
    then have "hl_search H 6 ?s \<noteq> None" using hl_search_none [OF r(1), of 6] by force
    then show thesis using that by blast
  qed
  moreover have "x \<in> set (table_items H s)" "hi_key x = 6" using hl_search_some [OF r(1) x] r(2) by auto
  then have "hi_val x = of_char CHR ''F''" using assms(2) by (auto simp: hl_holds_def letter_def)
  ultimately show ?thesis using it r(1) by (simp add: hlist_check_def count_table_length)
qed

text \<open>
  C39: The demonstration of the hash table, on any table that does what is documented, whichever bucket a
  key hashes to and whichever of the sixteen allocations fail: it returns 0 when it got all its memory
  and -ENOMEM when not, never that a check of its own failed, so that the deleted key is no longer found,
  the others are, and their number is right; every item it allocated is freed exactly once, the walk
  that frees while it goes included, and every bucket is empty at the end.
\<close>

theorem hlist_demo_frees_all:
  assumes "ht_ok H made"
  shows "fst (hlist_demo H F) = (if \<forall>i < 16. F i = None then None else Some ENOMEM) \<and>
    held_any (hs_calls (snd (hlist_demo H F))) [] = Some [] \<and> table_items H (snd (hlist_demo H F)) = []"
proof -
  obtain r s where a: "hl_insert_all H F (map int [1..<17]) (hl_empty H) = (r, s)" by fastforce
  have "hl_holds H [] (hl_empty H)" by (simp add: hl_holds_def table_items_empty [OF assms])
  note h = hl_insert_all_holds [OF hl_empty_inv [OF assms] this a]
  have iff: "r = None \<longleftrightarrow> (\<forall>i < 16. F i = None)" using h by (auto simp: hl_empty_def)
  show ?thesis
  proof (cases r)
    case None
    obtain it where it: "hl_search H 5 s = Some it" "hl_inv H made (hl_remove H it s)" "hlist_check H (hl_remove H it s)"
      using hlist_check_ok [of H made s] h None by auto
    then show ?thesis using a None iff destroy_table_ok [OF it(2)] by (simp add: hlist_demo_def)
  next
    case (Some e)
    then show ?thesis using a iff h destroy_table_ok [of H made s] by (auto simp: hlist_demo_def)
  qed
qed

text \<open>The contract can be kept: by an array of lists, for every hash into its buckets.\<close>

definition chained :: "(int \<Rightarrow> nat) \<Rightarrow> (nat \<Rightarrow> hitem list) ht_ops" where
  "chained hash = \<lparr>ht_init = (\<lambda>b. []),
     hash_add = (\<lambda>it k t. t(hash k := it # t (hash k))),
     hash_del = (\<lambda>it t b. filter (\<lambda>x. hi_addr x \<noteq> hi_addr it) (t b)),
     ht_bucket = (\<lambda>t. t),
     ht_possible = (\<lambda>k t. t (hash k))\<rparr>"

lemma chained_ok: "\<forall>k. hash k < HASH_SIZE \<Longrightarrow> ht_ok (chained hash) (\<lambda>t. \<forall>b. \<forall>it \<in> set (t b). hash (hi_key it) = b)"
  by (auto simp: ht_ok_def chained_def)

theorem hlist_demo_frees_all_witness:
  "ht_ok (chained (\<lambda>k. nat (k mod 8))) (\<lambda>t. \<forall>b. \<forall>it \<in> set (t b). nat (hi_key it mod 8) = b) \<and>
   fst (hlist_demo (chained (\<lambda>k. nat (k mod 8))) (\<lambda>i. if i = 9 then Some ENOMEM else None)) = Some ENOMEM \<and>
   fst (hlist_demo (chained (\<lambda>k. nat (k mod 8))) (\<lambda>i. None)) = None"
proof -
  have h: "\<forall>k. nat (k mod 8) < HASH_SIZE" by (simp add: HASH_SIZE_def nat_less_iff)
  have "\<not> (\<forall>i < 16 :: nat. (if i = 9 then Some ENOMEM else None) = None)" by (auto intro!: exI [of _ 9])
  then show ?thesis
    using hlist_demo_frees_all [OF chained_ok [OF h], of "\<lambda>i. if i = 9 then Some ENOMEM else None"]
      hlist_demo_frees_all [OF chained_ok [OF h], of "\<lambda>i. None"] chained_ok [OF h] by simp
qed

end
