(* ===== verification/Ds_Rbtree.thy ===== *)
theory Ds_Rbtree
  imports Alloc "HOL-Library.Tree"
begin

section \<open>ds/rbtree: an ordered map\<close>

text \<open>
  \<open>src/examples/ds/rbtree/main.c\<close>. The source sees the tree itself, to draw it, so it is a binary tree
  of nodes with a colour. Finding, linking, replacing and erasing are the kernel's, a parameter: the
  record \<open>rb_ops\<close>, with \<open>rb_ok\<close> for what is documented of them, for any comparison that fits the order
  of the tree. That the comparisons of the source do is proved.
\<close>

record rb_data =
  rd_addr :: nat
  rd_key :: int
  rd_val :: byte

type_synonym rtree = "(rb_data \<times> bool) tree"

definition rb_nodes :: "rtree \<Rightarrow> rb_data list" where
  "rb_nodes t = map fst (inorder t)"

record rb_ops =
  rb_find_add :: "(rb_data \<Rightarrow> rb_data \<Rightarrow> int) \<Rightarrow> rb_data \<Rightarrow> rtree \<Rightarrow> rb_data option \<times> rtree"
  rb_find :: "(rb_data \<Rightarrow> int) \<Rightarrow> rtree \<Rightarrow> rb_data option"
  rb_replace_node :: "rb_data \<Rightarrow> rb_data \<Rightarrow> rtree \<Rightarrow> rtree"
  rb_erase :: "rb_data \<Rightarrow> rtree \<Rightarrow> rtree"

definition rb_data_cmp :: "rb_data \<Rightarrow> rb_data \<Rightarrow> int" where
  "rb_data_cmp a b = (let ka = rd_key a; kb = rd_key b in of_bool (ka > kb) - of_bool (ka < kb))"

definition rb_data_key_cmp :: "int \<Rightarrow> rb_data \<Rightarrow> int" where
  "rb_data_key_cmp k node = (let nk = rd_key node in of_bool (k > nk) - of_bool (k < nk))"

definition rb_insert :: "rb_ops \<Rightarrow> rb_data \<Rightarrow> rtree \<Rightarrow> bool \<times> rtree" where
  "rb_insert R new t = (case rb_find_add R rb_data_cmp new t of (found, t') \<Rightarrow> (found = None, t'))"

definition rb_search :: "rb_ops \<Rightarrow> rtree \<Rightarrow> int \<Rightarrow> rb_data option" where
  "rb_search R t key = rb_find R (rb_data_key_cmp key) t"

fun draw_subtree :: "rtree \<Rightarrow> nat \<Rightarrow> (nat \<times> rb_data \<times> bool) list" where
  "draw_subtree Leaf depth = []"
| "draw_subtree (Node l (data, c) r) depth =
     draw_subtree r (depth + 1) @ [(depth * 6, data, c)] @ draw_subtree l (depth + 1)"

text \<open>The loop of \<open>check_tree\<close>, with the node before and the count so far.\<close>

fun check_walk :: "rb_data option \<Rightarrow> int \<Rightarrow> rb_data list \<Rightarrow> int" where
  "check_walk prev n [] = n"
| "check_walk prev n (data # ds) =
     (if (case prev of None \<Rightarrow> False | Some p \<Rightarrow> rd_key p \<ge> rd_key data) then - 1 else check_walk (Some data) (n + 1) ds)"

definition check_tree :: "rtree \<Rightarrow> int" where
  "check_tree t = check_walk None 0 (rb_nodes t)"

record rb_state =
  rs_tree :: rtree
  rs_next :: nat
  rs_calls :: "nat call list"

definition destroy_tree :: "rb_state \<Rightarrow> rb_state" where
  "destroy_tree s = s\<lparr>rs_calls := rs_calls s @ map (\<lambda>x. Rel (rd_addr (fst x))) (postorder (rs_tree s)), rs_tree := Leaf\<rparr>"

definition rb_alloc :: "nat answers \<Rightarrow> rb_state \<Rightarrow> nat option \<times> rb_state" where
  "rb_alloc F s =
     if_err (F (rs_next s)) (\<lambda>_. (None, s\<lparr>rs_next := rs_next s + 1\<rparr>))
       (Some (rs_next s), s\<lparr>rs_next := rs_next s + 1, rs_calls := rs_calls s @ [Acq (rs_next s)]\<rparr>)"

definition rb_kfree :: "nat \<Rightarrow> rb_state \<Rightarrow> rb_state" where
  "rb_kfree a s = s\<lparr>rs_calls := rs_calls s @ [Rel a]\<rparr>"

text \<open>Insert a node just allocated; one that is refused is freed.\<close>

definition rb_insert_or_free :: "rb_ops \<Rightarrow> rb_data \<Rightarrow> rb_state \<Rightarrow> rb_state" where
  "rb_insert_or_free R new s =
     (case rb_insert R new (rs_tree s) of (ok, t) \<Rightarrow> if ok then s\<lparr>rs_tree := t\<rparr> else rb_kfree (rd_addr new) (s\<lparr>rs_tree := t\<rparr>))"

fun insert_range :: "rb_ops \<Rightarrow> nat answers \<Rightarrow> int list \<Rightarrow> rb_state \<Rightarrow> errno option \<times> rb_state" where
  "insert_range R F [] s = (None, s)"
| "insert_range R F (key # keys) s =
     (case rb_alloc F s of
        (None, s1) \<Rightarrow> (Some ENOMEM, s1)
      | (Some a, s1) \<Rightarrow> insert_range R F keys (rb_insert_or_free R \<lparr>rd_addr = a, rd_key = key, rd_val = letter key\<rparr> s1))"

definition rb_empty :: rb_state where
  "rb_empty = \<lparr>rs_tree = Leaf, rs_next = 0, rs_calls = []\<rparr>"

text \<open>The second half of the demonstration: replace the node of key 2, erase it, check.\<close>

definition rb_check :: "rb_ops \<Rightarrow> rtree \<Rightarrow> bool" where
  "rb_check R t \<longleftrightarrow>
     check_tree t = 10 \<and> rb_search R t 2 = None \<and>
     (case rb_search R t 3 of None \<Rightarrow> False | Some d \<Rightarrow> rd_val d = of_char CHR ''C'')"

definition rb_replace_erase :: "rb_ops \<Rightarrow> nat answers \<Rightarrow> rb_state \<Rightarrow> errno option \<times> rb_state" where
  "rb_replace_erase R F s =
     (case (rb_search R (rs_tree s) 2, rb_alloc F s) of
        (_, None, s1) \<Rightarrow> (Some ENOMEM, s1)
      | (None, Some a, s1) \<Rightarrow> (Some ENOMEM, rb_kfree a s1)
      | (Some old, Some a, s1) \<Rightarrow>
          (let new = \<lparr>rd_addr = a, rd_key = 2, rd_val = of_char CHR ''z''\<rparr>;
               s2 = rb_kfree (rd_addr old) (s1\<lparr>rs_tree := rb_replace_node R old new (rs_tree s1)\<rparr>)
           in if rb_search R (rs_tree s2) 2 \<noteq> Some new then (Some EINVAL, s2)
              else let s3 = rb_kfree a (s2\<lparr>rs_tree := rb_erase R new (rs_tree s2)\<rparr>)
                   in (if rb_check R (rs_tree s3) then None else Some EINVAL, s3)))"

definition rbtree_run :: "rb_ops \<Rightarrow> nat answers \<Rightarrow> errno option \<times> rb_state" where
  "rbtree_run R F =
     (case insert_range R F (map int [1..<7]) rb_empty of
        (Some e, s) \<Rightarrow> (Some e, s)
      | (None, s) \<Rightarrow>
          (case insert_range R F (map int [7..<12]) s of
             (Some e, s1) \<Rightarrow> (Some e, s1)
           | (None, s1) \<Rightarrow>
               (case rb_alloc F s1 of
                  (None, s2) \<Rightarrow> (Some ENOMEM, s2)
                | (Some a, s2) \<Rightarrow>
                    rb_replace_erase R F (rb_insert_or_free R \<lparr>rd_addr = a, rd_key = 3, rd_val = of_char CHR ''?''\<rparr> s2))))"

definition rbtree_demo :: "rb_ops \<Rightarrow> nat answers \<Rightarrow> errno option \<times> rb_state" where
  "rbtree_demo R F = (case rbtree_run R F of (err, s) \<Rightarrow> (err, destroy_tree s))"

subsection \<open>What the kernel promises\<close>

definition ordered :: "rtree \<Rightarrow> bool" where
  "ordered t \<longleftrightarrow> sorted_wrt (<) (map rd_key (rb_nodes t))"

text \<open>
  A comparison with a key fits a tree if it is positive on the nodes to the left of those it matches,
  and negative on those to the right. The library then finds a node that matches, if there is one, and
  links a new node, if there is none, between the smaller and the larger ones. Replacing a node and
  erasing it keep the others in their order.
\<close>

definition cmp_fits :: "(rb_data \<Rightarrow> int) \<Rightarrow> rtree \<Rightarrow> bool" where
  "cmp_fits cmp t \<longleftrightarrow> sorted_wrt (\<lambda>x y. sgn (cmp x) \<ge> sgn (cmp y)) (rb_nodes t)"

definition find_ok :: "rb_ops \<Rightarrow> bool" where
  "find_ok R \<longleftrightarrow> (\<forall>cmp t. cmp_fits cmp t \<longrightarrow>
     (case rb_find R cmp t of
        Some d \<Rightarrow> d \<in> set (rb_nodes t) \<and> cmp d = 0
      | None \<Rightarrow> \<forall>d \<in> set (rb_nodes t). cmp d \<noteq> 0))"

definition add_ok :: "rb_ops \<Rightarrow> bool" where
  "add_ok R \<longleftrightarrow> (\<forall>cmp new t. cmp_fits (cmp new) t \<longrightarrow>
     (case rb_find_add R cmp new t of
        (Some d, t') \<Rightarrow> t' = t \<and> d \<in> set (rb_nodes t) \<and> cmp new d = 0
      | (None, t') \<Rightarrow> \<exists>xs ys. rb_nodes t = xs @ ys \<and> rb_nodes t' = xs @ new # ys \<and>
          (\<forall>x \<in> set xs. cmp new x > 0) \<and> (\<forall>y \<in> set ys. cmp new y < 0)))"

definition rb_ok :: "rb_ops \<Rightarrow> bool" where
  "rb_ok R \<longleftrightarrow> find_ok R \<and> add_ok R \<and>
     (\<forall>t old new. distinct (rb_nodes t) \<longrightarrow> old \<in> set (rb_nodes t) \<longrightarrow>
        rb_nodes (rb_replace_node R old new t) = map (\<lambda>d. if d = old then new else d) (rb_nodes t)) \<and>
     (\<forall>t d. distinct (rb_nodes t) \<longrightarrow> d \<in> set (rb_nodes t) \<longrightarrow> rb_nodes (rb_erase R d t) = remove1 d (rb_nodes t))"

subsection \<open>The comparisons of the source\<close>

lemma rb_nodes_simps [simp]:
  "rb_nodes Leaf = []" "rb_nodes (Node l x r) = rb_nodes l @ fst x # rb_nodes r"
  by (simp_all add: rb_nodes_def)

lemma ordered_distinct: "ordered t \<Longrightarrow> distinct (map rd_key (rb_nodes t))"
  unfolding ordered_def by (metis strict_sorted_iff)

lemma ordered_distinct_nodes: "ordered t \<Longrightarrow> distinct (rb_nodes t)"
  using ordered_distinct by (simp add: distinct_map)

lemma cmp_signs:
  "rb_data_cmp a b > 0 \<longleftrightarrow> rd_key a > rd_key b" "rb_data_cmp a b < 0 \<longleftrightarrow> rd_key a < rd_key b"
  "rb_data_key_cmp k b = 0 \<longleftrightarrow> rd_key b = k" "rb_data_cmp a b = 0 \<longleftrightarrow> rd_key b = rd_key a"
  by (auto simp: rb_data_cmp_def rb_data_key_cmp_def Let_def)

lemma cmps_fit:
  assumes "ordered t"
  shows "cmp_fits (rb_data_cmp new) t" and "cmp_fits (rb_data_key_cmp k) t"
proof -
  have o: "sorted_wrt (\<lambda>x y. rd_key x < rd_key y) (rb_nodes t)" using assms by (simp add: ordered_def sorted_wrt_map)
  show "cmp_fits (rb_data_cmp new) t" "cmp_fits (rb_data_key_cmp k) t"
    unfolding cmp_fits_def by (rule sorted_wrt_mono_rel [OF _ o], auto simp: rb_data_cmp_def rb_data_key_cmp_def Let_def)+
qed

lemma rb_search_iff:
  assumes "rb_ok R" and "ordered t"
  shows "rb_search R t k = Some d \<longleftrightarrow> d \<in> set (rb_nodes t) \<and> rd_key d = k"
    and "rb_search R t k = None \<longleftrightarrow> k \<notin> rd_key ` set (rb_nodes t)"
proof -
  have f: "case rb_search R t k of Some d \<Rightarrow> d \<in> set (rb_nodes t) \<and> rd_key d = k | None \<Rightarrow> \<forall>d \<in> set (rb_nodes t). rd_key d \<noteq> k"
  proof -
    have "find_ok R" using assms(1) by (simp add: rb_ok_def)
    from this [unfolded find_ok_def, rule_format, OF cmps_fit(2) [OF assms(2), of k]] show ?thesis by (simp add: rb_search_def cmp_signs split: option.splits)
  qed
  have "inj_on rd_key (set (rb_nodes t))" using ordered_distinct [OF assms(2)] by (simp add: distinct_map)
  then show "rb_search R t k = Some d \<longleftrightarrow> d \<in> set (rb_nodes t) \<and> rd_key d = k" "rb_search R t k = None \<longleftrightarrow> k \<notin> rd_key ` set (rb_nodes t)"
    using f by (auto simp: inj_on_def split: option.splits)
qed

lemma rb_insert_ok:
  assumes "rb_ok R" and "ordered t" and "rb_insert R new t = (ok, t')"
  shows "if \<exists>d \<in> set (rb_nodes t). rd_key d = rd_key new then \<not> ok \<and> t' = t
     else ok \<and> ordered t' \<and> mset (rb_nodes t') = add_mset new (mset (rb_nodes t))"
proof -
  obtain found where f: "rb_find_add R rb_data_cmp new t = (found, t')" "ok = (found = None)"
    using assms(3) by (auto simp: rb_insert_def split: prod.splits)
  have law: "case found of Some d \<Rightarrow> t' = t \<and> d \<in> set (rb_nodes t) \<and> rd_key d = rd_key new
     | None \<Rightarrow> \<exists>xs ys. rb_nodes t = xs @ ys \<and> rb_nodes t' = xs @ new # ys \<and>
         (\<forall>x \<in> set xs. rd_key x < rd_key new) \<and> (\<forall>y \<in> set ys. rd_key new < rd_key y)"
  proof -
    have "add_ok R" using assms(1) by (simp add: rb_ok_def)
    from this [unfolded add_ok_def, rule_format, where cmp = rb_data_cmp, OF cmps_fit(1) [OF assms(2), of new]] show ?thesis
      by (simp add: f(1) cmp_signs split: option.splits)
  qed
  show ?thesis
  proof (cases found)
    case None
    then obtain xs ys where n: "rb_nodes t = xs @ ys" "rb_nodes t' = xs @ new # ys"
      "\<forall>x \<in> set xs. rd_key x < rd_key new" "\<forall>y \<in> set ys. rd_key new < rd_key y" using law by auto
    then have "ordered t'" using assms(2) by (auto simp: ordered_def sorted_wrt_append)
    then show ?thesis using n None f(2) by auto
  qed (use law f(2) in auto)
qed

subsection \<open>Drawing, checking, destroying\<close>

text \<open>The drawing has every node once, the largest key on top.\<close>

lemma draw_subtree_nodes: "map (\<lambda>(ind, d, c). d) (draw_subtree t depth) = rev (rb_nodes t)"
  by (induction t depth rule: draw_subtree.induct) simp_all

lemma check_walk_sorted:
  assumes "0 \<le> n"
  shows "check_walk prev n ds = (if sorted_wrt (<) (map rd_key ((case prev of None \<Rightarrow> [] | Some p \<Rightarrow> [p]) @ ds)) then n + int (length ds) else - 1)"
  using assms
proof (induction ds arbitrary: prev n)
  case (Cons d ds)
  show ?case
  proof (cases prev)
    case (Some p)
    show ?thesis
    proof (cases "rd_key p \<ge> rd_key d")
      case False
      then have "sorted_wrt (<) (rd_key p # rd_key d # map rd_key ds) \<longleftrightarrow> sorted_wrt (<) (rd_key d # map rd_key ds)"
        by (auto intro: order.strict_trans)
      then show ?thesis using Cons.IH [of "n + 1" "Some d"] Cons.prems Some False by simp
    qed (simp add: Some)
  qed (use Cons.IH [of "n + 1" "Some d"] Cons.prems in simp)
qed (auto split: option.splits)

lemma check_tree_ordered: "check_tree t = (if ordered t then int (length (rb_nodes t)) else - 1)"
  using check_walk_sorted [of 0 None "rb_nodes t"] by (simp add: check_tree_def ordered_def)

lemma mset_postorder_nodes: "mset (map fst (postorder t)) = mset (rb_nodes t)"
  by (induction t) (simp_all add: rb_nodes_def)

subsection \<open>The demonstration\<close>

definition rb_inv :: "rb_state \<Rightarrow> bool" where
  "rb_inv s \<longleftrightarrow> ordered (rs_tree s) \<and> live (rs_calls s) (image_mset rd_addr (mset (rb_nodes (rs_tree s)))) \<and>
     (\<forall>d \<in> set (rb_nodes (rs_tree s)). rd_addr d < rs_next s)"

definition rb_holds :: "int list \<Rightarrow> rb_state \<Rightarrow> bool" where
  "rb_holds keys s \<longleftrightarrow> mset (map rd_key (rb_nodes (rs_tree s))) = mset keys \<and>
     (\<forall>d \<in> set (rb_nodes (rs_tree s)). rd_val d = letter (rd_key d))"

lemma destroy_tree_ok:
  assumes "rb_inv s"
  shows "held_any (rs_calls (destroy_tree s)) [] = Some []" and "rs_tree (destroy_tree s) = Leaf"
proof -
  have "mset (map (rd_addr \<circ> fst) (postorder (rs_tree s))) = image_mset rd_addr (mset (rb_nodes (rs_tree s)))"
    using mset_postorder_nodes [of "rs_tree s"] by (metis map_map mset_map)
  then show "held_any (rs_calls (destroy_tree s)) [] = Some []"
    using assms live_free_all [of "rs_calls s" "image_mset rd_addr (mset (rb_nodes (rs_tree s)))" "map (rd_addr \<circ> fst) (postorder (rs_tree s))"]
    by (simp add: rb_inv_def destroy_tree_def o_def)
qed (simp add: destroy_tree_def)

lemma rb_alloc_cases:
  "rb_alloc F s = (if F (rs_next s) = None then (Some (rs_next s), s\<lparr>rs_next := rs_next s + 1, rs_calls := rs_calls s @ [Acq (rs_next s)]\<rparr>)
     else (None, s\<lparr>rs_next := rs_next s + 1\<rparr>))"
  by (simp add: rb_alloc_def if_err_def split: option.split)

lemma rb_inv_next: "rb_inv s \<Longrightarrow> rb_inv (s\<lparr>rs_next := rs_next s + 1\<rparr>)"
  by (auto simp: rb_inv_def less_Suc_eq)

lemma rb_new_live:
  assumes "rb_inv s"
  shows "live (rs_calls s @ [Acq (rs_next s)]) (add_mset (rs_next s) (image_mset rd_addr (mset (rb_nodes (rs_tree s)))))"
  using assms by (intro live_acq) (auto simp: rb_inv_def)

lemma rb_add:
  assumes R: "rb_ok R" and inv: "rb_inv s" and a: "rb_alloc F s = (Some a, s1)" and new: "rd_addr new = a"
  defines "s2 \<equiv> rb_insert_or_free R new s1"
  shows "rb_inv s2" and "rs_next s2 = rs_next s + 1"
    and "if \<exists>d \<in> set (rb_nodes (rs_tree s)). rd_key d = rd_key new then rs_tree s2 = rs_tree s
      else mset (rb_nodes (rs_tree s2)) = add_mset new (mset (rb_nodes (rs_tree s)))"
proof -
  have s1: "a = rs_next s" "s1 = s\<lparr>rs_next := rs_next s + 1, rs_calls := rs_calls s @ [Acq (rs_next s)]\<rparr>"
    using a by (auto simp: rb_alloc_cases split: if_splits)
  have o: "ordered (rs_tree s)" using inv by (simp add: rb_inv_def)
  obtain ok t where i: "rb_insert R new (rs_tree s) = (ok, t)" by fastforce
  have add: "if \<exists>d \<in> set (rb_nodes (rs_tree s)). rd_key d = rd_key new then \<not> ok \<and> t = rs_tree s
      else ok \<and> ordered t \<and> mset (rb_nodes t) = add_mset new (mset (rb_nodes (rs_tree s)))"
    by (rule rb_insert_ok [OF R o i])
  have s2: "s2 = (if ok then s1\<lparr>rs_tree := t\<rparr> else rb_kfree a (s1\<lparr>rs_tree := t\<rparr>))"
    by (simp add: s2_def rb_insert_or_free_def s1 i new)
  show "rs_next s2 = rs_next s + 1" by (simp add: s2 s1 rb_kfree_def)
  show "if \<exists>d \<in> set (rb_nodes (rs_tree s)). rd_key d = rd_key new then rs_tree s2 = rs_tree s
      else mset (rb_nodes (rs_tree s2)) = add_mset new (mset (rb_nodes (rs_tree s)))"
    using add by (simp add: s2 rb_kfree_def split: if_splits)
  note l = rb_new_live [OF inv]
  show "rb_inv s2"
  proof (cases ok)
    case True
    then have t: "ordered t" "mset (rb_nodes t) = add_mset new (mset (rb_nodes (rs_tree s)))" using add by (auto split: if_splits)
    have "set (rb_nodes t) = insert new (set (rb_nodes (rs_tree s)))" using arg_cong [OF t(2), of set_mset] by simp
    then show ?thesis using True t l inv new by (auto simp: rb_inv_def s2 s1)
  next
    case False
    then have "t = rs_tree s" using add by (auto split: if_splits)
    then show ?thesis using False live_rel [OF l] inv by (auto simp: rb_inv_def s2 s1 rb_kfree_def)
  qed
qed

lemma insert_range_ok:
  assumes "rb_ok R" and "rb_inv s" and "rb_holds old s" and "distinct keys" and "set keys \<inter> set old = {}"
    and "insert_range R F keys s = (r, s')"
  shows "rb_inv s' \<and> r \<in> {None, Some ENOMEM} \<and> (r = None \<longleftrightarrow> (\<forall>i \<in> {rs_next s..<rs_next s + length keys}. F i = None)) \<and>
    (r = None \<longrightarrow> rb_holds (keys @ old) s' \<and> rs_next s' = rs_next s + length keys)"
  using assms(2-)
proof (induction keys arbitrary: s old)
  case (Cons key keys)
  show ?case
  proof (cases "F (rs_next s) = None")
    case True
    then obtain a s1 where a: "rb_alloc F s = (Some a, s1)" by (simp add: rb_alloc_cases)
    let ?new = "\<lparr>rd_addr = a, rd_key = key, rd_val = letter key\<rparr>"
    let ?s = "rb_insert_or_free R ?new s1"
    note add = rb_add [OF assms(1) Cons.prems(1) a, of ?new, simplified]
    have ks: "rd_key ` set (rb_nodes (rs_tree s)) = set old"
      using Cons.prems(2) by (metis image_set mset_eq_setD rb_holds_def)
    have "key \<notin> rd_key ` set (rb_nodes (rs_tree s))" unfolding ks using Cons.prems(4) by auto
    then have "\<not> (\<exists>d \<in> set (rb_nodes (rs_tree s)). rd_key d = key)" by force
    then have m: "mset (rb_nodes (rs_tree ?s)) = add_mset ?new (mset (rb_nodes (rs_tree s)))" using add(3) by simp
    have "set (rb_nodes (rs_tree ?s)) = insert ?new (set (rb_nodes (rs_tree s)))" using arg_cong [OF m, of set_mset] by simp
    then have h: "rb_holds (key # old) ?s" using Cons.prems(2) m by (simp add: rb_holds_def)
    have rest: "insert_range R F keys ?s = (r, s')" using Cons.prems(5) a by simp
    have IH: "rb_inv s' \<and> r \<in> {None, Some ENOMEM} \<and> (r = None \<longleftrightarrow> (\<forall>i \<in> {rs_next ?s..<rs_next ?s + length keys}. F i = None)) \<and>
      (r = None \<longrightarrow> rb_holds (keys @ key # old) s' \<and> rs_next s' = rs_next ?s + length keys)"
      using Cons.prems(3,4) by (intro Cons.IH [OF add(1) h _ _ rest]) auto
    have "{rs_next s..<rs_next s + length (key # keys)} = insert (rs_next s) {rs_next ?s..<rs_next ?s + length keys}" using add(2) by auto
    then show ?thesis using IH True add(2) by (auto simp: rb_holds_def)
  next
    case False
    then obtain e where e: "F (rs_next s) = Some e" by auto
    then have "r = Some ENOMEM" "s' = s\<lparr>rs_next := rs_next s + 1\<rparr>" using Cons.prems(5) by (simp_all add: rb_alloc_cases)
    then show ?thesis using rb_inv_next [OF Cons.prems(1)] False by (auto intro!: bexI [of _ "rs_next s"])
  qed
qed simp

lemma sorted_wrt_remove1: "sorted_wrt (<) (map f xs) \<Longrightarrow> sorted_wrt (<) (map f (remove1 x xs))"
proof (induction xs)
  case (Cons y ys)
  then show ?case using set_remove1_subset [of x ys] by auto
qed simp

text \<open>
  Replacing a node by one with the same key and erasing it leaves the tree without it, in order.
\<close>

lemma rb_replace_erase_nodes:
  assumes R: "rb_ok R" and o: "ordered t" and old: "old \<in> set (rb_nodes t)" and key: "rd_key new = rd_key old" and fresh: "new \<notin> set (rb_nodes t)"
  shows "ordered (rb_replace_node R old new t)" and "new \<in> set (rb_nodes (rb_replace_node R old new t))"
    and "mset (rb_nodes (rb_replace_node R old new t)) = add_mset new (mset (remove1 old (rb_nodes t)))"
    and "rb_nodes (rb_erase R new (rb_replace_node R old new t)) = remove1 old (rb_nodes t)"
proof -
  let ?t = "rb_replace_node R old new t"
  have n: "rb_nodes ?t = map (\<lambda>d. if d = old then new else d) (rb_nodes t)"
    using R ordered_distinct_nodes [OF o] old by (simp add: rb_ok_def)
  have "map rd_key (rb_nodes ?t) = map rd_key (rb_nodes t)" using key by (simp add: n)
  then show o2: "ordered ?t" using o by (simp add: ordered_def)
  show mem: "new \<in> set (rb_nodes ?t)" using old by (auto simp: n)
  obtain xs ys where x: "rb_nodes t = xs @ old # ys" using old by (meson split_list)
  have "distinct (rb_nodes t)" using ordered_distinct [OF o] by (simp add: distinct_map)
  then have d: "old \<notin> set xs" "old \<notin> set ys" by (auto simp: x)
  have f: "new \<notin> set xs" "new \<notin> set ys" using fresh by (auto simp: x)
  have "map (\<lambda>d. if d = old then new else d) zs = zs" if "old \<notin> set zs" for zs using that by (induction zs) auto
  from this [OF d(1)] this [OF d(2)] have n2: "rb_nodes ?t = xs @ new # ys" by (simp add: n x)
  show "mset (rb_nodes ?t) = add_mset new (mset (remove1 old (rb_nodes t)))" using d by (simp add: n2 x remove1_append)
  have "rb_nodes (rb_erase R new ?t) = remove1 new (rb_nodes ?t)" using R ordered_distinct_nodes [OF o2] mem by (simp add: rb_ok_def)
  then show "rb_nodes (rb_erase R new ?t) = remove1 old (rb_nodes t)" using d f by (simp add: n2 x remove1_append)
qed

lemma rb_replace_erase_ok:
  assumes R: "rb_ok R" and inv: "rb_inv s" and holds: "rb_holds (map int [1..<12]) s" and run: "rb_replace_erase R F s = (r, s')"
  shows "rb_inv s' \<and> r = (if F (rs_next s) = None then None else Some ENOMEM)"
proof (cases "F (rs_next s)")
  case (Some e)
  then have "rb_alloc F s = (None, s\<lparr>rs_next := rs_next s + 1\<rparr>)" by (simp add: rb_alloc_cases)
  then have "r = Some ENOMEM" "s' = s\<lparr>rs_next := rs_next s + 1\<rparr>" using run by (auto simp: rb_replace_erase_def split: option.splits)
  then show ?thesis using rb_inv_next [OF inv] Some by simp
next
  case None
  let ?t = "rs_tree s"
  let ?a = "rs_next s"
  let ?new = "\<lparr>rd_addr = ?a, rd_key = 2, rd_val = of_char CHR ''z''\<rparr>"
  have al: "rb_alloc F s = (Some ?a, s\<lparr>rs_next := ?a + 1, rs_calls := rs_calls s @ [Acq ?a]\<rparr>)" using None by (simp add: rb_alloc_cases)
  have o: "ordered ?t" using inv by (simp add: rb_inv_def)
  have keys: "rd_key ` set (rb_nodes ?t) = set (map int [1..<12])" using holds by (metis image_set mset_eq_setD rb_holds_def)
  have int_mem: "int n \<in> set (map int [a..<b]) \<longleftrightarrow> a \<le> n \<and> n < b" for n a b by auto
  have "2 \<in> rd_key ` set (rb_nodes ?t)" unfolding keys using int_mem [of 2 1 12] by simp
  then obtain old where old: "rb_search R ?t 2 = Some old" using rb_search_iff(2) [OF R o, of 2] by auto
  then have mem: "old \<in> set (rb_nodes ?t)" "rd_key old = 2" using rb_search_iff(1) [OF R o] by auto
  have fresh: "?new \<notin> set (rb_nodes ?t)" using inv by (auto simp: rb_inv_def)
  let ?t2 = "rb_replace_node R old ?new ?t"
  have "rd_key ?new = rd_key old" using mem(2) by simp
  note re = rb_replace_erase_nodes [OF R o mem(1) this fresh]
  note nodes3 = re(4) [simplified]
  have found: "rb_search R ?t2 2 = Some ?new" using rb_search_iff(1) [OF R re(1), of 2 ?new] re(2) by simp
  let ?t3 = "rb_erase R ?new ?t2"
  let ?s3 = "s\<lparr>rs_next := ?a + 1, rs_tree := ?t3, rs_calls := rs_calls s @ [Acq ?a] @ [Rel (rd_addr old)] @ [Rel ?a]\<rparr>"
  have run': "(r, s') = (if rb_check R ?t3 then None else Some EINVAL, ?s3)"
    using run by (auto simp: rb_replace_erase_def old al Let_def found [simplified] rb_kfree_def split: if_splits)
  have rest: "mset (rb_nodes ?t) = add_mset old (mset (rb_nodes ?t3))" using mem(1) by (simp add: nodes3)
  have "sorted_wrt (<) (map rd_key (remove1 old (rb_nodes ?t)))"
    by (rule sorted_wrt_remove1) (use o in \<open>simp add: ordered_def\<close>)
  then have o3: "ordered ?t3" by (simp add: ordered_def nodes3)
  have "live (rs_calls s @ [Acq ?a]) (add_mset (rd_addr old) (add_mset ?a (image_mset rd_addr (mset (rb_nodes ?t3)))))"
    using rb_new_live [OF inv] by (simp add: rest add_mset_commute)
  from live_rel [OF live_rel [OF this]] have l3: "live (rs_calls ?s3) (image_mset rd_addr (mset (rb_nodes ?t3)))" by simp
  have "set (rb_nodes ?t3) \<subseteq> set (rb_nodes ?t)" by (simp add: nodes3 set_remove1_subset)
  then have inv3: "rb_inv ?s3" using o3 l3 inv by (fastforce simp: rb_inv_def)
  have "check_tree ?t3 = 10"
  proof -
    have "mset (map rd_key (rb_nodes ?t)) = mset (map int [1..<12])" using holds by (simp add: rb_holds_def)
    from arg_cong [OF this, of size] have "length (rb_nodes ?t) = 11" by simp
    then show ?thesis using mem(1) o3 by (simp add: check_tree_ordered nodes3 length_remove1)
  qed
  moreover have "2 \<notin> rd_key ` set (rb_nodes ?t3)"
  proof -
    have "distinct (rd_key old # map rd_key (rb_nodes ?t3))"
      using ordered_distinct [OF o] rest by (metis list.simps(9) mset.simps(2) mset_eq_imp_distinct_iff mset_map)
    then show ?thesis using mem(2) by auto
  qed
  then have "rb_search R ?t3 2 = None" using rb_search_iff(2) [OF R o3] by blast
  moreover obtain d where d: "rb_search R ?t3 3 = Some d" "rd_val d = of_char CHR ''C''"
  proof -
    have "3 \<in> rd_key ` set (rb_nodes ?t)" unfolding keys using int_mem [of 3 1 12] by simp
    then obtain d where d: "d \<in> set (rb_nodes ?t)" "rd_key d = 3" by auto
    moreover have "d \<noteq> old" using d mem by auto
    ultimately have "d \<in> set (rb_nodes ?t3)" by (simp add: nodes3 in_set_remove1)
    moreover have "rd_val d = of_char CHR ''C''" using holds d by (simp add: rb_holds_def letter_def)
    ultimately show thesis using that rb_search_iff(1) [OF R o3, of 3 d] d(2) by blast
  qed
  ultimately have "rb_check R ?t3" by (simp add: rb_check_def)
  then show ?thesis using run' inv3 None by simp
qed

text \<open>
  With any implementation of the tree that keeps its promise: the demonstration passes, or fails for
  lack of memory, and every node is freed exactly once.
\<close>

lemma rbtree_run_ok:
  assumes R: "rb_ok R" and run: "rbtree_run R F = (r, s)"
  shows "rb_inv s \<and> r = (if \<forall>i < 13. F i = None then None else Some ENOMEM)"
proof -
  have e: "rb_inv rb_empty" "rb_holds [] rb_empty" "rs_next rb_empty = 0" by (simp_all add: rb_inv_def rb_holds_def rb_empty_def ordered_def)
  have all13: "(\<forall>i < 13. F i = None) \<longleftrightarrow> (\<forall>i \<in> {0..<6}. F i = None) \<and> (\<forall>i \<in> {6..<11}. F i = None) \<and> F 11 = None \<and> F 12 = None"
  proof -
    have "{i :: nat. i < 13} = {0..<6} \<union> {6..<11} \<union> {11, 12}" by auto
    then show ?thesis by blast
  qed
  obtain r1 s1 where 1: "insert_range R F (map int [1..<7]) rb_empty = (r1, s1)" by fastforce
  have i1: "rb_inv s1 \<and> r1 \<in> {None, Some ENOMEM} \<and> (r1 = None \<longleftrightarrow> (\<forall>i \<in> {0..<6}. F i = None)) \<and>
      (r1 = None \<longrightarrow> rb_holds (map int [1..<7]) s1 \<and> rs_next s1 = 6)"
    using insert_range_ok [OF R e(1,2) _ _ 1] by (auto simp: e(3) distinct_map)
  show ?thesis
  proof (cases r1)
    case (Some x)
    then show ?thesis using run 1 i1 all13 by (auto simp: rbtree_run_def)
  next
    case None
    obtain r2 s2 where 2: "insert_range R F (map int [7..<12]) s1 = (r2, s2)" by fastforce
    have h1: "rb_inv s1" "rb_holds (map int [1..<7]) s1" "rs_next s1 = 6" using i1 None by auto
    have i2: "rb_inv s2 \<and> r2 \<in> {None, Some ENOMEM} \<and> (r2 = None \<longleftrightarrow> (\<forall>i \<in> {6..<11}. F i = None)) \<and>
        (r2 = None \<longrightarrow> rb_holds (map int [7..<12] @ map int [1..<7]) s2 \<and> rs_next s2 = 11)"
    proof -
      have "distinct (map int [7..<12])" by simp
      moreover have "set (map int [7..<12]) \<inter> set (map int [1..<7]) = {}" unfolding set_map set_upt by auto
      ultimately show ?thesis using insert_range_ok [OF R h1(1,2) _ _ 2] by (auto simp: h1(3))
    qed
    show ?thesis
    proof (cases r2)
      case (Some x)
      then show ?thesis using run 1 2 i2 None all13 by (auto simp: rbtree_run_def)
    next
      case None2: None
      have h2: "rb_inv s2" "rs_next s2 = 11" using i2 None2 by auto
      have "[1..<12] = [1..<7] @ [7..<12 :: nat]" using upt_add_eq_append [of 1 7 5] by simp
      then have h3: "rb_holds (map int [1..<12]) s2" using i2 None2 by (simp add: rb_holds_def add.commute)
      show ?thesis
      proof (cases "F 11")
        case (Some x)
        then have "rb_alloc F s2 = (None, s2\<lparr>rs_next := rs_next s2 + 1\<rparr>)" by (simp add: rb_alloc_cases h2(2))
        then show ?thesis using run 1 2 None None2 Some rb_inv_next [OF h2(1)] all13 by (auto simp: rbtree_run_def)
      next
        case None3: None
        obtain a s3 where 3: "rb_alloc F s2 = (Some a, s3)" using None3 by (simp add: rb_alloc_cases h2(2))
        let ?dup = "\<lparr>rd_addr = a, rd_key = 3, rd_val = of_char CHR ''?''\<rparr>"
        let ?s4 = "rb_insert_or_free R ?dup s3"
        have "rd_addr ?dup = a" by simp
        note add = rb_add [OF R h2(1) 3 this]
        have keys: "rd_key ` set (rb_nodes (rs_tree s2)) = set (map int [1..<12])" using h3 by (metis image_set mset_eq_setD rb_holds_def)
        have "int 3 \<in> set (map int [1..<12])" by simp
        then have "3 \<in> rd_key ` set (rb_nodes (rs_tree s2))" unfolding keys by simp
        then have "\<exists>d \<in> set (rb_nodes (rs_tree s2)). rd_key d = rd_key ?dup" by auto
        then have "rs_tree ?s4 = rs_tree s2" using add(3) by presburger
        then have h4: "rb_holds (map int [1..<12]) ?s4" using h3 unfolding rb_holds_def by metis
        have "rb_replace_erase R F ?s4 = (r, s)" using run 1 2 3 None None2 by (simp add: rbtree_run_def)
        from rb_replace_erase_ok [OF R add(1) h4 this]
        have "rb_inv s \<and> r = (if F (rs_next ?s4) = None then None else Some ENOMEM)" .
        moreover have "rs_next ?s4 = 12" using add(2) h2(2) by linarith
        ultimately show ?thesis using i1 i2 None None2 None3 all13 by simp
      qed
    qed
  qed
qed

lemma rbtree_demo_passes:
  assumes "rb_ok R"
  shows "fst (rbtree_demo R F) = (if \<forall>i < 13. F i = None then None else Some ENOMEM) \<and>
    held_any (rs_calls (snd (rbtree_demo R F))) [] = Some [] \<and> rs_tree (snd (rbtree_demo R F)) = Leaf"
proof -
  obtain r s where run: "rbtree_run R F = (r, s)" by fastforce
  note ok = rbtree_run_ok [OF assms run]
  then show ?thesis using destroy_tree_ok [of s] by (auto simp: rbtree_demo_def run)
qed

text \<open>The contract can be kept: by a tree whose nodes all hang to the right, rebuilt at every change.\<close>

definition spine :: "rb_data list \<Rightarrow> rtree" where
  "spine ds = foldr (\<lambda>d t. Node Leaf (d, False) t) ds Leaf"

definition spine_ops :: rb_ops where
  "spine_ops = \<lparr>
     rb_find_add = (\<lambda>cmp new t. case find (\<lambda>d. cmp new d = 0) (rb_nodes t) of
         Some d \<Rightarrow> (Some d, t)
       | None \<Rightarrow> (None, spine (takeWhile (\<lambda>d. cmp new d > 0) (rb_nodes t) @ new # dropWhile (\<lambda>d. cmp new d > 0) (rb_nodes t)))),
     rb_find = (\<lambda>cmp t. find (\<lambda>d. cmp d = 0) (rb_nodes t)),
     rb_replace_node = (\<lambda>old new t. spine (map (\<lambda>d. if d = old then new else d) (rb_nodes t))),
     rb_erase = (\<lambda>d t. spine (remove1 d (rb_nodes t)))\<rparr>"

lemma rb_nodes_spine [simp]: "rb_nodes (spine ds) = ds"
  by (induction ds) (simp_all add: spine_def)

lemma fits_dropWhile:
  "sorted_wrt (\<lambda>x y. sgn (cmp x) \<ge> sgn (cmp y)) ds \<Longrightarrow> \<forall>d \<in> set ds. cmp d \<noteq> (0 :: int) \<Longrightarrow> y \<in> set (dropWhile (\<lambda>d. cmp d > 0) ds) \<Longrightarrow> cmp y < 0"
proof (induction ds)
  case (Cons d ds)
  then show ?case by (cases "cmp d > 0") (auto simp: sgn_if split: if_splits)
qed simp

lemma spine_add_ok: "add_ok spine_ops"
  unfolding add_ok_def
proof (intro allI impI)
  fix cmp :: "rb_data \<Rightarrow> rb_data \<Rightarrow> int" and new :: rb_data and t :: rtree
  let ?xs = "takeWhile (\<lambda>d. cmp new d > 0) (rb_nodes t)" and ?ys = "dropWhile (\<lambda>d. cmp new d > 0) (rb_nodes t)"
  assume fits: "cmp_fits (cmp new) t"
  show "case rb_find_add spine_ops cmp new t of
       (Some d, t') \<Rightarrow> t' = t \<and> d \<in> set (rb_nodes t) \<and> cmp new d = 0
     | (None, t') \<Rightarrow> \<exists>xs ys. rb_nodes t = xs @ ys \<and> rb_nodes t' = xs @ new # ys \<and>
         (\<forall>x \<in> set xs. cmp new x > 0) \<and> (\<forall>y \<in> set ys. cmp new y < 0)"
  proof (cases "find (\<lambda>d. cmp new d = 0) (rb_nodes t)")
    case None
    have "rb_nodes t = ?xs @ ?ys" by simp
    moreover have "\<forall>x \<in> set ?xs. cmp new x > 0" by (auto dest: set_takeWhileD)
    moreover have "\<forall>d \<in> set (rb_nodes t). cmp new d \<noteq> 0" using None by (simp add: find_None_iff)
    then have "\<forall>y \<in> set ?ys. cmp new y < 0" using fits_dropWhile [OF fits [unfolded cmp_fits_def]] by blast
    ultimately have ex: "\<exists>xs ys. rb_nodes t = xs @ ys \<and> rb_nodes (spine (?xs @ new # ?ys)) = xs @ new # ys \<and>
        (\<forall>x \<in> set xs. cmp new x > 0) \<and> (\<forall>y \<in> set ys. cmp new y < 0)"
      unfolding rb_nodes_spine by blast
    have "rb_find_add spine_ops cmp new t = (None, spine (?xs @ new # ?ys))" using None by (simp add: spine_ops_def)
    then show ?thesis using ex by (simp only: prod.case option.case)
  next
    case (Some d)
    then have "d \<in> set (rb_nodes t)" "cmp new d = 0" by (auto simp: find_Some_iff)
    then show ?thesis using Some by (simp add: spine_ops_def)
  qed
qed

lemma spine_ops_ok: "rb_ok spine_ops"
proof -
  have "find_ok spine_ops" by (auto simp: find_ok_def spine_ops_def find_None_iff find_Some_iff split: option.split)
  then show ?thesis using spine_add_ok by (simp add: rb_ok_def) (simp add: spine_ops_def)
qed

text \<open>
  C38: The demonstration of the red-black tree, on any library that does what is documented and
  whichever of its thirteen allocations fail: it returns 0 when it got all its memory and -ENOMEM when
  not, never that a check of its own failed, so that the duplicate is refused, the replaced node found,
  the erased one not, and the rest in order; every node it allocated, the refused, the replaced and the
  erased one included, is freed exactly once, and the tree is empty at the end.
\<close>

theorem rbtree_demo_frees_all:
  assumes "rb_ok R"
  shows "fst (rbtree_demo R F) = (if \<forall>i < 13. F i = None then None else Some ENOMEM) \<and>
    held_any (rs_calls (snd (rbtree_demo R F))) [] = Some [] \<and> rs_tree (snd (rbtree_demo R F)) = Leaf"
  using rbtree_demo_passes [OF assms] .

theorem rbtree_demo_frees_all_witness:
  "rb_ok spine_ops \<and> fst (rbtree_demo spine_ops (\<lambda>i. if i = 7 then Some ENOMEM else None)) = Some ENOMEM \<and>
   held_any (rs_calls (snd (rbtree_demo spine_ops (\<lambda>i. if i = 7 then Some ENOMEM else None)))) [] = Some []"
proof -
  have "\<not> (\<forall>i < 13 :: nat. (if i = 7 then Some ENOMEM else None) = None)" by (auto intro!: exI [of _ 7])
  then show ?thesis using rbtree_demo_frees_all [OF spine_ops_ok, of "\<lambda>i. if i = 7 then Some ENOMEM else None"] spine_ops_ok by simp
qed

end
