(* ===== verification/Printing.thy ===== *)
theory Printing
  imports Jiq Ds_List Ds_Hash Ds_Rbtree
begin

section \<open>What the modules print\<close>

text \<open>
  Most dump functions of the modules under \<open>src/examples/ds\<close> put the entries of a container into a line of 128
  bytes with \<open>scnprintf\<close>, one after the other, and print it. The first two examples print too. A line given to
  \<open>pr_info\<close> is a string, what a function prints is the list of its lines. The line is the concatenation of
  its entries, cut to 127 characters (\<open>scn_line_take\<close>), so it is never overrun, and up to
  twenty-five keys of at most two digits are shown whole (\<open>key_line_whole\<close>).
\<close>

subsection \<open>A line of 128 bytes\<close>

definition LINE_SIZE :: nat where "LINE_SIZE = 128"

fun scn_line :: "string \<Rightarrow> string list \<Rightarrow> string" where
  "scn_line line [] = line"
| "scn_line line (e # es) = scn_line (line @ scnprintf (LINE_SIZE - length line) e) es"

definition pad_right :: "nat \<Rightarrow> string \<Rightarrow> string" where
  "pad_right w s = s @ replicate (w - length s) CHR '' ''"

definition print_line :: "nat \<Rightarrow> string \<Rightarrow> string \<Rightarrow> string list \<Rightarrow> string" where
  "print_line w none title es =
     (let line = scn_line [] es in pad_right w title @ (if length line \<noteq> 0 then line else none) @ [CHR 0x0A])"

definition key_entry :: "string \<Rightarrow> int \<Rightarrow> byte \<Rightarrow> string" where
  "key_entry sep key val = sep @ int_string key @ '':'' @ [char_of (unat val)]"

lemma scn_line_take: "length line \<le> 127 \<Longrightarrow> scn_line line es = take 127 (line @ concat es)"
proof (induction es arbitrary: line)
  case Nil
  then show ?case by simp
next
  case (Cons e es)
  let ?l = "line @ scnprintf (LINE_SIZE - length line) e"
  have l: "?l = take 127 (line @ e)" using Cons.prems by (simp add: scnprintf_def LINE_SIZE_def)
  then have "length ?l \<le> 127" by simp
  then have "scn_line line (e # es) = take 127 (?l @ concat es)" using Cons.IH by simp
  also have "\<dots> = take 127 (line @ e @ concat es)" unfolding l using Cons.prems by (simp add: min_def)
  finally show ?case by simp
qed

lemma scn_line_bound: "length (scn_line [] es) < LINE_SIZE"
  by (simp add: scn_line_take LINE_SIZE_def)

lemma concat_length_le: "\<forall>e \<in> set es. length e \<le> k \<Longrightarrow> length (concat es) \<le> k * length es"
  by (induction es) auto

lemma scn_line_whole:
  assumes "\<forall>e \<in> set es. length e \<le> k" and "k * length es \<le> 127"
  shows "scn_line [] es = concat es"
  using concat_length_le [OF assms(1)] assms(2) by (simp add: scn_line_take)

subsection \<open>ds/list\<close>

definition dump_all :: "litem list \<Rightarrow> string \<Rightarrow> string list" where
  "dump_all head title = [print_line 24 '' (empty)'' title (map (\<lambda>it. key_entry '' '' (int (li_key it)) (li_val it)) head)]"

definition dump_odd :: "litem list \<Rightarrow> string \<Rightarrow> string list" where
  "dump_odd head title = [print_line 24 '' (empty)'' title (map (\<lambda>it. key_entry '' '' (int (li_key it)) (li_val it)) head)]"

definition dump_all_reverse :: "litem list \<Rightarrow> string \<Rightarrow> string list" where
  "dump_all_reverse head title =
     [print_line 24 '' (empty)'' title (map (\<lambda>it. key_entry '' '' (int (li_key it)) (li_val it)) (rev head))]"

subsection \<open>ds/hlist\<close>

definition dump_bucket :: "'t ht_ops \<Rightarrow> 't hstate \<Rightarrow> nat \<Rightarrow> string" where
  "dump_bucket H s bkt =
     ''  ['' @ dec_string bkt @ '']'' @
     (let line = scn_line [] (map (\<lambda>it. key_entry '' -> '' (hi_key it) (hi_val it)) (ht_bucket H (hs_table s) bkt))
      in if length line \<noteq> 0 then line else []) @ '' -> NULL'' @ [CHR 0x0A]"

definition dump_table :: "'t ht_ops \<Rightarrow> 't hstate \<Rightarrow> string \<Rightarrow> string list" where
  "dump_table H s title = (''== '' @ title @ '' =='' @ [CHR 0x0A]) # map (dump_bucket H s) [0..<HASH_SIZE]"

subsection \<open>ds/llist\<close>

definition llist_dump :: "nat list \<Rightarrow> string \<Rightarrow> string list" where
  "llist_dump first title = [print_line 26 '' (empty)'' title (map (\<lambda>key. '' '' @ dec_string key) first)]"

subsection \<open>ds/rbtree\<close>

definition draw_line :: "nat \<times> rb_data \<times> bool \<Rightarrow> string" where
  "draw_line d = (case d of (indent, data, red) \<Rightarrow>
     ''  '' @ replicate indent CHR '' '' @ key_entry [] (rd_key data) (rd_val data) @ (if red then '' (red)'' else []) @ [CHR 0x0A])"

definition dump_tree :: "rtree \<Rightarrow> string \<Rightarrow> string list" where
  "dump_tree root title =
     [''== '' @ title @ '' =='' @ [CHR 0x0A],
      print_line 0 '' (empty)'' ''  in order:'' (map (\<lambda>data. key_entry '' '' (rd_key data) (rd_val data)) (rb_nodes root))] @
     map draw_line (draw_subtree root 0)"

definition show_search :: "rb_ops \<Rightarrow> rtree \<Rightarrow> int \<Rightarrow> string" where
  "show_search R root key =
     ''search '' @ int_string key @
     (case rb_search R root key of
        Some data \<Rightarrow> '': '' @ [CHR 0x27, char_of (unat (rd_val data)), CHR 0x27]
      | None \<Rightarrow> '': not found'') @ [CHR 0x0A]"

text \<open>Twenty-five keys of one or two digits fit on a line whole.\<close>

lemma key_entry_length: "0 \<le> key \<Longrightarrow> key < 100 \<Longrightarrow> length (key_entry '' '' key val) \<le> 5"
  using length_int_string [of key 2] by (simp add: key_entry_def)

lemma key_line_whole:
  assumes "length xs \<le> 25" and "\<forall>x \<in> set xs. 0 \<le> key x \<and> key x < 100"
  shows "scn_line [] (map (\<lambda>x. key_entry '' '' (key x) (val x)) xs) = concat (map (\<lambda>x. key_entry '' '' (key x) (val x)) xs)"
proof (rule scn_line_whole [where k = 5])
  show "\<forall>e \<in> set (map (\<lambda>x. key_entry '' '' (key x) (val x)) xs). length e \<le> 5" using assms(2) key_entry_length by auto
qed (use assms(1) in simp)

subsection \<open>01_hello_world and 02_module_parameters\<close>

definition hello_m_init :: "errno option \<times> string list" where
  "hello_m_init = (None, [''Hello, world!'' @ [CHR 0x0A]])"

definition hello_m_exit :: "string list" where
  "hello_m_exit = [''Bye, world!'' @ [CHR 0x0A]]"

text \<open>The loop counts in an \<open>int\<close> up to \<open>howmany\<close>, which may be negative; the counter never passes it.\<close>

function greet :: "string \<Rightarrow> int \<Rightarrow> int \<Rightarrow> string list" where
  "greet whom howmany i =
     (if i < howmany then (''#'' @ int_string i @ '' Hello, '' @ whom @ [CHR 0x0A]) # greet whom howmany (i + 1) else [])"
  by pat_completeness auto

termination greet
  by (relation "measure (\<lambda>(whom, howmany, i). nat (howmany - i))") auto

declare greet.simps [simp del]

definition params_m_init :: "string \<Rightarrow> int \<Rightarrow> errno option \<times> string list" where
  "params_m_init whom howmany = (None, greet whom howmany 0)"

lemma greet_lines:
  "greet whom howmany i = map (\<lambda>k. ''#'' @ int_string k @ '' Hello, '' @ whom @ [CHR 0x0A]) [i..howmany - 1]"
proof (induction whom howmany i rule: greet.induct)
  case (1 whom howmany i)
  show ?case
  proof (cases "i < howmany")
    case True
    then have "[i..howmany - 1] = i # [i + 1..howmany - 1]" by (simp add: upto_rec1)
    then show ?thesis using "1.IH" True by (subst greet.simps) simp
  qed (subst greet.simps, simp)
qed

lemma params_greetings: "length (snd (params_m_init whom howmany)) = nat howmany"
  by (simp add: params_m_init_def greet_lines)

end
