(* ===== verification/Jit.thy ===== *)
theory Jit
  imports Jiq
begin

section \<open>13_jit: delays and work that repeats\<close>

text \<open>
  \<open>src/examples/13_jit\<close>: files that show the time, wait in four ways, or let a timer or a work item
  append a line five times to a buffer of their own. What the kernel tells (jiffies, the time, the
  context a callback runs in) are arguments; a loop that reads jiffies takes the list of the values
  it reads. As in theory \<open>Jiq\<close> a buffer is the text it holds.
\<close>

definition JIT_ASYNC_LOOPS :: nat where "JIT_ASYNC_LOOPS = 5"
definition JIT_BUF_SIZE :: nat where "JIT_BUF_SIZE = 4096"
definition NSEC_PER_USEC :: nat where "NSEC_PER_USEC = 1000"

record jit_ctx =
  jc_jiffies :: "64 word"
  jc_softirq :: bool
  jc_pid :: int
  jc_cpu :: int
  jc_comm :: string

record timespec64 =
  tv_sec :: int
  tv_nsec :: nat

definition pad0 :: "nat \<Rightarrow> string \<Rightarrow> string" where
  "pad0 w t = replicate (w - length t) CHR ''0'' @ t"

definition jit_currentime :: "64 word \<Rightarrow> 64 word \<Rightarrow> timespec64 \<Rightarrow> timespec64 \<Rightarrow> string" where
  "jit_currentime j1 j2 tv1 tv2 =
     ''0x'' @ pad0 8 (hex_string (unat j1)) @ '' 0x'' @ pad0 16 (hex_string (unat j2)) @ '' '' @
     pad 10 (int_string (tv_sec tv1)) @ ''.'' @ pad0 6 (dec_string (tv_nsec tv1 div NSEC_PER_USEC)) @ [CHR 0x0A] @
     pad 41 (int_string (tv_sec tv2)) @ ''.'' @ pad0 9 (dec_string (tv_nsec tv2)) @ [CHR 0x0A]"

subsection \<open>Delays\<close>

text \<open>\<open>time_before\<close> compares jiffies by the sign of their difference, so that a wrap does not matter.\<close>

definition time_before :: "64 word \<Rightarrow> 64 word \<Rightarrow> bool" where
  "time_before a b \<longleftrightarrow> sint (a - b) < 0"

datatype jit_files = JIT_BUSY | JIT_SCHED | JIT_QUEUE | JIT_SCHEDTO

text \<open>Waiting over the readings of jiffies: what is left when it ends, \<open>None\<close> if it has not ended.\<close>

fun jit_busy :: "64 word \<Rightarrow> 64 word list \<Rightarrow> 64 word list option" where
  "jit_busy j1 [] = None"
| "jit_busy j1 (j # js) = (if time_before j j1 then jit_busy j1 js else Some js)"

text \<open>
  The two sleeping waits end by the kernel's timeout, or by a signal, neither of which the code
  looks at; \<open>None\<close> is the wait that has not ended.
\<close>

definition jit_fn :: "jit_files \<Rightarrow> 32 word \<Rightarrow> 64 word \<Rightarrow> 64 word list \<Rightarrow> string option" where
  "jit_fn kind delay j0 js =
     (let j1 = j0 + ucast delay;
          out = pad 9 (dec_string (unat j0)) @ '' '' @ pad 9 (dec_string (unat j1)) @ [CHR 0x0A]
      in case kind of
           JIT_BUSY \<Rightarrow> map_option (\<lambda>_. out) (jit_busy j1 js)
         | JIT_SCHED \<Rightarrow> map_option (\<lambda>_. out) (jit_busy j1 js)
         | JIT_QUEUE \<Rightarrow> Some out
         | JIT_SCHEDTO \<Rightarrow> Some out)"

subsection \<open>Timer and work item\<close>

record jit_data =
  jd_prevjiffies :: "64 word"
  jd_buf :: string
  jd_loops :: nat

definition jit_header :: string where
  "jit_header = ''     time  delta  softirq     pid  cpu  command'' @ [CHR 0x0A]"

definition jit_line :: "64 word \<Rightarrow> jit_ctx \<Rightarrow> string" where
  "jit_line prev c =
     pad 9 (dec_string (unat (jc_jiffies c))) @ ''  '' @ pad 3 (dec_string (unat (jc_jiffies c - prev))) @ ''  '' @
     pad 7 (int_string (if jc_softirq c then 1 else 0)) @ ''  '' @ pad 6 (int_string (jc_pid c)) @ ''  '' @
     pad 3 (int_string (jc_cpu c)) @ ''  '' @ jc_comm c @ [CHR 0x0A]"

definition jit_record :: "jit_ctx \<Rightarrow> jit_data \<Rightarrow> jit_data" where
  "jit_record c d =
     d\<lparr>jd_buf := jd_buf d @ scnprintf (JIT_BUF_SIZE - length (jd_buf d)) (jit_line (jd_prevjiffies d) c),
       jd_prevjiffies := jc_jiffies c\<rparr>"

datatype jit_res = JdData | JdBuf | JdCallback

definition jit_data_alloc :: "jit_res answers \<Rightarrow> jit_ctx \<Rightarrow> jit_data option \<times> jit_res call list" where
  "jit_data_alloc F c =
     if_err (F JdData) (\<lambda>_. (None, []))
     (if_err (F JdBuf) (\<lambda>_. (None, [Acq JdData, Rel JdData]))
       (Some (jit_record c \<lparr>jd_prevjiffies = jc_jiffies c, jd_buf = scnprintf JIT_BUF_SIZE jit_header, jd_loops = JIT_ASYNC_LOOPS\<rparr>),
        [Acq JdData, Acq JdBuf]))"

definition jit_data_free :: "jit_res call list" where
  "jit_data_free = [Rel JdBuf, Rel JdData]"

text \<open>The timer and the work function: the data and whether they armed or queued themselves again.\<close>

definition jit_timer_fn :: "jit_ctx \<Rightarrow> jit_data \<Rightarrow> bool \<times> jit_data" where
  "jit_timer_fn c d =
     (let d1 = jit_record c d
      in if jd_loops d1 > 1 then (True, d1\<lparr>jd_loops := jd_loops d1 - 1\<rparr>) else (False, d1\<lparr>jd_loops := 0\<rparr>))"

definition jit_bh_fn :: "jit_ctx \<Rightarrow> jit_data \<Rightarrow> bool \<times> jit_data" where
  "jit_bh_fn c d =
     (let d1 = jit_record c d
      in if jd_loops d1 > 1 then (True, d1\<lparr>jd_loops := jd_loops d1 - 1\<rparr>) else (False, d1\<lparr>jd_loops := 0\<rparr>))"

text \<open>The runs of a callback in the given contexts, as long as it arms itself.\<close>

fun jit_runs :: "(jit_ctx \<Rightarrow> jit_data \<Rightarrow> bool \<times> jit_data) \<Rightarrow> jit_ctx list \<Rightarrow> jit_data \<Rightarrow> jit_data" where
  "jit_runs fn [] d = d"
| "jit_runs fn (c # cs) d = (case fn c d of (again, d') \<Rightarrow> if again then jit_runs fn cs d' else d')"

text \<open>At the moment the wait ends the condition holds, or a signal ended it.\<close>

definition jit_wait_and_show :: "jit_data \<Rightarrow> string result" where
  "jit_wait_and_show d = (if jd_loops d = 0 then Inr (jd_buf d) else Inl ERESTARTSYS)"

text \<open>
  A read: \<open>cs\<close> are the contexts of the callbacks until the wait ends. \<open>JdCallback\<close> is the timer armed,
  or the work queued, until it is shut down.
\<close>

definition jit_timer :: "jit_res answers \<Rightarrow> jit_ctx \<Rightarrow> jit_ctx list \<Rightarrow> string result \<times> jit_res call list" where
  "jit_timer F c cs =
     (case jit_data_alloc F c of
        (None, calls) \<Rightarrow> (Inl ENOMEM, calls)
      | (Some d, calls) \<Rightarrow>
          (jit_wait_and_show (jit_runs jit_timer_fn cs d), calls @ [Acq JdCallback, Rel JdCallback] @ jit_data_free))"

definition jit_bh :: "jit_res answers \<Rightarrow> jit_ctx \<Rightarrow> jit_ctx list \<Rightarrow> string result \<times> jit_res call list" where
  "jit_bh F c cs =
     (case jit_data_alloc F c of
        (None, calls) \<Rightarrow> (Inl ENOMEM, calls)
      | (Some d, calls) \<Rightarrow>
          (jit_wait_and_show (jit_runs jit_bh_fn cs d), calls @ [Acq JdCallback, Rel JdCallback] @ jit_data_free))"

subsection \<open>The module\<close>

fun jit_remove_files :: "nat \<Rightarrow> nat call list" where
  "jit_remove_files 0 = []"
| "jit_remove_files (Suc count) = Rel count # jit_remove_files count"

fun jit_create_files :: "nat answers \<Rightarrow> nat \<Rightarrow> nat \<Rightarrow> errno option \<times> nat call list" where
  "jit_create_files F i 0 = (None, [])"
| "jit_create_files F i (Suc k) =
     if_err (F i) (\<lambda>_. (Some ENOMEM, jit_remove_files i))
       (case jit_create_files F (i + 1) k of (r, cs) \<Rightarrow> (r, Acq i # cs))"

definition jit_m_init :: "nat answers \<Rightarrow> errno option \<times> nat call list" where
  "jit_m_init F = jit_create_files F 0 8"

definition jit_m_exit :: "nat call list" where
  "jit_m_exit = jit_remove_files 8"

lemma jit_module_clean: "clean jit_m_init jit_m_exit"
  by (simp add: clean_def jit_m_init_def jit_m_exit_def if_err_def numeral_eq_Suc split: option.split)

subsection \<open>Delays end\<close>

text \<open>
  A delay counted in jiffies ends, across a wrap too: the readings that are before the end are
  those less than \<open>delay\<close> ticks after the start.
\<close>

lemma time_before_offset:
  assumes "unat delay < 2 ^ 63" and "n < 2 ^ 63"
  shows "time_before (j0 + of_nat n) (j0 + delay) \<longleftrightarrow> n < unat delay"
proof -
  have e: "j0 + of_nat n - (j0 + delay) = word_of_int (int n - int (unat delay))"
    by (simp add: algebra_simps of_nat_diff)
  have "sint (word_of_int (int n - int (unat delay)) :: 64 word) = int n - int (unat delay)"
    unfolding sint_sbintrunc'
  proof (rule signed_take_bit_int_eq_self)
    have len63: "LENGTH(64) - 1 = 63" by simp
    have "int m < 2 ^ 63" if "m < 2 ^ 63" for m using that by simp
    then have "int n < 2 ^ 63" "int (unat delay) < 2 ^ 63" using assms by blast+
    then show "- (2 ^ (LENGTH(64) - 1)) \<le> int n - int (unat delay)" "int n - int (unat delay) < 2 ^ (LENGTH(64) - 1)"
      unfolding len63 by linarith+
  qed
  then have "sint (j0 + of_nat n - (j0 + delay)) = int n - int (unat delay)" unfolding e .
  then show ?thesis unfolding time_before_def by linarith
qed

lemma unat_delay: "unat (ucast (delay :: 32 word) :: 64 word) = unat delay"
proof -
  have "unat delay < 2 ^ 32" using unsigned_less [of delay] by simp
  then have "unat delay < 2 ^ 64" by (rule order.strict_trans) simp
  then show ?thesis by (simp add: unsigned_ucast_eq take_bit_nat_eq_self)
qed

lemma unat_delay_less: "unat (ucast (delay :: 32 word) :: 64 word) < 2 ^ 63"
proof -
  have "unat delay < 2 ^ 32" using unsigned_less [of delay] by simp
  then show ?thesis unfolding unat_delay by (rule order.strict_trans) simp
qed

text \<open>
  The readings of jiffies as they are: \<open>n\<close> ticks after the start each, never going back. The loop
  ends at the first reading at or after the delay, and not before it.
\<close>

lemma jit_busy_until:
  assumes "\<forall>n \<in> set ns. n < 2 ^ 63"
  shows "jit_busy (j0 + ucast (delay :: 32 word)) (map (\<lambda>n. j0 + of_nat n) ns) =
    (case dropWhile (\<lambda>n. n < unat delay) ns of [] \<Rightarrow> None | n # rest \<Rightarrow> Some (map (\<lambda>n. j0 + of_nat n) rest))"
  using assms
proof (induction ns)
  case (Cons n ns)
  then show ?case using time_before_offset [OF unat_delay_less, of n j0 delay] by (simp add: unat_delay)
qed simp

lemma jit_fn_waits:
  assumes "\<forall>n \<in> set ns. n < 2 ^ 63" and "kind = JIT_BUSY \<or> kind = JIT_SCHED"
  shows "jit_fn kind delay j0 (map (\<lambda>n. j0 + of_nat n) ns) \<noteq> None \<longleftrightarrow> (\<exists>n \<in> set ns. unat delay \<le> n)"
proof -
  have "dropWhile (\<lambda>n. n < unat delay) ns = [] \<longleftrightarrow> (\<forall>n \<in> set ns. n < unat delay)" by simp
  then have "(\<exists>n \<in> set ns. unat delay \<le> n) \<longleftrightarrow> dropWhile (\<lambda>n. n < unat delay) ns \<noteq> []" unfolding not_less [symmetric] by blast
  then show ?thesis
    using assms(2) by (auto simp: jit_fn_def Let_def jit_busy_until [OF assms(1)] simp del: dropWhile_eq_Nil_conv split: list.splits)
qed

subsection \<open>What a reader of the timer or the work item is shown\<close>

text \<open>What the kernel promises of a context: numbers of their range, a name of at most 15 characters.\<close>

definition jit_ctx_ok :: "jit_ctx \<Rightarrow> bool" where
  "jit_ctx_ok c \<longleftrightarrow> 0 \<le> jc_pid c \<and> jc_pid c < 2 ^ 31 \<and> 0 \<le> jc_cpu c \<and> jc_cpu c < 2 ^ 31 \<and> length (jc_comm c) \<le> 15"

lemma dec64_length: "length (dec_string (unat (w :: 64 word))) \<le> 20"
proof (rule length_dec_string)
  show "unat w < 10 ^ 20" using unsigned_less [of w] by (rule order.strict_trans2) simp
qed simp

lemma jit_line_length:
  assumes "jit_ctx_ok c"
  shows "length (jit_line prev c) < 100"
proof -
  have "jc_pid c < 10 ^ 10" "jc_cpu c < 10 ^ 10" using assms by (simp_all add: jit_ctx_ok_def)
  then have "length (int_string (jc_pid c)) \<le> 10" "length (int_string (jc_cpu c)) \<le> 10"
    using assms length_int_string by (simp_all add: jit_ctx_ok_def)
  moreover have "length (int_string (if jc_softirq c then 1 else 0)) \<le> 7"
    using length_int_string [of "if jc_softirq c then 1 else 0" 7] by simp
  moreover have "length (jc_comm c) \<le> 15" using assms by (simp add: jit_ctx_ok_def)
  ultimately show ?thesis
    using dec64_length [of "jc_jiffies c"] dec64_length [of "jc_jiffies c - prev"]
    by (simp add: jit_line_def)
qed

lemma jit_record_fits:
  assumes "jit_ctx_ok c" and "length (jd_buf d) + 100 \<le> JIT_BUF_SIZE"
  shows "jit_record c d = d\<lparr>jd_buf := jd_buf d @ jit_line (jd_prevjiffies d) c, jd_prevjiffies := jc_jiffies c\<rparr>"
proof -
  have "length (jit_line (jd_prevjiffies d) c) \<le> JIT_BUF_SIZE - length (jd_buf d) - 1"
    using jit_line_length [OF assms(1), of "jd_prevjiffies d"] assms(2) by linarith
  then show ?thesis by (simp add: jit_record_def scnprintf_def)
qed

text \<open>The lines for a sequence of contexts: each with the time passed since the one before it.\<close>

fun jit_lines :: "64 word \<Rightarrow> jit_ctx list \<Rightarrow> string" where
  "jit_lines prev [] = []"
| "jit_lines prev (c # cs) = jit_line prev c @ jit_lines (jc_jiffies c) cs"

text \<open>
  A callback runs as often as there are rounds left, no more, and appends a line each time; runs
  that have not happened yet leave rounds over.
\<close>

lemma jit_runs_lines:
  assumes "fn = jit_timer_fn \<or> fn = jit_bh_fn" and "0 < jd_loops d"
    and "\<forall>c \<in> set cs. jit_ctx_ok c" and "length (jd_buf d) + 100 * jd_loops d \<le> JIT_BUF_SIZE"
  shows "jd_buf (jit_runs fn cs d) = jd_buf d @ jit_lines (jd_prevjiffies d) (take (jd_loops d) cs)
    \<and> jd_loops (jit_runs fn cs d) = jd_loops d - length cs"
  using assms(2-)
proof (induction cs arbitrary: d)
  case (Cons c cs)
  have fn: "fn c d = (let d1 = jit_record c d in if jd_loops d1 > 1 then (True, d1\<lparr>jd_loops := jd_loops d1 - 1\<rparr>) else (False, d1\<lparr>jd_loops := 0\<rparr>))"
    using assms(1) by (auto simp: jit_timer_fn_def jit_bh_fn_def)
  have c: "jit_ctx_ok c" using Cons.prems(2) by simp
  have "100 * jd_loops d \<ge> 100" using Cons.prems(1) by simp
  then have r: "jit_record c d = d\<lparr>jd_buf := jd_buf d @ jit_line (jd_prevjiffies d) c, jd_prevjiffies := jc_jiffies c\<rparr>"
    using Cons.prems(3) by (intro jit_record_fits [OF c]) linarith
  show ?case
  proof (cases "jd_loops d > 1")
    case True
    let ?d = "(jit_record c d)\<lparr>jd_loops := jd_loops d - 1\<rparr>"
    have "100 * jd_loops d = 100 + 100 * (jd_loops d - 1)" using True by simp
    then have "length (jd_buf ?d) + 100 * jd_loops ?d \<le> JIT_BUF_SIZE"
      using Cons.prems(3) jit_line_length [OF c, of "jd_prevjiffies d"] by (simp add: r)
    then have "jd_buf (jit_runs fn cs ?d) = jd_buf ?d @ jit_lines (jd_prevjiffies ?d) (take (jd_loops ?d) cs)
        \<and> jd_loops (jit_runs fn cs ?d) = jd_loops ?d - length cs"
      using Cons.IH [of ?d] Cons.prems(2) True by simp
    then show ?thesis using True by (simp add: fn r Let_def take_Cons')
  next
    case False
    then have "jd_loops d = 1" using Cons.prems(1) by linarith
    then show ?thesis by (simp add: fn r Let_def)
  qed
qed simp

text \<open>
  A reader, of the timer or the work item: without memory it gets -ENOMEM; when the callback has run
  five times it is shown the header, the line of its own context and five more, whole; when a signal
  comes first it gets -ERESTARTSYS. On every path the callback is stopped before its data is freed,
  and everything is freed.
\<close>

definition jit_read_ok :: "(jit_res answers \<Rightarrow> jit_ctx \<Rightarrow> jit_ctx list \<Rightarrow> string result \<times> jit_res call list) \<Rightarrow> bool" where
  "jit_read_ok rd \<longleftrightarrow> (\<forall>F c cs. jit_ctx_ok c \<longrightarrow> (\<forall>c \<in> set cs. jit_ctx_ok c) \<longrightarrow>
     held (snd (rd F c cs)) [] = Some [] \<and>
     fst (rd F c cs) =
       (if F JdData \<noteq> None \<or> F JdBuf \<noteq> None then Inl ENOMEM
        else if length cs < JIT_ASYNC_LOOPS then Inl ERESTARTSYS
        else Inr (jit_header @ jit_lines (jc_jiffies c) (c # take JIT_ASYNC_LOOPS cs))))"

lemma jit_header_length: "length jit_header = 48"
  by (simp add: jit_header_def)

lemma jit_data_alloc_buf:
  assumes "jit_ctx_ok c" and "F JdData = None" and "F JdBuf = None"
  shows "jit_data_alloc F c =
    (Some \<lparr>jd_prevjiffies = jc_jiffies c, jd_buf = jit_header @ jit_line (jc_jiffies c) c, jd_loops = JIT_ASYNC_LOOPS\<rparr>, [Acq JdData, Acq JdBuf])"
  using assms jit_record_fits [OF assms(1)]
  by (simp add: jit_data_alloc_def scnprintf_def jit_header_length JIT_BUF_SIZE_def)

lemma jit_reads:
  "jit_read_ok jit_timer" "jit_read_ok jit_bh"
proof -
  have "fst (rd F c cs) =
       (if F JdData \<noteq> None \<or> F JdBuf \<noteq> None then Inl ENOMEM
        else if length cs < JIT_ASYNC_LOOPS then Inl ERESTARTSYS
        else Inr (jit_header @ jit_lines (jc_jiffies c) (c # take JIT_ASYNC_LOOPS cs)))"
    if rd: "(rd, fn) = (jit_timer, jit_timer_fn) \<or> (rd, fn) = (jit_bh, jit_bh_fn)"
      and c: "jit_ctx_ok c" and cs: "\<forall>c \<in> set cs. jit_ctx_ok c" for rd fn F c cs
  proof (cases "F JdData \<noteq> None \<or> F JdBuf \<noteq> None")
    case True
    then show ?thesis using rd by (auto simp: jit_timer_def jit_bh_def jit_data_alloc_def if_err_def split: option.split)
  next
    case False
    let ?d = "\<lparr>jd_prevjiffies = jc_jiffies c, jd_buf = jit_header @ jit_line (jc_jiffies c) c, jd_loops = JIT_ASYNC_LOOPS\<rparr>"
    have "length (jd_buf ?d) + 100 * jd_loops ?d \<le> JIT_BUF_SIZE"
      using jit_line_length [OF c, of "jc_jiffies c"] by (simp add: jit_header_length JIT_BUF_SIZE_def JIT_ASYNC_LOOPS_def)
    then have "jd_buf (jit_runs fn cs ?d) = jd_buf ?d @ jit_lines (jd_prevjiffies ?d) (take (jd_loops ?d) cs)
        \<and> jd_loops (jit_runs fn cs ?d) = jd_loops ?d - length cs"
      using rd cs by (intro jit_runs_lines) (auto simp: JIT_ASYNC_LOOPS_def)
    then show ?thesis
      using rd False jit_data_alloc_buf [OF c, of F]
      by (auto simp: jit_timer_def jit_bh_def jit_wait_and_show_def JIT_ASYNC_LOOPS_def)
  qed
  moreover have "held (snd (rd F c cs)) [] = Some []" if "rd = jit_timer \<or> rd = jit_bh" for rd F c cs
    using that by (auto simp: jit_timer_def jit_bh_def jit_data_alloc_def jit_data_free_def if_err_def split: option.split)
  ultimately show "jit_read_ok jit_timer" "jit_read_ok jit_bh" unfolding jit_read_ok_def by blast+
qed

subsection \<open>The time\<close>

text \<open>The fractions have all their digits, leading zeros included.\<close>

lemma jit_fractions:
  assumes "n < 10 ^ 9"
  shows "length (pad0 9 (dec_string n)) = 9" and "length (pad0 6 (dec_string (n div NSEC_PER_USEC))) = 6"
proof -
  have "length (dec_string n) \<le> 9" using length_dec_string [OF assms] by simp
  then show "length (pad0 9 (dec_string n)) = 9" by (simp add: pad0_def)
  have "n div NSEC_PER_USEC < 10 ^ 6" using assms by (simp add: NSEC_PER_USEC_def less_mult_imp_div_less)
  then have "length (dec_string (n div NSEC_PER_USEC)) \<le> 6" using length_dec_string [of _ 6] by simp
  then show "length (pad0 6 (dec_string (n div NSEC_PER_USEC))) = 6" by (simp add: pad0_def)
qed

end
