(* ===== verification/Proc_Fs.thy ===== *)
theory Proc_Fs
  imports Lifecycle
begin

section \<open>04_proc_fs_basic and 05_proc_fs_iterator: files under /proc\<close>

text \<open>
  \<open>src/examples/04_proc_fs_basic\<close> prints a text a number of times, the number being the data the
  file was created with; \<open>src/examples/05_proc_fs_iterator\<close> is an iterator over seven texts, driven by
  the kernel's \<open>seq_file\<close>: a read starts at a position, shows one element after the other, and
  remembers the position where it stopped.
\<close>

subsection \<open>A text, several times\<close>

definition PRINT_NR :: "64 word" where "PRINT_NR = 3"

definition proc_text :: string where
  "proc_text = ''Hello World!'' @ [CHR 0x0A]"

definition proc_show :: "64 word \<Rightarrow> string" where
  "proc_show priv = (let c = (if priv \<noteq> 0 then sint priv else 1) in concat (map (\<lambda>i. proc_text) [0..<nat c]))"

datatype proc_res = PfDir | PfFile | PfMul

definition pf_err_remove_dir :: "proc_res call list" where [life_defs]: "pf_err_remove_dir = [Rel PfDir]"
definition pf_err_remove_file :: "proc_res call list" where [life_defs]: "pf_err_remove_file = Rel PfFile # pf_err_remove_dir"

definition proc_m_init :: "proc_res answers \<Rightarrow> errno option \<times> proc_res call list" where
  "proc_m_init F =
     if_err (F PfDir) (\<lambda>_. (Some ENOMEM, []))
     (if_err (F PfFile) (\<lambda>_. (Some ENOMEM, Acq PfDir # pf_err_remove_dir))
     (if_err (F PfMul) (\<lambda>_. (Some ENOMEM, [Acq PfDir, Acq PfFile] @ pf_err_remove_file))
        (None, [Acq PfDir, Acq PfFile, Acq PfMul])))"

definition proc_m_exit :: "proc_res call list" where
  "proc_m_exit = [Rel PfMul, Rel PfFile, Rel PfDir]"

text \<open>The file created without data prints the text once, the other one \<open>PRINT_NR\<close> times.\<close>

lemma proc_show_files:
  "proc_show 0 = proc_text"
  "proc_show PRINT_NR = proc_text @ proc_text @ proc_text"
  by (simp_all add: proc_show_def PRINT_NR_def upt_rec)

lemma proc_show_times: "priv \<noteq> 0 \<Longrightarrow> length (proc_show priv) = 13 * nat (sint priv)"
  by (simp add: proc_show_def proc_text_def length_concat sum_list_triv o_def)

lemma proc_module_clean: "clean proc_m_init proc_m_exit"
  by (simp add: clean_def proc_m_init_def proc_m_exit_def life_defs if_err_def split: option.split)

subsection \<open>An iterator\<close>

definition pfi_data :: "string list" where
  "pfi_data =
     [''Day 1: God creates the heavens and the earth.'',
      ''Day 2: God creates the sky.'',
      ''Day 3: God creates dry land and all plant life both large and small.'',
      ''Day 4: God creates all the stars and heavenly bodies.'',
      ''Day 5: God creates all life that lives in the water.'',
      ''Day 6: God creates all the creatures that live on dry land.'',
      ''Day 7: God rests.'']"

text \<open>
  The position is a signed \<open>loff_t\<close>, but its comparison with the size of the array is unsigned. An
  element is given by its index; where it is in memory, which \<open>%p\<close> prints, is a parameter.
\<close>

definition data_at :: "64 word \<Rightarrow> nat option" where
  "data_at pos = (if pos \<ge> of_nat (length pfi_data) then None else Some (unat pos))"

definition pfi_seq_start :: "64 word \<Rightarrow> nat option" where
  "pfi_seq_start pos = data_at pos"

definition pfi_seq_next :: "64 word \<Rightarrow> nat option \<times> 64 word" where
  "pfi_seq_next pos = (data_at (pos + 1), pos + 1)"

definition pfi_seq_show :: "(nat \<Rightarrow> string) \<Rightarrow> nat \<Rightarrow> string" where
  "pfi_seq_show ptr v = ptr v @ '': '' @ (pfi_data ! v) @ [CHR 0x0A]"

definition pfi_m_init :: "unit answers \<Rightarrow> errno option \<times> unit call list" where
  "pfi_m_init F = if_err (F ()) (\<lambda>_. (Some ENOMEM, [])) (None, [Acq ()])"

definition pfi_m_exit :: "unit call list" where
  "pfi_m_exit = [Rel ()]"

lemma pfi_module_clean: "clean pfi_m_init pfi_m_exit"
  by (simp add: clean_def pfi_m_init_def pfi_m_exit_def if_err_def split: option.split)

text \<open>
  The protocol of \<open>seq_file\<close>: a read that has room for \<open>k\<close> elements shows at most that many; it gives
  what it showed and the position for the next read.
\<close>

fun seq_walk :: "(nat \<Rightarrow> string) \<Rightarrow> nat \<Rightarrow> nat option \<Rightarrow> 64 word \<Rightarrow> string list \<times> 64 word" where
  "seq_walk ptr k None pos = ([], pos)"
| "seq_walk ptr 0 (Some v) pos = ([], pos)"
| "seq_walk ptr (Suc k) (Some v) pos =
     (case pfi_seq_next pos of (v', pos') \<Rightarrow> case seq_walk ptr k v' pos' of (ls, p) \<Rightarrow> (pfi_seq_show ptr v # ls, p))"

fun seq_reads :: "(nat \<Rightarrow> string) \<Rightarrow> nat list \<Rightarrow> 64 word \<Rightarrow> string list" where
  "seq_reads ptr [] pos = []"
| "seq_reads ptr (k # ks) pos = (case seq_walk ptr k (pfi_seq_start pos) pos of (ls, p) \<Rightarrow> ls @ seq_reads ptr ks p)"

lemma pfi_data_length: "length pfi_data = 7"
  by (simp add: pfi_data_def)

lemma data_at_of_nat: "n < 2 ^ 64 \<Longrightarrow> data_at (of_nat n) = (if n < 7 then Some n else None)"
  by (simp add: data_at_def pfi_data_length word_le_nat_alt unsigned_of_nat take_bit_nat_eq_self)

lemma seq_walk_lines:
  assumes "n \<le> 7"
  shows "seq_walk ptr k (data_at (of_nat n)) (of_nat n) =
    (map (pfi_seq_show ptr) (take k [n..<7]), of_nat (min 7 (n + k)))"
  using assms
proof (induction k arbitrary: n)
  case 0
  then show ?case by (cases "data_at (of_nat n)") auto
next
  case (Suc k)
  show ?case
  proof (cases "n < 7")
    case True
    have "seq_walk ptr k (data_at (of_nat (Suc n))) (of_nat (Suc n)) =
        (map (pfi_seq_show ptr) (take k [Suc n..<7]), of_nat (min 7 (Suc n + k)))"
      using Suc.IH [of "Suc n"] True by linarith
    then show ?thesis using True by (simp add: data_at_of_nat pfi_seq_next_def upt_rec [of n] add.commute)
  next
    case False
    then have "n = 7" using Suc.prems by simp
    then show ?thesis using data_at_of_nat [of 7] by simp
  qed
qed

text \<open>
  However small the reads are, one after the other they show every element once and in order; enough
  room shows all seven, and a position at or behind the end, or a negative one, shows none.
\<close>

lemma seq_reads_lines:
  assumes "n \<le> 7"
  shows "seq_reads ptr ks (of_nat n) = map (pfi_seq_show ptr) (take (sum_list ks) [n..<7])"
  using assms
proof (induction ks arbitrary: n)
  case (Cons k ks)
  have "take (k + sum_list ks) [n..<7] = take k [n..<7] @ take (sum_list ks) (drop k [n..<7])" by (rule take_add)
  moreover have "drop k [n..<7] = [min 7 (n + k)..<7]" using Cons.prems by (simp add: drop_upt min_def)
  ultimately show ?case
    using Cons.IH [of "min 7 (n + k)"] seq_walk_lines [OF Cons.prems, of ptr k] by (simp add: pfi_seq_start_def)
qed simp

lemma seq_reads_all: "7 \<le> sum_list ks \<Longrightarrow> seq_reads ptr ks 0 = map (pfi_seq_show ptr) [0..<length pfi_data]"
  using seq_reads_lines [of 0 ptr ks] by (simp add: pfi_data_length)

lemma seq_reads_beyond: "7 \<le> unat pos \<Longrightarrow> seq_reads ptr ks pos = []"
  by (induction ks) (simp_all add: pfi_seq_start_def data_at_def pfi_data_length word_le_nat_alt)

end
