(* ===== verification/Ds_Concurrent.thy ===== *)
theory Ds_Concurrent
  imports Alloc
begin

section \<open>ds/llist and ds/bitmap: sharing without a lock\<close>

text \<open>
  Two of the examples on the kernel's data structures share one between threads. In
  \<open>src/examples/ds/llist\<close> two producers push items on a list with single atomic operations and a
  consumer takes the whole list at a time; in \<open>src/examples/ds/bitmap\<close> a slot is found and then claimed
  atomically. The structures are the kernel's: \<open>llist_add\<close> pushes at the front and tells whether the
  list was empty, \<open>llist_del_all\<close> takes everything; both are one atomic step each, as are the
  operations on atomic variables and single bits.
\<close>

subsection \<open>The lock-less list\<close>

definition PRODUCERS :: nat where "PRODUCERS = 2"
definition PER_PRODUCER :: nat where "PER_PRODUCER = 10000"

text \<open>
  Where a producer is: \<open>PLoop\<close> before an allocation, \<open>PAdd\<close> with an item in its hands, \<open>PInc\<close> about to
  count that it found the list empty, \<open>PDec\<close> out of the loop; \<open>PNew\<close> is a thread not created yet,
  \<open>PAbsent\<close> one that could not be. \<open>pr_i\<close> counts the items it has added. An item is named by its
  producer and its key.
\<close>

datatype prod_pc = PNew | PAbsent | PLoop | PAdd | PInc | PDec "errno option" | PDone "errno option"

record producer =
  pr_pc :: prod_pc
  pr_i :: nat

type_synonym item = "nat \<times> nat"

datatype llist_ret = Passed | Failed errno | CheckFailed

datatype cons_pc =
    CCreate nat
  | CTest
  | CTake bool
  | CFree bool "item list"
  | CLoop bool
  | CStop nat
  | CDone llist_ret

record llist_sys =
  ls_inbox :: "item list"
  ls_left :: nat
  ls_was_empty :: nat
  ls_prod :: "nat \<Rightarrow> producer"
  ls_pc :: cons_pc
  ls_err :: "errno option"
  ls_got :: nat
  ls_batches :: nat
  ls_freed :: "item list"

definition set_prod :: "nat \<Rightarrow> prod_pc \<Rightarrow> nat \<Rightarrow> llist_sys \<Rightarrow> llist_sys" where
  "set_prod p pc i s = s\<lparr>ls_prod := (ls_prod s)(p := \<lparr>pr_pc = pc, pr_i = i\<rparr>)\<rparr>"

definition free_batch :: "item list \<Rightarrow> llist_sys \<Rightarrow> nat \<times> llist_sys" where
  "free_batch batch s = (length batch, s\<lparr>ls_freed := ls_freed s @ batch\<rparr>)"

definition llist_verdict :: "llist_sys \<Rightarrow> llist_ret" where
  "llist_verdict s =
     (case ls_err s of Some e \<Rightarrow> Failed e | None \<Rightarrow> if ls_got s \<noteq> PRODUCERS * PER_PRODUCER then CheckFailed else Passed)"

inductive llist_step :: "llist_sys \<Rightarrow> llist_sys \<Rightarrow> bool" where
  p_alloc: "pr_pc (ls_prod s p) = PLoop \<Longrightarrow> pr_i (ls_prod s p) < PER_PRODUCER \<Longrightarrow>
    llist_step s (set_prod p PAdd (pr_i (ls_prod s p)) s)"
| p_nomem: "pr_pc (ls_prod s p) = PLoop \<Longrightarrow> pr_i (ls_prod s p) < PER_PRODUCER \<Longrightarrow>
    llist_step s (set_prod p (PDec (Some ENOMEM)) (pr_i (ls_prod s p)) s)"
| p_end: "pr_pc (ls_prod s p) = PLoop \<Longrightarrow> \<not> pr_i (ls_prod s p) < PER_PRODUCER \<Longrightarrow>
    llist_step s (set_prod p (PDec None) (pr_i (ls_prod s p)) s)"
| p_add: "pr_pc (ls_prod s p) = PAdd \<Longrightarrow> i = pr_i (ls_prod s p) \<Longrightarrow>
    llist_step s (set_prod p (if ls_inbox s = [] then PInc else PLoop) (i + 1) (s\<lparr>ls_inbox := (p, i) # ls_inbox s\<rparr>))"
| p_inc: "pr_pc (ls_prod s p) = PInc \<Longrightarrow>
    llist_step s (set_prod p PLoop (pr_i (ls_prod s p)) (s\<lparr>ls_was_empty := ls_was_empty s + 1\<rparr>))"
| p_dec: "pr_pc (ls_prod s p) = PDec e \<Longrightarrow>
    llist_step s (set_prod p (PDone e) (pr_i (ls_prod s p)) (s\<lparr>ls_left := ls_left s - 1\<rparr>))"
| c_create: "ls_pc s = CCreate k \<Longrightarrow> k < PRODUCERS \<Longrightarrow>
    llist_step s (set_prod k PLoop 0 (s\<lparr>ls_pc := CCreate (k + 1)\<rparr>))"
| c_create_fails: "ls_pc s = CCreate k \<Longrightarrow> k < PRODUCERS \<Longrightarrow>
    llist_step s (set_prod k PAbsent 0 (s\<lparr>ls_pc := CCreate (k + 1), ls_err := Some e, ls_left := ls_left s - 1\<rparr>))"
| c_created: "ls_pc s = CCreate k \<Longrightarrow> \<not> k < PRODUCERS \<Longrightarrow> llist_step s (s\<lparr>ls_pc := CTest\<rparr>)"
| c_test: "ls_pc s = CTest \<Longrightarrow> llist_step s (s\<lparr>ls_pc := CTake (ls_left s = 0)\<rparr>)"
| c_take: "ls_pc s = CTake done \<Longrightarrow>
    llist_step s (s\<lparr>ls_inbox := [], ls_pc := (if ls_inbox s = [] then CLoop done else CFree done (ls_inbox s))\<rparr>)"
| c_free: "ls_pc s = CFree done batch \<Longrightarrow> free_batch batch s = (n, s') \<Longrightarrow>
    llist_step s (s'\<lparr>ls_got := ls_got s + n, ls_batches := ls_batches s + 1, ls_pc := CLoop done\<rparr>)"
| c_loop: "ls_pc s = CLoop done \<Longrightarrow>
    llist_step s (s\<lparr>ls_pc := (if \<not> done \<or> ls_inbox s \<noteq> [] then CTest else CStop 0)\<rparr>)"
| c_stop: "ls_pc s = CStop k \<Longrightarrow> k < PRODUCERS \<Longrightarrow> pr_pc (ls_prod s k) = PDone ret \<Longrightarrow>
    llist_step s (s\<lparr>ls_pc := CStop (k + 1), ls_err := (if ls_err s = None then ret else ls_err s)\<rparr>)"
| c_skip: "ls_pc s = CStop k \<Longrightarrow> k < PRODUCERS \<Longrightarrow> pr_pc (ls_prod s k) = PAbsent \<Longrightarrow>
    llist_step s (s\<lparr>ls_pc := CStop (k + 1)\<rparr>)"
| c_end: "ls_pc s = CStop k \<Longrightarrow> \<not> k < PRODUCERS \<Longrightarrow> llist_step s (s\<lparr>ls_pc := CDone (llist_verdict s)\<rparr>)"

definition llist_start :: llist_sys where
  "llist_start = \<lparr>ls_inbox = [], ls_left = PRODUCERS, ls_was_empty = 0, ls_prod = (\<lambda>p. \<lparr>pr_pc = PNew, pr_i = 0\<rparr>),
     ls_pc = CCreate 0, ls_err = None, ls_got = 0, ls_batches = 0, ls_freed = []\<rparr>"

text \<open>
  Before the threads, five items are added and taken again by the same thread. \<open>llist_fill\<close> is the
  loop: it gives what is on the list, and the calls made.
\<close>

fun llist_fill :: "nat answers \<Rightarrow> nat \<Rightarrow> nat \<Rightarrow> nat list \<Rightarrow> nat call list \<Rightarrow> errno option \<times> nat list \<times> nat call list" where
  "llist_fill F i 0 inbox cs = (None, inbox, cs)"
| "llist_fill F i (Suc k) inbox cs =
     if_err (F i) (\<lambda>_. (Some ENOMEM, inbox, cs)) (llist_fill F (i + 1) k (i # inbox) (cs @ [Acq i]))"

text \<open>What was taken, in the order of the batch reversed, and all calls.\<close>

definition llist_five :: "nat answers \<Rightarrow> nat list result \<times> nat call list" where
  "llist_five F =
     (case llist_fill F 1 5 [] [] of
        (Some e, inbox, cs) \<Rightarrow> (Inl e, cs @ map Rel inbox)
      | (None, inbox, cs) \<Rightarrow> let batch = rev inbox in (Inr batch, cs @ map Rel batch))"

subsection \<open>No item is lost\<close>

definition active :: "producer \<Rightarrow> bool" where
  "active q \<longleftrightarrow> (\<forall>e. pr_pc q \<noteq> PDone e) \<and> pr_pc q \<noteq> PAbsent"

definition added :: "llist_sys \<Rightarrow> item multiset" where
  "added s = (\<Sum>p < PRODUCERS. mset (map (Pair p) [0..<pr_i (ls_prod s p)]))"

definition in_hand :: "llist_sys \<Rightarrow> item list" where
  "in_hand s = (case ls_pc s of CFree done batch \<Rightarrow> batch | _ \<Rightarrow> [])"

definition prod_ok :: "producer \<Rightarrow> bool" where
  "prod_ok q \<longleftrightarrow> pr_i q \<le> PER_PRODUCER \<and> (pr_pc q = PNew \<longrightarrow> pr_i q = 0) \<and> (pr_pc q = PAdd \<longrightarrow> pr_i q < PER_PRODUCER) \<and>
     (pr_pc q = PDec None \<or> pr_pc q = PDone None \<longrightarrow> pr_i q = PER_PRODUCER)"

definition created :: "cons_pc \<Rightarrow> nat" where
  "created pc = (case pc of CCreate k \<Rightarrow> k | _ \<Rightarrow> PRODUCERS)"

definition finished :: "llist_sys \<Rightarrow> bool" where
  "finished s \<longleftrightarrow> ls_left s = 0 \<and> ls_inbox s = []"

definition llist_inv :: "llist_sys \<Rightarrow> bool" where
  "llist_inv s \<longleftrightarrow>
     (\<forall>p. prod_ok (ls_prod s p) \<and> (pr_pc (ls_prod s p) = PNew \<longleftrightarrow> created (ls_pc s) \<le> p) \<and>
        (pr_pc (ls_prod s p) = PAbsent \<longrightarrow> ls_err s \<noteq> None)) \<and>
     created (ls_pc s) \<le> PRODUCERS \<and>
     ls_left s = card {p. p < PRODUCERS \<and> active (ls_prod s p)} \<and>
     mset (ls_freed s) + mset (in_hand s) + mset (ls_inbox s) = added s \<and>
     ls_got s = length (ls_freed s) \<and>
     (case ls_pc s of CTake done \<Rightarrow> done \<longrightarrow> ls_left s = 0
      | CFree done batch \<Rightarrow> done \<longrightarrow> finished s
      | CLoop done \<Rightarrow> done \<longrightarrow> finished s
      | CStop k \<Rightarrow> finished s \<and> k \<le> PRODUCERS \<and> (ls_err s = None \<longrightarrow> (\<forall>p < k. pr_pc (ls_prod s p) = PDone None))
      | CDone r \<Rightarrow> finished s \<and> r = llist_verdict s \<and> (ls_err s = None \<longrightarrow> (\<forall>p < PRODUCERS. pr_pc (ls_prod s p) = PDone None))
      | _ \<Rightarrow> True)"

lemma set_prod_fields [simp]:
  "ls_inbox (set_prod p pc i s) = ls_inbox s" "ls_left (set_prod p pc i s) = ls_left s" "ls_pc (set_prod p pc i s) = ls_pc s"
  "ls_err (set_prod p pc i s) = ls_err s" "ls_got (set_prod p pc i s) = ls_got s" "ls_freed (set_prod p pc i s) = ls_freed s"
  "ls_prod (set_prod p pc i s) = (ls_prod s)(p := \<lparr>pr_pc = pc, pr_i = i\<rparr>)"
  by (simp_all add: set_prod_def)

lemma added_cong: "(\<And>p. pr_i (ls_prod t p) = pr_i (ls_prod s p)) \<Longrightarrow> added t = added s"
  by (simp add: added_def)

lemma added_one:
  assumes "p < PRODUCERS" and "ls_prod t = (ls_prod s)(p := \<lparr>pr_pc = pc, pr_i = pr_i (ls_prod s p) + 1\<rparr>)"
  shows "added t = add_mset (p, pr_i (ls_prod s p)) (added s)"
proof -
  have "added t = (\<Sum>q < PRODUCERS. mset (map (Pair q) [0..<pr_i (ls_prod s q)]) + (if q = p then {#(p, pr_i (ls_prod s p))#} else {#}))"
    unfolding added_def by (rule sum.cong) (auto simp: assms(2) atLeast0_lessThan_Suc)
  then show ?thesis using assms(1) by (simp add: added_def sum.distrib sum.delta)
qed

lemma active_card_cong:
  "(\<And>p. active (q p) = active (q' p)) \<Longrightarrow> card {p. p < PRODUCERS \<and> active (q p)} = card {p. p < PRODUCERS \<and> active (q' p)}"
  by simp

lemma active_card_drop:
  assumes "p < PRODUCERS" and "active (q p)" and "\<not> active x"
  shows "card {r. r < PRODUCERS \<and> active ((q(p := x)) r)} = card {r. r < PRODUCERS \<and> active (q r)} - 1"
proof -
  have "{r. r < PRODUCERS \<and> active ((q(p := x)) r)} = {r. r < PRODUCERS \<and> active (q r)} - {p}" using assms(3) by auto
  then show ?thesis using assms(1,2) by simp
qed

lemma active_none: "card {r. r < PRODUCERS \<and> active (q r)} = 0 \<Longrightarrow> p < PRODUCERS \<Longrightarrow> \<not> active (q p)"
  by simp

text \<open>A producer that makes a step exists, and is not finished; so the consumer has not seen the end.\<close>

lemma llist_running:
  assumes "llist_inv s" and "active (ls_prod s p)" and "pr_pc (ls_prod s p) \<noteq> PNew"
  shows "p < PRODUCERS" and "ls_left s \<noteq> 0" and "\<And>k. ls_pc s \<noteq> CStop k" and "\<And>r. ls_pc s \<noteq> CDone r"
    and "ls_pc s \<noteq> CTake True" and "\<And>b. ls_pc s \<noteq> CFree True b" and "ls_pc s \<noteq> CLoop True"
proof -
  have "\<not> created (ls_pc s) \<le> p" "created (ls_pc s) \<le> PRODUCERS" using assms(1,3) by (auto simp: llist_inv_def)
  then show p: "p < PRODUCERS" by simp
  show left: "ls_left s \<noteq> 0" using assms(1,2) p by (auto simp: llist_inv_def)
  show "\<And>k. ls_pc s \<noteq> CStop k" "\<And>r. ls_pc s \<noteq> CDone r" "ls_pc s \<noteq> CTake True" "\<And>b. ls_pc s \<noteq> CFree True b" "ls_pc s \<noteq> CLoop True"
    using assms(1) left by (auto simp: llist_inv_def finished_def)
qed

text \<open>A step of a producer that changes only its own place.\<close>

lemma llist_inv_prod:
  assumes inv: "llist_inv s" and p: "active (ls_prod s p)" "pr_pc (ls_prod s p) \<noteq> PNew"
    and t: "prod_ok \<lparr>pr_pc = pc, pr_i = pr_i (ls_prod s p)\<rparr>" "active \<lparr>pr_pc = pc, pr_i = pr_i (ls_prod s p)\<rparr>" "pc \<noteq> PNew"
    and u: "ls_inbox u = ls_inbox s" "ls_left u = ls_left s" "ls_pc u = ls_pc s" "ls_err u = ls_err s" "ls_got u = ls_got s"
      "ls_freed u = ls_freed s" "ls_prod u = ls_prod s"
  shows "llist_inv (set_prod p pc (pr_i (ls_prod s p)) u)"
proof -
  let ?t = "set_prod p pc (pr_i (ls_prod s p)) u"
  note r = llist_running [OF inv p]
  have "added ?t = added s" by (rule added_cong) (simp add: u)
  moreover have "card {r. r < PRODUCERS \<and> active (ls_prod ?t r)} = card {r. r < PRODUCERS \<and> active (ls_prod s r)}"
    by (rule active_card_cong) (use p(1) t(2) in \<open>simp add: u\<close>)
  moreover have "in_hand ?t = in_hand s" by (simp add: in_hand_def u)
  moreover have "\<not> created (ls_pc s) \<le> p" using inv p(2) by (auto simp: llist_inv_def)
  moreover have "pc \<noteq> PAbsent" using t(2) by (auto simp: active_def)
  ultimately show ?thesis
    using inv r t by (cases "ls_pc s") (auto simp: llist_inv_def u finished_def)
qed

lemma llist_inv_start: "llist_inv llist_start"
proof -
  have "{p. p < PRODUCERS} = {..<PRODUCERS}" by auto
  then show ?thesis
    by (simp add: llist_inv_def llist_start_def prod_ok_def created_def in_hand_def added_def active_def)
qed

lemma llist_inv_add:
  assumes inv: "llist_inv s" and p: "pr_pc (ls_prod s p) = PAdd" and pc: "pc = PInc \<or> pc = PLoop"
  shows "llist_inv (set_prod p pc (pr_i (ls_prod s p) + 1) (s\<lparr>ls_inbox := (p, pr_i (ls_prod s p)) # ls_inbox s\<rparr>))"
proof -
  let ?i = "pr_i (ls_prod s p)"
  let ?t = "set_prod p pc (?i + 1) (s\<lparr>ls_inbox := (p, ?i) # ls_inbox s\<rparr>)"
  have a: "active (ls_prod s p)" "pr_pc (ls_prod s p) \<noteq> PNew" using p by (simp_all add: active_def)
  note r = llist_running [OF inv a]
  have "added ?t = add_mset (p, ?i) (added s)" by (rule added_one [OF r(1)]) simp
  moreover have "card {r. r < PRODUCERS \<and> active (ls_prod ?t r)} = card {r. r < PRODUCERS \<and> active (ls_prod s r)}"
    by (rule active_card_cong) (use a pc in \<open>auto simp: active_def\<close>)
  moreover have "in_hand ?t = in_hand s" by (simp add: in_hand_def)
  moreover have "\<not> created (ls_pc s) \<le> p" using inv a by (auto simp: llist_inv_def)
  moreover have "?i < PER_PRODUCER" using inv p by (auto simp: llist_inv_def prod_ok_def)
  then have "prod_ok \<lparr>pr_pc = pc, pr_i = ?i + 1\<rparr>" using pc by (auto simp: prod_ok_def)
  ultimately show ?thesis
    using inv r pc by (cases "ls_pc s") (auto simp: llist_inv_def finished_def)
qed

lemma llist_inv_dec:
  assumes inv: "llist_inv s" and p: "pr_pc (ls_prod s p) = PDec e"
  shows "llist_inv (set_prod p (PDone e) (pr_i (ls_prod s p)) (s\<lparr>ls_left := ls_left s - 1\<rparr>))"
proof -
  let ?x = "\<lparr>pr_pc = PDone e, pr_i = pr_i (ls_prod s p)\<rparr>"
  let ?t = "set_prod p (PDone e) (pr_i (ls_prod s p)) (s\<lparr>ls_left := ls_left s - 1\<rparr>)"
  have a: "active (ls_prod s p)" "pr_pc (ls_prod s p) \<noteq> PNew" using p by (simp_all add: active_def)
  note r = llist_running [OF inv a]
  have "added ?t = added s" by (rule added_cong) simp
  moreover have "card {r. r < PRODUCERS \<and> active (ls_prod ?t r)} = card {r. r < PRODUCERS \<and> active (ls_prod s r)} - 1"
    using active_card_drop [OF r(1), where q = "ls_prod s" and x = ?x] a(1) by (simp add: active_def)
  moreover have "in_hand ?t = in_hand s" by (simp add: in_hand_def)
  moreover have "\<not> created (ls_pc s) \<le> p" using inv a by (auto simp: llist_inv_def)
  moreover have "prod_ok ?x" using inv p by (auto simp: llist_inv_def prod_ok_def)
  ultimately show ?thesis
    using inv r by (cases "ls_pc s") (auto simp: llist_inv_def finished_def)
qed

lemma llist_inv_create:
  assumes inv: "llist_inv s" and k: "ls_pc s = CCreate k" "k < PRODUCERS"
  shows "llist_inv (set_prod k PLoop 0 (s\<lparr>ls_pc := CCreate (k + 1)\<rparr>))"
    and "llist_inv (set_prod k PAbsent 0 (s\<lparr>ls_pc := CCreate (k + 1), ls_err := Some e, ls_left := ls_left s - 1\<rparr>))"
proof -
  have new: "pr_pc (ls_prod s k) = PNew" using inv k by (simp add: llist_inv_def created_def)
  then have a: "active (ls_prod s k)" by (simp add: active_def)
  have z: "pr_i (ls_prod s k) = 0" using inv new by (auto simp: llist_inv_def prod_ok_def)
  have add: "added (set_prod k pc 0 u) = added s" if "ls_prod u = ls_prod s" for pc u
    by (rule added_cong) (use that z in simp)
  have act: "card {r. r < PRODUCERS \<and> active (((ls_prod s)(k := \<lparr>pr_pc = PLoop, pr_i = 0\<rparr>)) r)} = card {r. r < PRODUCERS \<and> active (ls_prod s r)}"
    by (rule active_card_cong) (use a in \<open>simp add: active_def\<close>)
  have drop: "card {r. r < PRODUCERS \<and> active (((ls_prod s)(k := \<lparr>pr_pc = PAbsent, pr_i = 0\<rparr>)) r)} = card {r. r < PRODUCERS \<and> active (ls_prod s r)} - 1"
    by (rule active_card_drop [where q = "ls_prod s", OF k(2) a]) (simp add: active_def)
  show "llist_inv (set_prod k PLoop 0 (s\<lparr>ls_pc := CCreate (k + 1)\<rparr>))"
    using inv k add act by (auto simp: llist_inv_def created_def in_hand_def prod_ok_def)
  show "llist_inv (set_prod k PAbsent 0 (s\<lparr>ls_pc := CCreate (k + 1), ls_err := Some e, ls_left := ls_left s - 1\<rparr>))"
    using inv k add drop by (auto simp: llist_inv_def created_def in_hand_def prod_ok_def)
qed

lemma llist_inv_take:
  assumes inv: "llist_inv s" and pc: "ls_pc s = CTake done"
  shows "llist_inv (s\<lparr>ls_inbox := [], ls_pc := (if ls_inbox s = [] then CLoop done else CFree done (ls_inbox s))\<rparr>)"
proof -
  have "added (s\<lparr>ls_inbox := [], ls_pc := X\<rparr>) = added s" for X by (rule added_cong) simp
  then show ?thesis using inv pc by (auto simp: llist_inv_def created_def in_hand_def finished_def)
qed

lemma llist_inv_free:
  assumes inv: "llist_inv s" and pc: "ls_pc s = CFree done batch" and "free_batch batch s = (n, s')"
  shows "llist_inv (s'\<lparr>ls_got := ls_got s + n, ls_batches := ls_batches s + 1, ls_pc := CLoop done\<rparr>)"
proof -
  have s': "n = length batch" "s' = s\<lparr>ls_freed := ls_freed s @ batch\<rparr>" using assms(3) by (auto simp: free_batch_def)
  have "added (s'\<lparr>ls_got := ls_got s + n, ls_batches := ls_batches s + 1, ls_pc := CLoop done\<rparr>) = added s"
    by (rule added_cong) (simp add: s')
  then show ?thesis using inv pc by (auto simp: llist_inv_def created_def in_hand_def finished_def s')
qed

lemma llist_inv_pc:
  assumes "llist_inv s" and "created pc = created (ls_pc s)" and "in_hand s = []" and "\<forall>d b. pc \<noteq> CFree d b"
    and "case pc of CTake done \<Rightarrow> done \<longrightarrow> ls_left s = 0
      | CFree done batch \<Rightarrow> done \<longrightarrow> finished s
      | CLoop done \<Rightarrow> done \<longrightarrow> finished s
      | CStop k \<Rightarrow> finished s \<and> k \<le> PRODUCERS \<and> (err = None \<longrightarrow> (\<forall>p < k. pr_pc (ls_prod s p) = PDone None))
      | CDone r \<Rightarrow> finished s \<and> r = llist_verdict (s\<lparr>ls_err := err\<rparr>) \<and> (err = None \<longrightarrow> (\<forall>p < PRODUCERS. pr_pc (ls_prod s p) = PDone None))
      | _ \<Rightarrow> True"
    and "ls_err s \<noteq> None \<longrightarrow> err \<noteq> None"
  shows "llist_inv (s\<lparr>ls_pc := pc, ls_err := err\<rparr>)"
proof -
  have "added (s\<lparr>ls_pc := pc, ls_err := err\<rparr>) = added s" by (rule added_cong) simp
  moreover have "in_hand (s\<lparr>ls_pc := pc, ls_err := err\<rparr>) = []" using assms(4) by (simp add: in_hand_def split: cons_pc.splits)
  ultimately show ?thesis
    using assms by (cases pc) (auto simp: llist_inv_def finished_def llist_verdict_def)
qed

lemma llist_stop_cases:
  assumes "llist_inv s" and "ls_pc s = CStop k" and "k < PRODUCERS"
  shows "pr_pc (ls_prod s k) = PAbsent \<or> (\<exists>e. pr_pc (ls_prod s k) = PDone e)"
proof -
  have "finished s" using assms(1,2) by (simp add: llist_inv_def)
  then have "ls_left s = 0" by (simp add: finished_def)
  moreover have "ls_left s = card {p. p < PRODUCERS \<and> active (ls_prod s p)}" using assms(1) unfolding llist_inv_def by blast
  ultimately have "card {p. p < PRODUCERS \<and> active (ls_prod s p)} = 0" by linarith
  then have "\<not> active (ls_prod s k)" using active_none [of "ls_prod s" k] assms(3) by blast
  then show ?thesis by (auto simp: active_def)
qed

lemma llist_inv_step:
  assumes "llist_step s t" and "llist_inv s"
  shows "llist_inv t"
  using assms
proof (induction rule: llist_step.induct)
  case (p_alloc s p)
  then show ?case by (intro llist_inv_prod) (auto simp: active_def prod_ok_def)
next
  case (p_nomem s p)
  then show ?case by (intro llist_inv_prod) (auto simp: active_def prod_ok_def)
next
  case (p_end s p)
  then have "pr_i (ls_prod s p) \<le> PER_PRODUCER" by (auto simp: llist_inv_def prod_ok_def)
  then show ?case using p_end by (intro llist_inv_prod) (auto simp: active_def prod_ok_def)
next
  case (p_add s p i)
  then show ?case using llist_inv_add [of s p] by simp
next
  case (p_inc s p)
  have "pr_i (ls_prod s p) \<le> PER_PRODUCER" using p_inc by (auto simp: llist_inv_def prod_ok_def)
  then show ?case using p_inc by (intro llist_inv_prod) (auto simp: active_def prod_ok_def)
next
  case (p_dec s p e)
  then show ?case by (intro llist_inv_dec)
next
  case (c_create s k)
  then show ?case by (intro llist_inv_create)
next
  case (c_create_fails s k e)
  then show ?case by (intro llist_inv_create)
next
  case (c_created s k)
  then have "k = PRODUCERS" by (simp add: llist_inv_def created_def)
  then show ?case using c_created llist_inv_pc [of s CTest "ls_err s"] by (simp add: created_def in_hand_def)
next
  case (c_test s)
  then show ?case using llist_inv_pc [of s "CTake (ls_left s = 0)" "ls_err s"] by (simp add: created_def in_hand_def)
next
  case (c_take s "done")
  then show ?case by (intro llist_inv_take)
next
  case (c_free s "done" batch n s')
  then show ?case by (intro llist_inv_free)
next
  case (c_loop s "done")
  have "done \<longrightarrow> finished s" using c_loop by (simp add: llist_inv_def)
  then show ?case
    using c_loop llist_inv_pc [of s CTest "ls_err s"] llist_inv_pc [of s "CStop 0" "ls_err s"] by (simp add: created_def in_hand_def)
next
  case (c_stop s k ret)
  have "finished s" "ls_err s = None \<longrightarrow> (\<forall>p < k. pr_pc (ls_prod s p) = PDone None)" using c_stop by (auto simp: llist_inv_def)
  then show ?case
    using c_stop llist_inv_pc [of s "CStop (k + 1)" ret] llist_inv_pc [of s "CStop (k + 1)" "ls_err s"]
    by (cases "ls_err s") (simp_all add: created_def in_hand_def less_Suc_eq)
next
  case (c_skip s k)
  have "finished s" "ls_err s \<noteq> None" using c_skip by (auto simp: llist_inv_def)
  then show ?case using c_skip llist_inv_pc [of s "CStop (k + 1)" "ls_err s"] by (auto simp: created_def in_hand_def)
next
  case (c_end s k)
  then have "k = PRODUCERS" by (simp add: llist_inv_def)
  moreover have "finished s" "ls_err s = None \<longrightarrow> (\<forall>p < k. pr_pc (ls_prod s p) = PDone None)" using c_end by (auto simp: llist_inv_def)
  ultimately show ?case
    using c_end llist_inv_pc [of s "CDone (llist_verdict s)" "ls_err s"] by (simp add: created_def in_hand_def llist_verdict_def)
qed

lemma llist_reach_inv: "llist_step\<^sup>*\<^sup>* llist_start s \<Longrightarrow> llist_inv s"
  by (induction rule: rtranclp_induct) (auto intro: llist_inv_start llist_inv_step)

text \<open>Until the consumer is done someone can make a step: nobody waits for something that does not come.\<close>

lemma producer_can_step: "active (ls_prod s p) \<Longrightarrow> pr_pc (ls_prod s p) \<noteq> PNew \<Longrightarrow> \<exists>t. llist_step s t"
  using p_alloc [of s p] p_end [of s p] p_add [of s p] p_inc [of s p] p_dec [of s p]
  by (cases "pr_pc (ls_prod s p)") (auto simp: active_def)

lemma llist_no_deadlock:
  assumes "llist_inv s" and "\<forall>r. ls_pc s \<noteq> CDone r"
  shows "\<exists>t. llist_step s t"
proof (cases "ls_pc s")
  case (CCreate k)
  then show ?thesis using c_create [of s k] c_created [of s k] by blast
next
  case CTest
  then show ?thesis using c_test by blast
next
  case (CTake x)
  then show ?thesis using c_take by blast
next
  case (CFree x b)
  then show ?thesis using c_free [OF CFree, of "length b"] by (simp add: free_batch_def) blast
next
  case (CLoop x)
  then show ?thesis using c_loop by blast
next
  case (CStop k)
  then show ?thesis using c_end [of s k] c_stop [of s k] c_skip [of s k] llist_stop_cases [OF assms(1) CStop] by blast
qed (use assms(2) in blast)

lemma added_sum: "(\<Sum>p < n. mset (map (Pair p) [0..<f p])) = mset_set (SIGMA p:{..<n}. {..<f p})" for n :: nat and f :: "nat \<Rightarrow> nat"
proof (induction n)
  case (Suc n)
  have u: "(SIGMA p:{..<Suc n}. {..<f p}) = Pair n ` {..<f n} \<union> (SIGMA p:{..<n}. {..<f p})" by (auto simp: less_Suc_eq)
  have "mset (map (Pair n) [0..<f n]) = mset_set (Pair n ` {..<f n})"
    by (simp add: image_mset_mset_set inj_on_def atLeast0LessThan)
  moreover have "mset_set (Pair n ` {..<f n} \<union> (SIGMA p:{..<n}. {..<f p})) = mset_set (Pair n ` {..<f n}) + mset_set (SIGMA p:{..<n}. {..<f p})"
    by (rule mset_set_Union) auto
  ultimately show ?case using Suc.IH u by (simp add: add.commute)
qed simp

lemma added_items:
  assumes "mset xs = added s"
  shows "distinct xs" and "set xs = {(p, k). p < PRODUCERS \<and> k < pr_i (ls_prod s p)}"
proof -
  have m: "mset xs = mset_set (SIGMA p:{..<PRODUCERS}. {..<pr_i (ls_prod s p)})"
    using assms unfolding added_def added_sum .
  have "set xs = set_mset (mset xs)" by simp
  also have "\<dots> = (SIGMA p:{..<PRODUCERS}. {..<pr_i (ls_prod s p)})" unfolding m by (rule finite_set_mset_mset_set) simp
  finally have set: "set xs = (SIGMA p:{..<PRODUCERS}. {..<pr_i (ls_prod s p)})" .
  then show "set xs = {(p, k). p < PRODUCERS \<and> k < pr_i (ls_prod s p)}" by auto
  show "distinct xs" unfolding distinct_count_atmost_1 set by (simp add: m count_mset_set')
qed

lemma llist_fill_live:
  assumes "llist_fill F i k inbox cs = (r, inbox', cs')" and "live cs (mset inbox)" and "\<forall>x \<in> set inbox. x < i"
  shows "live cs' (mset inbox')" and "r = None \<Longrightarrow> inbox' = rev [i..<i + k] @ inbox" and "r = None \<longleftrightarrow> (\<forall>j \<in> {i..<i + k}. F j = None)"
proof -
  have "live cs' (mset inbox') \<and> (r = None \<longrightarrow> inbox' = rev [i..<i + k] @ inbox) \<and> (r = None \<longleftrightarrow> (\<forall>j \<in> {i..<i + k}. F j = None))"
    using assms
  proof (induction k arbitrary: i inbox cs)
    case (Suc k)
    show ?case
    proof (cases "F i")
      case None
      then have e: "llist_fill F (i + 1) k (i # inbox) (cs @ [Acq i]) = (r, inbox', cs')" using Suc.prems(1) by (simp add: if_err_def)
      have "live (cs @ [Acq i]) (mset (i # inbox))" using Suc.prems(2,3) live_acq [of cs "mset inbox" i] by auto
      moreover have "\<forall>x \<in> set (i # inbox). x < i + 1" using Suc.prems(3) by auto
      ultimately have IH: "live cs' (mset inbox')" "r = None \<longrightarrow> inbox' = rev [i + 1..<i + 1 + k] @ i # inbox"
        "r = None \<longleftrightarrow> (\<forall>j \<in> {i + 1..<i + 1 + k}. F j = None)"
        using Suc.IH [OF e] by blast+
      have "{i..<i + Suc k} = insert i {i + 1..<i + 1 + k}" by auto
      then show ?thesis using IH None by (simp add: upt_conv_Cons)
    next
      case (Some e)
      then have "r = Some ENOMEM" "inbox' = inbox" "cs' = cs" using Suc.prems(1) by (simp_all add: if_err_def)
      moreover have "i \<in> {i..<i + Suc k}" by simp
      ultimately show ?thesis using Suc.prems(2) Some by auto
    qed
  qed simp
  then show "live cs' (mset inbox')" "r = None \<Longrightarrow> inbox' = rev [i..<i + k] @ inbox" "r = None \<longleftrightarrow> (\<forall>j \<in> {i..<i + k}. F j = None)"
    by blast+
qed

text \<open>The first part: what was added last is on the list first, so the reversed batch is in order; nothing leaks.\<close>

lemma llist_five_ok:
  "held_any (snd (llist_five F)) [] = Some [] \<and>
   fst (llist_five F) = (if \<forall>i \<in> {1..5}. F i = None then Inr [1, 2, 3, 4, 5] else Inl ENOMEM)"
proof -
  obtain r inbox cs where f: "llist_fill F 1 5 [] [] = (r, inbox, cs)" by (metis prod_cases3)
  note l = llist_fill_live [OF f, simplified]
  have "r \<noteq> None \<Longrightarrow> r = Some ENOMEM"
    using f by (auto simp: if_err_def numeral_eq_Suc split: option.splits)
  moreover have "{1..<6} = {1..5 :: nat}" "[Suc 0..<6] = [1, 2, 3, 4, 5]" by (auto simp: upt_rec)
  moreover have "held_any (cs @ map Rel inbox) [] = Some []" "held_any (cs @ map Rel (rev inbox)) [] = Some []"
    using live_free_all [OF l(1), of inbox] live_free_all [OF l(1), of "rev inbox"] by simp_all
  ultimately show ?thesis using f l(2,3) by (cases r) (auto simp: llist_five_def Let_def)
qed

subsection \<open>Properties of the list\<close>

text \<open>
  C37: The producers and the consumer of the lock-less list in every interleaving, with allocations and
  thread creations that may fail: when the consumer is done it has freed every item the producers
  added exactly once and no other, nothing is left on the list and no producer holds an item; the
  final check never fails, and passes when nothing failed. Until then somebody can make a step.
\<close>

theorem llist_none_lost:
  assumes "llist_step\<^sup>*\<^sup>* llist_start s"
  shows "(\<forall>r. ls_pc s = CDone r \<longrightarrow>
      distinct (ls_freed s) \<and> set (ls_freed s) = {(p, k). p < PRODUCERS \<and> k < pr_i (ls_prod s p)} \<and>
      ls_inbox s = [] \<and> (\<forall>p. pr_pc (ls_prod s p) \<noteq> PAdd) \<and>
      (case ls_err s of None \<Rightarrow> r = Passed \<and> ls_got s = PRODUCERS * PER_PRODUCER | Some e \<Rightarrow> r = Failed e)) \<and>
    ((\<forall>r. ls_pc s \<noteq> CDone r) \<longrightarrow> (\<exists>t. llist_step s t))"
proof (intro conjI allI impI)
  note inv = llist_reach_inv [OF assms]
  fix r
  assume r: "ls_pc s = CDone r"
  have fin: "finished s" "r = llist_verdict s" "ls_err s = None \<longrightarrow> (\<forall>p < PRODUCERS. pr_pc (ls_prod s p) = PDone None)"
    and got: "ls_got s = length (ls_freed s)" and m: "mset (ls_freed s) + mset (in_hand s) + mset (ls_inbox s) = added s"
    using inv r by (simp_all add: llist_inv_def)
  have m: "mset (ls_freed s) = added s" using m fin(1) r by (simp add: in_hand_def finished_def)
  show "distinct (ls_freed s)" "set (ls_freed s) = {(p, k). p < PRODUCERS \<and> k < pr_i (ls_prod s p)}"
    using added_items [OF m] by blast+
  show "ls_inbox s = []" using fin(1) by (simp add: finished_def)
  show "pr_pc (ls_prod s p) \<noteq> PAdd" for p
    using llist_running(4) [OF inv, of p r] r by (auto simp: active_def)
  have "ls_got s = PRODUCERS * PER_PRODUCER" if "ls_err s = None"
  proof -
    have "pr_i (ls_prod s p) = PER_PRODUCER" if "p < PRODUCERS" for p
      using inv fin(3) that \<open>ls_err s = None\<close> by (auto simp: llist_inv_def prod_ok_def)
    then have "size (added s) = PRODUCERS * PER_PRODUCER" by (simp add: added_def size_multiset_sum)
    then show ?thesis using got m by (metis size_mset)
  qed
  then show "case ls_err s of None \<Rightarrow> r = Passed \<and> ls_got s = PRODUCERS * PER_PRODUCER | Some e \<Rightarrow> r = Failed e"
    using fin(2) by (simp add: llist_verdict_def split: option.splits)
next
  assume "\<forall>r. ls_pc s \<noteq> CDone r"
  then show "\<exists>t. llist_step s t" using llist_no_deadlock llist_reach_inv [OF assms] by blast
qed

text \<open>A run in which the second thread cannot be created and the first one gets memory for one item only.\<close>

lemma llist_step_trans: "llist_step\<^sup>*\<^sup>* s t \<Longrightarrow> llist_step t u \<Longrightarrow> u = v \<Longrightarrow> llist_step\<^sup>*\<^sup>* s v"
  by (metis rtranclp.rtrancl_into_rtrancl)

definition demo_sys :: "item list \<Rightarrow> nat \<Rightarrow> nat \<Rightarrow> producer \<Rightarrow> cons_pc \<Rightarrow> nat \<Rightarrow> item list \<Rightarrow> errno option \<Rightarrow> llist_sys" where
  "demo_sys inbox left was_empty q pc got freed err =
     \<lparr>ls_inbox = inbox, ls_left = left, ls_was_empty = was_empty,
      ls_prod = (\<lambda>p. \<lparr>pr_pc = PNew, pr_i = 0\<rparr>)(0 := q, 1 := \<lparr>pr_pc = PAbsent, pr_i = 0\<rparr>),
      ls_pc = pc, ls_err = err, ls_got = got, ls_batches = got, ls_freed = freed\<rparr>"

theorem llist_none_lost_witness:
  "\<exists>s. llist_step\<^sup>*\<^sup>* llist_start s \<and> ls_pc s = CDone (Failed EAGAIN) \<and> ls_freed s = [(0, 0)] \<and> ls_inbox s = [] \<and> distinct (ls_freed s)"
proof -
  note d = demo_sys_def set_prod_def llist_start_def PRODUCERS_def PER_PRODUCER_def fun_eq_iff
  let ?P = "\<lambda>pc i. \<lparr>pr_pc = pc, pr_i = i\<rparr>"
  have "llist_step\<^sup>*\<^sup>* llist_start (set_prod 0 PLoop 0 (llist_start\<lparr>ls_pc := CCreate 1\<rparr>))"
    by (rule llist_step_trans [OF rtranclp.rtrancl_refl c_create [where k = 0]]) (simp_all add: d)
  then have "llist_step\<^sup>*\<^sup>* llist_start (demo_sys [] 1 0 (?P PLoop 0) (CCreate 2) 0 [] (Some EAGAIN))"
    by (rule llist_step_trans [OF _ c_create_fails [where k = 1 and e = EAGAIN]]) (simp_all add: d)
  then have "llist_step\<^sup>*\<^sup>* llist_start (demo_sys [] 1 0 (?P PAdd 0) (CCreate 2) 0 [] (Some EAGAIN))"
    by (rule llist_step_trans [OF _ p_alloc [where p = 0]]) (simp_all add: d)
  then have "llist_step\<^sup>*\<^sup>* llist_start (demo_sys [(0, 0)] 1 0 (?P PInc 1) (CCreate 2) 0 [] (Some EAGAIN))"
    by (rule llist_step_trans [OF _ p_add [where p = 0 and i = 0]]) (simp_all add: d)
  then have "llist_step\<^sup>*\<^sup>* llist_start (demo_sys [(0, 0)] 1 1 (?P PLoop 1) (CCreate 2) 0 [] (Some EAGAIN))"
    by (rule llist_step_trans [OF _ p_inc [where p = 0]]) (simp_all add: d)
  then have "llist_step\<^sup>*\<^sup>* llist_start (demo_sys [(0, 0)] 1 1 (?P (PDec (Some ENOMEM)) 1) (CCreate 2) 0 [] (Some EAGAIN))"
    by (rule llist_step_trans [OF _ p_nomem [where p = 0]]) (simp_all add: d)
  then have "llist_step\<^sup>*\<^sup>* llist_start (demo_sys [(0, 0)] 0 1 (?P (PDone (Some ENOMEM)) 1) (CCreate 2) 0 [] (Some EAGAIN))"
    by (rule llist_step_trans [OF _ p_dec [where p = 0 and e = "Some ENOMEM"]]) (simp_all add: d)
  then have "llist_step\<^sup>*\<^sup>* llist_start (demo_sys [(0, 0)] 0 1 (?P (PDone (Some ENOMEM)) 1) CTest 0 [] (Some EAGAIN))"
    by (rule llist_step_trans [OF _ c_created [where k = 2]]) (simp_all add: d)
  then have "llist_step\<^sup>*\<^sup>* llist_start (demo_sys [(0, 0)] 0 1 (?P (PDone (Some ENOMEM)) 1) (CTake True) 0 [] (Some EAGAIN))"
    by (rule llist_step_trans [OF _ c_test]) (simp_all add: d)
  then have "llist_step\<^sup>*\<^sup>* llist_start (demo_sys [] 0 1 (?P (PDone (Some ENOMEM)) 1) (CFree True [(0, 0)]) 0 [] (Some EAGAIN))"
    by (rule llist_step_trans [OF _ c_take [of _ True]]) (simp_all add: d)
  then have "llist_step\<^sup>*\<^sup>* llist_start (demo_sys [] 0 1 (?P (PDone (Some ENOMEM)) 1) (CLoop True) 1 [(0, 0)] (Some EAGAIN))"
    by (rule llist_step_trans [OF _ c_free [of _ True "[(0, 0)]" 1
        "demo_sys [] 0 1 (?P (PDone (Some ENOMEM)) 1) (CFree True [(0, 0)]) 0 [(0, 0)] (Some EAGAIN)"]]) (simp_all add: d free_batch_def)
  then have "llist_step\<^sup>*\<^sup>* llist_start (demo_sys [] 0 1 (?P (PDone (Some ENOMEM)) 1) (CStop 0) 1 [(0, 0)] (Some EAGAIN))"
    by (rule llist_step_trans [OF _ c_loop [of _ True]]) (simp_all add: d)
  then have "llist_step\<^sup>*\<^sup>* llist_start (demo_sys [] 0 1 (?P (PDone (Some ENOMEM)) 1) (CStop 1) 1 [(0, 0)] (Some EAGAIN))"
    by (rule llist_step_trans [OF _ c_stop [where k = 0 and ret = "Some ENOMEM"]]) (simp_all add: d)
  then have "llist_step\<^sup>*\<^sup>* llist_start (demo_sys [] 0 1 (?P (PDone (Some ENOMEM)) 1) (CStop 2) 1 [(0, 0)] (Some EAGAIN))"
    by (rule llist_step_trans [OF _ c_skip [where k = 1]]) (simp_all add: d)
  then have r: "llist_step\<^sup>*\<^sup>* llist_start (demo_sys [] 0 1 (?P (PDone (Some ENOMEM)) 1) (CDone (Failed EAGAIN)) 1 [(0, 0)] (Some EAGAIN))"
    by (rule llist_step_trans [OF _ c_end [where k = 2]]) (simp_all add: d llist_verdict_def)
  show ?thesis
    using r llist_none_lost [OF r] by (intro exI [of _ "demo_sys [] 0 1 (?P (PDone (Some ENOMEM)) 1) (CDone (Failed EAGAIN)) 1 [(0, 0)] (Some EAGAIN)"]) (simp add: demo_sys_def)
qed

end
