(* ===== verification/Ds_Bits.thy ===== *)
theory Ds_Bits
  imports Lifecycle
begin

section \<open>ds/bitmap and ds/ida: handing out numbers\<close>

text \<open>
  \<open>src/examples/ds/bitmap\<close> hands out slots: it finds a free bit and claims it with an atomic
  operation, so that callers at the same time do not get the same slot. \<open>src/examples/ds/ida\<close> hands
  out the smallest number not in use. Bitmap and IDA are the kernel's, parameters: the records \<open>bm_ops\<close>
  and \<open>ida_ops\<close> over bitmaps and IDAs of any type, with \<open>bm_ok\<close> and \<open>ida_ok\<close> for what is documented of
  them, in terms of the bits that are set and the numbers that are in use. Whether an allocation finds
  memory is an argument.
\<close>

subsection \<open>Bitmaps of the kernel\<close>

definition NSLOTS :: nat where "NSLOTS = 40"

record 'm bm_ops =
  bm_none :: 'm
  bm_set_bit :: "nat \<Rightarrow> 'm \<Rightarrow> 'm"
  bm_clear_bit :: "nat \<Rightarrow> 'm \<Rightarrow> 'm"
  find_first_zero_bit :: "'m \<Rightarrow> nat \<Rightarrow> nat"
  test_and_set_bit :: "nat \<Rightarrow> 'm \<Rightarrow> bool \<times> 'm"
  bitmap_weight :: "'m \<Rightarrow> nat \<Rightarrow> nat"
  bitmap_set :: "'m \<Rightarrow> nat \<Rightarrow> nat \<Rightarrow> 'm"
  bitmap_fill :: "'m \<Rightarrow> nat \<Rightarrow> 'm"
  bitmap_full :: "'m \<Rightarrow> nat \<Rightarrow> bool"
  bitmap_find_next_zero_area :: "'m \<Rightarrow> nat \<Rightarrow> nat \<Rightarrow> nat \<Rightarrow> nat"

text \<open>\<open>bits m b\<close>: bit \<open>b\<close> of \<open>m\<close> is set.\<close>

definition bm_bits_ok :: "'m bm_ops \<Rightarrow> ('m \<Rightarrow> nat \<Rightarrow> bool) \<Rightarrow> bool" where
  "bm_bits_ok B bits \<longleftrightarrow>
     bits (bm_none B) = (\<lambda>b. False) \<and>
     (\<forall>b m. bits (bm_set_bit B b m) = (bits m)(b := True)) \<and>
     (\<forall>b m. bits (bm_clear_bit B b m) = (bits m)(b := False)) \<and>
     (\<forall>b m. fst (test_and_set_bit B b m) = bits m b) \<and>
     (\<forall>b m. bits (snd (test_and_set_bit B b m)) = (bits m)(b := True)) \<and>
     (\<forall>m start len. bits (bitmap_set B m start len) = (\<lambda>b. bits m b \<or> (start \<le> b \<and> b < start + len))) \<and>
     (\<forall>m n b. b < n \<longrightarrow> bits (bitmap_fill B m n) b)"

definition bm_first_zero_ok :: "'m bm_ops \<Rightarrow> ('m \<Rightarrow> nat \<Rightarrow> bool) \<Rightarrow> bool" where
  "bm_first_zero_ok B bits \<longleftrightarrow> (\<forall>m n. let z = find_first_zero_bit B m n in
     if \<forall>b < n. bits m b then n \<le> z else z < n \<and> \<not> bits m z \<and> (\<forall>b < z. bits m b))"

definition bm_zero_area_ok :: "'m bm_ops \<Rightarrow> ('m \<Rightarrow> nat \<Rightarrow> bool) \<Rightarrow> bool" where
  "bm_zero_area_ok B bits \<longleftrightarrow> (\<forall>m sz start nr i. start \<le> i \<longrightarrow> i + nr \<le> sz \<longrightarrow> (\<forall>b \<in> {i..<i + nr}. \<not> bits m b) \<longrightarrow>
     (\<forall>j \<in> {start..<i}. \<exists>b \<in> {j..<j + nr}. bits m b) \<longrightarrow> bitmap_find_next_zero_area B m sz start nr = i)"

definition bm_ok :: "'m bm_ops \<Rightarrow> ('m \<Rightarrow> nat \<Rightarrow> bool) \<Rightarrow> bool" where
  "bm_ok B bits \<longleftrightarrow> bm_bits_ok B bits \<and> bm_first_zero_ok B bits \<and> bm_zero_area_ok B bits \<and>
     (\<forall>m n. bitmap_weight B m n = card {b. b < n \<and> bits m b}) \<and>
     (\<forall>m n. bitmap_full B m n = (\<forall>b < n. bits m b))"

lemma bm_okD:
  assumes "bm_ok B bits"
  shows "bits (bm_none B) = (\<lambda>b. False)"
    and "bits (bm_set_bit B b m) = (bits m)(b := True)"
    and "bits (bm_clear_bit B b m) = (bits m)(b := False)"
    and "fst (test_and_set_bit B b m) = bits m b" and "bits (snd (test_and_set_bit B b m)) = (bits m)(b := True)"
    and "bitmap_weight B m n = card {b. b < n \<and> bits m b}"
    and "bits (bitmap_set B m start len) = (\<lambda>b. bits m b \<or> (start \<le> b \<and> b < start + len))"
    and "b < n \<Longrightarrow> bits (bitmap_fill B m n) b" and "bitmap_full B m n = (\<forall>b < n. bits m b)"
  using assms by (simp_all add: bm_ok_def bm_bits_ok_def)

lemma bm_ok_zero_area:
  assumes "bm_ok B bits" and "start \<le> i" and "i + nr \<le> sz" and "\<forall>b \<in> {i..<i + nr}. \<not> bits m b"
    and "\<forall>j \<in> {start..<i}. \<exists>b \<in> {j..<j + nr}. bits m b"
  shows "bitmap_find_next_zero_area B m sz start nr = i"
proof -
  have "bm_zero_area_ok B bits" using assms(1) by (simp add: bm_ok_def)
  from this [unfolded bm_zero_area_ok_def, THEN spec, THEN spec, THEN spec, THEN spec, THEN spec, THEN mp, THEN mp, THEN mp, THEN mp, OF assms(2-)]
  show ?thesis .
qed

lemma bm_ok_first_zero:
  assumes "bm_ok B bits"
  shows "n \<le> find_first_zero_bit B m n \<longleftrightarrow> (\<forall>b < n. bits m b)"
    and "find_first_zero_bit B m n < n \<Longrightarrow> \<not> bits m (find_first_zero_bit B m n)"
    and "b < n \<Longrightarrow> \<not> bits m b \<Longrightarrow> \<forall>c < b. bits m c \<Longrightarrow> find_first_zero_bit B m n = b"
proof -
  let ?z = "find_first_zero_bit B m n"
  have z: "if \<forall>b < n. bits m b then n \<le> ?z else ?z < n \<and> \<not> bits m ?z \<and> (\<forall>b < ?z. bits m b)"
  proof -
    have "bm_first_zero_ok B bits" using assms by (simp add: bm_ok_def)
    then show ?thesis unfolding bm_first_zero_ok_def Let_def by (elim allE)
  qed
  show "n \<le> ?z \<longleftrightarrow> (\<forall>b < n. bits m b)" "?z < n \<Longrightarrow> \<not> bits m ?z"
    using z by (metis not_le)+
  show "b < n \<Longrightarrow> \<not> bits m b \<Longrightarrow> \<forall>c < b. bits m c \<Longrightarrow> ?z = b"
    using z by (metis linorder_neqE_nat)
qed

subsection \<open>Taking a slot\<close>

text \<open>A caller that runs alone. Without knowing the bitmap the loop need not end.\<close>

partial_function (option) take_slot :: "'m bm_ops \<Rightarrow> 'm \<Rightarrow> (nat result \<times> 'm) option" where
  "take_slot B m =
     (let b = find_first_zero_bit B m NSLOTS in
      if b \<ge> NSLOTS then Some (Inl ENOSPC, m)
      else case test_and_set_bit B b m of (old, m') \<Rightarrow> if old then take_slot B m' else Some (Inr b, m'))"

text \<open>
  Any number of callers, step by step: looking for a zero bit and claiming it are two steps; a caller
  whose bit was taken in between looks again. A slot taken may be given back later, and the caller may
  come again.
\<close>

datatype slot_pc = SFind | SClaim nat | SReturned "nat result"

record 'm slot_sys =
  bs_slots :: 'm
  bs_pc :: "nat \<Rightarrow> slot_pc"

definition slot_goto :: "nat \<Rightarrow> slot_pc \<Rightarrow> 'm slot_sys \<Rightarrow> 'm slot_sys" where
  "slot_goto p pc s = s\<lparr>bs_pc := (bs_pc s)(p := pc)\<rparr>"

inductive slot_step :: "'m bm_ops \<Rightarrow> 'm slot_sys \<Rightarrow> 'm slot_sys \<Rightarrow> bool" for B :: "'m bm_ops" where
  slot_find: "bs_pc s p = SFind \<Longrightarrow> b = find_first_zero_bit B (bs_slots s) NSLOTS \<Longrightarrow> b < NSLOTS \<Longrightarrow>
    slot_step B s (slot_goto p (SClaim b) s)"
| slot_full: "bs_pc s p = SFind \<Longrightarrow> find_first_zero_bit B (bs_slots s) NSLOTS \<ge> NSLOTS \<Longrightarrow>
    slot_step B s (slot_goto p (SReturned (Inl ENOSPC)) s)"
| slot_claim: "bs_pc s p = SClaim b \<Longrightarrow> test_and_set_bit B b (bs_slots s) = (old, m) \<Longrightarrow>
    slot_step B s (slot_goto p (if old then SFind else SReturned (Inr b)) (s\<lparr>bs_slots := m\<rparr>))"
| slot_give: "bs_pc s p = SReturned (Inr b) \<Longrightarrow>
    slot_step B s (slot_goto p SFind (s\<lparr>bs_slots := bm_clear_bit B b (bs_slots s)\<rparr>))"
| slot_again: "bs_pc s p = SReturned (Inl e) \<Longrightarrow> slot_step B s (slot_goto p SFind s)"

definition slot_start :: "'m \<Rightarrow> 'm slot_sys" where
  "slot_start m = \<lparr>bs_slots = m, bs_pc = (\<lambda>p. SFind)\<rparr>"

subsection \<open>The demonstration of the bitmap\<close>

fun take_slots :: "'m bm_ops \<Rightarrow> nat \<Rightarrow> 'm \<Rightarrow> 'm option" where
  "take_slots B 0 m = Some m"
| "take_slots B (Suc n) m = Option.bind (take_slot B m) (\<lambda>(r, m'). take_slots B n m')"

text \<open>
  \<open>nomem\<close> says whether the bitmap of 1000 bits cannot be allocated; the calls are its allocation and
  its release.
\<close>

definition big_demo :: "'m bm_ops \<Rightarrow> bool \<Rightarrow> bool \<Rightarrow> errno option \<times> unit call list" where
  "big_demo B nomem ok =
     (if nomem then (Some ENOMEM, [])
      else let big = bitmap_set B (bm_none B) 100 50;
               ok1 = (ok \<and> bitmap_weight B big 1000 = 50);
               calls = [Acq (), Rel ()]
           in if \<not> ok1 then (Some EINVAL, calls) else (None, calls))"

definition bitmap_demo :: "'m bm_ops \<Rightarrow> bool \<Rightarrow> (errno option \<times> unit call list) option" where
  "bitmap_demo B nomem =
     Option.bind (take_slots B 4 (bm_set_bit B 5 (bm_set_bit B 0 (bm_none B)))) (\<lambda>slots2.
     let ok1 = (bitmap_weight B slots2 NSLOTS = 6) in
     Option.bind (take_slot B (bm_clear_bit B 2 slots2)) (\<lambda>(taken, slots3).
     let ok2 = (ok1 \<and> taken = Inr 2);
         start = bitmap_find_next_zero_area B slots3 NSLOTS 0 8
     in if start > NSLOTS - 8 then Some (Some EINVAL, [])
        else let ok3 = (ok2 \<and> start = 6) in
          Option.bind (take_slot B (bitmap_fill B (bitmap_set B slots3 start 8) NSLOTS)) (\<lambda>(full, slots4).
          Some (big_demo B nomem (ok3 \<and> full = Inl ENOSPC \<and> bitmap_full B slots4 NSLOTS)))))"

subsection \<open>Slots are exclusive\<close>

text \<open>A caller alone ends, with the smallest free slot, or with -ENOSPC when there is none.\<close>

lemma take_slot_free:
  assumes "bm_ok B bits" and "b < NSLOTS" and "\<not> bits m b" and "\<forall>c < b. bits m c"
  shows "\<exists>m'. take_slot B m = Some (Inr b, m') \<and> bits m' = (bits m)(b := True)"
  using bm_ok_first_zero(3) [OF assms] bm_okD(4,5) [OF assms(1), of b m] assms(2,3)
  by (subst take_slot.simps) (simp add: case_prod_unfold)

lemma take_slot_full:
  assumes "bm_ok B bits" and "\<forall>b < NSLOTS. bits m b"
  shows "take_slot B m = Some (Inl ENOSPC, m)"
  using bm_ok_first_zero(1) [OF assms(1), of NSLOTS m] assms(2) by (subst take_slot.simps) simp

definition slot_inv :: "('m \<Rightarrow> nat \<Rightarrow> bool) \<Rightarrow> 'm slot_sys \<Rightarrow> bool" where
  "slot_inv bits s \<longleftrightarrow>
     (\<forall>p b. bs_pc s p = SReturned (Inr b) \<longrightarrow> b < NSLOTS \<and> bits (bs_slots s) b) \<and> (\<forall>p b. bs_pc s p = SClaim b \<longrightarrow> b < NSLOTS) \<and>
     (\<forall>p q b. bs_pc s p = SReturned (Inr b) \<and> bs_pc s q = SReturned (Inr b) \<longrightarrow> p = q)"

lemma slot_inv_step: "slot_step B s t \<Longrightarrow> bm_ok B bits \<Longrightarrow> slot_inv bits s \<Longrightarrow> slot_inv bits t"
proof (induction rule: slot_step.induct)
  case (slot_claim s p b old m)
  then have "old = bits (bs_slots s) b" "bits m = (bits (bs_slots s))(b := True)"
    using bm_okD(4,5) [OF slot_claim.prems(1), of b "bs_slots s"] by simp_all
  then show ?case using slot_claim.hyps(1) slot_claim.prems(2) by (auto simp: slot_inv_def slot_goto_def split: if_splits)
next
  case (slot_give s p b)
  then show ?case by (auto simp: slot_inv_def slot_goto_def bm_okD(3))
qed (auto simp: slot_inv_def slot_goto_def)

text \<open>
  In every run of any number of callers: a slot is held by at most one of them, its bit is set, and it
  is one of the \<open>NSLOTS\<close>; a caller is told that there is none only at a moment when all are taken.
\<close>

lemma slots_exclusive:
  assumes "bm_ok B bits" and "(slot_step B)\<^sup>*\<^sup>* (slot_start m) s" and "bs_pc s p = SReturned (Inr b)"
  shows "b < NSLOTS" and "bits (bs_slots s) b" and "bs_pc s q = SReturned (Inr b) \<Longrightarrow> q = p"
proof -
  have "slot_inv bits s" using assms(2)
  proof (induction rule: rtranclp_induct)
    case base
    show ?case by (simp add: slot_start_def slot_inv_def)
  qed (rule slot_inv_step [OF _ assms(1)])
  then show "b < NSLOTS" "bits (bs_slots s) b" "bs_pc s q = SReturned (Inr b) \<Longrightarrow> q = p"
    using assms(3) unfolding slot_inv_def by blast+
qed

lemma slot_refused:
  assumes "bm_ok B bits" and "slot_step B s t" and "bs_pc t p = SReturned (Inl ENOSPC)" and "bs_pc s p \<noteq> SReturned (Inl ENOSPC)"
  shows "\<forall>b < NSLOTS. bits (bs_slots s) b"
  using assms(2-4) bm_ok_first_zero(1) [OF assms(1)] by cases (auto simp: slot_goto_def split: if_splits)

text \<open>The checks of the demonstration hold; all it can fail with is a lack of memory, and the memory it gets it releases.\<close>

lemma take_next:
  assumes "bm_ok B bits" and "bits m = (\<lambda>b. b < k \<or> b = 5)" and "k < 5"
  shows "\<exists>m'. take_slot B m = Some (Inr k, m') \<and> bits m' = (\<lambda>b. b < Suc k \<or> b = 5)"
proof -
  obtain m' where "take_slot B m = Some (Inr k, m')" "bits m' = (bits m)(k := True)"
    using take_slot_free [OF assms(1), of k m] assms(2,3) by (auto simp: NSLOTS_def)
  then show ?thesis using assms(2) by (auto simp: fun_eq_iff)
qed

lemma take_some: "bm_ok B bits \<Longrightarrow> bits m = (\<lambda>b. b < k \<or> b = 5) \<Longrightarrow> k + n \<le> 5 \<Longrightarrow>
    \<exists>m'. take_slots B n m = Some m' \<and> bits m' = (\<lambda>b. b < k + n \<or> b = 5)"
proof (induction n arbitrary: k m)
  case (Suc n)
  have "k < 5" using Suc.prems(3) by simp
  then obtain m1 where 1: "take_slot B m = Some (Inr k, m1)" "bits m1 = (\<lambda>b. b < Suc k \<or> b = 5)" using take_next [OF Suc.prems(1,2)] by blast
  show ?case using Suc.IH [OF Suc.prems(1) 1(2)] Suc.prems(3) 1(1) by simp
qed simp

lemma bitmap_demo_passes:
  assumes B: "bm_ok B bits"
  shows "bitmap_demo B nomem = Some (if nomem then (Some ENOMEM, []) else (None, [Acq (), Rel ()]))"
proof -
  obtain s2 where 2: "take_slots B 4 (bm_set_bit B 5 (bm_set_bit B 0 (bm_none B))) = Some s2" "bits s2 = (\<lambda>b. b < 6)"
  proof -
    have "bits (bm_set_bit B 5 (bm_set_bit B 0 (bm_none B))) = (\<lambda>b. b < 1 \<or> b = 5)" by (auto simp: bm_okD(1,2) [OF B] fun_eq_iff)
    moreover have "(\<lambda>b. b < 1 + 4 \<or> b = 5) = (\<lambda>b :: nat. b < 6)" by (auto simp: fun_eq_iff)
    ultimately show thesis using take_some [OF B, of _ 1 4] that by auto
  qed
  have w: "bitmap_weight B s2 NSLOTS = 6"
  proof -
    have "{b. b < NSLOTS \<and> b < 6} = {..<6 :: nat}" by (auto simp: NSLOTS_def)
    then show ?thesis by (simp add: bm_okD(6) [OF B] 2)
  qed
  obtain s3 where 3: "take_slot B (bm_clear_bit B 2 s2) = Some (Inr 2, s3)" "bits s3 = (\<lambda>b. b < 6)"
    using take_slot_free [OF B, of 2 "bm_clear_bit B 2 s2"] by (auto simp: bm_okD(3) [OF B] 2 NSLOTS_def fun_eq_iff)
  have area: "bitmap_find_next_zero_area B s3 NSLOTS 0 8 = 6"
    by (rule bm_ok_zero_area [OF B]) (auto simp: 3 NSLOTS_def)
  let ?full = "bitmap_fill B (bitmap_set B s3 6 8) NSLOTS"
  have full: "\<forall>b < NSLOTS. bits ?full b" using bm_okD(8) [OF B] by blast
  have big: "bitmap_weight B (bitmap_set B (bm_none B) 100 50) 1000 = 50"
  proof -
    have "{b. b < 1000 \<and> 100 \<le> b \<and> b < 100 + 50} = {100..<150 :: nat}" by auto
    then show ?thesis by (simp add: bm_okD(1,6,7) [OF B])
  qed
  show ?thesis
    using take_slot_full [OF B full] bm_okD(9) [OF B, of ?full NSLOTS] full big
    by (simp add: bitmap_demo_def big_demo_def 2 3 w area NSLOTS_def [symmetric]) (simp add: NSLOTS_def)
qed

text \<open>The contract can be kept: by a function from numbers to bits.\<close>

definition fun_bits :: "(nat \<Rightarrow> bool) bm_ops" where
  "fun_bits = \<lparr>bm_none = (\<lambda>b. False), bm_set_bit = (\<lambda>b m. m(b := True)), bm_clear_bit = (\<lambda>b m. m(b := False)),
     find_first_zero_bit = (\<lambda>m n. case find (\<lambda>b. \<not> m b) [0..<n] of Some b \<Rightarrow> b | None \<Rightarrow> n),
     test_and_set_bit = (\<lambda>b m. (m b, m(b := True))),
     bitmap_weight = (\<lambda>m n. length (filter m [0..<n])),
     bitmap_set = (\<lambda>m start len b. m b \<or> (start \<le> b \<and> b < start + len)),
     bitmap_fill = (\<lambda>m n b. m b \<or> b < n), bitmap_full = (\<lambda>m n. list_all m [0..<n]),
     bitmap_find_next_zero_area = (\<lambda>m sz start nr.
       case find (\<lambda>i. list_all (\<lambda>b. \<not> m b) [i..<i + nr]) [start..<sz + 1 - nr] of Some i \<Rightarrow> i | None \<Rightarrow> sz + 1)\<rparr>"

lemma find_least: "i < n \<Longrightarrow> a \<le> i \<Longrightarrow> P i \<Longrightarrow> \<forall>j \<in> {a..<i}. \<not> P j \<Longrightarrow> find P [a..<n] = Some i" for a i n :: nat
  by (auto simp: find_Some_iff intro!: exI [of _ "i - a"])

lemma fun_bits_ok: "bm_ok fun_bits (\<lambda>m. m)"
proof -
  have "bm_first_zero_ok fun_bits (\<lambda>m. m)"
    by (auto simp: bm_first_zero_ok_def fun_bits_def Let_def find_None_iff find_Some_iff split: option.split)
  moreover have "bm_zero_area_ok fun_bits (\<lambda>m. m)"
    unfolding bm_zero_area_ok_def
  proof (intro allI impI)
    fix m :: "nat \<Rightarrow> bool" and sz start nr i
    assume *: "start \<le> i" "i + nr \<le> sz" "\<forall>b \<in> {i..<i + nr}. \<not> m b" "\<forall>j \<in> {start..<i}. \<exists>b \<in> {j..<j + nr}. m b"
    have "find (\<lambda>i. list_all (\<lambda>b. \<not> m b) [i..<i + nr]) [start..<sz + 1 - nr] = Some i"
      by (rule find_least) (use * in \<open>auto simp: list_all_iff\<close>)
    then show "bitmap_find_next_zero_area fun_bits m sz start nr = i" by (simp add: fun_bits_def)
  qed
  moreover have "length (filter m [0..<n]) = card {b. b < n \<and> m b}" for m n
  proof -
    have "set (filter m [0..<n]) = {b. b < n \<and> m b}" by auto
    then show ?thesis by (metis distinct_card distinct_filter distinct_upt)
  qed
  ultimately show ?thesis
    by (simp add: bm_ok_def) (auto simp: bm_bits_ok_def fun_bits_def list_all_iff)
qed

subsection \<open>The IDA\<close>

definition IDA_MAX :: nat where "IDA_MAX = 0x7FFFFFFF"

text \<open>The first argument of an allocation says whether it lacks memory.\<close>

record 'i ida_ops =
  ida_new :: 'i
  ida_alloc_range :: "bool \<Rightarrow> nat \<Rightarrow> nat \<Rightarrow> 'i \<Rightarrow> nat result \<times> 'i"
  ida_free :: "nat \<Rightarrow> 'i \<Rightarrow> 'i"
  ida_exists :: "'i \<Rightarrow> nat \<Rightarrow> bool"
  ida_destroy :: "'i \<Rightarrow> 'i"

abbreviation ida_alloc :: "'i ida_ops \<Rightarrow> bool \<Rightarrow> 'i \<Rightarrow> nat result \<times> 'i" where
  "ida_alloc A nomem x \<equiv> ida_alloc_range A nomem 0 IDA_MAX x"

fun ida_take :: "'i ida_ops \<Rightarrow> (nat \<Rightarrow> bool) \<Rightarrow> nat \<Rightarrow> nat \<Rightarrow> 'i \<Rightarrow> nat list result \<times> 'i" where
  "ida_take A F i 0 x = (Inr [], x)"
| "ida_take A F i (Suc k) x =
     (case ida_alloc A (F i) x of
        (Inl e, x1) \<Rightarrow> (Inl e, x1)
      | (Inr n, x1) \<Rightarrow> (case ida_take A F (i + 1) k x1 of (r, x2) \<Rightarrow> (map_sum id (\<lambda>ns. n # ns) r, x2)))"

fun ida_take_range :: "'i ida_ops \<Rightarrow> (nat \<Rightarrow> bool) \<Rightarrow> nat \<Rightarrow> nat \<Rightarrow> nat result \<Rightarrow> 'i \<Rightarrow> nat result \<times> 'i" where
  "ida_take_range A F i 0 last_id x = (last_id, x)"
| "ida_take_range A F i (Suc k) last_id x =
     (case ida_alloc_range A (F i) 10 11 x of (r, x1) \<Rightarrow> ida_take_range A F (i + 1) k r x1)"

text \<open>\<open>F i\<close> says whether the \<open>i\<close>th call lacks memory. At the end all numbers are given back.\<close>

definition ida_run :: "'i ida_ops \<Rightarrow> (nat \<Rightarrow> bool) \<Rightarrow> errno option \<times> 'i" where
  "ida_run A F =
     (case ida_take A F 0 4 (ida_new A) of
        (Inl e, x) \<Rightarrow> (Some e, x)
      | (Inr ids, x) \<Rightarrow>
          (case ida_alloc A (F 4) (ida_free A (ids ! 1) x) of
             (Inl e, x2) \<Rightarrow> (Some e, x2)
           | (Inr n, x2) \<Rightarrow>
               if n \<noteq> 1 then (Some EINVAL, x2)
               else case ida_take_range A F 5 3 (Inr n) x2 of
                 (r, x3) \<Rightarrow> (if r \<noteq> Inl ENOSPC \<or> \<not> ida_exists A x3 11 then Some EINVAL else None, x3)))"

definition ida_demo :: "'i ida_ops \<Rightarrow> (nat \<Rightarrow> bool) \<Rightarrow> errno option \<times> 'i" where
  "ida_demo A F = (case ida_run A F of (err, x) \<Rightarrow> (err, ida_destroy A x))"

text \<open>
  What is documented, in terms of the numbers in use: an allocation gives the smallest number of the
  range that is free; it fails without one, or for lack of memory, and then changes nothing.
\<close>

definition ida_alloc_ok :: "'i ida_ops \<Rightarrow> ('i \<Rightarrow> nat set) \<Rightarrow> bool \<Rightarrow> nat \<Rightarrow> nat \<Rightarrow> 'i \<Rightarrow> bool" where
  "ida_alloc_ok A used nomem lo hi x \<longleftrightarrow> (case ida_alloc_range A nomem lo hi x of
      (Inr n, x') \<Rightarrow> \<not> nomem \<and> lo \<le> n \<and> n \<le> hi \<and> n \<notin> used x \<and> {lo..<n} \<subseteq> used x \<and> used x' = insert n (used x)
    | (Inl e, x') \<Rightarrow> used x' = used x \<and> (nomem \<and> e = ENOMEM \<or> {lo..hi} \<subseteq> used x \<and> e = ENOSPC))"

definition ida_ok :: "'i ida_ops \<Rightarrow> ('i \<Rightarrow> nat set) \<Rightarrow> bool" where
  "ida_ok A used \<longleftrightarrow>
     used (ida_new A) = {} \<and> (\<forall>n x. used (ida_free A n x) = used x - {n}) \<and>
     (\<forall>x n. ida_exists A x n \<longleftrightarrow> n \<in> used x) \<and> (\<forall>x. used (ida_destroy A x) = {}) \<and>
     (\<forall>nomem lo hi x. ida_alloc_ok A used nomem lo hi x)"

lemma ida_ok_gives:
  assumes "ida_ok A used" and "lo \<le> n" and "n \<le> hi" and "n \<notin> used x" and "{lo..<n} \<subseteq> used x"
  shows "\<exists>x'. ida_alloc_range A nomem lo hi x = (if nomem then Inl ENOMEM else Inr n, x') \<and>
    used x' = (if nomem then used x else insert n (used x))"
proof -
  obtain r x' where r: "ida_alloc_range A nomem lo hi x = (r, x')" by fastforce
  have law: "case r of Inr n \<Rightarrow> \<not> nomem \<and> lo \<le> n \<and> n \<le> hi \<and> n \<notin> used x \<and> {lo..<n} \<subseteq> used x \<and> used x' = insert n (used x)
      | Inl e \<Rightarrow> used x' = used x \<and> (nomem \<and> e = ENOMEM \<or> {lo..hi} \<subseteq> used x \<and> e = ENOSPC)"
  proof -
    have "ida_alloc_ok A used nomem lo hi x" using assms(1) by (simp add: ida_ok_def)
    then show ?thesis by (simp add: ida_alloc_ok_def r split: sum.splits)
  qed
  show ?thesis
  proof (cases r)
    case (Inl e)
    then show ?thesis using law assms(2-4) r by (auto split: if_splits)
  next
    case (Inr k)
    then have k: "\<not> nomem" "lo \<le> k" "k \<notin> used x" "{lo..<k} \<subseteq> used x" "used x' = insert k (used x)" using law by auto
    have "k = n" using k assms by (metis atLeastLessThan_iff linorder_neqE_nat subsetD)
    then show ?thesis using r k Inr by simp
  qed
qed

lemma ida_ok_full:
  assumes "ida_ok A used" and "{lo..hi} \<subseteq> used x" and "\<not> nomem"
  shows "\<exists>x'. ida_alloc_range A nomem lo hi x = (Inl ENOSPC, x') \<and> used x' = used x"
proof -
  have "ida_alloc_ok A used nomem lo hi x" using assms(1) by (simp add: ida_ok_def)
  then show ?thesis using assms(2,3) by (auto simp: ida_alloc_ok_def split: prod.splits sum.splits)
qed

text \<open>
  The demonstration passes when no call lacks memory. A call of the last loop that does is not told apart
  from a wrong answer: the demonstration then fails with -EINVAL, not -ENOMEM.
\<close>

lemma ida_take_some:
  assumes "ida_ok A used"
  shows "used x = {..<n} \<Longrightarrow> n + k \<le> IDA_MAX \<Longrightarrow> \<forall>j < k. \<not> F (i + j) \<Longrightarrow>
    \<exists>x'. ida_take A F i k x = (Inr [n..<n + k], x') \<and> used x' = {..<n + k}"
proof (induction k arbitrary: i n x)
  case (Suc k)
  have f: "\<not> F i" "\<forall>j < k. \<not> F (i + 1 + j)" using Suc.prems(3) by (auto dest: spec [of _ 0] spec [of _ "Suc _"])
  have "n \<le> IDA_MAX" using Suc.prems(2) by simp
  then obtain x1 where 1: "ida_alloc A (F i) x = (Inr n, x1)" "used x1 = insert n (used x)"
    using ida_ok_gives [OF assms, of 0 n IDA_MAX x "F i"] Suc.prems(1) f(1) by (auto simp: lessThan_atLeast0)
  then have "used x1 = {..<Suc n}" using Suc.prems(1) by auto
  then obtain x2 where "ida_take A F (i + 1) k x1 = (Inr [Suc n..<Suc n + k], x2)" "used x2 = {..<Suc n + k}"
    using Suc.IH [of x1 "Suc n" "i + 1"] Suc.prems(2) f(2) by auto
  then show ?case using 1(1) by (simp add: upt_conv_Cons)
qed simp

lemma ida_demo_after_five:
  assumes A: "ida_ok A used" and F: "\<forall>i < 5. \<not> F i"
  shows "\<exists>x. used x = {0, 1, 2, 3} \<and> ida_run A F = (case ida_take_range A F 5 3 (Inr 1) x of
    (r, x3) \<Rightarrow> (if r \<noteq> Inl ENOSPC \<or> \<not> ida_exists A x3 11 then Some EINVAL else None, x3))"
proof -
  have new: "used (ida_new A) = {..<0}" and free: "used (ida_free A n x) = used x - {n}" for n x using A by (simp_all add: ida_ok_def)
  have "0 + 4 \<le> IDA_MAX" by (simp add: IDA_MAX_def)
  then obtain x1 where 1: "ida_take A F 0 4 (ida_new A) = (Inr [0..<4], x1)" "used x1 = {..<4}"
    using ida_take_some [OF A new, of 4 F 0] F by auto
  have u: "used (ida_free A 1 x1) = {0, 2, 3}" using 1(2) free by auto
  obtain x2 where 2: "ida_alloc A (F 4) (ida_free A 1 x1) = (Inr 1, x2)" "used x2 = insert 1 {0, 2, 3}"
    using ida_ok_gives [OF A, of 0 1 IDA_MAX "ida_free A 1 x1" "F 4"] F u by (auto simp: IDA_MAX_def)
  have nth: "[0..<4] ! 1 = (1 :: nat)" by simp
  show ?thesis using 2(2) unfolding ida_run_def 1(1) prod.case sum.case nth 2(1) by (intro exI [of _ x2]) auto
qed

lemma ida_range_some:
  assumes A: "ida_ok A used" and x: "used x = {0, 1, 2, 3}"
  shows "\<not> F 5 \<Longrightarrow> \<not> F 6 \<Longrightarrow> \<not> F 7 \<Longrightarrow> \<exists>x3. ida_take_range A F 5 3 r x = (Inl ENOSPC, x3) \<and> 11 \<in> used x3"
    and "F 5 \<noteq> F 6 \<Longrightarrow> \<not> F 7 \<Longrightarrow> \<exists>x3. ida_take_range A F 5 3 r x = (Inr 11, x3)"
proof -
  have three: "(3 :: nat) = Suc (Suc (Suc 0))" by simp
  obtain x1 where 1: "ida_alloc_range A (F 5) 10 11 x = (if F 5 then Inl ENOMEM else Inr 10, x1)" "used x1 = (if F 5 then used x else insert 10 (used x))"
    using ida_ok_gives [OF A, of 10 10 11 x "F 5"] x by auto
  show "\<exists>x3. ida_take_range A F 5 3 r x = (Inl ENOSPC, x3) \<and> 11 \<in> used x3" if f: "\<not> F 5" "\<not> F 6" "\<not> F 7"
  proof -
    have u1: "used x1 = {10, 0, 1, 2, 3}" using 1(2) f x by simp
    have "11 \<notin> used x1" "{10..<11} \<subseteq> used x1" unfolding u1 by auto
    then obtain x2 where 2: "ida_alloc_range A (F 6) 10 11 x1 = (Inr 11, x2)" "used x2 = insert 11 (used x1)"
      using ida_ok_gives [OF A, of 10 11 11 x1 "F 6"] f by auto
    have "{10..11} \<subseteq> used x2" unfolding 2(2) u1 by auto
    then obtain x3 where "ida_alloc_range A (F 7) 10 11 x2 = (Inl ENOSPC, x3)" "used x3 = used x2"
      using ida_ok_full [OF A, of 10 11 x2 "F 7"] f by auto
    then show ?thesis using 1(1) 2 f by (simp add: three)
  qed
  show "\<exists>x3. ida_take_range A F 5 3 r x = (Inr 11, x3)" if f: "F 5 \<noteq> F 6" "\<not> F 7"
  proof -
    obtain x2 where 2: "ida_alloc_range A (F 6) 10 11 x1 = (if F 6 then Inl ENOMEM else Inr 10, x2)" "used x2 = insert 10 (used x)"
    proof (cases "F 5")
      case True
      then have "used x1 = {0, 1, 2, 3}" "\<not> F 6" using 1(2) f x by simp_all
      then show thesis using ida_ok_gives [OF A, of 10 10 11 x1 "F 6"] that x by auto
    next
      case False
      then have u: "used x1 = insert 10 (used x)" "F 6" using 1(2) f by simp_all
      have "11 \<notin> used x1" "{10..<11} \<subseteq> used x1" unfolding u(1) x by auto
      then show thesis using ida_ok_gives [OF A, of 10 11 11 x1 "F 6"] that u by auto
    qed
    have "11 \<notin> used x2" "{10..<11} \<subseteq> used x2" unfolding 2(2) x by auto
    then obtain x3 where "ida_alloc_range A (F 7) 10 11 x2 = (Inr 11, x3)"
      using ida_ok_gives [OF A, of 10 11 11 x2 "F 7"] f by auto
    then show ?thesis using 1(1) 2(1) by (simp add: three)
  qed
qed

lemma ida_demo_result:
  assumes A: "ida_ok A used" and F: "\<forall>i < 5. \<not> F i" and "\<not> F 7"
  shows "\<not> F 5 \<Longrightarrow> \<not> F 6 \<Longrightarrow> fst (ida_demo A F) = None" and "F 5 \<noteq> F 6 \<Longrightarrow> fst (ida_demo A F) = Some EINVAL"
    and "used (snd (ida_demo A F)) = {}"
proof -
  obtain x where x: "used x = {0, 1, 2, 3}" "ida_run A F = (case ida_take_range A F 5 3 (Inr 1) x of
    (r, x3) \<Rightarrow> (if r \<noteq> Inl ENOSPC \<or> \<not> ida_exists A x3 11 then Some EINVAL else None, x3))"
    using ida_demo_after_five [OF A F] by blast
  have ex: "ida_exists A x n \<longleftrightarrow> n \<in> used x" for x n using A by (simp add: ida_ok_def)
  show "fst (ida_demo A F) = None" if "\<not> F 5" "\<not> F 6"
    using ida_range_some(1) [OF A x(1) that assms(3), of "Inr 1"] x(2) ex by (auto simp: ida_demo_def)
  show "fst (ida_demo A F) = Some EINVAL" if "F 5 \<noteq> F 6"
    using ida_range_some(2) [OF A x(1) that assms(3), of "Inr 1"] x(2) by (auto simp: ida_demo_def)
  have "used (ida_destroy A x) = {}" for x using A by (simp add: ida_ok_def)
  then show "used (snd (ida_demo A F)) = {}" by (simp add: ida_demo_def case_prod_unfold)
qed

text \<open>The contract can be kept: by the set of the numbers in use.\<close>

definition set_ida :: "nat set ida_ops" where
  "set_ida = \<lparr>ida_new = {},
     ida_alloc_range = (\<lambda>nomem lo hi x.
       if nomem then (Inl ENOMEM, x) else if {lo..hi} \<subseteq> x then (Inl ENOSPC, x)
       else let n = (LEAST n. lo \<le> n \<and> n \<notin> x) in (Inr n, insert n x)),
     ida_free = (\<lambda>n x. x - {n}), ida_exists = (\<lambda>x n. n \<in> x), ida_destroy = (\<lambda>x. {})\<rparr>"

lemma set_ida_ok: "ida_ok set_ida (\<lambda>x. x)"
proof -
  have "ida_alloc_ok set_ida (\<lambda>x. x) nomem lo hi x" for nomem lo hi x
  proof (cases "nomem \<or> {lo..hi} \<subseteq> x")
    case False
    then obtain k where k: "lo \<le> k" "k \<le> hi" "k \<notin> x" by (meson atLeastAtMost_iff subsetI)
    let ?n = "LEAST n. lo \<le> n \<and> n \<notin> x"
    have "lo \<le> ?n \<and> ?n \<notin> x" by (rule LeastI [of _ k]) (use k in simp)
    moreover have "?n \<le> k" by (rule Least_le) (use k in simp)
    moreover have "{lo..<?n} \<subseteq> x" using not_less_Least by force
    ultimately show ?thesis using False k(2) by (simp add: ida_alloc_ok_def set_ida_def Let_def)
  qed (auto simp: ida_alloc_ok_def set_ida_def)
  then show ?thesis by (simp add: ida_ok_def) (auto simp: set_ida_def)
qed

end
