(* ===== verification/Spec2Isabelle.thy ===== *)
theory Spec2Isabelle
  imports LDD_IO LDD_PCIE_Config Dma_Sg Msi Scull Pipe Memdisk Netdev Usb_Skel Tty Short_Irq
    Async_Io Ioctl Seeking Poll Notify Jiq User_Pages Lddbus Pci_Skel
    Short_Port Headers Short_Irq_Port Jiq_Read Printing Jit Proc_Fs Ds_Concurrent Ds_Bits Ds_Hash Ds_Rbtree Ds_List
begin

text \<open>
  \<^bold>\<open>The program.\<close> The repository has Linux drivers written as examples (\<open>src/examples\<close>), and three
  devices for QEMU that some of them drive (\<open>src/tools/qemu/hw/ldd\<close>): ldd-io, an ISA device with a
  one-byte receive path, an 8x8 LED matrix and a text panel; ldd-pcie, a PCIe device with a
  scatter-gather DMA engine and MSI-X, MSI and INTx interrupts; ldd-usb, which reports a tick.
  Devices and drivers meet at the register accesses, the DMA memory and the interrupts, drivers
  and programs at the file operations, drivers and kernel at the calls that acquire and release
  resources. The development models the devices and the drivers, and puts them together at those
  three places. Eight more modules (\<open>src/examples/ds\<close>) each demonstrate a data structure of the kernel.

  \<^bold>\<open>How the code is translated.\<close> A struct is a record, with the fields the code reads or writes; a
  C function is a HOL function from its arguments and the state to its result and the new state. A
  negative return value is \<open>Inl\<close> of an \<open>errno\<close>, or \<open>Some\<close> of one where success carries nothing.
  Registers, user-controlled lengths and everything whose overflow matters are words of their width;
  sizes bounded by a buffer are \<open>nat\<close>. A buffer is a byte list; a store beyond its end makes the list
  longer, so that the invariants, which fix the length, contain memory safety. Where a function
  sleeps, waits for an interrupt or drops a lock in between, it is cut into the steps between which
  something else may run, and the component is an inductive step relation, over any number of
  processes. Functions under a lock that is never dropped are one step. An exception is theory
  \<open>Netdev\<close>: a transmission is one step although it takes and drops two locks more than once.
  What the kernel, QEMU, the C library or the user's memory answer are arguments: \<open>to_user\<close> and
  \<open>from_user\<close> (how much of a copy fails), the success of an allocation, \<open>answers\<close> (one error or none
  per call of an init function), the bus behind the DMA engine, the character device behind the
  panel. What a proof needs to know of them is a named hypothesis: \<open>platform_ok\<close>, \<open>sg_map_ok\<close>,
  \<open>read_arg_ok\<close>, \<open>write_arg_ok\<close>, \<open>line_fits\<close>, \<open>rb_ok\<close>, \<open>ht_ok\<close> and similar.

  \<^bold>\<open>Shared theories.\<close>
  \<^item> \<open>LDD_Prelude\<close>: error numbers, byte buffers (\<open>mem_get\<close>, \<open>mem_put\<close>), little-endian numbers, flag
    tests, number formatting, user memory.
  \<^item> \<open>Lifecycle\<close>: a function that acquires resources is its outcome and the list of its calls;
    \<open>held\<close> replays them as a stack, \<open>held_any\<close> as a set; \<open>clean\<close> and \<open>clean_any\<close> say that the init
    function is all or nothing and that the exit function gives back exactly what it acquired. The
    locale \<open>device_array\<close> proves it for the drivers that add a row of devices in a loop.
  \<^item> \<open>Byte_Store\<close>: the locales \<open>byte_source\<close> and \<open>byte_store\<close>, files that are read and written in
    pieces, with the loops of a program on them; \<open>Byte_Queue\<close>: the locale \<open>byte_queue\<close>, devices that
    give back once and in order what was put in.
  \<^item> \<open>Dma_Device\<close>: the locale \<open>dma_device\<close>, what a DMA driver expects of the device, and its
    interpretation on ldd-pcie.

  \<^bold>\<open>Devices.\<close>
  \<^item> \<open>LDD_IO\<close> (\<open>io.c\<close>): register reads and writes, keyboard, panel output, reset, creation and
    migration. The interrupt pulses once per rising edge. The panel's output is made of frames, of which
    only one whose write failed is cut short (\<open>io_frame_cut\<close> has such a run), and while the viewer stays the last frame is that of the
    current state once it can be sent.
  \<^item> \<open>LDD_PCIE\<close> (\<open>pcie.c\<close>): registers, descriptor table, DMA engine, delayed completion, interrupts,
    reset and creation. Invariant of the reachable states, both directions of a transfer, refused
    transfers, interrupts announced; the 32-bit check that wraps. \<open>LDD_PCIE_Config\<close>: dispatch,
    configuration writes and function level reset, migration of a transfer in flight, removal.
  \<^item> \<open>LDD_USB\<close> (\<open>usb.c\<close>): endpoints, tick timer, reset. Time passes freely and the timer fires at or
    after its time; at most one report per tick.

  \<^bold>\<open>Drivers.\<close>
  \<^item> \<open>Dma\<close> (\<open>27_dma\<close>) and \<open>Dma_Sg\<close> (\<open>28_dma_sg\<close>): transfers with timeout and interrupt handler, file
    operations, pinned pages and scatterlists, probe, removal, references. The buffer is never
    unmapped during a transfer, the device is ready again after every outcome, data gets to the
    device and back. \<open>Msi\<close> (\<open>26_msi_interrupt\<close>): every event is counted once. \<open>Pci_Skel\<close>
    (\<open>20_pci_skel\<close>): probing, together with the device.
  \<^item> \<open>Short\<close> (\<open>15_short_ioport\<close>, \<open>16_short_port_remap\<close>, \<open>17_short_mmio\<close>) and \<open>Short_Irq\<close>
    (\<open>18_short_irq\<close>, \<open>19_short_irq_probe\<close>): the drivers of ldd-io. The locales \<open>led_matrix\<close>,
    \<open>rx_stream\<close> and \<open>rx_prompt\<close> state what they expect of the device; they are interpreted on it. \<open>Short_Port\<close>
    has the drivers on ports and on a port cookie, and that they do to the device what the mapped driver
    does, which reads and writes a picture with wider accesses; that the ports are the registers is the
    hypothesis \<open>ports_at\<close>. \<open>Short_Irq_Port\<close> has \<open>18_short_irq\<close> over
    ports, refining the handler, read and write of \<open>Short_Irq\<close>.
  \<^item> \<open>Headers\<close>: the registers, bits and identifiers that each driver of an ldd device writes down in its
    own header, and that they are those of the device.
  \<^item> \<open>Usb_Skel\<close> (\<open>21_usb_skel\<close>): references, disconnection, reading and writing, together with
    ldd-usb.
  \<^item> \<open>Scull\<close> (\<open>03_scull_basic\<close>), \<open>Ioctl\<close> (\<open>07_ioctl\<close>), \<open>Seeking\<close> (\<open>12_seeking\<close>): files, as
    interpretations of \<open>byte_store\<close> and \<open>byte_source\<close>. The block counter of \<open>Scull\<close> is a 32-bit word; its
    properties hold below \<open>SCULL_LIMIT\<close>, where it would become negative, and \<open>scull_counter_wraps\<close> shows
    what happens beyond.
  \<^item> \<open>Pipe\<close> (\<open>08_pipe_simple_sleep\<close>, \<open>09_pipe_advanced_sleep\<close>), \<open>Poll\<close> (\<open>10_poll\<close>), \<open>Notify\<close>
    (\<open>06_completion\<close>, \<open>11_asynchronous_notification\<close>): sleeping and waking in every interleaving.
  \<^item> \<open>Async_Io\<close> (\<open>25_async_io\<close>): a ring buffer, as an interpretation of \<open>byte_queue\<close>, with deferred
    completions. \<open>Jiq\<close> (\<open>14_jiq\<close>): deferred work, with a read and a run of the work as single steps;
    \<open>Jiq_Read\<close>: the same with mutex, wait queue, cancelling and waking as steps of their own, a
    refinement of the first (\<open>jr_rel\<close>), in which no wakeup is lost.
  \<^item> \<open>User_Pages\<close> (\<open>24_zero_copy\<close>, \<open>23_simple\<close>): pinned and mapped pages. \<open>Memdisk\<close>
    (\<open>29_block_device\<close>): requests and bios on a RAM disk. \<open>Netdev\<close> (\<open>30_netdev\<close>): buffers, receive
    queue, NAPI. \<open>Tty\<close> (\<open>31_tty\<close>): lines, modem lines, termios. \<open>Lddbus\<close> (\<open>22_lddbus\<close>): a bus and
    its devices.
  \<^item> \<open>Jit\<close> (\<open>13_jit\<close>): the time, the four delays, lines appended by a timer and a work item. \<open>Proc_Fs\<close>
    (\<open>04_proc_fs_basic\<close>, \<open>05_proc_fs_iterator\<close>): a text and an iterator under /proc.

  \<^bold>\<open>Data structures of the kernel\<close> (\<open>src/examples/ds\<close>), each with its demonstration, which is shown to
  return 0 or the error of the allocation that failed, and to free what it allocated. The containers are
  the kernel's and parameters, records of their operations, with what is documented of them as a contract
  and an instance that shows that the contract can be kept. \<open>Alloc\<close> has the lemmas on allocated objects they share.
  \<^item> \<open>Ds_Concurrent\<close> (\<open>llist\<close>): producers and consumer of a lock-less list in every interleaving.
  \<^item> \<open>Ds_Bits\<close> (\<open>bitmap\<close>, \<open>ida\<close>): slots taken by many callers at once are exclusive; numbers. Contracts
    \<open>bm_ok\<close> and \<open>ida_ok\<close>.
  \<^item> \<open>Ds_Hash\<close> (\<open>hlist\<close>): contract \<open>ht_ok\<close>. \<open>Ds_Rbtree\<close> (\<open>rbtree\<close>): contract \<open>rb_ok\<close>, for any comparison
    that fits the order; that those of the source do is proved.
  \<^item> \<open>Ds_List\<close> (\<open>list\<close>): a ring is the list of its items; the sort is a parameter, contract \<open>sort_ok\<close>.
  \<^item> \<open>Printing\<close>: the lines of 128 bytes in which the demonstrations show their containers, never overrun,
    and whole while the container is small; the greetings of \<open>01_hello_world\<close> and \<open>02_module_parameters\<close>.
  This theory has the property that spans all of them: loading and probing is all or nothing.

  \<^bold>\<open>Bounds.\<close> Loops of the source that end by counting are recursion on what they count. Loops that
  wait are steps of a relation, or take as an argument what happens while they wait. Where fuel is
  used it is shown to be enough: \<open>read_all\<close> and \<open>write_all\<close> need no more rounds than there are bytes,
  \<open>ldd_stop\<close> one round more than there are buffers, the draining loop of \<open>short_probe_irq\<close> more
  rounds than bytes typed. \<open>take_slot\<close>, which need not end on an arbitrary bitmap, is a partial function,
  shown to end on one that does what is documented.

  \<^bold>\<open>Not modelled.\<close> Log messages. Tables of operations, and open functions that only
  store a pointer. Memory ordering: a step sees the effect of every earlier one. Registration of
  the QEMU classes, and what QEMU does on its own (configuration space, standard USB requests).
  The functions of the drivers that only print. The modules \<open>ds/kfifo\<close> and \<open>ds/xarray\<close>, which are
  calls of the kernel's containers one after the other. The test programs under \<open>src/examples/*/test\<close>, the shell scripts and
  \<open>src/tools/bin\<close>, which only start, call and print.
\<close>

section \<open>Properties that span the drivers\<close>

text \<open>
  C40: Loading a module, and probing a device, is all or nothing in every driver: whichever call
  fails, everything acquired before is released again, once and (where nothing is reference
  counted) in reverse order; after a success, unloading or removal releases exactly what was
  acquired. In the interrupt drivers the device is moreover allowed to interrupt only while the
  handler is installed.
\<close>

theorem modules_all_or_nothing:
  "clean scull_m_init scull_m_exit \<and> clean pipe_m_init pipe_m_exit \<and> clean simple_pipe_m_init simple_pipe_m_exit \<and>
   clean Dma.m_init Dma.m_exit \<and> clean sg_m_init sg_m_exit \<and>
   clean ioport_m_init ioport_m_exit \<and> clean remap_m_init remap_m_exit \<and> clean mmio_m_init mmio_m_exit \<and>
   irq_clean irq_m_init \<and> irq_clean (irq_probe_m_init probed) \<and>
   clean_any tty_m_init tty_m_exit \<and> clean_any (netdev_m_init pool_size) netdev_m_exit \<and>
   clean aio_m_init aio_m_exit \<and> clean ioctl_m_init ioctl_m_exit \<and>
   clean seeking_m_init seeking_m_exit \<and> clean completion_m_init completion_m_exit \<and>
   clean async_notify_m_init async_notify_m_exit \<and> clean jiq_m_init jiq_m_exit \<and>
   clean zc_m_init zc_m_exit \<and> clean simple_m_init simple_m_exit \<and>
   clean lddbus_m_init lddbus_m_exit \<and> clean_any sculld_m_init sculld_m_exit \<and>
   clean_any poll_m_init poll_m_exit \<and> clean jit_m_init jit_m_exit \<and>
   clean proc_m_init proc_m_exit \<and> clean pfi_m_init pfi_m_exit \<and>
   clean_any skel_probe (skel_disconnect_calls @ delete_calls True True True) \<and>
   (case dma_probe H K F devbus raw s of
      (Inl e, s', cs) \<Rightarrow> held cs [] = Some []
    | (Inr dma, s', cs) \<Rightarrow> held (cs @ snd (snd (dma_remove H K dma s'))) [] = Some []) \<and>
   (case dma_sg_probe H K2 F2 devbus s of
      (Inl e, s', cs) \<Rightarrow> held_any cs [] = Some []
    | (Inr dsg, s', cs) \<Rightarrow> held_any (cs @ snd (snd (dma_sg_remove H K2 dsg s'))) [] = Some []) \<and>
   (case msi_probe H K3 F3 alloc types s of
      (Inl e, s', cs) \<Rightarrow> held cs [] = Some []
    | (Inr m, s', cs) \<Rightarrow> held (cs @ snd (msi_remove H K3 (nat (mi_nvec m)) s')) [] = Some []) \<and>
   (case pci_skel_probe H M F5 s of
      (Inl e, s', cs) \<Rightarrow> held cs [] = Some []
    | (Inr r, s', cs) \<Rightarrow> held (cs @ pci_skel_remove) [] = Some []) \<and>
   (case memdisk_m_init nsectors hardsect_size mode F4 of
      (Inl e, cs) \<Rightarrow> held cs [] = Some []
    | (Inr dev, cs) \<Rightarrow> held (cs @ memdisk_m_exit mode) [] = Some [])"
proof (intro conjI)
  show "clean scull_m_init scull_m_exit" by (rule scull_module_all_or_nothing)
  show "clean pipe_m_init pipe_m_exit" by (rule pipe_module_clean)
  show "clean simple_pipe_m_init simple_pipe_m_exit" by (rule simple_pipe_module_clean)
  show "clean Dma.m_init Dma.m_exit" by (rule dma_module_clean)
  show "clean sg_m_init sg_m_exit" by (rule dma_sg_module_clean)
  show "clean ioport_m_init ioport_m_exit" "clean mmio_m_init mmio_m_exit" by (fact short_modules_clean)+
  show "clean remap_m_init remap_m_exit" by (rule remap_module_clean)
  show "irq_clean irq_m_init" "irq_clean (irq_probe_m_init probed)" by (fact irq_modules_clean)+
  show "clean aio_m_init aio_m_exit" by (rule aio_module_clean)
  show "clean ioctl_m_init ioctl_m_exit" by (rule ioctl_module_clean)
  show "clean seeking_m_init seeking_m_exit" by (rule seeking_module_clean)
  show "clean completion_m_init completion_m_exit" by (rule completion_module_clean)
  show "clean async_notify_m_init async_notify_m_exit" by (rule async_notify_module_clean)
  show "clean jiq_m_init jiq_m_exit" by (rule jiq_module_clean)
  show "clean zc_m_init zc_m_exit" by (rule zc_module_clean)
  show "clean simple_m_init simple_m_exit" by (rule simple_module_clean)
  show "clean lddbus_m_init lddbus_m_exit" by (rule lddbus_module_clean)
  show "clean_any sculld_m_init sculld_m_exit" by (rule sculld_module_clean)
  show "clean_any poll_m_init poll_m_exit" by (rule poll_module_clean)
  show "clean jit_m_init jit_m_exit" by (rule jit_module_clean)
  show "clean proc_m_init proc_m_exit" by (rule proc_module_clean)
  show "clean pfi_m_init pfi_m_exit" by (rule pfi_module_clean)
  show "clean_any tty_m_init tty_m_exit" using tty_module_all_or_nothing by (auto simp: clean_any_def)
  show "clean_any (netdev_m_init pool_size) netdev_m_exit" using netdev_module_all_or_nothing by (auto simp: clean_any_def)
  show "clean_any skel_probe (skel_disconnect_calls @ delete_calls True True True)"
    using skel_probe_all_or_nothing by (auto simp: clean_any_def)
  show "case memdisk_m_init nsectors hardsect_size mode F4 of
      (Inl e, cs) \<Rightarrow> held cs [] = Some []
    | (Inr dev, cs) \<Rightarrow> held (cs @ memdisk_m_exit mode) [] = Some []"
    using memdisk_module_all_or_nothing [where nsectors = nsectors and hardsect_size = hardsect_size and mode = mode and F = F4]
    by (simp split: prod.splits sum.splits)
qed (use dma_probe_all_or_nothing [where H = H and K = K and F = F and devbus = devbus and raw = raw and s = s]
    dma_sg_probe_all_or_nothing [where H = H and K = K2 and F = F2 and devbus = devbus and s = s]
    msi_probe_all_or_nothing [where H = H and K = K3 and F = F3 and alloc = alloc and types = types and s = s]
    pci_skel_probe_all_or_nothing [where H = H and M = M and F = F5 and s = s]
    in \<open>simp_all split: prod.splits sum.splits\<close>)

end
